(* ===== verification/Prelude.thy ===== *)
theory Prelude
  imports Main "HOL-Library.Word"
begin

text \<open>
  Shared vocabulary of the development: the machine-integer types of the C++ sources,
  little-endian byte views of words (the byte order of the platforms the server is built
  for), decimal output, the list operations behind \<open>std::find\<close> / \<open>erase\<close>, and the two
  interface locales that several components instantiate: a prefix codec and a guarded
  state machine.
\<close>

unbundle bit_operations_syntax

section \<open>Machine types\<close>

type_synonym u8 = "8 word"
type_synonym u16 = "16 word"
type_synonym u32 = "32 word"
type_synonym u64 = "64 word"
type_synonym bytes = "u8 list"

named_theorems codec_simps "equations of encoders and decoders"
named_theorems inv_simps "unfolding of component invariants"
named_theorems keeps_inv "one operation keeps the invariant of its component"

text \<open>\<open>hasBitSet(flag, flags)\<close> of \<^verbatim>\<open>tools.cpp\<close>, at any width.\<close>

definition hasBitSet :: "'a::len word \<Rightarrow> 'a word \<Rightarrow> bool" where
  "hasBitSet flag flags = ((flags AND flag) = flag)"

section \<open>Words and bytes\<close>

definition le_bytes16 :: "u16 \<Rightarrow> bytes" where
  "le_bytes16 w = [ucast w, ucast (drop_bit 8 w)]"

definition le_bytes32 :: "u32 \<Rightarrow> bytes" where
  "le_bytes32 w = [ucast w, ucast (drop_bit 8 w), ucast (drop_bit 16 w), ucast (drop_bit 24 w)]"

definition of_le16 :: "u8 \<Rightarrow> u8 \<Rightarrow> u16" where
  "of_le16 a b = ucast a OR push_bit 8 (ucast b)"

definition of_le32 :: "u8 \<Rightarrow> u8 \<Rightarrow> u8 \<Rightarrow> u8 \<Rightarrow> u32" where
  "of_le32 a b c d =
     ucast a OR push_bit 8 (ucast b) OR push_bit 16 (ucast c) OR push_bit 24 (ucast d)"

lemma length_le_bytes16 [simp]: "length (le_bytes16 w) = 2"
  by (simp add: le_bytes16_def)

lemma length_le_bytes32 [simp]: "length (le_bytes32 w) = 4"
  by (simp add: le_bytes32_def)

lemma bit_byte_high [simp]: "8 \<le> n \<Longrightarrow> \<not> bit (a :: u8) n"
  using bit_imp_le_length[of a n] by auto

lemma of_le16_bytes [simp]: "of_le16 (ucast w) (ucast (drop_bit 8 w)) = w"
  unfolding of_le16_def
  by (rule bit_word_eqI) (auto simp: bit_simps)

lemma of_le32_bytes [simp]:
  "of_le32 (ucast w) (ucast (drop_bit 8 w)) (ucast (drop_bit 16 w)) (ucast (drop_bit 24 w)) = w"
  unfolding of_le32_def
proof (rule bit_word_eqI)
  fix n
  assume "n < LENGTH(32)"
  then consider "n < 8" | "8 \<le> n" "n < 16" | "16 \<le> n" "n < 24" | "24 \<le> n" "n < 32"
    by fastforce
  then show "bit (ucast (ucast w :: u8) OR push_bit 8 (ucast (ucast (drop_bit 8 w) :: u8)) OR
      push_bit 16 (ucast (ucast (drop_bit 16 w) :: u8)) OR
      push_bit 24 (ucast (ucast (drop_bit 24 w) :: u8)) :: u32) n = bit w n"
    by cases (auto simp: bit_simps)
qed

lemma le_bytes32_of_le32 [simp]: "le_bytes32 (of_le32 a b c d) = [a, b, c, d]"
  unfolding le_bytes32_def of_le32_def
  by (auto intro!: bit_word_eqI simp: bit_simps )

lemma le_bytes16_of_le16 [simp]: "le_bytes16 (of_le16 a b) = [a, b]"
  unfolding le_bytes16_def of_le16_def
  by (auto intro!: bit_word_eqI simp: bit_simps )

lemma of_nat_unat_word: "(of_nat (unat w) :: 'a::len word) = w"
  by simp

lemma unat_add_small:
  "unat a + unat b < 2 ^ LENGTH('a) \<Longrightarrow> unat (a + b :: 'a::len word) = unat a + unat b"
  by (simp add: unat_word_ariths)

lemma uint_less_iff_unat: "uint w < int k \<longleftrightarrow> unat w < k"
  by (simp only: uint_nat of_nat_less_iff)

text \<open>A 32-bit value read as signed.\<close>

lemma sint_u32: "sint (n :: u32) = (if unat n < 2 ^ 31 then uint n else uint n - 2 ^ 32)"
proof -
  have b: "uint n < 2 ^ 32" "0 \<le> uint n" using unsigned_less[of n, where ?'a = int] by simp_all
  then have "sint n = uint n - 2 ^ 32 * of_bool (odd (uint n div 2 ^ 31))"
    by (simp add: sint_uint signed_take_bit_eq_take_bit_minus take_bit_eq_mod bit_iff_odd)
  moreover have "uint n div 2 ^ 31 = (if uint n < 2 ^ 31 then 0 else 1)"
    using b by (intro int_div_pos_eq[of _ _ _ "uint n - (if uint n < 2 ^ 31 then 0 else 2 ^ 31)"]) auto
  ultimately show ?thesis using uint_less_iff_unat[of n "2 ^ 31"] by simp
qed

lemma ex_not_bool [simp]: "Ex Not"
  by (rule exI[of _ False]) simp

section \<open>Characters and decimal output\<close>

text \<open>
  A \<open>char\<close> of the code is one byte, signed on the platforms it is built for; \<open>chr\<close> reads its
  value the way a comparison in the code does.
\<close>

definition chv :: "char \<Rightarrow> int" where
  "chv c = (let n = (of_char c :: int) in if n < 128 then n else n - 256)"

definition byte_char :: "u8 \<Rightarrow> char" where
  "byte_char b = char_of (unat b)"

definition char_byte :: "char \<Rightarrow> u8" where
  "char_byte c = of_nat (of_char c)"

lemma byte_char_char_byte [simp]: "byte_char (char_byte c) = c"
  by (simp add: byte_char_def char_byte_def unat_of_nat take_bit_eq_mod of_char_mod_256)

lemma char_byte_byte_char [simp]: "char_byte (byte_char b) = b"
proof -
  have "unat b < 256" using unsigned_less[of b, where ?'a = nat] by simp
  then show ?thesis by (simp add: byte_char_def char_byte_def)
qed

fun dec_digits :: "nat \<Rightarrow> string" where
  "dec_digits n =
     (if n < 10 then [char_of (48 + n)] else dec_digits (n div 10) @ [char_of (48 + n mod 10)])"

declare dec_digits.simps [simp del]

text \<open>\<open>std::setw(w)\<close> with \<open>std::setfill('0')\<close>: pad on the left, never cut.\<close>

definition pad0 :: "nat \<Rightarrow> string \<Rightarrow> string" where
  "pad0 w s = replicate (w - length s) (CHR ''0'') @ s"

lemma dec_digits_nonempty [simp]: "dec_digits n \<noteq> []"
  by (subst dec_digits.simps) simp

section \<open>Lists: std::find and erase\<close>

text \<open>
  \<open>it = std::find(v.begin(), v.end(), x); if(it != v.end()) v.erase(it);\<close> removes the first
  occurrence, which is the library's \<^const>\<open>remove1\<close>.
\<close>

lemma set_remove1_subset': "x \<in> set (remove1 y xs) \<Longrightarrow> x \<in> set xs"
  using set_remove1_subset by fastforce

lemma distinct_remove1_notin [simp]: "distinct xs \<Longrightarrow> x \<notin> set (remove1 x xs)"
  by simp

fun index_of :: "'a \<Rightarrow> 'a list \<Rightarrow> nat option" where
  "index_of x [] = None"
| "index_of x (y # ys) = (if x = y then Some 0 else map_option Suc (index_of x ys))"

lemma index_of_None [simp]: "index_of x xs = None \<longleftrightarrow> x \<notin> set xs"
  by (induction xs) auto

lemma index_of_Some: "index_of x xs = Some i \<Longrightarrow> i < length xs \<and> xs ! i = x"
  by (induction xs arbitrary: i) (auto split: if_splits)

lemma index_of_first: "index_of x xs = Some i \<Longrightarrow> j < i \<Longrightarrow> xs ! j \<noteq> x"
proof (induction xs arbitrary: i j)
  case Nil
  then show ?case by simp
next
  case (Cons y ys)
  then show ?case by (cases j) (auto split: if_splits)
qed

section \<open>Interface: a prefix codec\<close>

text \<open>
  An encoder appends the bytes of a value to a stream; the decoder reads one value from the
  front of a stream and returns the rest, or fails. The values an encoder can represent are
  those in \<open>ok\<close>, and a stream is shorter than \<open>limit\<close>. What a client of a stream relies on is
  the one law below; it lifts to sequences of values.
\<close>

locale prefix_codec =
  fixes enc :: "'a \<Rightarrow> bytes"
    and dec :: "bytes \<Rightarrow> ('a \<times> bytes) option"
    and ok :: "'a \<Rightarrow> bool"
    and limit :: nat
  assumes dec_enc: "ok a \<Longrightarrow> length (enc a) + length rest < limit \<Longrightarrow>
    dec (enc a @ rest) = Some (a, rest)"
begin

fun dec_many :: "nat \<Rightarrow> bytes \<Rightarrow> ('a list \<times> bytes) option" where
  "dec_many 0 bs = Some ([], bs)"
| "dec_many (Suc n) bs =
     (case dec bs of
        None \<Rightarrow> None
      | Some (a, bs') \<Rightarrow>
          (case dec_many n bs' of None \<Rightarrow> None | Some (as, r) \<Rightarrow> Some (a # as, r)))"

lemma dec_many_enc:
  "\<forall>a \<in> set as. ok a \<Longrightarrow> length (concat (map enc as)) + length rest < limit \<Longrightarrow>
    dec_many (length as) (concat (map enc as) @ rest) = Some (as, rest)"
  by (induction as) (auto simp: dec_enc)

lemma dec_enc_nil: "ok a \<Longrightarrow> length (enc a) < limit \<Longrightarrow> dec (enc a) = Some (a, [])"
  using dec_enc[of a "[]"] by simp

lemma enc_inj:
  "ok a \<Longrightarrow> ok b \<Longrightarrow> length (enc a) + length r < limit \<Longrightarrow> enc a @ r = enc b @ s \<Longrightarrow>
    a = b \<and> r = s"
  by (metis dec_enc length_append option.inject prod.inject)

end

section \<open>Interface: a guarded machine\<close>

text \<open>
  A component that is driven by a sequence of requests: a step function on its state, and an
  invariant every step keeps. The runs of the machine then keep it, from any state that has it.
\<close>

locale guarded_machine =
  fixes step :: "'req \<Rightarrow> 's \<Rightarrow> 's"
    and inv :: "'s \<Rightarrow> bool"
  assumes step_inv: "inv s \<Longrightarrow> inv (step r s)"
begin

lemma run_inv: "inv s \<Longrightarrow> inv (fold step rs s)"
  by (induction rs arbitrary: s) (auto intro: step_inv)

lemma run_prefix_inv: "inv s \<Longrightarrow> inv (fold step (take k rs) s)"
  by (rule run_inv)

end

section \<open>Interface: a keyed store\<close>

text \<open>
  What the code relies on of a \<open>std::map\<close>: a lookup sees exactly the last assignment to its key.
  \<open>abs\<close> reads a store as a finite map; any sequence of assignments and erasures is the same
  sequence on the map.
\<close>

datatype ('k, 'v) store_op = Assign 'k 'v | Erase 'k

fun map_op :: "('k, 'v) store_op \<Rightarrow> ('k \<Rightarrow> 'v option) \<Rightarrow> 'k \<Rightarrow> 'v option" where
  "map_op (Assign k v) m = m(k := Some v)"
| "map_op (Erase k) m = m(k := None)"

locale keyed_store =
  fixes lookup :: "'m \<Rightarrow> 'k \<Rightarrow> 'v option"
    and assign :: "'k \<Rightarrow> 'v \<Rightarrow> 'm \<Rightarrow> 'm"
    and erase :: "'k \<Rightarrow> 'm \<Rightarrow> 'm"
    and valid :: "'m \<Rightarrow> bool"
  assumes lookup_assign: "valid m \<Longrightarrow> lookup (assign k v m) = (lookup m)(k := Some v)"
    and lookup_erase: "valid m \<Longrightarrow> lookup (erase k m) = (lookup m)(k := None)"
    and valid_assign: "valid m \<Longrightarrow> valid (assign k v m)"
    and valid_erase: "valid m \<Longrightarrow> valid (erase k m)"
begin

fun store_op_step :: "('k, 'v) store_op \<Rightarrow> 'm \<Rightarrow> 'm" where
  "store_op_step (Assign k v) m = assign k v m"
| "store_op_step (Erase k) m = erase k m"

lemma store_step: "valid m \<Longrightarrow> valid (store_op_step e m) \<and> lookup (store_op_step e m) = map_op e (lookup m)"
  by (cases e) (simp_all add: lookup_assign lookup_erase valid_assign valid_erase)

lemma store_runs:
  "valid m \<Longrightarrow> valid (fold store_op_step es m) \<and> lookup (fold store_op_step es m) = fold map_op es (lookup m)"
  by (induction es arbitrary: m) (auto simp: store_step)

end

section \<open>Association lists in key order\<close>

text \<open>
  A \<open>std::map\<close> is its entries in ascending order of their keys: what an iteration over it visits.
  \<open>om_assign\<close> is \<open>m[k] = v\<close>, \<open>om_erase\<close> is \<open>m.erase(k)\<close>.
\<close>

type_synonym ('k, 'v) omap = "('k \<times> 'v) list"

fun om_lookup :: "('k, 'v) omap \<Rightarrow> 'k \<Rightarrow> 'v option" where
  "om_lookup [] k = None"
| "om_lookup ((k', v) # m) k = (if k = k' then Some v else om_lookup m k)"

fun om_assign :: "'k::linorder \<Rightarrow> 'v \<Rightarrow> ('k, 'v) omap \<Rightarrow> ('k, 'v) omap" where
  "om_assign k v [] = [(k, v)]"
| "om_assign k v ((k', v') # m) =
     (if k < k' then (k, v) # (k', v') # m
      else if k = k' then (k, v) # m
      else (k', v') # om_assign k v m)"

fun om_erase :: "'k \<Rightarrow> ('k, 'v) omap \<Rightarrow> ('k, 'v) omap" where
  "om_erase k [] = []"
| "om_erase k ((k', v) # m) = (if k = k' then m else (k', v) # om_erase k m)"

abbreviation om_valid :: "('k::linorder, 'v) omap \<Rightarrow> bool" where
  "om_valid m \<equiv> sorted_wrt (<) (List.map fst m)"

lemma om_lookup_None [simp]: "om_lookup m k = None \<longleftrightarrow> k \<notin> fst ` set m"
  by (induction m) (auto split: if_splits)

lemma om_lookup_SomeD: "om_lookup m k = Some v \<Longrightarrow> (k, v) \<in> set m"
  by (induction m) (auto split: if_splits)

lemma om_valid_distinct: "om_valid m \<Longrightarrow> distinct (List.map fst m)"
  by (simp add: strict_sorted_iff)

lemma om_lookup_iff: "om_valid m \<Longrightarrow> om_lookup m k = Some v \<longleftrightarrow> (k, v) \<in> set m"
  by (induction m) force+

lemma om_assign_keys [simp]: "fst ` set (om_assign k v m) = insert k (fst ` set m)"
proof (induction m)
  case (Cons e m)
  then show ?case by (cases e) (simp add: insert_commute)
qed simp

lemma om_assign_valid [simp]: "om_valid m \<Longrightarrow> om_valid (om_assign k v m)"
proof (induction m)
  case (Cons e m)
  obtain a b where e: "e = (a, b)" by fastforce
  have "\<forall>x\<in>set (om_assign k v m). a < fst x" if "\<not> k < a" "k \<noteq> a"
  proof -
    have "a < k" using that by simp
    then have "\<forall>x\<in>fst ` set (om_assign k v m). a < x" using Cons.prems e by auto
    then show ?thesis by blast
  qed
  then show ?case using Cons e by auto
qed simp

lemma om_lookup_assign [simp]: "om_valid m \<Longrightarrow> om_lookup (om_assign k v m) = (om_lookup m)(k := Some v)"
proof
  fix x
  show "om_valid m \<Longrightarrow> om_lookup (om_assign k v m) x = ((om_lookup m)(k := Some v)) x"
    by (induction m) (auto split: if_splits)
qed

lemma om_erase_set: "om_valid m \<Longrightarrow> set (om_erase k m) = {e \<in> set m. fst e \<noteq> k}"
  by (induction m) (force split: if_splits)+

lemma om_erase_valid [simp]: "om_valid m \<Longrightarrow> om_valid (om_erase k m)"
  by (induction m) (auto simp: om_erase_set)

lemma om_lookup_erase [simp]: "om_valid m \<Longrightarrow> om_lookup (om_erase k m) = (om_lookup m)(k := None)"
proof
  fix x
  show "om_valid m \<Longrightarrow> om_lookup (om_erase k m) x = ((om_lookup m)(k := None)) x"
    by (induction m) (force simp: om_erase_set split: if_splits)+
qed

interpretation omap: keyed_store om_lookup om_assign om_erase om_valid
  by unfold_locales simp_all

lemma om_assign_last:
  "\<forall>k'\<in>fst ` set m. k' < k \<Longrightarrow> om_assign k v m = m @ [(k, v)]"
  by (induction m) auto

end
