(* ===== verification/Positions.thy ===== *)
theory Positions
  imports Prelude
begin

text \<open>
  Map coordinates: \<^verbatim>\<open>position.h\<close>, \<^verbatim>\<open>position.cpp\<close> and the direction helpers of
  \<^verbatim>\<open>tools.cpp\<close>. Coordinates are \<open>uint16_t\<close> and wrap around.
\<close>

section \<open>Position\<close>

datatype position = Position (px: u16) (py: u16) (pz: u16)

definition position_zero :: position where
  "position_zero = Position 0 0 0"

text \<open>
  \<open>areInRange\<close>: the differences are taken in \<open>int\<close> after promotion and are far below
  \<open>2 ^ 24\<close>, so the conversion to \<open>float\<close> is exact and the comparison is one of integers.
\<close>

definition coord_dist :: "u16 \<Rightarrow> u16 \<Rightarrow> int" where
  "coord_dist a b = \<bar>uint a - uint b\<bar>"

definition areInRange3 :: "u16 \<Rightarrow> u16 \<Rightarrow> u16 \<Rightarrow> position \<Rightarrow> position \<Rightarrow> bool" where
  "areInRange3 dx dy dz p1 p2 =
     (\<not> (coord_dist (px p1) (px p2) > uint dx \<or> coord_dist (py p1) (py p2) > uint dy
        \<or> coord_dist (pz p1) (pz p2) > uint dz))"

definition areInRange2 :: "u16 \<Rightarrow> u16 \<Rightarrow> position \<Rightarrow> position \<Rightarrow> bool" where
  "areInRange2 dx dy p1 p2 =
     (\<not> (coord_dist (px p1) (px p2) > uint dx \<or> coord_dist (py p1) (py p2) > uint dy))"

definition areInRange :: "position \<Rightarrow> position \<Rightarrow> position \<Rightarrow> bool" where
  "areInRange r p1 p2 =
     (\<not> (coord_dist (px p1) (px p2) > uint (px r) \<or> coord_dist (py p1) (py p2) > uint (py r)
        \<or> coord_dist (pz p1) (pz p2) > uint (pz r)))"

definition pos_less :: "position \<Rightarrow> position \<Rightarrow> bool" where
  "pos_less q p =
     (if pz q < pz p then True
      else if pz q > pz p then False
      else if py q < py p then True
      else if py q > py p then False
      else if px q < px p then True
      else if px q > px p then False
      else False)"

definition pos_greater :: "position \<Rightarrow> position \<Rightarrow> bool" where
  "pos_greater q p = (\<not> pos_less q p)"

definition pos_eq :: "position \<Rightarrow> position \<Rightarrow> bool" where
  "pos_eq q p = (px p = px q \<and> py p = py q \<and> pz p = pz q)"

definition pos_neq :: "position \<Rightarrow> position \<Rightarrow> bool" where
  "pos_neq q p = (\<not> pos_eq q p)"

definition pos_add :: "position \<Rightarrow> position \<Rightarrow> position" where
  "pos_add q p = Position (px q + px p) (py q + py p) (pz q + pz p)"

definition pos_sub :: "position \<Rightarrow> position \<Rightarrow> position" where
  "pos_sub q p = Position (px q - px p) (py q - py p) (pz q - pz p)"

definition pos_show :: "position \<Rightarrow> string" where
  "pos_show p =
     ''( '' @ pad0 5 (dec_digits (unat (px p))) @
     '' / '' @ pad0 5 (dec_digits (unat (py p))) @
     '' / '' @ pad0 3 (dec_digits (unat (pz p))) @ '' )''"

lemma pos_eq_iff [simp]: "pos_eq q p \<longleftrightarrow> q = p"
  by (cases q; cases p) (auto simp: pos_eq_def)

lemma pos_neq_iff [simp]: "pos_neq q p \<longleftrightarrow> q \<noteq> p"
  by (simp add: pos_neq_def)

section \<open>PositionEx\<close>

datatype positionEx = PositionEx (ex_pos: position) (ex_stackpos: "16 word")

definition posEx_eq :: "positionEx \<Rightarrow> positionEx \<Rightarrow> bool" where
  "posEx_eq q p = (px (ex_pos p) = px (ex_pos q) \<and> py (ex_pos p) = py (ex_pos q)
     \<and> pz (ex_pos p) = pz (ex_pos q) \<and> ex_stackpos p = ex_stackpos q)"

definition posEx_neq :: "positionEx \<Rightarrow> positionEx \<Rightarrow> bool" where
  "posEx_neq q p = (\<not> (px (ex_pos p) = px (ex_pos q) \<and> py (ex_pos p) = py (ex_pos q)
     \<and> pz (ex_pos p) = pz (ex_pos q) \<and> ex_stackpos p \<noteq> ex_stackpos q))"

section \<open>The order of positions\<close>

text \<open>
  \<open>operator<\<close> orders by floor, then row, then column. It is the strict part of a linear
  order, which is what a \<open>std::map\<close> or \<open>std::set\<close> keyed by positions needs.
\<close>

lemma pos_less_lex:
  "pos_less q p \<longleftrightarrow>
     pz q < pz p \<or> pz q = pz p \<and> (py q < py p \<or> py q = py p \<and> px q < px p)"
  by (auto simp: pos_less_def)

instantiation position :: linorder
begin

definition less_position :: "position \<Rightarrow> position \<Rightarrow> bool" where
  "less_position = pos_less"

definition less_eq_position :: "position \<Rightarrow> position \<Rightarrow> bool" where
  "less_eq_position q p = (pos_less q p \<or> q = p)"

instance
proof
  fix a b c :: position
  show "(a < b) = (a \<le> b \<and> \<not> b \<le> a)"
    by (auto simp: less_position_def less_eq_position_def pos_less_lex)
  show "a \<le> a"
    by (simp add: less_eq_position_def)
  show "a \<le> b \<Longrightarrow> b \<le> c \<Longrightarrow> a \<le> c"
    by (auto simp: less_eq_position_def pos_less_lex)
  show "a \<le> b \<Longrightarrow> b \<le> a \<Longrightarrow> a = b"
    by (auto simp: less_eq_position_def pos_less_lex)
  show "a \<le> b \<or> b \<le> a"
    by (cases a; cases b) (auto simp: less_eq_position_def pos_less_lex)
qed

end

lemma pos_less_order: "pos_less = (<)"
  by (simp add: less_position_def)

section \<open>Directions\<close>

datatype direction = NORTH | EAST | SOUTH | WEST | SOUTHWEST | SOUTHEAST | NORTHWEST | NORTHEAST

fun direction_show :: "direction \<Rightarrow> string" where
  "direction_show NORTH = ''Norte''"
| "direction_show EAST = ''Leste''"
| "direction_show WEST = ''Oeste''"
| "direction_show SOUTH = ''Sul''"
| "direction_show SOUTHWEST = ''Sudoestet''"
| "direction_show SOUTHEAST = ''Sudeste''"
| "direction_show NORTHWEST = ''Noroeste''"
| "direction_show NORTHEAST = ''Nordeste''"

definition getDirection :: "string \<Rightarrow> direction" where
  "getDirection s =
     (if s = ''north'' \<or> s = ''n'' \<or> s = ''0'' then NORTH
      else if s = ''east'' \<or> s = ''e'' \<or> s = ''1'' then EAST
      else if s = ''south'' \<or> s = ''s'' \<or> s = ''2'' then SOUTH
      else if s = ''west'' \<or> s = ''w'' \<or> s = ''3'' then WEST
      else if s = ''southwest'' \<or> s = ''south west'' \<or> s = ''south-west'' \<or> s = ''sw'' \<or> s = ''4''
        then SOUTHWEST
      else if s = ''southeast'' \<or> s = ''south east'' \<or> s = ''south-east'' \<or> s = ''se'' \<or> s = ''5''
        then SOUTHEAST
      else if s = ''northwest'' \<or> s = ''north west'' \<or> s = ''north-west'' \<or> s = ''nw'' \<or> s = ''6''
        then NORTHWEST
      else if s = ''northeast'' \<or> s = ''north east'' \<or> s = ''north-east'' \<or> s = ''ne'' \<or> s = ''7''
        then NORTHEAST
      else SOUTH)"

definition getDirectionTo :: "position \<Rightarrow> position \<Rightarrow> bool \<Rightarrow> direction" where
  "getDirectionTo pos1 pos2 extended =
     (if px pos1 > px pos2 then
        (if extended then
           (if py pos1 > py pos2 then NORTHWEST
            else if py pos1 < py pos2 then SOUTHWEST
            else WEST)
         else WEST)
      else if px pos1 < px pos2 then
        (if extended then
           (if py pos1 > py pos2 then NORTHEAST
            else if py pos1 < py pos2 then SOUTHEAST
            else EAST)
         else EAST)
      else
        (if py pos1 > py pos2 then NORTH
         else if py pos1 < py pos2 then SOUTH
         else NORTH))"

fun getReverseDirection :: "direction \<Rightarrow> direction" where
  "getReverseDirection NORTH = SOUTH"
| "getReverseDirection SOUTH = NORTH"
| "getReverseDirection WEST = EAST"
| "getReverseDirection EAST = WEST"
| "getReverseDirection SOUTHWEST = NORTHEAST"
| "getReverseDirection NORTHWEST = SOUTHEAST"
| "getReverseDirection NORTHEAST = SOUTHWEST"
| "getReverseDirection SOUTHEAST = NORTHWEST"

fun getNextPosition :: "direction \<Rightarrow> position \<Rightarrow> position" where
  "getNextPosition NORTH (Position x y z) = Position x (y - 1) z"
| "getNextPosition SOUTH (Position x y z) = Position x (y + 1) z"
| "getNextPosition WEST (Position x y z) = Position (x - 1) y z"
| "getNextPosition EAST (Position x y z) = Position (x + 1) y z"
| "getNextPosition SOUTHWEST (Position x y z) = Position (x - 1) (y + 1) z"
| "getNextPosition NORTHWEST (Position x y z) = Position (x - 1) (y - 1) z"
| "getNextPosition SOUTHEAST (Position x y z) = Position (x + 1) (y + 1) z"
| "getNextPosition NORTHEAST (Position x y z) = Position (x + 1) (y - 1) z"

lemma reverse_involution [simp]: "getReverseDirection (getReverseDirection d) = d"
  by (cases d) simp_all

lemma next_position_floor [simp]: "pz (getNextPosition d p) = pz p"
  by (cases p; cases d) simp_all

lemma word_succ_gt: "(a :: u16) < -1 \<Longrightarrow> a < a + 1"
  by unat_arith

lemma word_pred_lt: "0 < (a :: u16) \<Longrightarrow> a - 1 < a"
  by unat_arith

text \<open>
  C38. The order on positions behind \<open>operator<\<close> is the lexicographic order on floor, row and
  column; exactly one of \<open>q < p\<close>, \<open>q == p\<close>, \<open>p < q\<close> holds, and \<open>operator<\<close> is transitive.
\<close>

theorem pos_less_strict_total:
  "(pos_less q p \<longleftrightarrow>
      pz q < pz p \<or> pz q = pz p \<and> (py q < py p \<or> py q = py p \<and> px q < px p))
   \<and> (pos_less q p \<and> \<not> pos_eq q p \<and> \<not> pos_less p q \<or>
      \<not> pos_less q p \<and> pos_eq q p \<and> \<not> pos_less p q \<or>
      \<not> pos_less q p \<and> \<not> pos_eq q p \<and> pos_less p q)
   \<and> (pos_less q p \<and> pos_less p r \<longrightarrow> pos_less q r)"
proof (intro conjI impI)
  show "pos_less q p \<longleftrightarrow>
      pz q < pz p \<or> pz q = pz p \<and> (py q < py p \<or> py q = py p \<and> px q < px p)"
    by (rule pos_less_lex)
  show "pos_less q p \<and> \<not> pos_eq q p \<and> \<not> pos_less p q \<or>
      \<not> pos_less q p \<and> pos_eq q p \<and> \<not> pos_less p q \<or>
      \<not> pos_less q p \<and> \<not> pos_eq q p \<and> pos_less p q"
    using less_linear[of q p] unfolding pos_less_order pos_eq_iff
    by (metis order.asym order.irrefl)
  show "pos_less q r" if "pos_less q p \<and> pos_less p r"
    using that unfolding pos_less_order by (blast intro: less_trans)
qed

theorem pos_less_strict_total_witness:
  "pos_less (Position 5 2 7) (Position 1 3 7) \<and> pos_less (Position 1 3 7) (Position 0 0 8)
     \<and> pos_less (Position 5 2 7) (Position 0 0 8)"
proof -
  have a: "pos_less (Position 5 2 7) (Position 1 3 7)" by (simp add: pos_less_def)
  have b: "pos_less (Position 1 3 7) (Position 0 0 8)" by (simp add: pos_less_def)
  show ?thesis
    using a b pos_less_strict_total[of "Position 5 2 7" "Position 1 3 7" "Position 0 0 8"] by blast
qed

text \<open>
  Two comparison operators are not what their names say: \<open>operator>\<close> is the negation of
  \<open>operator<\<close>, so it also holds between a position and itself, and \<open>PositionEx::operator!=\<close> holds
  for equal values and fails for two values that differ in their stack position only.
\<close>

theorem position_operator_defects:
  "(pos_greater q p \<longleftrightarrow> pos_less p q \<or> pos_eq q p)
   \<and> (posEx_neq a b \<longleftrightarrow> (if ex_pos a = ex_pos b then posEx_eq a b else True))"
proof
  show "pos_greater q p \<longleftrightarrow> pos_less p q \<or> pos_eq q p"
    unfolding pos_greater_def pos_less_order pos_eq_iff
    by (metis less_linear order.asym order.irrefl)
  show "posEx_neq a b \<longleftrightarrow> (if ex_pos a = ex_pos b then posEx_eq a b else True)"
    by (cases "ex_pos a"; cases "ex_pos b") (auto simp: posEx_neq_def posEx_eq_def)
qed

text \<open>
  One step in a direction and one step in the reverse direction return to the start, for every
  position, wrap-around at the edge of the map included.
\<close>

theorem next_position_reverse:
  "getNextPosition (getReverseDirection d) (getNextPosition d p) = p
   \<and> getReverseDirection (getReverseDirection d) = d"
  by (cases p; cases d) simp_all

definition inner_coord :: "u16 \<Rightarrow> bool" where
  "inner_coord a = (0 < a \<and> a < 65535)"

lemma inner_coord_step:
  assumes "inner_coord a"
  shows "a < a + 1" and "a - 1 < a"
proof -
  have "(65535 :: u16) = -1" by simp
  with assms have "a < -1" and "0 < a" by (simp_all add: inner_coord_def)
  then show "a < a + 1" and "a - 1 < a" by (simp_all only: word_succ_gt word_pred_lt)
qed

text \<open>
  Away from the edge of the coordinate range, \<open>getDirectionTo\<close> recovers the direction of a
  single step, and without \<open>extended\<close> it recovers the horizontal component of a diagonal one.
\<close>

theorem direction_to_next:
  assumes "inner_coord (px p)" and "inner_coord (py p)"
  shows "getDirectionTo p (getNextPosition d p) True = d
    \<and> getDirectionTo p (getNextPosition d p) False =
      (case d of SOUTHWEST \<Rightarrow> WEST | NORTHWEST \<Rightarrow> WEST | SOUTHEAST \<Rightarrow> EAST
        | NORTHEAST \<Rightarrow> EAST | _ \<Rightarrow> d)"
proof (intro conjI)
  obtain x y z where p: "p = Position x y z" by (cases p)
  have "inner_coord x" "inner_coord y" using assms by (simp_all add: p)
  note l = inner_coord_step[OF this(1)] inner_coord_step[OF this(2)]
  note s = l l[THEN less_not_sym] l[THEN less_imp_neq] l[THEN less_imp_neq, symmetric]
  show "getDirectionTo p (getNextPosition d p) True = d"
    by (cases d) (simp_all add: p getDirectionTo_def s)
  show "getDirectionTo p (getNextPosition d p) False =
      (case d of SOUTHWEST \<Rightarrow> WEST | NORTHWEST \<Rightarrow> WEST | SOUTHEAST \<Rightarrow> EAST
        | NORTHEAST \<Rightarrow> EAST | _ \<Rightarrow> d)"
    by (cases d) (simp_all add: p getDirectionTo_def s)
qed

theorem direction_to_next_witness:
  "getDirectionTo (Position 100 200 7) (getNextPosition SOUTHWEST (Position 100 200 7)) True
     = SOUTHWEST"
  by (rule direction_to_next[THEN conjunct1]) (simp_all add: inner_coord_def)

end
