(* ===== verification/Tools.thy ===== *)
theory Tools
  imports Prelude
begin

text \<open>
  The text helpers of \<^verbatim>\<open>tools.cpp\<close> that the other components call: searching and
  replacing, splitting, trimming, number parsing, the validation of account names, passwords
  and character names, and the name tables. The loops over \<open>std::string::find\<close> are partial
  functions: with an empty separator or key the code does not return.
\<close>

section \<open>Characters\<close>

definition tolower :: "char \<Rightarrow> char" where
  "tolower c = (if 65 \<le> chv c \<and> chv c \<le> 90 then char_of (chv c + 32) else c)"

definition upchar :: "char \<Rightarrow> char" where
  "upchar c = (if (chv c \<ge> 97 \<and> chv c \<le> 122) \<or> (chv c \<le> -1 \<and> chv c \<ge> -32)
     then char_of (chv c - 32) else c)"

definition isNumber :: "char \<Rightarrow> bool" where
  "isNumber c = (chv c \<ge> 48 \<and> chv c \<le> 57)"

definition isLowercaseLetter :: "char \<Rightarrow> bool" where
  "isLowercaseLetter c = (chv c \<ge> 97 \<and> chv c \<le> 122)"

definition isUppercaseLetter :: "char \<Rightarrow> bool" where
  "isUppercaseLetter c = (chv c \<ge> 65 \<and> chv c \<le> 90)"

definition isPasswordCharacter :: "char \<Rightarrow> bool" where
  "isPasswordCharacter c = ((chv c \<ge> 33 \<and> chv c \<le> 47) \<or> (chv c \<ge> 58 \<and> chv c \<le> 64)
     \<or> (chv c \<ge> 91 \<and> chv c \<le> 96) \<or> (chv c \<ge> 123 \<and> chv c \<le> 126))"

definition asLowerCaseString :: "string \<Rightarrow> string" where
  "asLowerCaseString s = map tolower s"

definition asUpperCaseString :: "string \<Rightarrow> string" where
  "asUpperCaseString s = map upchar s"

section \<open>Searching: std::string::find\<close>

fun find_sub :: "string \<Rightarrow> string \<Rightarrow> nat option" where
  "find_sub key [] = (if key = [] then Some 0 else None)"
| "find_sub key (c # cs) =
     (if take (length key) (c # cs) = key then Some 0 else map_option Suc (find_sub key cs))"

definition str_find :: "string \<Rightarrow> string \<Rightarrow> nat \<Rightarrow> nat option" where
  "str_find str key pos =
     (if pos > length str then None else map_option (\<lambda>i. pos + i) (find_sub key (drop pos str)))"

lemma find_sub_Some:
  "find_sub key str = Some i \<Longrightarrow> i + length key \<le> length str \<and> take (length key) (drop i str) = key"
proof (induction str arbitrary: i)
  case Nil
  then show ?case by (auto split: if_splits)
next
  case (Cons c cs)
  show ?case
  proof (cases "take (length key) (c # cs) = key")
    case True
    then have "length key \<le> length (c # cs)" by (metis length_take min.cobounded1)
    with True Cons.prems show ?thesis by simp
  next
    case False
    with Cons show ?thesis by auto
  qed
qed

lemma find_sub_split:
  assumes "find_sub key str = Some i"
  shows "str = take i str @ key @ drop (i + length key) str"
proof -
  note f = find_sub_Some[OF assms]
  have "drop i str = take (length key) (drop i str) @ drop (length key) (drop i str)"
    by (rule append_take_drop_id[symmetric])
  then have "drop i str = key @ drop (i + length key) str" using f by (simp add: add.commute)
  then show ?thesis by (metis append_take_drop_id)
qed

lemma find_sub_char: "c \<notin> set xs \<Longrightarrow> find_sub [c] (xs @ c # ys) = Some (length xs)"
  by (induction xs) auto

lemma find_sub_char_None: "c \<notin> set xs \<Longrightarrow> find_sub [c] xs = None"
  by (induction xs) auto

lemma str_find_append:
  "str_find (pre @ rest) key (length pre) = map_option (\<lambda>i. length pre + i) (find_sub key rest)"
  by (simp add: str_find_def)

section \<open>replaceString, explodeString\<close>

partial_function (option) replace_loop ::
    "string \<Rightarrow> string \<Rightarrow> string \<Rightarrow> nat \<Rightarrow> string option" where
  "replace_loop key value str pos =
     (case str_find str key pos of
        None \<Rightarrow> Some str
      | Some start \<Rightarrow>
          replace_loop key value
            (take start str @ value @ drop (start + length key) str)
            (start + length value))"

definition replaceString :: "string \<Rightarrow> string \<Rightarrow> string \<Rightarrow> (bool \<times> string) option" where
  "replaceString str key value =
     (if str_find str key 0 = None then Some (False, str)
      else map_option (\<lambda>t. (True, t)) (replace_loop key value str 0))"

definition trimString :: "string \<Rightarrow> string" where
  "trimString s =
     (let r = rev (dropWhile (\<lambda>c. c = CHR '' '') (rev s)) in dropWhile (\<lambda>c. c = CHR '' '') r)"

definition trim_right :: "string \<Rightarrow> string \<Rightarrow> string" where
  "trim_right source t = rev (dropWhile (\<lambda>c. c \<in> set t) (rev source))"

definition trim_left :: "string \<Rightarrow> string \<Rightarrow> string" where
  "trim_left source t = dropWhile (\<lambda>c. c \<in> set t) source"

partial_function (option) explode_loop ::
    "string \<Rightarrow> string \<Rightarrow> bool \<Rightarrow> nat \<Rightarrow> string list \<Rightarrow> string list option" where
  "explode_loop s separator trim start acc =
     (case str_find s separator start of
        None \<Rightarrow> Some (acc @ [drop start s])
      | Some e \<Rightarrow>
          (let t = take (e - start) (drop start s) in
           explode_loop s separator trim (e + length separator)
             (acc @ [if trim then trimString t else t])))"

definition explodeString :: "string \<Rightarrow> string \<Rightarrow> bool \<Rightarrow> string list option" where
  "explodeString s separator trim = explode_loop s separator trim 0 []"

text \<open>The reference: the pieces of a text between the leftmost disjoint occurrences of a key.\<close>

function split_on :: "string \<Rightarrow> string \<Rightarrow> string list" where
  "split_on key str =
     (if key = [] then [str]
      else case find_sub key str of
        None \<Rightarrow> [str]
      | Some i \<Rightarrow> take i str # split_on key (drop (i + length key) str))"
  by pat_completeness auto
termination
proof (relation "measure (\<lambda>(key, str). length str)", simp_all)
  fix key str :: string and i
  assume "key \<noteq> []" and f: "find_sub key str = Some i"
  then show "length str - (i + length key) < length str"
    using find_sub_Some[OF f] by (cases key) auto
qed

declare split_on.simps [simp del]

fun join :: "string \<Rightarrow> string list \<Rightarrow> string" where
  "join sep [] = []"
| "join sep [x] = x"
| "join sep (x # y # ys) = x @ sep @ join sep (y # ys)"

lemma split_on_nonempty [simp]: "split_on key str \<noteq> []"
  by (subst split_on.simps) (auto split: option.splits)

lemma join_Cons: "ys \<noteq> [] \<Longrightarrow> join sep (x # ys) = x @ sep @ join sep ys"
  by (cases ys) auto

lemma split_on_None: "find_sub key str = None \<Longrightarrow> split_on key str = [str]"
  by (subst split_on.simps) simp

lemma split_on_Some:
  "key \<noteq> [] \<Longrightarrow> find_sub key str = Some i \<Longrightarrow>
     split_on key str = take i str # split_on key (drop (i + length key) str)"
  by (subst split_on.simps) simp

lemma join_split_on: "key \<noteq> [] \<Longrightarrow> join key (split_on key str) = str"
proof (induction key str rule: split_on.induct)
  case (1 key str)
  show ?case
  proof (cases "find_sub key str")
    case None
    then show ?thesis by (simp add: split_on_None)
  next
    case (Some i)
    with 1 show ?thesis
      by (simp add: split_on_Some join_Cons find_sub_split[OF Some, symmetric])
  qed
qed

lemma split_on_length_1:
  "key \<noteq> [] \<Longrightarrow> length (split_on key str) = 1 \<longleftrightarrow> find_sub key str = None"
  by (cases "find_sub key str") (simp_all add: split_on_None split_on_Some)

lemma replace_loop_split:
  "key \<noteq> [] \<Longrightarrow>
     replace_loop key value (pre @ rest) (length pre) = Some (pre @ join value (split_on key rest))"
proof (induction key rest arbitrary: pre rule: split_on.induct)
  case (1 key rest)
  show ?case
  proof (cases "find_sub key rest")
    case None
    then show ?thesis
      by (subst replace_loop.simps) (simp add: str_find_append split_on_None)
  next
    case (Some i)
    let ?pre = "pre @ take i rest @ value" and ?rest = "drop (i + length key) rest"
    have i: "i \<le> length rest" using find_sub_Some[OF Some] by simp
    have "replace_loop key value (pre @ rest) (length pre) =
        replace_loop key value (?pre @ ?rest) (length ?pre)"
      using i by (subst replace_loop.simps) (simp add: str_find_append Some add.assoc)
    also have "\<dots> = Some (?pre @ join value (split_on key ?rest))"
      using "1.IH"[OF "1.prems" Some "1.prems", of ?pre] by simp
    finally show ?thesis
      using "1.prems" by (simp add: split_on_Some[OF _ Some] join_Cons)
  qed
qed

text \<open>
  With a non-empty key \<open>replaceString\<close> returns, reports whether the key occurred, and its
  result is the text split at the key and joined with the new value; replacing a key by itself
  changes nothing.
\<close>

theorem replaceString_split:
  assumes "key \<noteq> []"
  shows "replaceString str key value =
      Some (length (split_on key str) > 1, join value (split_on key str))
    \<and> replaceString str key key = Some (length (split_on key str) > 1, str)"
proof (intro conjI)
  have e: "replaceString str key v =
      Some (length (split_on key str) > 1, join v (split_on key str))" for v
  proof (cases "find_sub key str")
    case None
    then show ?thesis by (simp add: replaceString_def str_find_def split_on_None)
  next
    case (Some i)
    then have "length (split_on key str) > 1" using assms by (simp add: split_on_Some)
    with Some show ?thesis
      using replace_loop_split[OF assms, of v "[]" str]
      by (simp add: replaceString_def str_find_def)
  qed
  show "replaceString str key value =
      Some (length (split_on key str) > 1, join value (split_on key str))" by (rule e)
  show "replaceString str key key = Some (length (split_on key str) > 1, str)"
    using e[of key] by (simp add: join_split_on assms)
qed

theorem replaceString_split_witness:
  "replaceString ''a|b|c'' ''|'' ''--'' = Some (True, ''a--b--c'')"
  using replaceString_split[of "''|''" "''a|b|c''" "''--''", THEN conjunct1]
  by (simp add: split_on.simps)

lemma explode_loop_split:
  "sep \<noteq> [] \<Longrightarrow> explode_loop (pre @ rest) sep trim (length pre) acc =
     Some (acc @ map (\<lambda>t. if trim then trimString t else t) (butlast (split_on sep rest))
       @ [last (split_on sep rest)])"
proof (induction sep rest arbitrary: pre acc rule: split_on.induct)
  case (1 sep rest)
  show ?case
  proof (cases "find_sub sep rest")
    case None
    then show ?thesis
      by (subst explode_loop.simps) (simp add: str_find_append split_on_None)
  next
    case (Some i)
    let ?pre = "pre @ take i rest @ sep" and ?rest = "drop (i + length sep) rest"
      and ?t = "if trim then trimString (take i rest) else take i rest"
    have i: "i \<le> length rest" using find_sub_Some[OF Some] by simp
    have r: "pre @ rest = ?pre @ ?rest" using find_sub_split[OF Some] by simp
    have "explode_loop (pre @ rest) sep trim (length pre) acc =
        explode_loop (pre @ rest) sep trim (length pre + i + length sep) (acc @ [?t])"
      by (subst explode_loop.simps) (simp add: str_find_append Some)
    also have "\<dots> = explode_loop (?pre @ ?rest) sep trim (length ?pre) (acc @ [?t])"
      using i by (subst r) (simp add: add.assoc)
    also have "\<dots> = Some ((acc @ [?t]) @ map (\<lambda>t. if trim then trimString t else t)
        (butlast (split_on sep ?rest)) @ [last (split_on sep ?rest)])"
      by (rule "1.IH"[OF "1.prems" Some "1.prems"])
    finally show ?thesis
      using "1.prems" by (simp add: split_on_Some[OF _ Some])
  qed
qed

text \<open>
  With a non-empty separator \<open>explodeString\<close> returns the pieces between the separators, all
  but the last one trimmed on request; untrimmed, joining the pieces gives the text back.
\<close>

theorem explodeString_split:
  assumes "sep \<noteq> []"
  shows "explodeString s sep trim =
      Some (map (\<lambda>t. if trim then trimString t else t) (butlast (split_on sep s))
        @ [last (split_on sep s)])
    \<and> map_option (join sep) (explodeString s sep False) = Some s"
proof (intro conjI)
  have e: "explodeString s sep b =
      Some (map (\<lambda>t. if b then trimString t else t) (butlast (split_on sep s))
        @ [last (split_on sep s)])" for b
    using explode_loop_split[OF assms, of "[]" s b "[]"] by (simp add: explodeString_def)
  show "explodeString s sep trim =
      Some (map (\<lambda>t. if trim then trimString t else t) (butlast (split_on sep s))
        @ [last (split_on sep s)])" by (rule e)
  show "map_option (join sep) (explodeString s sep False) = Some s"
    using assms by (simp add: e join_split_on)
qed

theorem explodeString_split_witness:
  "explodeString ''a; b ; c '' '';'' True = Some [''a'', ''b'', '' c '']"
  using explodeString_split[of "'';''" "''a; b ; c ''" True, THEN conjunct1]
  by (simp add: split_on.simps trimString_def)

section \<open>Numbers\<close>

definition isspace :: "char \<Rightarrow> bool" where
  "isspace c = (chv c = 32 \<or> (9 \<le> chv c \<and> chv c \<le> 13))"

definition digit_val :: "char \<Rightarrow> int" where
  "digit_val c = chv c - 48"

definition dec_val :: "string \<Rightarrow> int" where
  "dec_val s = foldl (\<lambda>acc c. 10 * acc + digit_val c) 0 (takeWhile isNumber s)"

text \<open>
  \<open>atoi\<close>: leading white space, an optional sign, the longest run of digits. A value that does
  not fit \<open>int\<close> is undefined in C; the model gives the mathematical value.
\<close>

definition atoi :: "string \<Rightarrow> int" where
  "atoi s = (case dropWhile isspace s of
      [] \<Rightarrow> 0
    | c # cs \<Rightarrow> if c = CHR ''-'' then - dec_val cs
               else if c = CHR ''+'' then dec_val cs
               else dec_val (c # cs))"

definition booleanString :: "string \<Rightarrow> bool" where
  "booleanString source = (let s = asLowerCaseString source in
     s = ''yes'' \<or> s = ''true'' \<or> atoi s > 0)"

definition vectorAtoi :: "string list \<Rightarrow> int list" where
  "vectorAtoi = map atoi"

definition isNumbers :: "string \<Rightarrow> bool" where
  "isNumbers s = list_all isNumber s"

definition checkText :: "string \<Rightarrow> string \<Rightarrow> bool" where
  "checkText s str = (asLowerCaseString (trimString s) = str)"

text \<open>\<open>while(tmp[0] < tmp[1]) intVector.push_back(++tmp[0]);\<close>\<close>

function count_up :: "int \<Rightarrow> int \<Rightarrow> int list" where
  "count_up a b = (if a < b then (a + 1) # count_up (a + 1) b else [])"
  by pat_completeness auto
termination
  by (relation "measure (\<lambda>(a, b). nat (b - a))") auto

declare count_up.simps [simp del]

definition parse_piece :: "string \<Rightarrow> int list \<Rightarrow> int list" where
  "parse_piece it tmp =
     (if tmp ! 0 = 0 \<and> take 1 it \<noteq> ''0'' then []
      else tmp ! 0 # (if length tmp > 1 then count_up (tmp ! 0) (tmp ! 1) else []))"

definition parseIntegerVec :: "string \<Rightarrow> int list \<Rightarrow> int list option" where
  "parseIntegerVec str intVector =
     map_option (\<lambda>strVector.
        intVector @ concat (map (\<lambda>it. parse_piece it
          (vectorAtoi (the (explodeString it ''-'' True)))) strVector))
       (explodeString str '';'' True)"

definition convertIPAddress :: "u32 \<Rightarrow> string" where
  "convertIPAddress ip =
     dec_digits (unat (ip AND 0xFF)) @ ''.'' @
     dec_digits (unat (drop_bit 8 ip AND 0xFF)) @ ''.'' @
     dec_digits (unat (drop_bit 16 ip AND 0xFF)) @ ''.'' @
     dec_digits (unat (drop_bit 24 ip))"

lemma chv_ascii:
  assumes "n < 128"
  shows "chv (char_of (n :: nat)) = int n"
proof -
  have "(of_char (char_of n) :: int) = of_nat (of_char (char_of n))" by (simp only: of_nat_of_char)
  also have "\<dots> = int n" using assms by (simp only: of_char_of) simp
  finally show ?thesis using assms by (simp add: chv_def)
qed

lemma chv_digit: "n < 10 \<Longrightarrow> chv (char_of (48 + n :: nat)) = 48 + int n"
  by (simp add: chv_ascii)

lemma isNumber_digit: "n < 10 \<Longrightarrow> isNumber (char_of (48 + n :: nat))"
  by (simp add: isNumber_def chv_digit)

lemma dec_digits_isNumber: "\<forall>c \<in> set (dec_digits n). isNumber c"
proof (induction n rule: dec_digits.induct)
  case (1 n)
  then show ?case by (subst dec_digits.simps) (auto simp: isNumber_digit)
qed

lemma dec_digits_value: "foldl (\<lambda>acc c. 10 * acc + digit_val c) 0 (dec_digits n) = int n"
proof (induction n rule: dec_digits.induct)
  case (1 n)
  show ?case
  proof (cases "n < 10")
    case True
    then show ?thesis by (subst dec_digits.simps) (simp add: digit_val_def chv_digit)
  next
    case False
    then have "foldl (\<lambda>acc c. 10 * acc + digit_val c) 0 (dec_digits (n div 10)) = int (n div 10)"
      using 1 by simp
    moreover have "10 * int (n div 10) + int (n mod 10) = int n" by presburger
    ultimately show ?thesis using False
      by (subst dec_digits.simps) (simp add: digit_val_def chv_digit)
  qed
qed

lemma dec_val_dec_digits: "dec_val (dec_digits n) = int n"
proof -
  have "takeWhile isNumber (dec_digits n) = dec_digits n"
    using dec_digits_isNumber[of n] by (simp add: takeWhile_eq_all_conv)
  then show ?thesis unfolding dec_val_def by (simp only: dec_digits_value)
qed

lemma isNumber_not_special:
  "isNumber c \<Longrightarrow> \<not> isspace c \<and> c \<noteq> CHR ''-'' \<and> c \<noteq> CHR ''+'' \<and> c \<noteq> CHR '';'' \<and> c \<noteq> CHR '' ''"
  by (auto simp: isNumber_def isspace_def chv_def)

text \<open>
  \<open>atoi\<close> reads back the decimal form of every non-negative number and, after a minus sign,
  of every negative one.
\<close>

theorem atoi_dec_digits:
  "atoi (dec_digits n) = int n \<and> atoi (''-'' @ dec_digits n) = - int n"
proof -
  obtain c cs where d: "dec_digits n = c # cs" by (cases "dec_digits n") auto
  then have c: "isNumber c" using dec_digits_isNumber[of n] by auto
  have "\<not> isspace (CHR ''-'')" by (simp add: isspace_def chv_def)
  then show ?thesis
    using isNumber_not_special[OF c] dec_val_dec_digits[of n] by (simp add: atoi_def d)
qed

lemma atoi_digits: "atoi (dec_digits n) = int n"
proof -
  obtain c cs where d: "dec_digits n = c # cs" by (cases "dec_digits n") auto
  then have c: "isNumber c" using dec_digits_isNumber[of n] by auto
  then show ?thesis
    using isNumber_not_special[OF c] dec_val_dec_digits[of n] by (simp add: atoi_def d)
qed

lemma count_up_upto: "a \<le> b \<Longrightarrow> a # count_up a b = [a..b]"
proof (induction a b rule: count_up.induct)
  case (1 a b)
  show ?case
  proof (cases "a < b")
    case True
    with 1 show ?thesis by (subst count_up.simps) (simp add: upto_rec1)
  next
    case False
    with 1 show ?thesis by (subst count_up.simps) simp
  qed
qed

lemma parse_piece_two:
  "(a = 0 \<Longrightarrow> take 1 it = ''0'') \<Longrightarrow> parse_piece it [a, b] = a # count_up a b"
  by (auto simp: parse_piece_def)

lemma dec_digits_notin: "\<not> isNumber c \<Longrightarrow> c \<notin> set (dec_digits n)"
  using dec_digits_isNumber by blast

lemma trim_no_space: "s \<noteq> [] \<Longrightarrow> \<forall>c \<in> set s. c \<noteq> CHR '' '' \<Longrightarrow> trimString s = s"
proof -
  assume ne: "s \<noteq> []" and n: "\<forall>c \<in> set s. c \<noteq> CHR '' ''"
  have "dropWhile (\<lambda>c. c = CHR '' '') (rev s) = rev s"
    using ne n by (cases s rule: rev_cases) simp_all
  moreover have "dropWhile (\<lambda>c. c = CHR '' '') s = s"
    using ne n by (cases s) simp_all
  ultimately show ?thesis by (simp add: trimString_def)
qed

lemma trim_dec_digits: "trimString (dec_digits n) = dec_digits n"
  using dec_digits_isNumber[of n] isNumber_not_special by (intro trim_no_space) auto

text \<open>
  \<open>parseIntegerVec\<close> expands the text \<open>a-b\<close> into all numbers from \<open>a\<close> to \<open>b\<close>, in order and
  after what the vector already held.
\<close>

theorem parseIntegerVec_range:
  assumes "a \<le> b"
  shows "parseIntegerVec (dec_digits a @ ''-'' @ dec_digits b) vec = Some (vec @ [int a..int b])"
proof -
  let ?s = "dec_digits a @ ''-'' @ dec_digits b"
  have nn: "\<not> isNumber (CHR ''-'')" "\<not> isNumber (CHR '';'')"
    by (simp_all add: isNumber_def chv_def)
  note out = dec_digits_notin[OF nn(1)] dec_digits_notin[OF nn(2)]
  have "split_on '';'' ?s = [?s]"
    by (rule split_on_None, rule find_sub_char_None) (simp add: out)
  moreover have "explode_loop ?s '';'' True 0 [] = Some (map trimString (butlast (split_on '';'' ?s))
      @ [last (split_on '';'' ?s)])"
    using explode_loop_split[of "'';''" "[]" ?s True "[]"] by simp
  ultimately have e1: "explodeString ?s '';'' True = Some [?s]"
    by (simp add: explodeString_def)
  have f: "find_sub ''-'' (dec_digits a @ CHR ''-'' # dec_digits b) = Some (length (dec_digits a))"
    by (rule find_sub_char) (rule out(1))
  have "split_on ''-'' ?s = [dec_digits a, dec_digits b]"
    using out(1) by (simp add: split_on_Some[OF _ f] split_on_None[OF find_sub_char_None])
  then have e2: "explodeString ?s ''-'' True = Some [dec_digits a, dec_digits b]"
    using explode_loop_split[of "''-''" "[]" ?s True "[]"]
    by (simp add: explodeString_def trim_dec_digits)
  have "char_of (48 :: nat) = CHR ''0''" by code_simp
  then have "take 1 ?s = ''0''" if "a = 0" using that by (simp add: dec_digits.simps)
  then have "int a = 0 \<Longrightarrow> take 1 ?s = ''0''" by (simp only: of_nat_eq_0_iff)
  then have "parse_piece ?s [int a, int b] = int a # count_up (int a) (int b)"
    by (rule parse_piece_two)
  also have "\<dots> = [int a..int b]" using assms by (simp add: count_up_upto)
  finally have "parse_piece ?s [int a, int b] = [int a..int b]" .
  with e1 e2 show ?thesis
    by (simp add: parseIntegerVec_def vectorAtoi_def atoi_digits)
qed

theorem parseIntegerVec_range_witness: "parseIntegerVec ''3-6'' [1] = Some [1, 3, 4, 5, 6]"
proof -
  have d: "dec_digits 3 = ''3''" "dec_digits 6 = ''6''" by code_simp+
  show ?thesis using parseIntegerVec_range[of 3 6 "[1]"] by (simp add: d upto.simps)
qed

section \<open>Names\<close>

definition isValidAccountName :: "string \<Rightarrow> bool" where
  "isValidAccountName s = list_all (\<lambda>c. isLowercaseLetter c \<or> isNumber c) (asLowerCaseString s)"

definition isValidPassword :: "string \<Rightarrow> bool" where
  "isValidPassword s = list_all (\<lambda>c. isLowercaseLetter c \<or> isNumber c \<or> isPasswordCharacter c)
     (asLowerCaseString s)"

record name_scan =
  lenBeforeSpace :: nat
  lenBeforeQuote :: nat
  lenBeforeDash :: nat
  repeatedCharacter :: nat
  lastChar :: char

definition name_scan_start :: name_scan where
  "name_scan_start = \<lparr>lenBeforeSpace = 1, lenBeforeQuote = 1, lenBeforeDash = 1,
     repeatedCharacter = 0, lastChar = CHR '' ''\<rparr>"

text \<open>\<open>size == textLength - 1 || text[size + 1] == 32\<close>, for the text after the current one.\<close>

definition at_word_end :: "string \<Rightarrow> bool" where
  "at_word_end rest = (case rest of [] \<Rightarrow> True | d # _ \<Rightarrow> chv d = 32)"

definition name_quote :: "char \<Rightarrow> string \<Rightarrow> name_scan \<Rightarrow> name_scan option" where
  "name_quote c rest s =
     (if chv c \<noteq> 39 then Some (s\<lparr>lenBeforeQuote := Suc (lenBeforeQuote s)\<rparr>)
      else if lenBeforeQuote s \<le> 1 \<or> at_word_end rest then None
      else Some (s\<lparr>lenBeforeQuote := 0\<rparr>))"

definition name_dash :: "char \<Rightarrow> string \<Rightarrow> name_scan \<Rightarrow> name_scan option" where
  "name_dash c rest s =
     (if chv c \<noteq> 45 then Some (s\<lparr>lenBeforeDash := Suc (lenBeforeDash s)\<rparr>)
      else if lenBeforeDash s \<le> 1 \<or> at_word_end rest then None
      else Some (s\<lparr>lenBeforeDash := 0\<rparr>))"

definition name_repeat :: "char \<Rightarrow> name_scan \<Rightarrow> name_scan option" where
  "name_repeat c s =
     (if c = lastChar s then
        (if Suc (repeatedCharacter s) > 2 then None
         else Some (s\<lparr>repeatedCharacter := Suc (repeatedCharacter s), lastChar := c\<rparr>))
      else Some (s\<lparr>repeatedCharacter := 0, lastChar := c\<rparr>))"

definition name_step :: "char \<Rightarrow> char \<Rightarrow> string \<Rightarrow> name_scan \<Rightarrow> name_scan option" where
  "name_step prev c rest s =
     Option.bind
       (if chv c \<noteq> 32 then
          Option.bind (name_quote c rest (s\<lparr>lenBeforeSpace := Suc (lenBeforeSpace s)\<rparr>))
            (\<lambda>s. Option.bind (name_dash c rest s) (name_repeat c))
        else if lenBeforeSpace s \<le> 1 \<or> at_word_end rest then None
        else Some (s\<lparr>lenBeforeSpace := 0, lenBeforeQuote := 0, lenBeforeDash := 0\<rparr>))
       (\<lambda>s. if \<not> (isLowercaseLetter c \<or> chv c = 32 \<or> chv c = 39 \<or> chv c = 45
              \<or> (isUppercaseLetter c \<and> chv prev = 32)) then None else Some s)"

fun name_loop :: "char \<Rightarrow> string \<Rightarrow> name_scan \<Rightarrow> bool" where
  "name_loop prev [] s = True"
| "name_loop prev (c # rest) s =
     (case name_step prev c rest s of None \<Rightarrow> False | Some s' \<Rightarrow> name_loop c rest s')"

definition isValidName :: "string \<Rightarrow> bool \<Rightarrow> bool" where
  "isValidName s forceUppercaseOnFirstLetter =
     (case s of
        [] \<Rightarrow> False
      | c # rest \<Rightarrow>
          (if forceUppercaseOnFirstLetter then isUppercaseLetter c
           else isLowercaseLetter c \<or> isUppercaseLetter c)
          \<and> name_loop c rest name_scan_start)"

definition name_char :: "char \<Rightarrow> bool" where
  "name_char c = (isLowercaseLetter c \<or> isUppercaseLetter c \<or> chv c = 32 \<or> chv c = 39 \<or> chv c = 45)"

fun name_shape :: "char \<Rightarrow> string \<Rightarrow> bool" where
  "name_shape prev [] = True"
| "name_shape prev (c # rest) =
     (name_char c \<and> (isUppercaseLetter c \<longrightarrow> chv prev = 32)
      \<and> (chv c \<in> {32, 39, 45} \<longrightarrow> rest \<noteq> [] \<and> chv (hd rest) \<noteq> 32)
      \<and> name_shape c rest)"

lemma name_step_shape:
  "name_step prev c rest s = Some s' \<Longrightarrow>
     name_char c \<and> (isUppercaseLetter c \<longrightarrow> chv prev = 32)
      \<and> (chv c \<in> {32, 39, 45} \<longrightarrow> rest \<noteq> [] \<and> chv (hd rest) \<noteq> 32)"
  by (cases rest)
     (auto simp: name_step_def name_quote_def name_dash_def at_word_end_def name_char_def
        isLowercaseLetter_def isUppercaseLetter_def split: if_splits Option.bind_splits)

lemma name_loop_shape: "name_loop prev rest s \<Longrightarrow> name_shape prev rest"
  by (induction rest arbitrary: prev s) (auto split: option.splits dest!: name_step_shape)

text \<open>
  An accepted character name is not empty, starts with a letter (a capital one on request),
  and consists of letters, spaces, quotes and dashes only; capitals stand at the start of words;
  a space, quote or dash is never the last character and is never followed by a space.
\<close>

theorem isValidName_shape:
  assumes "isValidName s b"
  shows "s \<noteq> [] \<and> (isLowercaseLetter (hd s) \<or> isUppercaseLetter (hd s))
    \<and> (b \<longrightarrow> isUppercaseLetter (hd s)) \<and> name_shape (hd s) (tl s)"
  using assms by (auto simp: isValidName_def split: list.splits if_splits dest: name_loop_shape)

theorem isValidName_shape_witness:
  "isValidName ''Sir Arthur'' True \<and> name_shape (CHR ''S'') ''ir Arthur''"
proof -
  have v: "isValidName ''Sir Arthur'' True" by code_simp
  show ?thesis using v isValidName_shape[OF v] by simp
qed

section \<open>Name tables\<close>

datatype skull = SKULL_NONE | SKULL_YELLOW | SKULL_GREEN | SKULL_WHITE | SKULL_RED | SKULL_BLACK

fun skull_num :: "skull \<Rightarrow> nat" where
  "skull_num SKULL_NONE = 0" | "skull_num SKULL_YELLOW = 1" | "skull_num SKULL_GREEN = 2"
| "skull_num SKULL_WHITE = 3" | "skull_num SKULL_RED = 4" | "skull_num SKULL_BLACK = 5"

definition getSkulls :: "string \<Rightarrow> skull" where
  "getSkulls strValue = (let t = asLowerCaseString strValue in
     if t = ''black'' \<or> t = ''5'' then SKULL_BLACK
     else if t = ''red'' \<or> t = ''4'' then SKULL_RED
     else if t = ''white'' \<or> t = ''3'' then SKULL_WHITE
     else if t = ''green'' \<or> t = ''2'' then SKULL_GREEN
     else if t = ''yellow'' \<or> t = ''1'' then SKULL_YELLOW
     else SKULL_NONE)"

datatype shield = SHIELD_NONE | SHIELD_WHITEYELLOW | SHIELD_WHITEBLUE | SHIELD_BLUE | SHIELD_YELLOW
  | SHIELD_BLUE_SHAREDEXP | SHIELD_YELLOW_SHAREDEXP | SHIELD_BLUE_NOSHAREDEXP_BLINK
  | SHIELD_YELLOW_NOSHAREDEXP_BLINK | SHIELD_BLUE_NOSHAREDEXP | SHIELD_YELLOW_NOSHAREDEXP

fun shield_num :: "shield \<Rightarrow> nat" where
  "shield_num SHIELD_NONE = 0" | "shield_num SHIELD_WHITEYELLOW = 1"
| "shield_num SHIELD_WHITEBLUE = 2" | "shield_num SHIELD_BLUE = 3" | "shield_num SHIELD_YELLOW = 4"
| "shield_num SHIELD_BLUE_SHAREDEXP = 5" | "shield_num SHIELD_YELLOW_SHAREDEXP = 6"
| "shield_num SHIELD_BLUE_NOSHAREDEXP_BLINK = 7" | "shield_num SHIELD_YELLOW_NOSHAREDEXP_BLINK = 8"
| "shield_num SHIELD_BLUE_NOSHAREDEXP = 9" | "shield_num SHIELD_YELLOW_NOSHAREDEXP = 10"

definition getShields :: "string \<Rightarrow> shield" where
  "getShields strValue = (let t = asLowerCaseString strValue in
     if t = ''whitenoshareoff'' \<or> t = ''10'' then SHIELD_YELLOW_NOSHAREDEXP
     else if t = ''blueshareoff'' \<or> t = ''9'' then SHIELD_BLUE_NOSHAREDEXP
     else if t = ''yellowshareblink'' \<or> t = ''8'' then SHIELD_YELLOW_NOSHAREDEXP_BLINK
     else if t = ''blueshareblink'' \<or> t = ''7'' then SHIELD_BLUE_NOSHAREDEXP_BLINK
     else if t = ''yellowshareon'' \<or> t = ''6'' then SHIELD_YELLOW_SHAREDEXP
     else if t = ''blueshareon'' \<or> t = ''5'' then SHIELD_BLUE_SHAREDEXP
     else if t = ''yellow'' \<or> t = ''4'' then SHIELD_YELLOW
     else if t = ''blue'' \<or> t = ''3'' then SHIELD_BLUE
     else if t = ''whiteyellow'' \<or> t = ''2'' then SHIELD_WHITEYELLOW
     else if t = ''whiteblue'' \<or> t = ''1'' then SHIELD_WHITEBLUE
     else SHIELD_NONE)"

datatype emblem = EMBLEM_NONE | EMBLEM_GREEN | EMBLEM_RED | EMBLEM_BLUE

fun emblem_num :: "emblem \<Rightarrow> nat" where
  "emblem_num EMBLEM_NONE = 0" | "emblem_num EMBLEM_GREEN = 1" | "emblem_num EMBLEM_RED = 2"
| "emblem_num EMBLEM_BLUE = 3"

definition getEmblems :: "string \<Rightarrow> emblem" where
  "getEmblems strValue = (let t = asLowerCaseString strValue in
     if t = ''blue'' \<or> t = ''3'' then EMBLEM_BLUE
     else if t = ''red'' \<or> t = ''2'' then EMBLEM_RED
     else if t = ''green'' \<or> t = ''1'' then EMBLEM_GREEN
     else EMBLEM_NONE)"

datatype skill = SKILL_FIST | SKILL_CLUB | SKILL_SWORD | SKILL_AXE | SKILL_DIST | SKILL_SHIELD
  | SKILL_FISH | SKILL_MAGLEVEL | SKILL_LEVEL

definition skillIdNames :: "(string \<times> skill) list" where
  "skillIdNames = [(''fist'', SKILL_FIST), (''club'', SKILL_CLUB), (''sword'', SKILL_SWORD),
     (''axe'', SKILL_AXE), (''distance'', SKILL_DIST), (''dist'', SKILL_DIST),
     (''shielding'', SKILL_SHIELD), (''shield'', SKILL_SHIELD), (''fishing'', SKILL_FISH),
     (''fish'', SKILL_FISH), (''level'', SKILL_LEVEL), (''magiclevel'', SKILL_MAGLEVEL),
     (''magic level'', SKILL_MAGLEVEL)]"

definition getSkillId :: "string \<Rightarrow> skill" where
  "getSkillId strValue = (case map_of skillIdNames strValue of Some k \<Rightarrow> k | None \<Rightarrow> SKILL_FIST)"

fun getSkillName :: "skill \<Rightarrow> bool \<Rightarrow> string" where
  "getSkillName SKILL_FIST suffix = ''fist'' @ (if suffix then '' fighting'' else [])"
| "getSkillName SKILL_CLUB suffix = ''club'' @ (if suffix then '' fighting'' else [])"
| "getSkillName SKILL_SWORD suffix = ''sword'' @ (if suffix then '' fighting'' else [])"
| "getSkillName SKILL_AXE suffix = ''axe'' @ (if suffix then '' fighting'' else [])"
| "getSkillName SKILL_DIST suffix = ''distance'' @ (if suffix then '' fighting'' else [])"
| "getSkillName SKILL_SHIELD suffix = ''shielding''"
| "getSkillName SKILL_FISH suffix = ''fishing''"
| "getSkillName SKILL_MAGLEVEL suffix = ''magic level''"
| "getSkillName SKILL_LEVEL suffix = ''level''"

text \<open>
  Reading a skull or an emblem by the number of its enumeration value gives that value back,
  and so does a party shield from three on; the numbers one and two of the shields are swapped.
  A skill is found again under the name the server prints for it.
\<close>

theorem name_tables_roundtrip:
  "getSkulls (dec_digits (skull_num s)) = s
   \<and> getEmblems (dec_digits (emblem_num e)) = e
   \<and> getShields (dec_digits (shield_num h)) =
     (if h = SHIELD_WHITEYELLOW then SHIELD_WHITEBLUE
      else if h = SHIELD_WHITEBLUE then SHIELD_WHITEYELLOW else h)
   \<and> getSkillId (getSkillName k False) = k"
proof (intro conjI)
  show "getSkulls (dec_digits (skull_num s)) = s" by (cases s; simp; code_simp)
  show "getEmblems (dec_digits (emblem_num e)) = e" by (cases e; simp; code_simp)
  show "getShields (dec_digits (shield_num h)) =
     (if h = SHIELD_WHITEYELLOW then SHIELD_WHITEBLUE
      else if h = SHIELD_WHITEBLUE then SHIELD_WHITEYELLOW else h)" by (cases h; simp; code_simp)
  show "getSkillId (getSkillName k False) = k"
    by (cases k) (simp_all add: getSkillId_def skillIdNames_def)
qed

definition parseVocationString :: "string list \<Rightarrow> string" where
  "parseVocationString v =
     concat (map (\<lambda>it. (if it \<noteq> hd v then (if it \<noteq> last v then '', '' else '' and '') else [])
       @ it @ ''s'') v)"

end
