(* ===== verification/NetMessages.thy ===== *)
theory NetMessages
  imports Positions
begin

text \<open>
  The message buffer of \<^verbatim>\<open>networkmessage.h\<close> / \<^verbatim>\<open>networkmessage.cpp\<close> and the header
  operations of \<^verbatim>\<open>outputmessage.h\<close>. A buffer is a list of \<open>NETWORK_MAX_SIZE\<close> bytes; an
  operation that would touch memory outside of it is \<^const>\<open>None\<close>.
\<close>

section \<open>State\<close>

definition NETWORK_MAX_SIZE :: nat where "NETWORK_MAX_SIZE = 15360"
definition NETWORK_CRYPTOHEADER_SIZE :: u16 where "NETWORK_CRYPTOHEADER_SIZE = 8"
definition NETWORK_HEADER_SIZE :: u16 where "NETWORK_HEADER_SIZE = 2"

record netmsg =
  m_size :: u16
  m_position :: u16
  m_buffer :: bytes

definition wf_msg :: "('a) netmsg_scheme \<Rightarrow> bool" where
  [inv_simps]: "wf_msg m \<longleftrightarrow> length (m_buffer m) = NETWORK_MAX_SIZE"

definition reset :: "u16 \<Rightarrow> ('a) netmsg_scheme \<Rightarrow> ('a) netmsg_scheme" where
  "reset sz m = m\<lparr>m_size := 0, m_position := sz\<rparr>"

section \<open>Memory\<close>

definition buf_write :: "nat \<Rightarrow> bytes \<Rightarrow> bytes \<Rightarrow> bytes option" where
  "buf_write pos bs buf =
     (if pos + length bs \<le> length buf then Some (take pos buf @ bs @ drop (pos + length bs) buf)
      else None)"

definition buf_read :: "nat \<Rightarrow> nat \<Rightarrow> bytes \<Rightarrow> bytes option" where
  "buf_read pos n buf = (if pos + n \<le> length buf then Some (take n (drop pos buf)) else None)"

lemma buf_write_length: "buf_write pos bs buf = Some b \<Longrightarrow> length b = length buf"
  by (auto simp: buf_write_def split: if_splits)

lemma buf_read_write:
  "buf_write pos bs buf = Some b \<Longrightarrow> buf_read pos (length bs) b = Some bs"
  by (auto simp: buf_write_def buf_read_def split: if_splits)

lemma buf_read_length: "buf_read pos n buf = Some bs \<Longrightarrow> length bs = n"
  by (auto simp: buf_read_def split: if_splits)

lemma buf_read_write_before:
  "buf_write pos bs buf = Some b \<Longrightarrow> p + n \<le> pos \<Longrightarrow> buf_read p n b = buf_read p n buf"
  by (auto simp: buf_write_def buf_read_def drop_take split: if_splits)

lemma buf_read_write_after:
  "buf_write pos bs buf = Some b \<Longrightarrow> pos + length bs \<le> p \<Longrightarrow> buf_read p n b = buf_read p n buf"
proof -
  assume "buf_write pos bs buf = Some b" and p: "pos + length bs \<le> p"
  then have l: "pos + length bs \<le> length buf"
    and b: "b = take pos buf @ bs @ drop (pos + length bs) buf"
    by (auto simp: buf_write_def split: if_splits)
  then have "drop p b = drop p buf" using p by simp
  moreover have "length b = length buf" using l b by simp
  ultimately show ?thesis by (simp add: buf_read_def)
qed

section \<open>Reading\<close>

definition get_raw :: "nat \<Rightarrow> bool \<Rightarrow> ('a) netmsg_scheme \<Rightarrow> (bytes \<times> ('a) netmsg_scheme) option" where
  "get_raw n peek m =
     (case buf_read (unat (m_position m)) n (m_buffer m) of
        None \<Rightarrow> None
      | Some bs \<Rightarrow> Some (bs, if peek then m else m\<lparr>m_position := m_position m + of_nat n\<rparr>))"

definition get_u8 :: "bool \<Rightarrow> ('a) netmsg_scheme \<Rightarrow> (u8 \<times> ('a) netmsg_scheme) option" where
  "get_u8 peek m = map_option (map_prod (\<lambda>bs. bs ! 0) id) (get_raw 1 peek m)"

definition get_u16 :: "bool \<Rightarrow> ('a) netmsg_scheme \<Rightarrow> (u16 \<times> ('a) netmsg_scheme) option" where
  "get_u16 peek m = map_option (map_prod (\<lambda>bs. of_le16 (bs ! 0) (bs ! 1)) id) (get_raw 2 peek m)"

definition get_u32 :: "bool \<Rightarrow> ('a) netmsg_scheme \<Rightarrow> (u32 \<times> ('a) netmsg_scheme) option" where
  "get_u32 peek m =
     map_option (map_prod (\<lambda>bs. of_le32 (bs ! 0) (bs ! 1) (bs ! 2) (bs ! 3)) id) (get_raw 4 peek m)"

text \<open>
  \<open>getString\<close>: with \<open>size = 0\<close> the length is read first. The bound tested is 16384, not the
  size of the buffer.
\<close>

definition getString :: "bool \<Rightarrow> u16 \<Rightarrow> ('a) netmsg_scheme \<Rightarrow> (bytes \<times> ('a) netmsg_scheme) option" where
  "getString peek sz m =
     Option.bind (if sz = 0 then get_u16 peek m else Some (sz, m)) (\<lambda>(sz, m).
       let position = (if peek then m_position m + 2 else m_position m) in
       if uint sz \<ge> 16384 - uint position then Some ([], m)
       else Option.bind (buf_read (unat position) (unat sz) (m_buffer m)) (\<lambda>v.
         if peek then Some (v, m) else Some (v, m\<lparr>m_position := m_position m + sz\<rparr>)))"

definition getRaw :: "bool \<Rightarrow> ('a) netmsg_scheme \<Rightarrow> (bytes \<times> ('a) netmsg_scheme) option" where
  "getRaw peek m = getString peek (m_size m - m_position m) m"

definition getPosition :: "('a) netmsg_scheme \<Rightarrow> (position \<times> ('a) netmsg_scheme) option" where
  "getPosition m =
     Option.bind (get_u16 False m) (\<lambda>(x, m).
     Option.bind (get_u16 False m) (\<lambda>(y, m).
     Option.bind (get_u8 False m) (\<lambda>(z, m). Some (Position x y (scast z), m))))"

definition skip :: "int \<Rightarrow> ('a) netmsg_scheme \<Rightarrow> ('a) netmsg_scheme" where
  "skip count m = m\<lparr>m_position := m_position m + of_int count\<rparr>"

definition decodeHeader :: "('a) netmsg_scheme \<Rightarrow> int \<times> ('a) netmsg_scheme" where
  "decodeHeader m = (let sz = of_le16 (m_buffer m ! 0) (m_buffer m ! 1) in
     (uint sz, m\<lparr>m_size := sz\<rparr>))"

definition bodyBuffer :: "('a) netmsg_scheme \<Rightarrow> nat \<times> ('a) netmsg_scheme" where
  "bodyBuffer m = (unat NETWORK_HEADER_SIZE, m\<lparr>m_position := NETWORK_HEADER_SIZE\<rparr>)"

section \<open>Writing\<close>

text \<open>
  \<open>hasSpace\<close> takes its amount as an \<^verbatim>\<open>int32_t\<close>, so the unsigned amounts of \<open>putString\<close>,
  \<open>putBytes\<close> and \<open>putPadding\<close> are converted to 32 bits with a sign; the sum with the position is
  taken in that type too (its overflow, undefined in C++, wraps around here).
\<close>

definition hasSpace :: "u32 \<Rightarrow> ('a) netmsg_scheme \<Rightarrow> bool" where
  "hasSpace sz m = (sint (sz + ucast (m_position m) :: u32) < int NETWORK_MAX_SIZE - 16)"

definition put_raw :: "bytes \<Rightarrow> ('a) netmsg_scheme \<Rightarrow> ('a) netmsg_scheme option" where
  "put_raw bs m =
     (if \<not> hasSpace (of_nat (length bs)) m then Some m
      else case buf_write (unat (m_position m)) bs (m_buffer m) of
        None \<Rightarrow> None
      | Some b \<Rightarrow> Some (m\<lparr>m_buffer := b, m_position := m_position m + of_nat (length bs),
                         m_size := m_size m + of_nat (length bs)\<rparr>))"

definition put_u8 :: "u8 \<Rightarrow> ('a) netmsg_scheme \<Rightarrow> ('a) netmsg_scheme option" where
  "put_u8 v = put_raw [v]"

definition put_u16 :: "u16 \<Rightarrow> ('a) netmsg_scheme \<Rightarrow> ('a) netmsg_scheme option" where
  "put_u16 v = put_raw (le_bytes16 v)"

definition put_u32 :: "u32 \<Rightarrow> ('a) netmsg_scheme \<Rightarrow> ('a) netmsg_scheme option" where
  "put_u32 v = put_raw (le_bytes32 v)"

text \<open>
  \<open>putString\<close> takes a C string: the bytes before the first NUL. \<open>strcpy\<close> also writes the NUL,
  which is not counted in the message.
\<close>

definition putString :: "bytes \<Rightarrow> bool \<Rightarrow> ('a) netmsg_scheme \<Rightarrow> ('a) netmsg_scheme option" where
  "putString str addSize m =
     (let v = takeWhile (\<lambda>b. b \<noteq> 0) str; sz = of_nat (length v) :: u32 in
      if \<not> hasSpace (sz + (if addSize then 2 else 0)) m \<or> sz > 8192 then Some m
      else Option.bind (if addSize then put_u16 (ucast sz) m else Some m) (\<lambda>m.
        case buf_write (unat (m_position m)) (v @ [0]) (m_buffer m) of
          None \<Rightarrow> None
        | Some b \<Rightarrow> Some (m\<lparr>m_buffer := b, m_position := m_position m + ucast sz,
                           m_size := m_size m + ucast sz\<rparr>)))"

definition putBytes :: "bytes \<Rightarrow> ('a) netmsg_scheme \<Rightarrow> ('a) netmsg_scheme option" where
  "putBytes bs m =
     (if \<not> hasSpace (of_nat (length bs)) m then Some m
      else case buf_write (unat (m_position m)) bs (m_buffer m) of
        None \<Rightarrow> None
      | Some b \<Rightarrow> Some (m\<lparr>m_buffer := b, m_position := m_position m + of_nat (length bs),
                         m_size := m_size m + of_nat (length bs)\<rparr>))"

definition putPadding :: "u32 \<Rightarrow> ('a) netmsg_scheme \<Rightarrow> ('a) netmsg_scheme option" where
  "putPadding amount m =
     (if \<not> hasSpace amount m then Some m
      else case buf_write (unat (m_position m)) (replicate (unat amount) 0x33) (m_buffer m) of
        None \<Rightarrow> None
      | Some b \<Rightarrow> Some (m\<lparr>m_buffer := b, m_size := m_size m + ucast amount\<rparr>))"

definition putPosition :: "position \<Rightarrow> ('a) netmsg_scheme \<Rightarrow> ('a) netmsg_scheme option" where
  "putPosition pos m =
     Option.bind (put_u16 (px pos) m) (\<lambda>m.
     Option.bind (put_u16 (py pos) m) (\<lambda>m. put_u8 (ucast (pz pos)) m))"

text \<open>
  The item table is loaded from the data files; an entry is what these operations read of it.
\<close>

record item_type =
  it_clientId :: u16
  it_stackable :: bool
  it_splash :: bool
  it_fluidContainer :: bool

definition CLIENTFLUIDS :: "u8 list \<Rightarrow> u8 \<Rightarrow> u8" where
  "CLIENTFLUIDS fluidMap count = fluidMap ! (unat count mod 8)"

definition putItem :: "u8 list \<Rightarrow> (u16 \<Rightarrow> item_type) \<Rightarrow> u16 \<Rightarrow> u8 \<Rightarrow>
    ('a) netmsg_scheme \<Rightarrow> ('a) netmsg_scheme option" where
  "putItem fluidMap items itemId count m =
     (let it = items itemId in
      Option.bind (put_u16 (it_clientId it) m) (\<lambda>m.
        if it_stackable it then put_u8 count m
        else if it_splash it \<or> it_fluidContainer it then put_u8 (CLIENTFLUIDS fluidMap count) m
        else Some m))"

definition putItemId :: "(u16 \<Rightarrow> item_type) \<Rightarrow> u16 \<Rightarrow> ('a) netmsg_scheme \<Rightarrow> ('a) netmsg_scheme option" where
  "putItemId items itemId m = put_u16 (it_clientId (items itemId)) m"

section \<open>Writes stay inside the buffer\<close>

lemma hasSpace_iff:
  "hasSpace sz m \<longleftrightarrow>
     (unat sz + unat (m_position m)) mod 2 ^ 32 < 15344 \<or>
     2 ^ 31 \<le> (unat sz + unat (m_position m)) mod 2 ^ 32"
proof -
  let ?w = "sz + ucast (m_position m) :: u32"
  have k: "unat ?w = (unat sz + unat (m_position m)) mod 2 ^ 32"
    by (simp add: unat_word_ariths unsigned_ucast_eq take_bit_eq_mod mod_simps)
  have "unat ?w < 2 ^ 32" using unsigned_less[of ?w] by simp
  then obtain u where u: "unat ?w = u" "uint ?w = int u" "u < 2 ^ 32"
    using uint_nat by blast
  show ?thesis unfolding hasSpace_def NETWORK_MAX_SIZE_def sint_u32 k[symmetric] u(1,2)
    using u(3) by auto
qed

lemma hasSpace_bound:
  assumes "n < 2 ^ 30"
  shows "hasSpace (of_nat n) m \<longleftrightarrow> unat (m_position m) + n < 15344"
proof -
  have "unat (of_nat n :: u32) = n" using assms by (simp add: unat_of_nat take_bit_eq_mod)
  moreover have "unat (m_position m) < 65536" using unsigned_less[of "m_position m"] by simp
  ultimately show ?thesis using assms unfolding hasSpace_iff by (auto simp: add.commute)
qed

text \<open>
  A write of that many bytes, in numbers: it passes the test although it does not fit, exactly when
  the sum with the position is negative as a 32-bit number or has wrapped around.
\<close>

definition leaves_buffer :: "nat \<Rightarrow> ('a) netmsg_scheme \<Rightarrow> bool" where
  "leaves_buffer n m \<longleftrightarrow> 2 ^ 31 \<le> n + unat (m_position m) \<and> n + unat (m_position m) < 2 ^ 32 + 15344"

lemma hasSpace_write:
  assumes "n < 2 ^ 32" and "wf_msg m"
  shows "hasSpace (of_nat n) m \<and> length (m_buffer m) < unat (m_position m) + n \<longleftrightarrow> leaves_buffer n m"
proof -
  have n: "unat (of_nat n :: u32) = n" using assms(1) by (simp add: unat_of_nat take_bit_eq_mod)
  have p: "unat (m_position m) < 65536" using unsigned_less[of "m_position m"] by simp
  consider "n + unat (m_position m) < 2 ^ 32" | "2 ^ 32 \<le> n + unat (m_position m)" by linarith
  then show ?thesis
  proof cases
    case 1
    then show ?thesis using assms(2)
      by (auto simp: hasSpace_iff n leaves_buffer_def inv_simps NETWORK_MAX_SIZE_def)
  next
    case 2
    then have "(n + unat (m_position m)) mod 2 ^ 32 = n + unat (m_position m) - 2 ^ 32"
      using assms(1) p by (simp add: mod_if)
    then show ?thesis using 2 assms p
      by (auto simp: hasSpace_iff n leaves_buffer_def inv_simps NETWORK_MAX_SIZE_def)
  qed
qed

lemma put_raw_ok:
  assumes "wf_msg m" and "length bs < 2 ^ 30"
  shows "\<exists>m'. put_raw bs m = Some m' \<and> wf_msg m'"
proof (cases "hasSpace (of_nat (length bs)) m")
  case True
  have "unat (m_position m) + length bs \<le> length (m_buffer m)"
    using True assms by (simp add: inv_simps hasSpace_bound NETWORK_MAX_SIZE_def)
  then obtain b where "buf_write (unat (m_position m)) bs (m_buffer m) = Some b"
    by (simp add: buf_write_def)
  with True assms show ?thesis by (simp add: put_raw_def inv_simps buf_write_length)
next
  case False
  with assms show ?thesis by (simp add: put_raw_def)
qed

lemma put_u16_ok: "wf_msg m \<Longrightarrow> \<exists>m'. put_u16 v m = Some m' \<and> wf_msg m'"
  by (simp add: put_u16_def put_raw_ok le_bytes16_def)

lemma put_u8_ok: "wf_msg m \<Longrightarrow> \<exists>m'. put_u8 v m = Some m' \<and> wf_msg m'"
  by (simp add: put_u8_def put_raw_ok)

lemma put_u32_ok: "wf_msg m \<Longrightarrow> \<exists>m'. put_u32 v m = Some m' \<and> wf_msg m'"
  by (simp add: put_u32_def put_raw_ok le_bytes32_def)

lemma putPadding_out:
  assumes "wf_msg m"
  shows "putPadding n m = None \<longleftrightarrow> leaves_buffer (unat n) m"
    and "putPadding n m = Some m' \<Longrightarrow> wf_msg m'"
  using hasSpace_write[of "unat n" m] unsigned_less[of n] assms
  by (auto simp: putPadding_def buf_write_def inv_simps not_le split: if_splits)

lemma putBytes_out:
  assumes "wf_msg m" and "length bs < 2 ^ 32"
  shows "putBytes bs m = None \<longleftrightarrow> leaves_buffer (length bs) m"
    and "putBytes bs m = Some m' \<Longrightarrow> wf_msg m'"
  using hasSpace_write[of "length bs" m] assms
  by (auto simp: putBytes_def buf_write_def inv_simps not_le split: if_splits)

lemma put_u16_space:
  assumes "wf_msg m" and "hasSpace (of_nat (n + 2)) m" and "n \<le> 8192"
  obtains b where "put_u16 v m = Some (m\<lparr>m_buffer := b, m_position := m_position m + 2,
      m_size := m_size m + 2\<rparr>)"
    and "buf_write (unat (m_position m)) (le_bytes16 v) (m_buffer m) = Some b"
    and "unat (m_position m + 2) = unat (m_position m) + 2"
    and "length b = NETWORK_MAX_SIZE"
proof -
  have h: "unat (m_position m) + (n + 2) < 15344"
    using hasSpace_bound[of "n + 2" m] assms(2,3) by simp
  then have "hasSpace (of_nat 2) m" by (subst hasSpace_bound) simp_all
  moreover obtain b where b: "buf_write (unat (m_position m)) (le_bytes16 v) (m_buffer m) = Some b"
    using h assms(1) by (auto simp: buf_write_def inv_simps NETWORK_MAX_SIZE_def)
  moreover have "unat (m_position m + 2) = unat (m_position m) + 2"
    using h by (simp add: unat_add_small)
  moreover have "length b = NETWORK_MAX_SIZE" using buf_write_length[OF b] assms(1) by (simp add: inv_simps)
  ultimately show ?thesis using that by (simp add: put_u16_def put_raw_def)
qed

text \<open>The tests of \<open>putString\<close> in numbers, for a string whose length fits 32 bits.\<close>

lemma putString_len:
  assumes "n < 2 ^ 32"
  shows "(of_nat n :: u32) > 8192 \<longleftrightarrow> n > 8192"
    and "(of_nat n :: u32) + 2 = of_nat (n + 2)"
    and "(ucast (of_nat n :: u32) :: u16) = of_nat n"
proof -
  have "unat (of_nat n :: u32) = n" using assms by (simp add: unat_of_nat take_bit_eq_mod)
  then show "(of_nat n :: u32) > 8192 \<longleftrightarrow> n > 8192" by (simp add: word_less_nat_alt)
  show "(ucast (of_nat n :: u32) :: u16) = of_nat n"
    using assms by (simp add: unsigned_of_nat take_bit_nat_eq_self)
qed simp

lemma putString_space:
  assumes wf: "wf_msg m" and v: "v = takeWhile (\<lambda>b. b \<noteq> 0) str"
    and sp: "hasSpace (of_nat (length v + 2)) m" "length v \<le> 8192"
  obtains b1 b2 where
    "putString str True m = Some (m\<lparr>m_buffer := b2, m_position := m_position m + 2 + of_nat (length v),
        m_size := m_size m + 2 + of_nat (length v)\<rparr>)"
    and "buf_write (unat (m_position m)) (le_bytes16 (of_nat (length v))) (m_buffer m) = Some b1"
    and "buf_write (unat (m_position m) + 2) (v @ [0]) b1 = Some b2"
    and "length b2 = NETWORK_MAX_SIZE"
proof -
  from put_u16_space[OF wf sp, of "of_nat (length v)"] obtain b1 where
    p: "put_u16 (of_nat (length v)) m = Some (m\<lparr>m_buffer := b1, m_position := m_position m + 2,
          m_size := m_size m + 2\<rparr>)"
    and b1: "buf_write (unat (m_position m)) (le_bytes16 (of_nat (length v))) (m_buffer m) = Some b1"
    and pos: "unat (m_position m + 2) = unat (m_position m) + 2"
    and l1: "length b1 = NETWORK_MAX_SIZE" by blast
  have "unat (m_position m) + (length v + 2) < 15344"
    using hasSpace_bound[of "length v + 2" m] sp by simp
  then obtain b2 where b2: "buf_write (unat (m_position m) + 2) (v @ [0]) b1 = Some b2"
    by (simp add: buf_write_def l1 NETWORK_MAX_SIZE_def)
  have "length v < 2 ^ 32" using sp(2) by simp
  note n = putString_len[OF this]
  have h: "hasSpace (of_nat (length v) + 2) m" by (simp only: n(2) sp)
  have "putString str True m = Some (m\<lparr>m_buffer := b2,
      m_position := m_position m + 2 + of_nat (length v), m_size := m_size m + 2 + of_nat (length v)\<rparr>)"
    using sp(2) b2 n(1,3) h by (simp add: putString_def v[symmetric] p pos Let_def)
  then show ?thesis using that b1 b2 buf_write_length[OF b2] l1 by simp
qed

lemma putString_ok:
  assumes "wf_msg m" and "length (takeWhile (\<lambda>b. b \<noteq> 0) str) < 2 ^ 32"
  shows "\<exists>m'. putString str addSize m = Some m' \<and> wf_msg m'"
proof -
  define v where "v = takeWhile (\<lambda>b. b \<noteq> 0) str"
  note n = putString_len[OF assms(2), folded v_def]
  consider "\<not> hasSpace (of_nat (length v) + (if addSize then 2 else 0)) m \<or> length v > 8192"
    | "hasSpace (of_nat (length v) + 2) m" "length v \<le> 8192" "addSize"
    | "hasSpace (of_nat (length v)) m" "length v \<le> 8192" "\<not> addSize"
    by (cases "length v > 8192"; cases addSize) (simp_all add: not_less, blast+)
  then show ?thesis
  proof cases
    case 1
    with assms n show ?thesis by (auto simp: putString_def v_def[symmetric] Let_def)
  next
    case 2
    have "hasSpace (of_nat (length v + 2)) m" using 2(1) n(2) by simp
    from putString_space[OF assms(1) v_def this 2(2)] obtain b2 where
      "putString str True m = Some (m\<lparr>m_buffer := b2,
        m_position := m_position m + 2 + of_nat (length v),
        m_size := m_size m + 2 + of_nat (length v)\<rparr>)" "length b2 = NETWORK_MAX_SIZE" by blast
    with 2(3) show ?thesis by (simp add: inv_simps)
  next
    case 3
    then have "unat (m_position m) + length v < 15344" by (simp add: hasSpace_bound)
    then obtain b where b: "buf_write (unat (m_position m)) (v @ [0]) (m_buffer m) = Some b"
      using assms by (simp add: buf_write_def inv_simps NETWORK_MAX_SIZE_def)
    from 3 b assms n buf_write_length[OF b] show ?thesis
      by (simp add: putString_def v_def[symmetric] inv_simps Let_def)
  qed
qed

text \<open>
  C35. Values of fixed width, positions, items and strings (of less than 4 GB) never touch memory
  outside the buffer, whatever the position of the message is: they are dropped or stored. Padding
  and raw bytes do so exactly for amounts that the conversion to a signed 32-bit number makes
  negative or wraps around; whatever is written, the message stays well-formed.
\<close>

theorem net_writes_in_bounds:
  assumes "wf_msg m" and "length (takeWhile (\<lambda>b. b \<noteq> 0) str) < 2 ^ 32" and "length bs < 2 ^ 32"
  shows "(\<exists>m'. put_u8 a m = Some m' \<and> wf_msg m')
    \<and> (\<exists>m'. put_u16 w m = Some m' \<and> wf_msg m')
    \<and> (\<exists>m'. put_u32 d m = Some m' \<and> wf_msg m')
    \<and> (\<exists>m'. putString str addSize m = Some m' \<and> wf_msg m')
    \<and> (\<exists>m'. putPosition pos m = Some m' \<and> wf_msg m')
    \<and> (\<exists>m'. putItem fm items i c m = Some m' \<and> wf_msg m')
    \<and> (putPadding n m = None \<longleftrightarrow> 2 ^ 31 \<le> unat n + unat (m_position m)
         \<and> unat n + unat (m_position m) < 2 ^ 32 + 15344)
    \<and> (putBytes bs m = None \<longleftrightarrow> 2 ^ 31 \<le> length bs + unat (m_position m)
         \<and> length bs + unat (m_position m) < 2 ^ 32 + 15344)
    \<and> (\<forall>m'. putPadding n m = Some m' \<or> putBytes bs m = Some m' \<longrightarrow> wf_msg m')"
proof (intro conjI)
  show "\<exists>m'. put_u8 a m = Some m' \<and> wf_msg m'" by (rule put_u8_ok[OF assms(1)])
  show "\<exists>m'. put_u16 w m = Some m' \<and> wf_msg m'" by (rule put_u16_ok[OF assms(1)])
  show "\<exists>m'. put_u32 d m = Some m' \<and> wf_msg m'" by (rule put_u32_ok[OF assms(1)])
  show "\<exists>m'. putString str addSize m = Some m' \<and> wf_msg m'" by (rule putString_ok[OF assms(1,2)])
  obtain m1 where m1: "put_u16 (px pos) m = Some m1" "wf_msg m1" using put_u16_ok[OF assms(1)] by blast
  obtain m2 where m2: "put_u16 (py pos) m1 = Some m2" "wf_msg m2" using put_u16_ok[OF m1(2)] by blast
  show "\<exists>m'. putPosition pos m = Some m' \<and> wf_msg m'"
    using put_u8_ok[OF m2(2)] by (simp add: putPosition_def m1 m2)
  obtain m3 where m3: "put_u16 (it_clientId (items i)) m = Some m3" "wf_msg m3"
    using put_u16_ok[OF assms(1)] by blast
  show "\<exists>m'. putItem fm items i c m = Some m' \<and> wf_msg m'"
    using put_u8_ok[OF m3(2)] m3(2) by (simp add: putItem_def m3 Let_def)
qed (use assms putPadding_out putBytes_out in \<open>unfold leaves_buffer_def, blast+\<close>)

definition empty_msg :: netmsg where
  "empty_msg = \<lparr>m_size = 0, m_position = 8, m_buffer = replicate NETWORK_MAX_SIZE 0\<rparr>"

lemma wf_empty_msg: "wf_msg empty_msg"
  by (simp add: inv_simps empty_msg_def)

theorem net_writes_in_bounds_witness:
  "(\<exists>m'. putString [104, 105] True empty_msg = Some m' \<and> wf_msg m')
   \<and> putPadding 0x80000000 empty_msg = None \<and> putPadding 0x7FFFFF00 empty_msg \<noteq> None
   \<and> putBytes [1, 2] empty_msg \<noteq> None"
  using net_writes_in_bounds[OF wf_empty_msg, of "[104, 105]" "[1, 2]" _ _ _ True _ _ _ _ _ "0x80000000"]
    net_writes_in_bounds[OF wf_empty_msg, of "[104, 105]" "[1, 2]" _ _ _ True _ _ _ _ _ "0x7FFFFF00"]
  by (simp add: empty_msg_def)

section \<open>Reading back what was written\<close>

lemma buf_read_prefix: "buf_read p (length xs + k) b = Some (xs @ ys) \<Longrightarrow> buf_read p (length xs) b = Some xs"
  by (auto simp: buf_read_def take_add append_eq_append_conv_if split: if_splits)

lemma get_u16_at:
  "buf_read (unat (m_position m)) 2 (m_buffer m) = Some (le_bytes16 v) \<Longrightarrow>
     get_u16 False m = Some (v, m\<lparr>m_position := m_position m + 2\<rparr>)"
  by (simp add: get_u16_def get_raw_def le_bytes16_def)

text \<open>
  A string that was written with its length is read back unchanged by \<open>getString\<close>, and the
  reader ends where the writer ended.
\<close>

theorem net_string_roundtrip:
  assumes "wf_msg m" and "0 \<notin> set str" and "hasSpace (of_nat (length str + 2)) m" and "length str \<le> 8192"
  shows "\<exists>m'. putString str True m = Some m' \<and>
     getString False 0 (m'\<lparr>m_position := m_position m\<rparr>) = Some (str, m')"
proof -
  have v: "str = takeWhile (\<lambda>b. b \<noteq> 0) str" 
    using assms(2) by (intro takeWhile_eq_all_conv[THEN iffD2, symmetric]) auto
  let ?p = "unat (m_position m)"
  from putString_space[OF assms(1) v assms(3,4)] obtain b1 b2 where
    e: "putString str True m = Some (m\<lparr>m_buffer := b2,
        m_position := m_position m + 2 + of_nat (length str),
        m_size := m_size m + 2 + of_nat (length str)\<rparr>)"
    and b1: "buf_write ?p (le_bytes16 (of_nat (length str))) (m_buffer m) = Some b1"
    and b2: "buf_write (?p + 2) (str @ [0]) b1 = Some b2" by blast
  have h: "?p + (length str + 2) < 15344"
    using hasSpace_bound[of "length str + 2" m] assms(3,4) by simp
  have p2: "unat (m_position m + 2) = ?p + 2"
    using h by (simp add: unat_add_small)
  have len: "unat (of_nat (length str) :: u16) = length str"
    using assms(4) by (simp add: unat_of_nat take_bit_eq_mod)
  have "buf_read ?p 2 b2 = buf_read ?p 2 b1" by (rule buf_read_write_before[OF b2]) simp
  also have "\<dots> = Some (le_bytes16 (of_nat (length str)))" using buf_read_write[OF b1] by simp
  finally have r1: "buf_read ?p 2 b2 = Some (le_bytes16 (of_nat (length str)))" .
  have r2: "buf_read (?p + 2) (length str) b2 = Some str"
    by (rule buf_read_prefix[where k = 1 and ys = "[0]"]) (use buf_read_write[OF b2] in simp)
  have "uint (of_nat (length str) :: u16) = int (length str)"
    "uint (m_position m + 2) = int (?p + 2)"
    by (simp_all only: uint_nat len p2)
  then have "\<not> uint (of_nat (length str) :: u16) \<ge> 16384 - uint (m_position m + 2)"
    using h by linarith
  then have "getString False 0 (m\<lparr>m_buffer := b2, m_position := m_position m,
      m_size := m_size m + 2 + of_nat (length str)\<rparr>) =
    Some (str, m\<lparr>m_buffer := b2, m_position := m_position m + 2 + of_nat (length str),
      m_size := m_size m + 2 + of_nat (length str)\<rparr>)"
    using r2 by (simp add: getString_def get_u16_at r1 p2 len Let_def)
  with e show ?thesis by simp
qed

theorem net_string_roundtrip_witness:
  "\<exists>m'. putString [104, 105] True empty_msg = Some m' \<and>
     getString False 0 (m'\<lparr>m_position := 8\<rparr>) = Some ([104, 105], m')"
  using net_string_roundtrip[of empty_msg "[104, 105]"]
  by (simp add: wf_empty_msg) (simp add: empty_msg_def hasSpace_iff)

text \<open>
  \<open>getString\<close> with an explicit length reads outside of the buffer exactly when the text ends
  between the end of the buffer (15360) and the bound the code tests (16384).
\<close>

theorem net_getString_overread:
  assumes "wf_msg m" and "sz \<noteq> 0"
  shows "getString False sz m = None \<longleftrightarrow>
    15360 < unat (m_position m) + unat sz \<and> unat (m_position m) + unat sz < 16384"
proof -
  have e: "uint sz \<ge> 16384 - uint (m_position m) \<longleftrightarrow> 16384 \<le> unat (m_position m) + unat sz"
    by (simp only: uint_nat) linarith
  show ?thesis
    using assms unfolding getString_def
    by (auto simp: e buf_read_def inv_simps NETWORK_MAX_SIZE_def Let_def)
qed

theorem net_getString_overread_witness: "getString False 16000 empty_msg = None"
  using net_getString_overread[OF wf_empty_msg, of 16000] by (simp add: empty_msg_def)

end

