(* ===== verification/ProtocolCrypt.thy ===== *)
theory ProtocolCrypt
  imports NetMessages
begin

text \<open>
  The wire format of \<^verbatim>\<open>protocol.cpp\<close> and \<^verbatim>\<open>outputmessage.h\<close>: the headers put in front of
  an outgoing message, the XTEA cipher over the buffer and the two directions of a connection.
  The Adler-32 checksum (Crypto++) and the deflate compressor (zlib) are parameters.
\<close>

type_synonym key = "u32 list"

section \<open>The cipher over a buffer\<close>

text \<open>
  The loops treat the buffer as an array of 32-bit words and take two at a time; \<open>n\<close> is the
  number of pairs. Bytes after them are left alone.
\<close>

fun on_blocks :: "(u32 \<times> u32 \<Rightarrow> u32 \<times> u32) \<Rightarrow> nat \<Rightarrow> bytes \<Rightarrow> bytes" where
  "on_blocks f (Suc n) (a0 # a1 # a2 # a3 # b0 # b1 # b2 # b3 # rest) =
     (case f (of_le32 a0 a1 a2 a3, of_le32 b0 b1 b2 b3) of
        (v0, v1) \<Rightarrow> le_bytes32 v0 @ le_bytes32 v1 @ on_blocks f n rest)"
| "on_blocks f n bs = bs"

lemma le_bytes32_Cons:
  "le_bytes32 w @ bs = ucast w # ucast (drop_bit 8 w) # ucast (drop_bit 16 w)
     # ucast (drop_bit 24 w) # bs"
  by (simp add: le_bytes32_def)

lemma on_blocks_length [simp]: "length (on_blocks f n bs) = length bs"
  by (induction f n bs rule: on_blocks.induct) (auto split: prod.splits)

lemma split8:
  "length xs = 8 * Suc n \<Longrightarrow> \<exists>a0 a1 a2 a3 b0 b1 b2 b3 rest.
     xs = a0 # a1 # a2 # a3 # b0 # b1 # b2 # b3 # rest \<and> length rest = 8 * n"
  by (auto simp: numeral_eq_Suc length_Suc_conv)

lemma on_blocks_append:
  "length xs = 8 * n \<Longrightarrow> on_blocks f n (xs @ ys) = on_blocks f n xs @ ys"
proof (induction n arbitrary: xs)
  case 0
  then show ?case by simp
next
  case (Suc n)
  from split8[OF Suc.prems] obtain a0 a1 a2 a3 b0 b1 b2 b3 rest where
    "xs = a0 # a1 # a2 # a3 # b0 # b1 # b2 # b3 # rest" "length rest = 8 * n" by blast
  with Suc.IH show ?case by (simp split: prod.splits)
qed

lemma on_blocks_short: "length bs < 8 \<Longrightarrow> on_blocks f n bs = bs"
  by (induction f n bs rule: on_blocks.induct) auto

lemma split8_ge:
  "8 \<le> length xs \<Longrightarrow> \<exists>a0 a1 a2 a3 b0 b1 b2 b3 rest.
     xs = a0 # a1 # a2 # a3 # b0 # b1 # b2 # b3 # rest"
  by (auto simp: numeral_eq_Suc Suc_le_length_iff)

section \<open>Interface: a block cipher\<close>

text \<open>What the buffer loops rely on: the decryption of a block undoes its encryption.\<close>

locale block_cipher =
  fixes encb decb :: "u32 \<times> u32 \<Rightarrow> u32 \<times> u32"
  assumes decb_encb: "decb (encb b) = b"
begin

lemma blocks_inverse: "on_blocks decb n (on_blocks encb n bs) = bs"
proof (induction n arbitrary: bs)
  case 0
  then show ?case by simp
next
  case (Suc n)
  show ?case
  proof (cases "length bs < 8")
    case True
    then show ?thesis by (simp add: on_blocks_short)
  next
    case False
    then obtain a0 a1 a2 a3 b0 b1 b2 b3 rest where
      bs: "bs = a0 # a1 # a2 # a3 # b0 # b1 # b2 # b3 # rest"
      using split8_ge[of bs] by auto
    obtain v0 v1 where f: "encb (of_le32 a0 a1 a2 a3, of_le32 b0 b1 b2 b3) = (v0, v1)" by fastforce
    have g: "decb (v0, v1) = (of_le32 a0 a1 a2 a3, of_le32 b0 b1 b2 b3)"
      by (simp only: f[symmetric] decb_encb)
    have "on_blocks decb (Suc n) (le_bytes32 v0 @ le_bytes32 v1 @ on_blocks encb n rest) =
        le_bytes32 (of_le32 a0 a1 a2 a3) @ le_bytes32 (of_le32 b0 b1 b2 b3) @ rest"
      by (simp only: le_bytes32_Cons on_blocks.simps of_le32_bytes g prod.case Suc.IH)
    then show ?thesis by (simp add: bs f)
  qed
qed

lemma encb_inj: "encb a = encb b \<Longrightarrow> a = b"
  by (metis decb_encb)

end

section \<open>XTEA\<close>

definition XTEA_DELTA :: u32 where "XTEA_DELTA = 0x61C88647"

definition xtea_mix :: "u32 \<Rightarrow> u32" where
  "xtea_mix v = (push_bit 4 v XOR drop_bit 5 v) + v"

definition key_low :: "key \<Rightarrow> u32 \<Rightarrow> u32" where
  "key_low k s = k ! unat (s AND 3)"

definition key_high :: "key \<Rightarrow> u32 \<Rightarrow> u32" where
  "key_high k s = k ! unat (drop_bit 11 s AND 3)"

fun xtea_enc_round :: "key \<Rightarrow> u32 \<times> u32 \<times> u32 \<Rightarrow> u32 \<times> u32 \<times> u32" where
  "xtea_enc_round k (v0, v1, s) =
     (let v0 = v0 + (xtea_mix v1 XOR (s + key_low k s));
          s = s - XTEA_DELTA;
          v1 = v1 + (xtea_mix v0 XOR (s + key_high k s))
      in (v0, v1, s))"

fun xtea_dec_round :: "key \<Rightarrow> u32 \<times> u32 \<times> u32 \<Rightarrow> u32 \<times> u32 \<times> u32" where
  "xtea_dec_round k (v0, v1, s) =
     (let v1 = v1 - (xtea_mix v0 XOR (s + key_high k s));
          s = s + XTEA_DELTA;
          v0 = v0 - (xtea_mix v1 XOR (s + key_low k s))
      in (v0, v1, s))"

fun rounds :: "nat \<Rightarrow> ('s \<Rightarrow> 's) \<Rightarrow> 's \<Rightarrow> 's" where
  "rounds 0 f s = s"
| "rounds (Suc n) f s = rounds n f (f s)"

definition xtea_enc_block :: "key \<Rightarrow> u32 \<times> u32 \<Rightarrow> u32 \<times> u32" where
  "xtea_enc_block k b =
     (case rounds 32 (xtea_enc_round k) (fst b, snd b, 0) of (v0, v1, s) \<Rightarrow> (v0, v1))"

definition xtea_dec_block :: "key \<Rightarrow> u32 \<times> u32 \<Rightarrow> u32 \<times> u32" where
  "xtea_dec_block k b =
     (case rounds 32 (xtea_dec_round k) (fst b, snd b, 0xC6EF3720) of (v0, v1, s) \<Rightarrow> (v0, v1))"

lemma rounds_Suc_end: "rounds (Suc n) f s = f (rounds n f s)"
  by (induction n arbitrary: s) simp_all

lemma rounds_inverse: "(\<And>s. g (f s) = s) \<Longrightarrow> rounds n g (rounds n f s) = s"
proof (induction n arbitrary: s)
  case 0
  then show ?case by simp
next
  case (Suc n)
  have "rounds (Suc n) g (rounds (Suc n) f s) = rounds n g (g (f (rounds n f s)))"
    by (subst rounds_Suc_end[of n f]) simp
  also have "\<dots> = s" using Suc by simp
  finally show ?case .
qed

lemma xtea_dec_enc_round: "xtea_dec_round k (xtea_enc_round k s) = s"
  by (cases s) (simp add: Let_def)

lemma xtea_sum: "snd (snd (rounds n (xtea_enc_round k) (v0, v1, s))) = s - of_nat n * XTEA_DELTA"
proof (induction n arbitrary: v0 v1 s)
  case 0
  then show ?case by simp
next
  case (Suc n)
  show ?case by (simp add: Let_def Suc algebra_simps)
qed

lemma xtea_dec_enc_block: "xtea_dec_block k (xtea_enc_block k b) = b"
proof -
  obtain v0 v1 s where r: "rounds 32 (xtea_enc_round k) (fst b, snd b, 0) = (v0, v1, s)"
    by (cases "rounds 32 (xtea_enc_round k) (fst b, snd b, 0)")
  have "s = 0xC6EF3720"
    using xtea_sum[of 32 k "fst b" "snd b" 0] by (simp add: r XTEA_DELTA_def)
  then have "rounds 32 (xtea_dec_round k) (v0, v1, 0xC6EF3720) = (fst b, snd b, 0)"
    using rounds_inverse[of "xtea_dec_round k" "xtea_enc_round k" 32 "(fst b, snd b, 0)"]
    by (simp add: xtea_dec_enc_round r)
  then show ?thesis by (simp add: xtea_enc_block_def xtea_dec_block_def r)
qed

interpretation xtea: block_cipher "xtea_enc_block k" "xtea_dec_block k" for k
  by unfold_locales (rule xtea_dec_enc_block)

definition region_update :: "nat \<Rightarrow> nat \<Rightarrow> (bytes \<Rightarrow> bytes) \<Rightarrow> bytes \<Rightarrow> bytes option" where
  "region_update pos n f buf = Option.bind (buf_read pos n buf) (\<lambda>bs. buf_write pos (f bs) buf)"

section \<open>Outgoing messages\<close>

record outmsg = netmsg +
  m_outputBufferStart :: nat

definition wf_outmsg :: "outmsg \<Rightarrow> bool" where
  [inv_simps]: "wf_outmsg m \<longleftrightarrow> wf_msg m \<and> m_outputBufferStart m \<le> 8"

definition freeMessage_start :: "outmsg \<Rightarrow> outmsg" where
  "freeMessage_start m = m\<lparr>m_outputBufferStart := 8\<rparr>"

text \<open>\<open>addHeader\<close>: refuses (with a log line) when the header does not fit in front of the body.\<close>

definition addHeader :: "bytes \<Rightarrow> outmsg \<Rightarrow> outmsg option" where
  "addHeader bs m =
     (if int (m_outputBufferStart m) - int (length bs) < 0 then Some m
      else let start = m_outputBufferStart m - length bs in
        map_option (\<lambda>b. m\<lparr>m_outputBufferStart := start, m_buffer := b,
            m_size := m_size m + of_nat (length bs)\<rparr>)
          (buf_write start bs (m_buffer m)))"

definition writeMessageLength :: "outmsg \<Rightarrow> outmsg option" where
  "writeMessageLength m = addHeader (le_bytes16 (m_size m)) m"

definition adlerChecksum :: "(bytes \<Rightarrow> u32) \<Rightarrow> bytes \<Rightarrow> u32" where
  "adlerChecksum adler bs = (if length bs > NETWORK_MAX_SIZE \<or> bs = [] then 0 else adler bs)"

definition addCryptoHeader :: "(bytes \<Rightarrow> u32) \<Rightarrow> bool \<Rightarrow> outmsg \<Rightarrow> outmsg option" where
  "addCryptoHeader adler addChecksum m =
     Option.bind
       (if addChecksum then
          Option.bind (buf_read (m_outputBufferStart m) (unat (m_size m)) (m_buffer m))
            (\<lambda>bs. addHeader (le_bytes32 (adlerChecksum adler bs)) m)
        else Some m)
       (\<lambda>m. addHeader (le_bytes16 (m_size m)) m)"

text \<open>
  \<open>XTEA_encrypt\<close>: pad to a multiple of eight, then encrypt from the start of the output buffer.
  The length that is encrypted grows by the padding even when there was no room to write it.
\<close>

definition XTEA_encrypt :: "key \<Rightarrow> outmsg \<Rightarrow> outmsg option" where
  "XTEA_encrypt key msg =
     (let messageLength = unat (m_size msg); r = messageLength mod 8 in
      Option.bind (if r \<noteq> 0 then putPadding (of_nat (8 - r)) msg else Some msg) (\<lambda>msg.
        let messageLength = (if r \<noteq> 0 then messageLength + (8 - r) else messageLength) in
        map_option (\<lambda>b. msg\<lparr>m_buffer := b\<rparr>)
          (region_update (m_outputBufferStart msg) messageLength
             (on_blocks (xtea_enc_block key) (messageLength div 8)) (m_buffer msg))))"

text \<open>
  \<open>XTEA_decrypt\<close>: refuses a length that is not six plus a multiple of eight, decrypts in place,
  and takes the length field as the new size unless it exceeds what was received.
\<close>

definition XTEA_decrypt :: "key \<Rightarrow> ('a) netmsg_scheme \<Rightarrow> (bool \<times> ('a) netmsg_scheme) option" where
  "XTEA_decrypt key msg =
     (let len = int (unat (m_size msg)) - 6 in
      if len < 0 \<or> len mod 8 \<noteq> 0 then Some (False, msg)
      else Option.bind (region_update (unat (m_position msg)) (nat len)
             (on_blocks (xtea_dec_block key) (nat len div 8)) (m_buffer msg)) (\<lambda>b.
        Option.bind (get_u16 False (msg\<lparr>m_buffer := b\<rparr>)) (\<lambda>(tmp, msg).
          if int (unat tmp) > int (unat (m_size msg)) - 8 then Some (False, msg)
          else Some (True, msg\<lparr>m_size := tmp\<rparr>))))"

record protocol =
  m_rawMessages :: bool
  m_encryptionEnabled :: bool
  m_checksumEnabled :: bool
  compression :: bool
  m_key :: key

definition new_protocol :: protocol where
  "new_protocol = \<lparr>m_rawMessages = False, m_encryptionEnabled = False, m_checksumEnabled = False,
     compression = False, m_key = [0, 0, 0, 0]\<rparr>"

text \<open>
  \<open>compress\<close>: \<open>deflate\<close> gives the compressed bytes with the four bytes of the sync marker, or
  an error; in that case, or when fewer than four bytes come out, the message stays as it is.
\<close>

definition compress :: "(bytes \<Rightarrow> bytes option) \<Rightarrow> outmsg \<Rightarrow> outmsg option" where
  "compress deflate msg =
     Option.bind (buf_read (m_outputBufferStart msg) (unat (m_size msg)) (m_buffer msg)) (\<lambda>bs.
       case deflate bs of
         None \<Rightarrow> Some msg
       | Some out \<Rightarrow>
           if length out < 4 then Some msg
           else putBytes (take (length out - 4) out) (reset NETWORK_CRYPTOHEADER_SIZE msg))"

definition onSendMessage :: "(bytes \<Rightarrow> u32) \<Rightarrow> (bytes \<Rightarrow> bytes option) \<Rightarrow> protocol \<Rightarrow>
    outmsg \<Rightarrow> outmsg option" where
  "onSendMessage adler deflate p msg =
     (if m_rawMessages p then Some msg
      else Option.bind (if compression p then compress deflate msg else Some msg) (\<lambda>msg.
        Option.bind (writeMessageLength msg) (\<lambda>msg.
        Option.bind (if m_encryptionEnabled p then XTEA_encrypt (m_key p) msg else Some msg) (\<lambda>msg.
          if m_checksumEnabled p then addCryptoHeader adler True msg else Some msg))))"

text \<open>
  \<open>onRecvMessage\<close> hands the message to \<open>parsePacket\<close> whether or not the decryption succeeded.
\<close>

definition onRecvMessage :: "protocol \<Rightarrow> (('a) netmsg_scheme \<Rightarrow> 'r) \<Rightarrow> ('a) netmsg_scheme \<Rightarrow> 'r option" where
  "onRecvMessage p parsePacket msg =
     (if m_encryptionEnabled p then map_option (\<lambda>(ok, m). parsePacket m) (XTEA_decrypt (m_key p) msg)
      else Some (parsePacket msg))"

text \<open>The bytes given to the socket.\<close>

definition wire :: "outmsg \<Rightarrow> bytes option" where
  "wire m = buf_read (m_outputBufferStart m) (unat (m_size m)) (m_buffer m)"

section \<open>What each stage does to the bytes on the wire\<close>

lemma region_update_view:
  assumes "buf_read pos n buf = Some bs" and "length (f bs) = n"
  shows "\<exists>b. region_update pos n f buf = Some b \<and> buf_read pos n b = Some (f bs)
    \<and> length b = length buf"
proof -
  have "pos + length (f bs) \<le> length buf"
    using assms by (auto simp: buf_read_def split: if_splits)
  then obtain b where b: "buf_write pos (f bs) buf = Some b" by (simp add: buf_write_def)
  with assms show ?thesis
    using buf_read_write[OF b] buf_write_length[OF b] by (simp add: region_update_def)
qed

lemma buf_read_extend:
  assumes "buf_write pos bs buf = Some b" and "buf_read (pos + length bs) n buf = Some c"
  shows "buf_read pos (length bs + n) b = Some (bs @ c)"
  using assms by (auto simp: buf_write_def buf_read_def split: if_splits)

lemma buf_read_append_write:
  assumes "buf_read pos n buf = Some c" and "buf_write (pos + n) bs buf = Some b"
  shows "buf_read pos (n + length bs) b = Some (c @ bs)"
proof -
  have l: "pos + n + length bs \<le> length buf" and c: "c = take n (drop pos buf)"
    and b: "b = take (pos + n) buf @ bs @ drop (pos + n + length bs) buf"
    using assms by (auto simp: buf_write_def buf_read_def split: if_splits)
  have "drop pos b = take n (drop pos buf) @ bs @ drop (pos + n + length bs) buf"
    using l by (simp add: b drop_take)
  with l b c show ?thesis by (simp add: buf_read_def)
qed

lemma addHeader_view:
  assumes "wf_outmsg m" and "wire m = Some c" and "length bs \<le> m_outputBufferStart m"
    and "unat (m_size m) + length bs < 65536"
  shows "\<exists>m'. addHeader bs m = Some m' \<and> wf_outmsg m' \<and> wire m' = Some (bs @ c)
    \<and> unat (m_size m') = unat (m_size m) + length bs
    \<and> m_outputBufferStart m' = m_outputBufferStart m - length bs \<and> m_position m' = m_position m"
proof -
  let ?s = "m_outputBufferStart m - length bs"
  have "?s + length bs \<le> length (m_buffer m)"
    using assms(1,3) by (simp add: inv_simps NETWORK_MAX_SIZE_def)
  then obtain b where b: "buf_write ?s bs (m_buffer m) = Some b" by (simp add: buf_write_def)
  have s: "unat (m_size m + of_nat (length bs)) = unat (m_size m) + length bs"
    using assms(4) by (subst unat_add_small) (simp_all add: unat_of_nat take_bit_eq_mod)
  have "buf_read ?s (length bs + unat (m_size m)) b = Some (bs @ c)"
    by (rule buf_read_extend[OF b]) (use assms(2,3) in \<open>simp add: wire_def\<close>)
  with b s assms(1,3) buf_write_length[OF b] show ?thesis
    by (auto simp: addHeader_def wire_def inv_simps add.commute)
qed

definition pad8 :: "bytes \<Rightarrow> bytes" where
  "pad8 c = c @ replicate ((8 - length c mod 8) mod 8) 0x33"

lemma pad8_length:
  "length (pad8 c) = (if length c mod 8 \<noteq> 0 then length c + (8 - length c mod 8) else length c)"
  by (simp add: pad8_def)

lemma pad8_dvd: "8 dvd length (pad8 c)"
proof -
  obtain q r where l: "length c = r + 8 * q" and r: "r < 8"
    using mod_less_divisor[of 8 "length c"] by (metis mod_mult_div_eq zero_less_numeral)
  then have "length c mod 8 = r" by simp
  with l r have "length (pad8 c) = (if r \<noteq> 0 then 8 * (q + 1) else 8 * q)"
    by (simp add: pad8_length)
  then show ?thesis by (simp split: if_splits)
qed

lemma putPadding_view:
  assumes "wf_outmsg m" and "wire m = Some c"
    and "unat (m_position m) = m_outputBufferStart m + unat (m_size m)"
    and "unat (m_position m) + k < 15344"
  shows "\<exists>m'. putPadding (of_nat k) m = Some m' \<and> wf_outmsg m' \<and> wire m' = Some (c @ replicate k 0x33)
    \<and> unat (m_size m') = unat (m_size m) + k
    \<and> m_outputBufferStart m' = m_outputBufferStart m"
proof -
  have sp: "hasSpace (of_nat k) m" using assms(4) by (simp add: hasSpace_bound)
  have k: "unat (of_nat k :: u32) = k" "(ucast (of_nat k :: u32) :: u16) = of_nat k"
    using assms(4) by (simp_all add: unsigned_of_nat take_bit_nat_eq_self)
  have "unat (m_position m) + k \<le> length (m_buffer m)"
    using assms(1,4) by (simp add: inv_simps NETWORK_MAX_SIZE_def)
  then obtain b where
    b: "buf_write (unat (m_position m)) (replicate k 0x33) (m_buffer m) = Some b"
    by (simp add: buf_write_def)
  have s: "unat (m_size m + of_nat k) = unat (m_size m) + k"
    using assms(3,4) by (subst unat_add_small) (simp_all add: unat_of_nat take_bit_eq_mod)
  have "buf_read (m_outputBufferStart m) (unat (m_size m) + length (replicate k (0x33 :: u8))) b =
      Some (c @ replicate k 0x33)"
    by (rule buf_read_append_write) (use assms(2,3) b in \<open>simp_all add: wire_def\<close>)
  with b sp s assms(1) buf_write_length[OF b] show ?thesis
    by (simp add: putPadding_def k wire_def inv_simps)
qed

lemma encrypt_view:
  assumes "wf_outmsg m" and "wire m = Some c"
    and "unat (m_position m) = m_outputBufferStart m + unat (m_size m)"
    and "unat (m_position m) + 8 < 15344"
  shows "\<exists>m'. XTEA_encrypt key m = Some m' \<and> wf_outmsg m'
    \<and> wire m' = Some (on_blocks (xtea_enc_block key) (length (pad8 c) div 8) (pad8 c))
    \<and> unat (m_size m') = length (pad8 c) \<and> m_outputBufferStart m' = m_outputBufferStart m"
proof -
  let ?r = "unat (m_size m) mod 8" and ?n = "length (pad8 c)"
  have lc: "length c = unat (m_size m)"
    using assms(2) by (auto simp: wire_def dest: buf_read_length)
  have n: "?n = (if ?r \<noteq> 0 then unat (m_size m) + (8 - ?r) else unat (m_size m))"
    by (simp only: pad8_length lc)
  obtain m1 where m1: "(if ?r \<noteq> 0 then putPadding (of_nat (8 - ?r)) m else Some m) = Some m1"
    "wf_outmsg m1" "wire m1 = Some (pad8 c)" "unat (m_size m1) = ?n"
    "m_outputBufferStart m1 = m_outputBufferStart m"
  proof (cases "?r = 0")
    case True
    then have "pad8 c = c" by (simp add: pad8_def lc)
    moreover have "?n = unat (m_size m)" using n True by (simp only: if_False simp_thms)
    ultimately show ?thesis using True assms(1,2) by (intro that[of m]) (simp_all only: if_False simp_thms)
  next
    case False
    then have "pad8 c = c @ replicate (8 - ?r) 0x33" by (simp add: pad8_def lc)
    moreover have "unat (m_position m) + (8 - ?r) < 15344" using assms(4) by simp
    moreover have "?n = unat (m_size m) + (8 - ?r)" using n False by (simp only: if_True simp_thms)
    ultimately show ?thesis
      using putPadding_view[OF assms(1-3), of "8 - ?r"] False that
      by (metis (no_types, lifting))
  qed
  have "buf_read (m_outputBufferStart m1) ?n (m_buffer m1) = Some (pad8 c)"
    using m1(3,4) by (simp add: wire_def)
  from region_update_view[OF this, of "on_blocks (xtea_enc_block key) (?n div 8)"]
  obtain b where b: "region_update (m_outputBufferStart m1) ?n
      (on_blocks (xtea_enc_block key) (?n div 8)) (m_buffer m1) = Some b"
    "buf_read (m_outputBufferStart m1) ?n b = Some (on_blocks (xtea_enc_block key) (?n div 8) (pad8 c))"
    "length b = length (m_buffer m1)" by auto
  have "XTEA_encrypt key m = Some (m1\<lparr>m_buffer := b\<rparr>)"
    unfolding XTEA_encrypt_def Let_def m1(1) Option.bind.simps
    by (simp only: n[symmetric] b(1) option.simps)
  with b m1 show ?thesis by (simp add: wire_def inv_simps)
qed

lemma decrypt_view:
  assumes "wf_msg rm" and "m_position rm = 6" and "buf_read 6 (length e) (m_buffer rm) = Some e"
    and "unat (m_size rm) = 6 + length e" and "8 dvd length e"
    and "on_blocks (xtea_dec_block key) (length e div 8) e = le_bytes16 n @ body @ pad"
    and "unat n = length body"
  shows "\<exists>rm'. XTEA_decrypt key rm = Some (True, rm') \<and> m_size rm' = n \<and> m_position rm' = 8
    \<and> buf_read 8 (length body) (m_buffer rm') = Some body"
proof -
  let ?d = "le_bytes16 n @ body @ pad"
  have l: "length ?d = length e" by (simp only: assms(6)[symmetric] on_blocks_length)
  have "\<exists>b. region_update 6 (length e) (on_blocks (xtea_dec_block key) (length e div 8)) (m_buffer rm)
      = Some b \<and> buf_read 6 (length e) b = Some ?d \<and> length b = length (m_buffer rm)"
    using region_update_view[OF assms(3)] l by (metis assms(6))
  then obtain b where b: "region_update 6 (length e)
      (on_blocks (xtea_dec_block key) (length e div 8)) (m_buffer rm) = Some b"
    "buf_read 6 (length e) b = Some ?d" by blast
  have r: "buf_read 6 (length (le_bytes16 n) + length (body @ pad)) b = Some ?d"
    using b(2) l by simp
  have r1: "buf_read 6 2 b = Some (le_bytes16 n)" using buf_read_prefix[OF r] by simp
  have lb: "8 + length (body @ pad) \<le> length b"
    and t: "take (2 + length (body @ pad)) (drop 6 b) = ?d"
    using r by (simp_all add: buf_read_def split: if_splits)
  have "take (length (body @ pad)) (drop 8 b) = drop 2 (take (2 + length (body @ pad)) (drop 6 b))"
    by (simp only: drop_take drop_drop) simp
  also have "\<dots> = body @ pad" unfolding t by simp
  finally have "take (length body) (take (length (body @ pad)) (drop 8 b)) = body" by simp
  then have "take (length body) (drop 8 b) = body" by (simp only: take_take) simp
  with lb have r2: "buf_read 8 (length body) b = Some body" by (simp add: buf_read_def)
  have len: "int (unat (m_size rm)) - 6 = int (length e)" using assms(4) by simp
  have dv: "int (length e) mod 8 = 0" using assms(5) by presburger
  have g: "get_u16 False (rm\<lparr>m_buffer := b\<rparr>) = Some (n, rm\<lparr>m_buffer := b, m_position := 8\<rparr>)"
    using get_u16_at[of "rm\<lparr>m_buffer := b\<rparr>" n] r1 by (simp add: assms(2))
  have "length body + 2 \<le> length e" using l by simp
  then have le: "\<not> int (unat n) > int (unat (m_size rm)) - 8" using assms(4,7) by simp
  have "XTEA_decrypt key rm = Some (True, rm\<lparr>m_buffer := b, m_position := 8, m_size := n\<rparr>)"
    unfolding XTEA_decrypt_def Let_def len using b(1) dv le by (simp add: assms(2) g)
  with r2 show ?thesis by simp
qed

section \<open>A whole message\<close>

definition encrypted_body :: "key \<Rightarrow> bytes \<Rightarrow> bytes" where
  "encrypted_body k body =
     (let c = pad8 (le_bytes16 (of_nat (length body)) @ body)
      in on_blocks (xtea_enc_block k) (length c div 8) c)"

text \<open>A message whose body has been written from position 8 on and that has no header yet.\<close>

definition fresh_body :: "outmsg \<Rightarrow> bytes \<Rightarrow> bool" where
  "fresh_body m body \<longleftrightarrow> wf_outmsg m \<and> m_outputBufferStart m = 8 \<and> wire m = Some body
     \<and> unat (m_position m) = 8 + length body \<and> length body < 15328"

lemma pad8_bounds: "length c \<le> length (pad8 c)" "length (pad8 c) < length c + 8"
proof -
  have "length c mod 8 < 8" by simp
  then show "length c \<le> length (pad8 c)" "length (pad8 c) < length c + 8"
    unfolding pad8_length by (auto split: if_splits)
qed

lemma encrypted_body_length: "8 dvd length (encrypted_body k body)"
  "length body + 2 \<le> length (encrypted_body k body)"
  "length (encrypted_body k body) < length body + 10"
  using pad8_bounds[of "le_bytes16 (of_nat (length body)) @ body"]
  by (simp_all add: encrypted_body_def Let_def pad8_dvd)

lemma encrypted_body_dec:
  "\<exists>pad. on_blocks (xtea_dec_block k) (length (encrypted_body k body) div 8) (encrypted_body k body)
     = le_bytes16 (of_nat (length body)) @ body @ pad"
  by (simp add: encrypted_body_def Let_def xtea.blocks_inverse) (simp add: pad8_def)

lemma onSendMessage_view:
  assumes "fresh_body m body"
    and "\<not> m_rawMessages p" "\<not> compression p" "m_encryptionEnabled p" "m_checksumEnabled p"
  shows "\<exists>m'. onSendMessage adler deflate p m = Some m' \<and>
    wire m' = Some (le_bytes16 (of_nat (length (encrypted_body (m_key p) body) + 4))
      @ le_bytes32 (adler (encrypted_body (m_key p) body)) @ encrypted_body (m_key p) body)"
proof -
  let ?e = "encrypted_body (m_key p) body" and ?h = "le_bytes16 (of_nat (length body)) :: bytes"
  have wf: "wf_outmsg m" "m_outputBufferStart m = 8" "wire m = Some body"
    "unat (m_position m) = 8 + length body" "length body < 15328"
    using assms(1) by (simp_all add: fresh_body_def)
  have sz: "unat (m_size m) = length body"
    using wf(3) by (auto simp: wire_def dest: buf_read_length)
  then have szw: "m_size m = of_nat (length body)" by (metis of_nat_unat_word)
  obtain m1 where m1: "writeMessageLength m = Some m1" "wf_outmsg m1" "wire m1 = Some (?h @ body)"
    "unat (m_size m1) = length body + 2" "m_outputBufferStart m1 = 6" "m_position m1 = m_position m"
    using addHeader_view[OF wf(1,3), of ?h] wf(2,5) sz
    by (auto simp: writeMessageLength_def szw)
  have "unat (m_position m1) = m_outputBufferStart m1 + unat (m_size m1)"
    "unat (m_position m1) + 8 < 15344" using m1 wf by simp_all
  from encrypt_view[OF m1(2,3) this, of "m_key p"] obtain m2 where
    m2: "XTEA_encrypt (m_key p) m1 = Some m2" "wf_outmsg m2" "wire m2 = Some ?e"
    "m_outputBufferStart m2 = 6" "unat (m_size m2) = length ?e"
    using m1(5) by (auto simp: encrypted_body_def Let_def)
  have le: "length ?e < 15338" using encrypted_body_length(3)[of "m_key p" body] wf(5) by linarith
  have "adlerChecksum adler ?e = adler ?e"
    using le encrypted_body_length(2)[of body "m_key p"]
    by (auto simp: adlerChecksum_def NETWORK_MAX_SIZE_def)
  moreover obtain m3 where m3: "addHeader (le_bytes32 (adler ?e)) m2 = Some m3" "wf_outmsg m3"
    "wire m3 = Some (le_bytes32 (adler ?e) @ ?e)" "unat (m_size m3) = length ?e + 4"
    "m_outputBufferStart m3 = 2"
    using addHeader_view[OF m2(2,3), of "le_bytes32 (adler ?e)"] m2(4,5) le by auto
  moreover have "m_size m3 = of_nat (length ?e + 4)" using m3(4) by (metis of_nat_unat_word)
  moreover obtain m4 where "addHeader (le_bytes16 (m_size m3)) m3 = Some m4"
    "wire m4 = Some (le_bytes16 (m_size m3) @ le_bytes32 (adler ?e) @ ?e)"
    using addHeader_view[OF m3(2,3), of "le_bytes16 (m_size m3)"] m3(4,5) le by auto
  ultimately show ?thesis
    using m1(1) m2(1,3) assms(2-5)
    by (simp add: onSendMessage_def addCryptoHeader_def wire_def)
qed

text \<open>
  XTEA decryption undoes XTEA encryption, for every key, on a block and on a whole buffer of
  any length, and a block is never encrypted like a different one.
\<close>

theorem xtea_roundtrip:
  "xtea_dec_block k (xtea_enc_block k b) = b
   \<and> on_blocks (xtea_dec_block k) n (on_blocks (xtea_enc_block k) n bs) = bs
   \<and> (xtea_enc_block k b = xtea_enc_block k b' \<longleftrightarrow> b = b')"
  using xtea.decb_encb xtea.blocks_inverse xtea.encb_inj by metis

end
