(* ===== verification/Connections.thy ===== *)
theory Connections
  imports ProtocolCrypt
begin

text \<open>
  \<^verbatim>\<open>connection.h\<close> / \<^verbatim>\<open>connection.cpp\<close>: the life cycle of one client connection as a machine
  over the completions of its asynchronous operations, and the connection manager with its two
  tables, the failed logins and the connection rate of an address. The sockets (boost::asio), the
  protocol objects and the configuration are parameters.
\<close>

section \<open>One connection\<close>

datatype conn_state = CONN_OPEN | CONN_REQUEST_CLOSE | CONN_CLOSING | CONN_CLOSED

text \<open>What an asynchronous operation completed with.\<close>

datatype net_error = NoError | OperationAborted | RemoteClosed | OtherError

datatype read_op = ReadNone | ReadHeader | ReadBody

text \<open>
  Tasks the connection posts to the dispatcher. Beside its members the record keeps what the server
  and boost::asio know of it: whether \<open>ServicePort\<close> has set it going, which read and whether a
  write is under way, the tasks that wait, and whether \<open>onStop\<close> was posted and has run (it deletes
  the socket).
\<close>

datatype conn_task = TaskCloseConnection | TaskReleaseConnection

record connection =
  c_protocol :: bool
  c_socketOpen :: bool
  c_receivedFirst :: bool
  c_writeError :: bool
  c_readError :: bool
  c_pendingWrite :: int
  c_pendingRead :: int
  c_state :: conn_state
  c_refCount :: u32
  c_timeConnected :: int
  c_packetsSent :: u32
  c_msg :: netmsg
  c_reading :: read_op
  c_readTimer :: bool
  c_writeTimer :: bool
  c_tasks :: "conn_task list"
  c_deleted :: bool
  c_served :: bool
  c_writing :: bool
  c_stopped :: bool

definition new_connection :: "int \<Rightarrow> netmsg \<Rightarrow> connection" where
  "new_connection now msg = \<lparr>c_protocol = False, c_socketOpen = True, c_receivedFirst = False,
     c_writeError = False, c_readError = False, c_pendingWrite = 0, c_pendingRead = 0,
     c_state = CONN_OPEN, c_refCount = 0, c_timeConnected = now, c_packetsSent = 0, c_msg = msg,
     c_reading = ReadNone, c_readTimer = False, c_writeTimer = False, c_tasks = [],
     c_deleted = False, c_served = False, c_writing = False, c_stopped = False\<rparr>"

definition close :: "connection \<Rightarrow> connection" where
  "close c =
     (if c_state c = CONN_CLOSED \<or> c_state c = CONN_REQUEST_CLOSE then c
      else c\<lparr>c_state := CONN_REQUEST_CLOSE, c_tasks := c_tasks c @ [TaskCloseConnection]\<rparr>)"

definition closeSocket :: "connection \<Rightarrow> connection" where
  "closeSocket c =
     (if c_socketOpen c then c\<lparr>c_pendingRead := 0, c_pendingWrite := 0, c_socketOpen := False\<rparr>
      else c)"

definition deleteConnection :: "connection \<Rightarrow> connection" where
  "deleteConnection c = c\<lparr>c_deleted := True\<rparr>"

definition releaseConnection :: "connection \<Rightarrow> connection" where
  "releaseConnection c =
     (if c_refCount c > 0 then c\<lparr>c_tasks := c_tasks c @ [TaskReleaseConnection]\<rparr>
      else deleteConnection c)"

text \<open>Releasing the protocol object clears its link to the connection and the link back.\<close>

definition closeConnection :: "connection \<Rightarrow> connection" where
  "closeConnection c =
     (if c_state c \<noteq> CONN_REQUEST_CLOSE then c
      else let c = c\<lparr>c_protocol := False\<rparr>; c = c\<lparr>c_state := CONN_CLOSING\<rparr> in
        if c_pendingWrite c = 0 \<or> c_writeError c
        then (releaseConnection (closeSocket c))\<lparr>c_state := CONN_CLOSED\<rparr>
        else c)"

definition onStop :: "connection \<Rightarrow> connection" where
  "onStop c = c\<lparr>c_readTimer := False, c_writeTimer := False, c_socketOpen := False, c_stopped := True\<rparr>"

datatype send_result = SendRefused | SendNow | SendQueued | SendClosing

definition internalSend :: "connection \<Rightarrow> connection" where
  "internalSend c = c\<lparr>c_pendingWrite := c_pendingWrite c + 1, c_writeTimer := True, c_writing := True\<rparr>"

definition send :: "bool \<Rightarrow> connection \<Rightarrow> send_result \<times> connection" where
  "send forceCloseSlow c =
     (if c_state c \<noteq> CONN_OPEN \<or> c_writeError c then (SendRefused, c)
      else if c_pendingWrite c = 0 then (SendNow, internalSend c)
      else if c_pendingWrite c > 100 \<and> forceCloseSlow then (SendClosing, close c)
      else (SendQueued, c))"

definition accept :: "connection \<Rightarrow> connection" where
  "accept c = c\<lparr>c_pendingRead := c_pendingRead c + 1, c_readTimer := True, c_reading := ReadHeader\<rparr>"

text \<open>
  \<open>handle\<close> gives the connection its protocol, whose \<open>onConnect\<close> may send a first message (that of
  the game protocol does). The service of a new connection calls one of the two.
\<close>

definition handle :: "bool \<Rightarrow> connection \<Rightarrow> connection" where
  "handle greets c =
     (let c = c\<lparr>c_protocol := True\<rparr>; c = (if greets then snd (send False c) else c) in accept c)"

definition serve :: "bool \<Rightarrow> bool \<Rightarrow> connection \<Rightarrow> connection" where
  "serve singleSocket greets c = (if singleSocket then handle greets c else accept c)"

definition addRef :: "connection \<Rightarrow> connection" where
  "addRef c = c\<lparr>c_refCount := c_refCount c + 1\<rparr>"

definition unRef :: "connection \<Rightarrow> connection" where
  "unRef c = c\<lparr>c_refCount := c_refCount c - 1\<rparr>"

text \<open>An aborted operation does not close: the connection is about to be closed by others.\<close>

definition handleReadError :: "net_error \<Rightarrow> connection \<Rightarrow> connection" where
  "handleReadError err c =
     (if err = OperationAborted then c else close c)\<lparr>c_readError := True\<rparr>"

definition handleWriteError :: "net_error \<Rightarrow> connection \<Rightarrow> connection" where
  "handleWriteError err c =
     (if err = OperationAborted then c else close c)\<lparr>c_writeError := True\<rparr>"

text \<open>
  The bytes of a completed read have been placed in the buffer before the handler runs.
  \<open>maxPackets\<close> is the configured number of packets per second, \<open>now\<close> the time in seconds.
\<close>

definition parseHeader :: "int \<Rightarrow> int \<Rightarrow> net_error \<Rightarrow> connection \<Rightarrow> connection" where
  "parseHeader maxPackets now err c =
     (let c = c\<lparr>c_readTimer := False, c_reading := ReadNone\<rparr>;
          (sz, msg) = decodeHeader (c_msg c);
          c = c\<lparr>c_msg := msg\<rparr>;
          c = (if err \<noteq> NoError \<or> sz \<le> 0 \<or> sz \<ge> int NETWORK_MAX_SIZE - 16
               then handleReadError err c else c)
      in if c_state c \<noteq> CONN_OPEN \<or> c_readError c then close c
      else let timePassed = (let t = word_of_int (now - c_timeConnected c + 1) :: u32
                             in if t < 1 then 1 else t);
               c = c\<lparr>c_packetsSent := c_packetsSent c + 1\<rparr>
           in if c_packetsSent c div timePassed > word_of_int maxPackets then closeConnection c
      else let c = (if timePassed > 2 then c\<lparr>c_timeConnected := now, c_packetsSent := 0\<rparr> else c);
               c = c\<lparr>c_pendingRead := c_pendingRead c - 1\<rparr>;
               c = c\<lparr>c_pendingRead := c_pendingRead c + 1, c_readTimer := True\<rparr>;
               msg = (c_msg c)\<lparr>m_size := word_of_int sz + NETWORK_HEADER_SIZE\<rparr>
           in c\<lparr>c_msg := snd (bodyBuffer msg), c_reading := ReadBody\<rparr>)"

text \<open>
  The checksum test of \<open>parsePacket\<close>: the received value is compared with the checksum of the
  rest; a match skips the four bytes. \<^const>\<open>None\<close> is a read outside of the buffer.
\<close>

definition checksum_skip :: "(bytes \<Rightarrow> u32) \<Rightarrow> netmsg \<Rightarrow> (bool \<times> netmsg) option" where
  "checksum_skip adler msg =
     (let len = word_of_int (uint (m_size msg) - uint (m_position msg) - 4) :: u32 in
      Option.bind (get_u32 True msg) (\<lambda>(received, _).
      Option.bind
        (if len > 0 then
           (if len > of_nat NETWORK_MAX_SIZE then Some 0
            else map_option (adlerChecksum adler)
              (buf_read (unat (m_position msg) + 4) (unat len) (m_buffer msg)))
         else Some 0)
        (\<lambda>checksum. Some (if received = checksum then (True, skip 4 msg) else (False, msg)))))"

text \<open>
  The protocol as the connection sees it: creating one for a first message (or none), and
  handling a message, which may ask to close the connection.
\<close>

record proto_api =
  makeProtocol :: "bool \<Rightarrow> netmsg \<Rightarrow> bool \<times> netmsg"
  onRecvFirst :: "netmsg \<Rightarrow> netmsg \<times> bool"
  onRecv :: "netmsg \<Rightarrow> netmsg \<times> bool"

definition run_handler :: "(netmsg \<Rightarrow> netmsg \<times> bool) \<Rightarrow> connection \<Rightarrow> connection" where
  "run_handler h c = (case h (c_msg c) of (msg, wantsClose) \<Rightarrow>
     (let c = c\<lparr>c_msg := msg\<rparr> in if wantsClose then close c else c))"

definition rearm :: "connection \<Rightarrow> connection" where
  "rearm c = c\<lparr>c_pendingRead := c_pendingRead c + 1, c_readTimer := True, c_reading := ReadHeader\<rparr>"

definition parsePacket :: "(bytes \<Rightarrow> u32) \<Rightarrow> proto_api \<Rightarrow> net_error \<Rightarrow> connection \<Rightarrow> connection option" where
  "parsePacket adler api err c =
     (let c = c\<lparr>c_readTimer := False, c_reading := ReadNone\<rparr>;
          c = (if err \<noteq> NoError then handleReadError err c else c)
      in if c_state c \<noteq> CONN_OPEN \<or> c_readError c then Some (close c)
      else let c = c\<lparr>c_pendingRead := c_pendingRead c - 1\<rparr> in
      Option.bind (checksum_skip adler (c_msg c)) (\<lambda>(checksumEnabled, msg).
        let c = c\<lparr>c_msg := msg\<rparr> in
        if \<not> c_receivedFirst c then
          let c = c\<lparr>c_receivedFirst := True\<rparr> in
          if \<not> c_protocol c then
            (case makeProtocol api checksumEnabled (c_msg c) of (made, msg) \<Rightarrow>
               let c = c\<lparr>c_msg := msg\<rparr> in
               if \<not> made then Some (close c)
               else Some (rearm (run_handler (onRecvFirst api) (c\<lparr>c_protocol := True\<rparr>))))
          else Some (rearm (run_handler (onRecvFirst api) (c\<lparr>c_msg := skip 1 (c_msg c)\<rparr>)))
        else Some (rearm (run_handler (onRecv api) c))))"

definition onWrite :: "net_error \<Rightarrow> connection \<Rightarrow> connection" where
  "onWrite err c =
     (let c = c\<lparr>c_writeTimer := False, c_writing := False\<rparr>;
          c = (if err \<noteq> NoError then handleWriteError err c else c)
      in if c_state c \<noteq> CONN_OPEN \<or> c_writeError c then close (closeSocket c)
      else c\<lparr>c_pendingWrite := c_pendingWrite c - 1\<rparr>)"

definition onReadTimeout :: "connection \<Rightarrow> connection" where
  "onReadTimeout c = (if c_pendingRead c > 0 \<or> c_readError c then close (closeSocket c) else c)"

definition onWriteTimeout :: "connection \<Rightarrow> connection" where
  "onWriteTimeout c = (if c_pendingWrite c > 0 \<or> c_writeError c then close (closeSocket c) else c)"

text \<open>The timer callbacks: an aborted wait is a cancelled timer and does nothing.\<close>

definition handleReadTimeout :: "net_error \<Rightarrow> connection \<Rightarrow> connection" where
  "handleReadTimeout err c = (if err = OperationAborted then c else onReadTimeout c)"

definition handleWriteTimeout :: "net_error \<Rightarrow> connection \<Rightarrow> connection" where
  "handleWriteTimeout err c = (if err = OperationAborted then c else onWriteTimeout c)"

section \<open>The machine\<close>

text \<open>
  What can happen to a connection. An operation completes only if it was started; a timer that ran
  out may still call back after it was cancelled. The connection is set going once.
\<close>

datatype conn_event =
    EvServe bool bool
  | EvHeader int int net_error
  | EvPacket "bytes \<Rightarrow> u32" proto_api net_error
  | EvSend bool
  | EvWritten net_error
  | EvReadTimer net_error
  | EvWriteTimer net_error
  | EvClose
  | EvRunTask
  | EvAddRef
  | EvUnRef
  | EvStop

fun conn_step :: "conn_event \<Rightarrow> connection \<Rightarrow> connection" where
  "conn_step (EvServe single greets) c =
     (if c_served c \<or> c_state c \<noteq> CONN_OPEN then c else (serve single greets c)\<lparr>c_served := True\<rparr>)"
| "conn_step (EvHeader maxPackets now err) c =
     (if c_reading c = ReadHeader then parseHeader maxPackets now err c else c)"
| "conn_step (EvPacket adler api err) c =
     (if c_reading c = ReadBody
      then (case parsePacket adler api err c of None \<Rightarrow> c | Some c' \<Rightarrow> c') else c)"
| "conn_step (EvSend force) c = snd (send force c)"
| "conn_step (EvWritten err) c = (if c_writing c then onWrite err c else c)"
| "conn_step (EvReadTimer err) c = handleReadTimeout err c"
| "conn_step (EvWriteTimer err) c = handleWriteTimeout err c"
| "conn_step EvClose c = close c"
| "conn_step EvRunTask c =
     (case c_tasks c of
        [] \<Rightarrow> c
      | TaskCloseConnection # ts \<Rightarrow> closeConnection (c\<lparr>c_tasks := ts\<rparr>)
      | TaskReleaseConnection # ts \<Rightarrow> releaseConnection (c\<lparr>c_tasks := ts\<rparr>))"
| "conn_step EvAddRef c = addRef c"
| "conn_step EvUnRef c = unRef c"
| "conn_step EvStop c = (if c_deleted c then onStop c else c)"

text \<open>
  An open connection has an open socket, no error, and a protocol once a first message came; at most
  one write is under way, none on a closed socket. A requested close has its task in the dispatcher;
  a connection that is closing waits for its write. A closed connection has neither socket nor
  protocol and is deleted or has the task to release it; no other is. Only deleted ones are stopped.
\<close>

definition conn_inv :: "connection \<Rightarrow> bool" where
  [inv_simps]: "conn_inv c \<longleftrightarrow>
     (c_state c = CONN_OPEN \<longrightarrow> c_socketOpen c \<and> \<not> c_readError c \<and> \<not> c_writeError c
        \<and> (c_receivedFirst c \<longrightarrow> c_protocol c) \<and> (c_writing c \<longrightarrow> c_pendingWrite c = 1)) \<and>
     (c_pendingWrite c = 0 \<or> c_pendingWrite c = 1 \<and> c_writing c \<and> c_socketOpen c) \<and>
     (c_state c = CONN_REQUEST_CLOSE \<longrightarrow> TaskCloseConnection \<in> set (c_tasks c)) \<and>
     (c_state c = CONN_CLOSING \<longrightarrow> \<not> c_protocol c \<and> c_pendingWrite c = 1 \<and> \<not> c_writeError c) \<and>
     (c_state c = CONN_CLOSED \<longrightarrow> \<not> c_socketOpen c \<and> \<not> c_protocol c) \<and>
     (c_state c = CONN_CLOSED \<longleftrightarrow> c_deleted c \<or> TaskReleaseConnection \<in> set (c_tasks c)) \<and>
     (c_stopped c \<longrightarrow> c_deleted c)"

lemma conn_inv_new: "conn_inv (new_connection now msg)"
  by (simp add: inv_simps new_connection_def)

lemma close_inv [keeps_inv]: "conn_inv c \<Longrightarrow> conn_inv (close c)"
  by (cases "c_state c") (auto simp: inv_simps close_def)

lemma closeSocket_close_inv [keeps_inv]: "conn_inv c \<Longrightarrow> conn_inv (close (closeSocket c))"
  by (cases "c_state c") (auto simp: inv_simps closeSocket_def close_def)

lemma closeConnection_inv [keeps_inv]:
  assumes "conn_inv c" and "c_tasks c = TaskCloseConnection # ts"
  shows "conn_inv (closeConnection (c\<lparr>c_tasks := ts\<rparr>))"
  using assms
  by (cases "c_state c") (auto simp: inv_simps closeConnection_def releaseConnection_def
      deleteConnection_def closeSocket_def Let_def)

lemma closeConnection_open: "c_state c = CONN_OPEN \<Longrightarrow> closeConnection c = c"
  by (simp add: closeConnection_def)

text \<open>A read error is always followed by \<open>close\<close>, a write error by \<open>closeSocket\<close> and \<open>close\<close>.\<close>

lemma close_read_error [keeps_inv]: "conn_inv c \<Longrightarrow> conn_inv (close (handleReadError err c))"
  by (cases "c_state c") (auto simp: inv_simps handleReadError_def close_def)

lemma close_write_error [keeps_inv]:
  "conn_inv c \<Longrightarrow> conn_inv (close (closeSocket (handleWriteError err (c\<lparr>c_writing := False\<rparr>))))"
  by (cases "c_state c"; cases "c_socketOpen c")
    (auto simp: inv_simps handleWriteError_def close_def closeSocket_def)

lemma conn_inv_irrelevant [simp]:
  "conn_inv (c\<lparr>c_readTimer := x1\<rparr>) = conn_inv c"
  "conn_inv (c\<lparr>c_reading := x2\<rparr>) = conn_inv c"
  "conn_inv (c\<lparr>c_msg := x3\<rparr>) = conn_inv c"
  "conn_inv (c\<lparr>c_packetsSent := x4\<rparr>) = conn_inv c"
  "conn_inv (c\<lparr>c_timeConnected := x5\<rparr>) = conn_inv c"
  "conn_inv (c\<lparr>c_pendingRead := x6\<rparr>) = conn_inv c"
  "conn_inv (c\<lparr>c_writeTimer := x8\<rparr>) = conn_inv c"
  "conn_inv (c\<lparr>c_served := x9\<rparr>) = conn_inv c"
  "conn_inv (c\<lparr>c_refCount := x10\<rparr>) = conn_inv c"
  by (simp_all add: inv_simps)

lemma conn_inv_protocol: "conn_inv c \<Longrightarrow> c_state c = CONN_OPEN \<Longrightarrow> conn_inv (c\<lparr>c_protocol := True\<rparr>)"
  by (auto simp: inv_simps)

lemma conn_inv_first:
  "conn_inv c \<Longrightarrow> c_protocol c \<Longrightarrow> conn_inv (c\<lparr>c_receivedFirst := True\<rparr>)"
  "conn_inv c \<Longrightarrow> c_state c = CONN_OPEN \<Longrightarrow> conn_inv (c\<lparr>c_receivedFirst := True, c_msg := x, c_protocol := True\<rparr>)"
  "conn_inv c \<Longrightarrow> conn_inv (close (c\<lparr>c_receivedFirst := True, c_msg := x\<rparr>))"
  by (cases "c_state c"; auto simp: inv_simps close_def)+

lemma rearm_inv [keeps_inv]: "conn_inv c \<Longrightarrow> conn_inv (rearm c)"
  by (simp add: inv_simps rearm_def)

lemma run_handler_inv [keeps_inv]: "conn_inv c \<Longrightarrow> conn_inv (run_handler h c)"
  by (simp add: run_handler_def Let_def keeps_inv split: prod.splits)

lemma send_inv [keeps_inv]: "conn_inv c \<Longrightarrow> conn_inv (snd (send force c))"
  by (auto simp: send_def internalSend_def keeps_inv) (auto simp: inv_simps)

lemma serve_inv [keeps_inv]:
  assumes "conn_inv c" and "c_state c = CONN_OPEN"
  shows "conn_inv (serve single greets c)"
proof -
  have "conn_inv (if greets then snd (send False (c\<lparr>c_protocol := True\<rparr>)) else c\<lparr>c_protocol := True\<rparr>)"
    using assms by (simp add: keeps_inv conn_inv_protocol)
  with assms(1) show ?thesis by (simp add: serve_def handle_def accept_def Let_def)
qed

lemma handleReadError_keeps [simp]:
  "c_reading (handleReadError err c) = c_reading c" "c_readError (handleReadError err c)"
  by (simp_all add: handleReadError_def close_def)

lemma parseHeader_inv [keeps_inv]:
  assumes "conn_inv c"
  shows "conn_inv (parseHeader maxPackets now err c)"
proof -
  obtain sz msg where d: "decodeHeader (c_msg c) = (sz, msg)" by (cases "decodeHeader (c_msg c)")
  define c1 where "c1 = c\<lparr>c_readTimer := False, c_reading := ReadNone, c_msg := msg\<rparr>"
  have i: "conn_inv c1" using assms by (simp add: c1_def)
  show ?thesis
    using i by (auto simp: parseHeader_def d Let_def closeConnection_open keeps_inv c1_def)
qed

lemma parsePacket_inv [keeps_inv]:
  assumes "conn_inv c" and "parsePacket adler api err c = Some c'"
  shows "conn_inv c'"
proof -
  define c1 where "c1 = c\<lparr>c_readTimer := False, c_reading := ReadNone\<rparr>"
  define c2 where "c2 = (if err \<noteq> NoError then handleReadError err c1 else c1)"
  have i: "conn_inv c1" "conn_inv (close c2)" using assms(1) by (simp_all add: c1_def c2_def keeps_inv)
  have p: "parsePacket adler api err c = (if c_state c2 \<noteq> CONN_OPEN \<or> c_readError c2 then Some (close c2)
      else let c = c2\<lparr>c_pendingRead := c_pendingRead c2 - 1\<rparr> in
      Option.bind (checksum_skip adler (c_msg c)) (\<lambda>(checksumEnabled, msg).
        let c = c\<lparr>c_msg := msg\<rparr> in
        if \<not> c_receivedFirst c then
          let c = c\<lparr>c_receivedFirst := True\<rparr> in
          if \<not> c_protocol c then
            (case makeProtocol api checksumEnabled (c_msg c) of (made, msg) \<Rightarrow>
               let c = c\<lparr>c_msg := msg\<rparr> in
               if \<not> made then Some (close c)
               else Some (rearm (run_handler (onRecvFirst api) (c\<lparr>c_protocol := True\<rparr>))))
          else Some (rearm (run_handler (onRecvFirst api) (c\<lparr>c_msg := skip 1 (c_msg c)\<rparr>)))
        else Some (rearm (run_handler (onRecv api) c))))"
    by (simp only: parsePacket_def Let_def c1_def c2_def)
  show ?thesis
  proof (cases "c_state c2 \<noteq> CONN_OPEN \<or> c_readError c2")
    case True
    with assms(2) i(2) show ?thesis by (simp add: p)
  next
    case False
    then have c2: "c2 = c1" by (auto simp: c2_def split: if_splits)
    show ?thesis
      using assms(2) i(1) False
      by (auto simp: p c2 Let_def keeps_inv conn_inv_first
          split: if_splits Option.bind_splits prod.splits)
  qed
qed

lemma onWrite_inv [keeps_inv]:
  assumes "conn_inv c" and "c_writing c"
  shows "conn_inv (onWrite err c)"
proof -
  define c1 where "c1 = c\<lparr>c_writeTimer := False, c_writing := False\<rparr>"
  have "conn_inv (close (closeSocket (handleWriteError err c1)))" "conn_inv (close (closeSocket c1))"
    "c_state c1 = CONN_OPEN \<Longrightarrow> conn_inv (c1\<lparr>c_pendingWrite := c_pendingWrite c1 - 1\<rparr>)"
    using close_write_error[of "c\<lparr>c_writeTimer := False\<rparr>" err] assms
    by (cases "c_state c"; auto simp: inv_simps c1_def close_def closeSocket_def)+
  then show ?thesis
    by (auto simp: onWrite_def c1_def[symmetric] Let_def handleWriteError_def)
qed

lemma handleReadTimeout_inv [keeps_inv]: "conn_inv c \<Longrightarrow> conn_inv (handleReadTimeout err c)"
  by (simp add: handleReadTimeout_def onReadTimeout_def keeps_inv)

lemma handleWriteTimeout_inv [keeps_inv]: "conn_inv c \<Longrightarrow> conn_inv (handleWriteTimeout err c)"
  by (simp add: handleWriteTimeout_def onWriteTimeout_def keeps_inv)

lemma runTask_inv: "conn_inv c \<Longrightarrow> conn_inv (conn_step EvRunTask c)"
proof (cases "c_tasks c")
  case Nil
  then show "conn_inv c \<Longrightarrow> ?thesis" by simp
next
  case (Cons t ts)
  assume i: "conn_inv c"
  show ?thesis
  proof (cases t)
    case TaskCloseConnection
    then show ?thesis using Cons i by (simp add: closeConnection_inv)
  next
    case TaskReleaseConnection
    then have "c_state c = CONN_CLOSED" using Cons i by (simp add: inv_simps)
    then show ?thesis using Cons i TaskReleaseConnection
      by (auto simp: inv_simps releaseConnection_def deleteConnection_def)
  qed
qed

lemma onStop_inv [keeps_inv]: "conn_inv c \<Longrightarrow> c_deleted c \<Longrightarrow> conn_inv (onStop c)"
  by (auto simp: inv_simps onStop_def)

interpretation conn: guarded_machine conn_step conn_inv
proof unfold_locales
  fix c e
  assume i: "conn_inv c"
  show "conn_inv (conn_step e c)"
  proof (cases e)
    case EvRunTask
    with i show ?thesis using runTask_inv by simp
  qed (use i in \<open>auto simp: keeps_inv addRef_def unRef_def split: option.splits intro: parsePacket_inv\<close>)
qed

text \<open>
  C31. Through any sequence of completions, timeouts, sends, close requests, references and
  dispatcher tasks a connection keeps its invariant: an open connection has its socket and no error,
  a requested close is always still scheduled, one that is closing waits for its write, a closed one
  has neither socket nor protocol and is released, and only closed ones are. There is never more
  than one write under way, so the test for a slow connection (more than a hundred) never succeeds.
\<close>

theorem connection_runs_keep_inv:
  "conn_inv (fold conn_step evs (new_connection now msg))
   \<and> c_pendingWrite (fold conn_step evs (new_connection now msg)) \<le> 1
   \<and> fst (send force (fold conn_step evs (new_connection now msg))) \<noteq> SendClosing"
proof -
  have i: "conn_inv (fold conn_step evs (new_connection now msg))"
    by (rule conn.run_inv) (rule conn_inv_new)
  moreover from i have "c_pendingWrite (fold conn_step evs (new_connection now msg)) \<le> 1"
    by (auto simp: inv_simps)
  ultimately show ?thesis by (auto simp: send_def)
qed

section \<open>A close request takes effect\<close>

subsection \<open>Every task is run\<close>

definition tasks_run :: "conn_event list \<Rightarrow> nat" where
  "tasks_run evs = length (filter (\<lambda>e. e = EvRunTask) evs)"

definition appends :: "connection \<Rightarrow> connection \<Rightarrow> bool" where
  "appends c d \<longleftrightarrow> (\<exists>x. c_tasks d = c_tasks c @ x)"

lemma appends_same [simp]:
  assumes "c_tasks d = c_tasks c"
  shows "appends c d" and "appends c (close d)" and "appends c (handleWriteError err d\<lparr>c_pendingWrite := n\<rparr>)" and "appends c (rearm (run_handler h d))"
    and "appends c (handleReadError err d)" and "appends c (handleWriteError err d)"
    and "appends c (close (handleReadError err d))"
    and "appends c (close (closeSocket d))" and "appends c (close (closeSocket (handleWriteError err d)))"
  using assms
  by (auto simp: appends_def run_handler_def rearm_def close_def handleReadError_def
      handleWriteError_def closeSocket_def Let_def split: prod.splits)

lemma step_appends:
  assumes "e \<noteq> EvRunTask"
  shows "appends c (conn_step e c)"
proof -
  have p: "appends c c'" if "parsePacket adler api err c = Some c'" for adler api err c'
    using that by (auto simp: parsePacket_def Let_def split: if_splits Option.bind_splits prod.splits)
  show ?thesis
  proof (cases e)
    case (EvPacket adler api err)
    then show ?thesis using p by (auto split: option.split)
  qed (use assms in \<open>auto simp: parseHeader_def closeConnection_open send_def internalSend_def serve_def
      handle_def accept_def onWrite_def handleReadTimeout_def onReadTimeout_def handleWriteTimeout_def
      onWriteTimeout_def addRef_def unRef_def onStop_def Let_def split: prod.split\<close>)
qed

lemma run_task_appends: "\<exists>x. c_tasks (conn_step EvRunTask c) = tl (c_tasks c) @ x"
  by (auto simp: closeConnection_def releaseConnection_def deleteConnection_def closeSocket_def Let_def
      split: list.split conn_task.split)

lemma task_runs:
  assumes "c_tasks c = pre @ t # post" and "length pre < tasks_run evs"
  shows "\<exists>evs1 evs2 ys. evs = evs1 @ EvRunTask # evs2 \<and> c_tasks (fold conn_step evs1 c) = t # ys"
  using assms
proof (induction evs arbitrary: c pre post)
  case (Cons e evs)
  show ?case
  proof (cases "e = EvRunTask")
    case True
    show ?thesis
    proof (cases pre)
      case Nil
      then have "e # evs = [] @ EvRunTask # evs \<and> c_tasks (fold conn_step [] c) = t # post"
        using True Cons.prems(1) by simp
      then show ?thesis by blast
    next
      case (Cons p pre')
      obtain x where "c_tasks (conn_step e c) = pre' @ t # post @ x"
        using run_task_appends[of c] True Cons \<open>c_tasks c = pre @ t # post\<close> by auto
      moreover have "length pre' < tasks_run evs"
        using \<open>length pre < tasks_run (e # evs)\<close> Cons True by (simp add: tasks_run_def)
      ultimately obtain evs1 evs2 ys where
        "evs = evs1 @ EvRunTask # evs2" "c_tasks (fold conn_step evs1 (conn_step e c)) = t # ys"
        using Cons.IH by blast
      then have "e # evs = (e # evs1) @ EvRunTask # evs2 \<and> c_tasks (fold conn_step (e # evs1) c) = t # ys"
        by simp
      then show ?thesis by blast
    qed
  next
    case False
    obtain x where "c_tasks (conn_step e c) = pre @ t # post @ x"
      using step_appends[OF False, of c] Cons.prems(1) by (auto simp: appends_def)
    moreover have "length pre < tasks_run evs" using Cons.prems(2) False by (simp add: tasks_run_def)
    ultimately obtain evs1 evs2 ys where
      "evs = evs1 @ EvRunTask # evs2" "c_tasks (fold conn_step evs1 (conn_step e c)) = t # ys"
      using Cons.IH by blast
    then have "e # evs = (e # evs1) @ EvRunTask # evs2 \<and> c_tasks (fold conn_step (e # evs1) c) = t # ys"
      by simp
    then show ?thesis by blast
  qed
qed (simp add: tasks_run_def)

subsection \<open>From the request to the end\<close>

text \<open>
  A connection that was asked to close never opens again; once its write is over, that stays so, and
  the next run of its close task closes it for good. The end of a write, by completion, error or
  timeout, is what a pending write waits for.
\<close>

fun ends_write :: "conn_event \<Rightarrow> bool" where
  "ends_write (EvWritten err) \<longleftrightarrow> True"
| "ends_write (EvWriteTimer err) \<longleftrightarrow> err \<noteq> OperationAborted"
| "ends_write _ \<longleftrightarrow> False"

definition asked :: "connection \<Rightarrow> bool" where
  "asked c \<longleftrightarrow> conn_inv c \<and> c_state c \<noteq> CONN_OPEN"

text \<open>What neither an error of a read nor \<open>close\<close> changes on the way to the end.\<close>

definition same_end :: "connection \<Rightarrow> connection \<Rightarrow> bool" where
  "same_end c d \<longleftrightarrow> c_state d \<noteq> CONN_OPEN \<and> (c_state c = CONN_CLOSED \<longrightarrow> c_state d = CONN_CLOSED)
     \<and> c_pendingWrite d = c_pendingWrite c \<and> c_deleted d = c_deleted c
     \<and> c_refCount d = c_refCount c"

lemma same_end_close: "same_end c d \<Longrightarrow> same_end c (close d)"
  by (auto simp: same_end_def close_def)

lemma same_end_read:
  assumes "c_state c \<noteq> CONN_OPEN"
  shows "same_end c (parseHeader maxPackets now err c)"
    and "parsePacket adler api err c = Some d \<Longrightarrow> same_end c d"
proof -
  have e: "same_end c (handleReadError err d)" if "same_end c d" for d
    using same_end_close[OF that] that by (auto simp: handleReadError_def same_end_def)
  have o: "c_state (handleReadError err d) \<noteq> CONN_OPEN" if "c_state d = c_state c" for d
    using that assms by (auto simp: handleReadError_def close_def)
  have u: "same_end c (c\<lparr>c_readTimer := t, c_reading := g\<rparr>)"
    "same_end c (c\<lparr>c_readTimer := t, c_reading := g, c_msg := m\<rparr>)" for t g m
    using assms by (simp_all add: same_end_def)
  show "same_end c (parseHeader maxPackets now err c)"
    using assms by (auto simp: parseHeader_def Let_def o u intro!: same_end_close e split: prod.split)
  show "parsePacket adler api err c = Some d \<Longrightarrow> same_end c d"
    using assms by (auto simp: parsePacket_def Let_def o u intro!: same_end_close e split: if_splits)
qed

lemma step_asked:
  assumes "asked c"
  shows "asked (conn_step e c)" and "c_pendingWrite c = 0 \<Longrightarrow> c_pendingWrite (conn_step e c) = 0"
    and "ends_write e \<Longrightarrow> c_pendingWrite (conn_step e c) = 0"
    and "c_state c = CONN_CLOSED \<Longrightarrow> c_state (conn_step e c) = CONN_CLOSED"
    and "c_deleted c \<Longrightarrow> c_deleted (conn_step e c)"
    and "e \<noteq> EvAddRef \<Longrightarrow> e \<noteq> EvUnRef \<Longrightarrow> c_refCount (conn_step e c) = c_refCount c"
proof -
  have n: "c_state c \<noteq> CONN_OPEN" and i: "conn_inv c" using assms by (simp_all add: asked_def)
  have "c_state (conn_step e c) \<noteq> CONN_OPEN \<and> (c_pendingWrite c = 0 \<longrightarrow> c_pendingWrite (conn_step e c) = 0)
    \<and> (ends_write e \<longrightarrow> c_pendingWrite (conn_step e c) = 0)
    \<and> (c_state c = CONN_CLOSED \<longrightarrow> c_state (conn_step e c) = CONN_CLOSED)
    \<and> (c_deleted c \<longrightarrow> c_deleted (conn_step e c))
    \<and> (e \<noteq> EvAddRef \<and> e \<noteq> EvUnRef \<longrightarrow> c_refCount (conn_step e c) = c_refCount c)"
  proof (cases e)
    case (EvHeader maxPackets now err)
    then show ?thesis using same_end_read(1)[OF n, of maxPackets now err] n by (auto simp: same_end_def)
  next
    case (EvPacket adler api err)
    then show ?thesis using same_end_read(2)[OF n, of adler api err] n
      by (auto simp: same_end_def split: option.split)
  qed (use n i in \<open>auto simp: inv_simps send_def serve_def close_def onWrite_def handleWriteError_def
      handleReadTimeout_def onReadTimeout_def handleWriteTimeout_def onWriteTimeout_def addRef_def
      unRef_def onStop_def closeSocket_def closeConnection_def releaseConnection_def
      deleteConnection_def Let_def split: list.split conn_task.split\<close>)
  then show "asked (conn_step e c)" "c_pendingWrite c = 0 \<Longrightarrow> c_pendingWrite (conn_step e c) = 0"
    "ends_write e \<Longrightarrow> c_pendingWrite (conn_step e c) = 0"
    "c_state c = CONN_CLOSED \<Longrightarrow> c_state (conn_step e c) = CONN_CLOSED"
    "c_deleted c \<Longrightarrow> c_deleted (conn_step e c)"
    "e \<noteq> EvAddRef \<Longrightarrow> e \<noteq> EvUnRef \<Longrightarrow> c_refCount (conn_step e c) = c_refCount c"
    using conn.step_inv[OF i, of e] by (simp_all add: asked_def)
qed

lemma run_asked:
  assumes "asked c"
  shows "asked (fold conn_step evs c)
    \<and> (c_pendingWrite c = 0 \<or> (\<exists>e\<in>set evs. ends_write e) \<longrightarrow> c_pendingWrite (fold conn_step evs c) = 0)
    \<and> (c_state c = CONN_CLOSED \<longrightarrow> c_state (fold conn_step evs c) = CONN_CLOSED)
    \<and> (c_deleted c \<longrightarrow> c_deleted (fold conn_step evs c))
    \<and> ((\<forall>e\<in>set evs. e \<noteq> EvAddRef \<and> e \<noteq> EvUnRef) \<longrightarrow> c_refCount (fold conn_step evs c) = c_refCount c)"
  using assms
proof (induction evs arbitrary: c)
  case (Cons e evs)
  show ?case using Cons.IH[of "conn_step e c"] step_asked[OF Cons.prems, of e] by auto
qed simp

text \<open>The close task of a connection without a pending write, and the release task without references.\<close>

lemma close_task_runs:
  assumes "asked c" and "c_pendingWrite c = 0" and "length (c_tasks c) \<le> tasks_run evs"
  shows "c_state (fold conn_step evs c) = CONN_CLOSED"
proof (cases "c_state c = CONN_CLOSED")
  case True
  then show ?thesis using run_asked[OF assms(1)] by blast
next
  case False
  then have "c_state c = CONN_REQUEST_CLOSE"
    using assms(1,2) by (cases "c_state c") (auto simp: asked_def inv_simps)
  then obtain pre post where q: "c_tasks c = pre @ TaskCloseConnection # post"
    using assms(1) by (auto simp: asked_def inv_simps dest: split_list)
  then obtain evs1 evs2 ys where e: "evs = evs1 @ EvRunTask # evs2"
    "c_tasks (fold conn_step evs1 c) = TaskCloseConnection # ys"
    using task_runs[OF q, of evs] assms(3) by auto
  let ?d = "fold conn_step evs1 c"
  have d: "asked ?d" "c_pendingWrite ?d = 0" using run_asked[OF assms(1)] assms(2) by blast+
  have "c_state ?d = CONN_REQUEST_CLOSE \<or> c_state ?d = CONN_CLOSED"
    using d by (cases "c_state ?d") (auto simp: asked_def inv_simps)
  then have "c_state (conn_step EvRunTask ?d) = CONN_CLOSED"
    using d(2) e(2) by (auto simp: closeConnection_def Let_def)
  then show ?thesis
    using run_asked[OF step_asked(1)[OF d(1), of EvRunTask]] e(1) by simp
qed

lemma release_task_runs:
  assumes "asked c" and "c_state c = CONN_CLOSED" and "c_refCount c = 0"
    and "\<forall>e\<in>set evs. e \<noteq> EvAddRef \<and> e \<noteq> EvUnRef" and "length (c_tasks c) \<le> tasks_run evs"
  shows "c_deleted (fold conn_step evs c)"
proof (cases "c_deleted c")
  case True
  then show ?thesis using run_asked[OF assms(1)] by blast
next
  case False
  then obtain pre post where q: "c_tasks c = pre @ TaskReleaseConnection # post"
    using assms(1,2) by (auto simp: asked_def inv_simps dest: split_list)
  then obtain evs1 evs2 ys where e: "evs = evs1 @ EvRunTask # evs2"
    "c_tasks (fold conn_step evs1 c) = TaskReleaseConnection # ys"
    using task_runs[OF q, of evs] assms(5) by auto
  let ?d = "fold conn_step evs1 c"
  have d: "asked ?d" "c_refCount ?d = 0" using run_asked[OF assms(1), of evs1] assms(3,4) e(1) by auto
  then have "c_deleted (conn_step EvRunTask ?d)"
    using e(2) by (simp add: releaseConnection_def deleteConnection_def)
  then show ?thesis
    using run_asked[OF step_asked(1)[OF d(1), of EvRunTask]] e(1) by simp
qed

text \<open>
  C32. Whatever happened to a connection, once it is asked to close and its pending write, if there
  is one, ends (it is done, fails or times out), it is closed for good as soon as the dispatcher has
  run the tasks that wait, whatever else happens in between: the socket is closed, the protocol
  released and every send refused. When nobody holds a reference any more, it is deleted as soon as
  the tasks that wait then have run.
\<close>

theorem connection_close_completes:
  assumes "c = close (fold conn_step es (new_connection now msg))"
    and "c_pendingWrite c = 0 \<or> (\<exists>e\<in>set fs. ends_write e)"
    and "length (c_tasks (fold conn_step fs c)) \<le> tasks_run gs"
    and "d = fold conn_step (fs @ gs @ hs) c"
  shows "c_state d = CONN_CLOSED \<and> \<not> c_socketOpen d \<and> \<not> c_protocol d
    \<and> fst (send force d) = SendRefused
    \<and> (c_refCount d = 0 \<and> (\<forall>e\<in>set ks. e \<noteq> EvAddRef \<and> e \<noteq> EvUnRef)
         \<and> length (c_tasks d) \<le> tasks_run ks \<longrightarrow> c_deleted (fold conn_step ks d))"
proof -
  have "conn_inv c" unfolding assms(1) by (intro close_inv conn.run_inv conn_inv_new)
  moreover have "c_state c \<noteq> CONN_OPEN" by (simp add: assms(1) close_def)
  ultimately have a: "asked c" by (simp add: asked_def)
  let ?c1 = "fold conn_step fs c"
  have "asked ?c1" "c_pendingWrite ?c1 = 0" using run_asked[OF a] assms(2) by blast+
  from close_task_runs[OF this assms(3)] run_asked[OF this(1)]
  have "asked (fold conn_step gs ?c1)" "c_state (fold conn_step gs ?c1) = CONN_CLOSED" by blast+
  with run_asked have d: "asked d" "c_state d = CONN_CLOSED" unfolding assms(4) by auto
  with release_task_runs[OF d] show ?thesis by (auto simp: asked_def inv_simps send_def)
qed

text \<open>A connection that is greeting its player when it is asked to close: the write ends, then two tasks run.\<close>

theorem connection_close_completes_witness:
  "c_state (fold conn_step [EvServe True True, EvClose, EvRunTask, EvWritten NoError, EvRunTask]
      (new_connection 0 empty_msg)) = CONN_CLOSED
   \<and> c_deleted (fold conn_step [EvServe True True, EvClose, EvRunTask, EvWritten NoError, EvRunTask]
      (new_connection 0 empty_msg))"
proof -
  note defs = new_connection_def serve_def handle_def accept_def send_def internalSend_def close_def
    closeConnection_def releaseConnection_def deleteConnection_def closeSocket_def onWrite_def
    tasks_run_def Let_def
  show ?thesis
    using connection_close_completes[where es = "[EvServe True True]" and now = 0 and msg = empty_msg
        and fs = "[EvRunTask, EvWritten NoError]" and gs = "[EvRunTask]" and hs = "[]"
        and ks = "[]" and force = True, OF refl _ _ refl]
    by (simp add: defs)
qed

section \<open>The packet rate\<close>

text \<open>
  A connection that exceeds the packet rate is not closed: \<open>parseHeader\<close> calls
  \<open>closeConnection\<close> while the connection is open, which refuses. The connection stays open with its
  read timer cancelled, no read under way and no task posted.
\<close>

theorem connection_rate_limit_stalls:
  assumes "c_state c = CONN_OPEN" and "\<not> c_readError c"
    and "0 < fst (decodeHeader (c_msg c))" and "fst (decodeHeader (c_msg c)) < int NETWORK_MAX_SIZE - 16"
    and "now = c_timeConnected c" and "c_packetsSent c + 1 > word_of_int maxPackets"
  shows "c_state (parseHeader maxPackets now NoError c) = CONN_OPEN
    \<and> c_tasks (parseHeader maxPackets now NoError c) = c_tasks c
    \<and> \<not> c_readTimer (parseHeader maxPackets now NoError c)
    \<and> c_reading (parseHeader maxPackets now NoError c) = ReadNone
    \<and> c_socketOpen (parseHeader maxPackets now NoError c) = c_socketOpen c"
proof (cases "decodeHeader (c_msg c)")
  case (Pair sz msg)
  with assms show ?thesis
    by (simp add: parseHeader_def Let_def closeConnection_open)
qed

theorem connection_rate_limit_stalls_witness:
  "c_state (parseHeader 25 0 NoError (new_connection 0
      (empty_msg\<lparr>m_buffer := 10 # replicate 15359 0\<rparr>)\<lparr>c_packetsSent := 25\<rparr>)) = CONN_OPEN"
  using connection_rate_limit_stalls[of "new_connection 0
      (empty_msg\<lparr>m_buffer := 10 # replicate 15359 0\<rparr>)\<lparr>c_packetsSent := 25\<rparr>" 0 25]
  by (simp add: new_connection_def decodeHeader_def empty_msg_def of_le16_def NETWORK_MAX_SIZE_def)

section \<open>Receiving what a peer sent\<close>

text \<open>
  The data path of a read: the two header bytes arrive at the start of the buffer, the body behind
  them. \<open>deliver\<close> is what \<open>parseHeader\<close> and the two socket reads do to the message.
\<close>

definition deliver :: "bytes \<Rightarrow> netmsg \<Rightarrow> netmsg option" where
  "deliver w msg =
     Option.bind (buf_write 0 (take 2 w) (m_buffer msg)) (\<lambda>b.
       let (sz, msg) = decodeHeader (msg\<lparr>m_buffer := b\<rparr>);
           (pos, msg) = bodyBuffer (msg\<lparr>m_size := word_of_int sz + NETWORK_HEADER_SIZE\<rparr>) in
       map_option (\<lambda>b. msg\<lparr>m_buffer := b\<rparr>)
         (buf_write pos (take (nat sz) (drop 2 w)) (m_buffer msg)))"

lemma deliver_view:
  assumes "wf_msg msg" and "w = le_bytes16 (of_nat n) @ body" and "length body = n" and "n < 15344"
  shows "\<exists>m. deliver w msg = Some m \<and> wf_msg m \<and> m_position m = 2 \<and> unat (m_size m) = n + 2
    \<and> buf_read 2 n (m_buffer m) = Some body"
proof -
  let ?h = "le_bytes16 (of_nat n) :: bytes"
  have n: "unat (of_nat n :: u16) = n" using assms(4) by (simp add: unat_of_nat take_bit_eq_mod)
  have lb: "length (m_buffer msg) = 15360" using assms(1) by (simp add: inv_simps NETWORK_MAX_SIZE_def)
  have b: "buf_write 0 (take 2 w) (m_buffer msg) = Some (?h @ drop 2 (m_buffer msg))"
    using lb by (simp add: buf_write_def assms(2) le_bytes16_def numeral_2_eq_2)
  have d: "of_le16 ((?h @ drop 2 (m_buffer msg)) ! 0) ((?h @ drop 2 (m_buffer msg)) ! 1) = of_nat n"
    by (simp add: le_bytes16_def)
  obtain b2 where b2: "buf_write 2 body (?h @ drop 2 (m_buffer msg)) = Some b2"
    using lb assms(3,4) by (simp add: buf_write_def)
  have u: "nat (uint (of_nat n :: u16)) = n" using n by simp
  have s: "unat (of_nat n + 2 :: u16) = n + 2"
    using n assms(4) by (subst unat_add_small) simp_all
  have "length b2 = 15360" using buf_write_length[OF b2] lb by simp
  moreover have "buf_read 2 n b2 = Some body" using buf_read_write[OF b2] assms(3) by simp
  ultimately show ?thesis
    using b b2 d u s assms(2,3)
    by (simp add: deliver_def decodeHeader_def bodyBuffer_def NETWORK_HEADER_SIZE_def inv_simps
        NETWORK_MAX_SIZE_def Let_def)
qed

lemma checksum_skip_view:
  assumes "wf_msg m" and "m_position m = 2" and "unat (m_size m) = length e + 6"
    and "buf_read 2 (4 + length e) (m_buffer m) = Some (le_bytes32 (adler e) @ e)"
    and "e \<noteq> []" and "length e < 15340"
  shows "checksum_skip adler m = Some (True, m\<lparr>m_position := 6\<rparr>)"
proof -
  have r4: "buf_read 2 4 (m_buffer m) = Some (le_bytes32 (adler e))"
    using assms(4) buf_read_prefix[of 2 "le_bytes32 (adler e)" "length e"] by simp
  have re: "buf_read 6 (length e) (m_buffer m) = Some e"
  proof -
    have l: "6 + length e \<le> length (m_buffer m)"
      and t: "take (4 + length e) (drop 2 (m_buffer m)) = le_bytes32 (adler e) @ e"
      using assms(4) by (simp_all add: buf_read_def split: if_splits)
    have "take (length e) (drop 6 (m_buffer m)) = drop 4 (take (4 + length e) (drop 2 (m_buffer m)))"
      by (simp add: drop_take)
    also have "\<dots> = e" unfolding t by simp
    finally show ?thesis using l by (simp add: buf_read_def)
  qed
  have g: "get_u32 True m = Some (adler e, m)"
    using r4 by (simp add: get_u32_def get_raw_def assms(2) le_bytes32_def)
  have "uint (m_size m) = int (length e + 6)" by (simp only: uint_nat assms(3))
  then have len: "(word_of_int (uint (m_size m) - uint (m_position m) - 4) :: u32) = of_nat (length e)"
    by (simp add: assms(2))
  have u: "unat (of_nat (length e) :: u32) = length e"
    using assms(6) by (simp add: unat_of_nat take_bit_eq_mod)
  then have pos: "(of_nat (length e) :: u32) > 0"
    using assms(5) by (simp add: word_less_nat_alt)
  have small: "\<not> (of_nat (length e) :: u32) > of_nat NETWORK_MAX_SIZE"
    using u assms(6) by (simp add: word_less_nat_alt NETWORK_MAX_SIZE_def)
  have "adlerChecksum adler e = adler e"
    using assms(5,6) by (simp add: adlerChecksum_def NETWORK_MAX_SIZE_def)
  then show ?thesis
    unfolding checksum_skip_def Let_def len
    using pos small re by (simp add: g u assms(2) skip_def)
qed

text \<open>
  C1. What a protocol with encryption and checksum puts on the wire for a message body, received by
  a peer with the same key, passes the checksum test and decrypts to the same body and size, with
  the read position at its first byte.
\<close>

theorem secure_channel_roundtrip:
  assumes "fresh_body m body" and "length body < 15320"
    and "\<not> m_rawMessages p" "\<not> compression p" "m_encryptionEnabled p" "m_checksumEnabled p"
    and "wf_msg peer"
  shows "\<exists>m' w rm rm'. onSendMessage adler deflate p m = Some m' \<and> wire m' = Some w
    \<and> deliver w peer = Some rm
    \<and> checksum_skip adler rm = Some (True, rm\<lparr>m_position := 6\<rparr>)
    \<and> XTEA_decrypt (m_key p) (rm\<lparr>m_position := 6\<rparr>) = Some (True, rm')
    \<and> unat (m_size rm') = length body \<and> m_position rm' = 8
    \<and> buf_read 8 (length body) (m_buffer rm') = Some body"
proof -
  let ?e = "encrypted_body (m_key p) body"
  let ?w = "le_bytes16 (of_nat (length ?e + 4)) @ le_bytes32 (adler ?e) @ ?e"
  obtain m' where s: "onSendMessage adler deflate p m = Some m'" "wire m' = Some ?w"
    using onSendMessage_view[OF assms(1,3-6)] by blast
  have le: "length ?e < 15330" using encrypted_body_length(3)[of "m_key p" body] assms(2) by linarith
  have ne: "?e \<noteq> []" using encrypted_body_length(2)[of body "m_key p"] by auto
  obtain rm where rm: "deliver ?w peer = Some rm" "wf_msg rm" "m_position rm = 2"
    "unat (m_size rm) = length ?e + 6"
    "buf_read 2 (4 + length ?e) (m_buffer rm) = Some (le_bytes32 (adler ?e) @ ?e)"
    using deliver_view[OF assms(7), of ?w "length ?e + 4" "le_bytes32 (adler ?e) @ ?e"] le
    by (auto simp: add.commute)
  have c: "checksum_skip adler rm = Some (True, rm\<lparr>m_position := 6\<rparr>)"
    using checksum_skip_view[of rm ?e adler] rm(2-5) ne le by simp
  obtain pad where pad: "on_blocks (xtea_dec_block (m_key p)) (length ?e div 8) ?e =
      le_bytes16 (of_nat (length body)) @ body @ pad"
    using encrypted_body_dec by blast
  have u: "unat (of_nat (length body) :: u16) = length body"
    using assms(2) by (simp add: unat_of_nat take_bit_eq_mod)
  have "buf_read 6 (length ?e) (m_buffer rm) = Some ?e"
  proof -
    have l: "6 + length ?e \<le> length (m_buffer rm)"
      and t: "take (4 + length ?e) (drop 2 (m_buffer rm)) = le_bytes32 (adler ?e) @ ?e"
      using rm(5) by (simp_all add: buf_read_def split: if_splits)
    have "take (length ?e) (drop 6 (m_buffer rm)) =
        drop 4 (take (4 + length ?e) (drop 2 (m_buffer rm)))" by (simp add: drop_take)
    also have "\<dots> = ?e" unfolding t by simp
    finally show ?thesis using l by (simp add: buf_read_def)
  qed
  then obtain rm' where "XTEA_decrypt (m_key p) (rm\<lparr>m_position := 6\<rparr>) = Some (True, rm')"
    "m_size rm' = of_nat (length body)" "m_position rm' = 8"
    "buf_read 8 (length body) (m_buffer rm') = Some body"
    using decrypt_view[of "rm\<lparr>m_position := 6\<rparr>" ?e "m_key p" "of_nat (length body)" body pad]
      rm(2,4) encrypted_body_length(1)[of "m_key p" body] pad u by (auto simp: inv_simps)
  with s rm(1) c u show ?thesis by metis
qed

definition hello_msg :: outmsg where
  "hello_msg = \<lparr>m_size = 2, m_position = 10,
     m_buffer = replicate 8 0 @ [0x14, 7] @ replicate 15350 0, m_outputBufferStart = 8\<rparr>"

theorem secure_channel_roundtrip_witness:
  "\<exists>m' w rm rm'. onSendMessage (\<lambda>_. 1) (\<lambda>_. None)
      (new_protocol\<lparr>m_encryptionEnabled := True, m_checksumEnabled := True\<rparr>) hello_msg = Some m'
    \<and> wire m' = Some w \<and> deliver w empty_msg = Some rm
    \<and> XTEA_decrypt [0, 0, 0, 0] (rm\<lparr>m_position := 6\<rparr>) = Some (True, rm')
    \<and> buf_read 8 2 (m_buffer rm') = Some [0x14, 7]"
proof -
  have "fresh_body hello_msg [0x14, 7]"
    by (simp add: fresh_body_def hello_msg_def inv_simps NETWORK_MAX_SIZE_def wire_def buf_read_def)
  from secure_channel_roundtrip[OF this, of
      "new_protocol\<lparr>m_encryptionEnabled := True, m_checksumEnabled := True\<rparr>" empty_msg
      "\<lambda>_. 1" "\<lambda>_. None"]
  show ?thesis by (auto simp: new_protocol_def wf_empty_msg numeral_2_eq_2)
qed

section \<open>The connection manager\<close>

record login_block =
  lastLogin :: int
  lastProtocol :: int
  loginsAmount :: int

record connect_block =
  cb_count :: u32
  startTime :: u64
  blockTime :: u64

text \<open>Connections are known to the manager by their address, a number here.\<close>

record conn_manager =
  m_connections :: "nat list"
  ipLoginMap :: "u32 \<Rightarrow> login_block option"
  ipConnectMap :: "u32 \<Rightarrow> connect_block option"

definition new_manager :: conn_manager where
  "new_manager = \<lparr>m_connections = [], ipLoginMap = (\<lambda>_. None), ipConnectMap = (\<lambda>_. None)\<rparr>"

definition createConnection :: "nat \<Rightarrow> conn_manager \<Rightarrow> conn_manager" where
  "createConnection c m = m\<lparr>m_connections := m_connections m @ [c]\<rparr>"

definition manager_release :: "nat \<Rightarrow> conn_manager \<Rightarrow> conn_manager" where
  "manager_release c m = m\<lparr>m_connections := remove1 c (m_connections m)\<rparr>"

text \<open>Shutting down closes the socket of every connection, then forgets them.\<close>

definition manager_shutdown ::
  "(nat \<Rightarrow> connection) \<Rightarrow> conn_manager \<Rightarrow> (nat \<Rightarrow> connection) \<times> conn_manager" where
  "manager_shutdown conns m =
     (fold (\<lambda>c s. s(c := (s c)\<lparr>c_socketOpen := False\<rparr>)) (m_connections m) conns,
      m\<lparr>m_connections := []\<rparr>)"

text \<open>The configured values: login tries, and the two timeouts in milliseconds.\<close>

definition isDisabled :: "int \<Rightarrow> int \<Rightarrow> int \<Rightarrow> u32 \<Rightarrow> int \<Rightarrow> conn_manager \<Rightarrow> bool" where
  "isDisabled loginTries loginTimeout now clientIp protocolId m =
     (if loginTries = 0 \<or> clientIp = 0 then False
      else case ipLoginMap m clientIp of
        None \<Rightarrow> False
      | Some b \<Rightarrow> lastProtocol b \<noteq> protocolId \<and> loginsAmount b > loginTries
          \<and> now < lastLogin b + loginTimeout div 1000)"

definition addAttempt ::
  "int \<Rightarrow> int \<Rightarrow> int \<Rightarrow> u32 \<Rightarrow> int \<Rightarrow> bool \<Rightarrow> conn_manager \<Rightarrow> conn_manager" where
  "addAttempt loginTries retryTimeout now clientIp protocolId success m =
     (if clientIp = 0 then m
      else
        let b = (case ipLoginMap m clientIp of
                   None \<Rightarrow> \<lparr>lastLogin = 0, lastProtocol = 0, loginsAmount = 0\<rparr>
                 | Some b \<Rightarrow> b);
            b = (if loginsAmount b > loginTries then b\<lparr>loginsAmount := 0\<rparr> else b);
            b = (if \<not> success \<or> now < lastLogin b + retryTimeout div 1000
                 then b\<lparr>loginsAmount := loginsAmount b + 1\<rparr> else b\<lparr>loginsAmount := 0\<rparr>);
            b = b\<lparr>lastLogin := now, lastProtocol := protocolId\<rparr>
        in m\<lparr>ipLoginMap := (ipLoginMap m)(clientIp \<mapsto> b)\<rparr>)"

definition put_block :: "u32 \<Rightarrow> connect_block \<Rightarrow> conn_manager \<Rightarrow> conn_manager" where
  "put_block ip b m = m\<lparr>ipConnectMap := (ipConnectMap m)(ip \<mapsto> b)\<rparr>"

lemma put_block_simps [simp]:
  "ipConnectMap (put_block ip b m) ip = Some b"
  "put_block ip b' (put_block ip b m) = put_block ip b' m"
  by (simp_all add: put_block_def)

lemma put_block_same: "ipConnectMap m ip = Some b \<Longrightarrow> put_block ip b m = m"
  by (simp add: put_block_def fun_upd_idem)

definition acceptConnection :: "u64 \<Rightarrow> u32 \<Rightarrow> conn_manager \<Rightarrow> bool \<times> conn_manager" where
  "acceptConnection currentTime clientIp m =
     (if clientIp = 0 then (False, m)
      else case ipConnectMap m clientIp of
        None \<Rightarrow> (True, put_block clientIp \<lparr>cb_count = 1, startTime = currentTime, blockTime = 0\<rparr> m)
      | Some b \<Rightarrow>
          let b = b\<lparr>cb_count := cb_count b + 1\<rparr>
          in if blockTime b > currentTime then (False, put_block clientIp b m)
          else if currentTime - startTime b > 1000 then
            let tmp = cb_count b;
                b = b\<lparr>startTime := currentTime, cb_count := 0, blockTime := 0\<rparr>
            in if tmp > 10
               then (False, put_block clientIp (b\<lparr>blockTime := currentTime + 10000\<rparr>) m)
               else (True, put_block clientIp b m)
          else (True, put_block clientIp b m))"

subsection \<open>Failed logins\<close>

definition login_inv :: "int \<Rightarrow> conn_manager \<Rightarrow> bool" where
  [inv_simps]: "login_inv loginTries m \<longleftrightarrow>
     (\<forall>ip b. ipLoginMap m ip = Some b \<longrightarrow> 0 \<le> loginsAmount b \<and> loginsAmount b \<le> loginTries + 1)"

datatype attempt = Attempt int u32 int bool

fun attempt_step :: "int \<Rightarrow> int \<Rightarrow> attempt \<Rightarrow> conn_manager \<Rightarrow> conn_manager" where
  "attempt_step tries retry (Attempt now ip proto success) m = addAttempt tries retry now ip proto success m"

lemma addAttempt_inv [keeps_inv]:
  "0 \<le> tries \<Longrightarrow> login_inv tries m \<Longrightarrow> login_inv tries (addAttempt tries retry now ip proto success m)"
  by (auto simp: inv_simps addAttempt_def Let_def split: option.splits)

interpretation logins: guarded_machine "attempt_step (int tries) retry" "login_inv (int tries)" for tries retry
proof unfold_locales
  fix m e
  assume "login_inv (int tries) m"
  then show "login_inv (int tries) (attempt_step (int tries) retry e m)"
    by (cases e) (simp add: keeps_inv)
qed

lemma login_inv_new: "login_inv tries new_manager"
  by (simp add: inv_simps new_manager_def)

text \<open>Failed attempts of one address through one protocol, at the given times.\<close>

definition fail_all :: "int \<Rightarrow> int \<Rightarrow> u32 \<Rightarrow> int \<Rightarrow> int list \<Rightarrow> conn_manager \<Rightarrow> conn_manager" where
  "fail_all tries retry ip proto ts = fold (\<lambda>t. attempt_step tries retry (Attempt t ip proto False)) ts"

lemma addAttempt_failed:
  assumes "ip \<noteq> 0" and "ipLoginMap m ip = Some b" and "loginsAmount b \<le> tries"
  shows "ipLoginMap (addAttempt tries retry t ip proto False m) ip =
    Some \<lparr>lastLogin = t, lastProtocol = proto, loginsAmount = loginsAmount b + 1\<rparr>"
  using assms by (simp add: addAttempt_def Let_def)

lemma addAttempt_failed_new:
  assumes "ip \<noteq> 0" and "ipLoginMap m ip = None" and "0 \<le> tries"
  shows "ipLoginMap (addAttempt tries retry t ip proto False m) ip =
    Some \<lparr>lastLogin = t, lastProtocol = proto, loginsAmount = 1\<rparr>"
  using assms by (simp add: addAttempt_def Let_def)

lemma fail_all_count:
  assumes "ip \<noteq> 0" and "ipLoginMap m ip = Some b" and "loginsAmount b + int (length ts) \<le> tries + 1"
    and "ts \<noteq> []"
  shows "ipLoginMap (fail_all tries retry ip proto ts m) ip =
    Some \<lparr>lastLogin = last ts, lastProtocol = proto, loginsAmount = loginsAmount b + int (length ts)\<rparr>"
  using assms(2-4)
proof (induction ts arbitrary: m b)
  case Nil
  then show ?case by simp
next
  case (Cons t ts)
  let ?m = "addAttempt tries retry t ip proto False m"
  have s: "ipLoginMap ?m ip =
      Some \<lparr>lastLogin = t, lastProtocol = proto, loginsAmount = loginsAmount b + 1\<rparr>"
    using addAttempt_failed[OF assms(1) Cons.prems(1)] Cons.prems(2) by simp
  show ?case
  proof (cases "ts = []")
    case True
    then show ?thesis using s by (simp add: fail_all_def)
  next
    case False
    then show ?thesis using Cons.IH[OF s] Cons.prems(2) by (simp add: fail_all_def)
  qed
qed

text \<open>
  From a fresh manager: one failed login more than allowed (at any times) disables the address
  for every other protocol until the timeout after the last one; the protocol that was tried is
  never disabled, and the counter of every address stays within the tries plus one.
\<close>

theorem failed_logins_disable:
  assumes "ip \<noteq> 0" and "0 < tries" and "length ts = nat tries + 1"
  shows "isDisabled tries timeout now ip proto' (fail_all tries retry ip proto ts new_manager)
      = (proto' \<noteq> proto \<and> now < last ts + timeout div 1000)
    \<and> login_inv tries (fail_all tries retry ip proto ts new_manager)"
proof -
  obtain t r where ts: "ts = t # r" "length r = nat tries" using assms(3) by (cases ts) auto
  then have r: "r \<noteq> []" using assms(2) by auto
  let ?m = "addAttempt tries retry t ip proto False new_manager"
  have s: "ipLoginMap ?m ip = Some \<lparr>lastLogin = t, lastProtocol = proto, loginsAmount = 1\<rparr>"
    using addAttempt_failed_new[of ip new_manager tries retry t proto] assms(1,2)
    by (simp add: new_manager_def)
  have c: "ipLoginMap (fail_all tries retry ip proto r ?m) ip =
      Some \<lparr>lastLogin = last r, lastProtocol = proto, loginsAmount = 1 + tries\<rparr>"
    using fail_all_count[OF assms(1) s _ r] ts(2) assms(2) by simp
  have f: "ipLoginMap (fail_all tries retry ip proto ts new_manager) ip =
      Some \<lparr>lastLogin = last ts, lastProtocol = proto, loginsAmount = 1 + tries\<rparr>"
    using c r by (simp add: fail_all_def ts(1))
  have "login_inv (int (nat tries)) (fail_all (int (nat tries)) retry ip proto ts new_manager)"
    unfolding fail_all_def
    using logins.run_inv[OF login_inv_new[of "int (nat tries)"],
        of retry "map (\<lambda>t. Attempt t ip proto False) ts"]
    by (simp add: fold_map comp_def)
  then show ?thesis
    using assms(1,2) by (auto simp: isDisabled_def f)
qed

theorem failed_logins_disable_witness:
  "isDisabled 3 5000 14 7 2 (fail_all 3 30000 7 1 [7, 8, 9, 10] new_manager)
   \<and> \<not> isDisabled 3 5000 14 7 1 (fail_all 3 30000 7 1 [7, 8, 9, 10] new_manager)"
  using failed_logins_disable[of 7 3 "[7, 8, 9, 10]" 5000 14 2 30000 1]
    failed_logins_disable[of 7 3 "[7, 8, 9, 10]" 5000 14 1 30000 1]
  by simp

subsection \<open>The connection rate\<close>

text \<open>The answers an address gets when it connects at the given times.\<close>

fun accept_run :: "u32 \<Rightarrow> u64 list \<Rightarrow> conn_manager \<Rightarrow> bool list" where
  "accept_run ip [] m = []"
| "accept_run ip (t # ts) m =
     (case acceptConnection t ip m of (ok, m') \<Rightarrow> ok # accept_run ip ts m')"

lemma accept_blocked:
  assumes "ip \<noteq> 0" and "ipConnectMap m ip = Some b" and "t < blockTime b"
  shows "acceptConnection t ip m =
    (False, put_block ip (b\<lparr>cb_count := cb_count b + 1\<rparr>) m)"
  using assms by (simp add: acceptConnection_def Let_def)

lemma accept_run_blocked:
  assumes "ip \<noteq> 0"
  shows "ipConnectMap m ip = Some b \<Longrightarrow> \<forall>t\<in>set ts. t < blockTime b \<Longrightarrow>
    accept_run ip ts m = replicate (length ts) False"
proof (induction ts arbitrary: m b)
  case (Cons t ts)
  show ?case
    using Cons.IH[of "put_block ip (b\<lparr>cb_count := cb_count b + 1\<rparr>) m"
        "b\<lparr>cb_count := cb_count b + 1\<rparr>"] Cons.prems
    by (simp add: accept_blocked[OF assms Cons.prems(1)])
qed simp

lemma accept_within_second:
  assumes "ip \<noteq> 0" and "ipConnectMap m ip = Some b" and "blockTime b = 0"
    and "t - startTime b \<le> 1000"
  shows "acceptConnection t ip m =
    (True, put_block ip (b\<lparr>cb_count := cb_count b + 1\<rparr>) m)"
  using assms by (simp add: acceptConnection_def Let_def not_less)

lemma accept_run_within:
  assumes "ip \<noteq> 0"
  shows "ipConnectMap m ip = Some b \<Longrightarrow> blockTime b = 0 \<Longrightarrow>
    \<forall>t\<in>set ts. t - startTime b \<le> 1000 \<Longrightarrow>
    accept_run ip (ts @ rest) m = replicate (length ts) True
      @ accept_run ip rest (put_block ip (b\<lparr>cb_count := cb_count b + of_nat (length ts)\<rparr>) m)"
proof (induction ts arbitrary: m b)
  case Nil
  then show ?case by (simp add: put_block_same)
next
  case (Cons t ts)
  show ?case
    using Cons.IH[of "put_block ip (b\<lparr>cb_count := cb_count b + 1\<rparr>) m"
        "b\<lparr>cb_count := cb_count b + 1\<rparr>"] Cons.prems
    by (simp add: accept_within_second[OF assms Cons.prems(1)] add.assoc)
qed

text \<open>
  The rate of a new address: any number of connections within its first second are accepted;
  the first one after it is refused when more than ten were counted, and then every connection in
  the ten seconds from there is refused as well.
\<close>

theorem connect_rate_block:
  assumes "ip \<noteq> 0" and "ipConnectMap m ip = None"
    and "\<forall>t\<in>set burst. t - t0 \<le> 1000" and "9 \<le> length burst" and "length burst < 2 ^ 31"
    and "1000 < t1 - t0" and "\<forall>t\<in>set late. t < t1 + 10000"
  shows "accept_run ip (t0 # burst @ t1 # late) m
    = replicate (length burst + 1) True @ replicate (length late + 1) False"
proof -
  define b where "b = \<lparr>cb_count = 1, startTime = t0, blockTime = 0\<rparr>"
  let ?m = "put_block ip b m"
  have a: "acceptConnection t0 ip m = (True, ?m)"
    using assms(1,2) by (simp add: acceptConnection_def b_def)
  let ?n = "1 + of_nat (length burst) :: u32"
  let ?m1 = "put_block ip (b\<lparr>cb_count := ?n\<rparr>) m"
  have "accept_run ip (burst @ t1 # late) ?m =
      replicate (length burst) True @ accept_run ip (t1 # late) ?m1"
    using accept_run_within[OF assms(1), of ?m b burst "t1 # late"] assms(3) by (simp add: b_def)
  moreover have "accept_run ip (t1 # late) ?m1 = replicate (length late + 1) False"
  proof -
    have "unat (of_nat (length burst) :: u32) = length burst"
      using assms(5) by (simp add: unat_of_nat take_bit_eq_mod)
    then have "unat (?n + 1) = length burst + 2"
      using assms(5) by (subst unat_add_small; simp add: unat_add_small)
    then have "?n + 1 > 10" using assms(4) by (simp add: word_less_nat_alt)
    then have r: "acceptConnection t1 ip ?m1 = (False, put_block ip
        \<lparr>cb_count = 0, startTime = t1, blockTime = t1 + 10000\<rparr> m)"
      using assms(1,6) by (simp add: acceptConnection_def b_def Let_def)
    show ?thesis
      using accept_run_blocked[OF assms(1), of "put_block ip
        \<lparr>cb_count = 0, startTime = t1, blockTime = t1 + 10000\<rparr> m"
        "\<lparr>cb_count = 0, startTime = t1, blockTime = t1 + 10000\<rparr>" late] assms(7)
      by (simp add: r)
  qed
  ultimately show ?thesis using a by simp
qed

theorem connect_rate_block_witness:
  "accept_run 7 (100 # replicate 9 200 @ 1200 # [5000, 11199]) new_manager
   = replicate 10 True @ [False, False, False]"
  using connect_rate_block[of 7 new_manager "replicate 9 200" 100 1200 "[5000, 11199]"]
  by (simp add: new_manager_def del: accept_run.simps)

end
