(* ===== verification/PropStreams.thy ===== *)
theory PropStreams
  imports Prelude
begin

text \<open>
  \<^verbatim>\<open>fileloader.h\<close>: the two streams every binary format of the server is read from and written
  to. A \<open>PropStream\<close> is the bytes from its read pointer to its end; a \<open>PropWriteStream\<close> is a
  growing buffer, modelled with its capacity so that a write outside of it is visible. The last
  section relates the two: what one writes the other reads.
\<close>

section \<open>PropStream\<close>

type_synonym prop_stream = bytes

text \<open>\<open>size()\<close> is the pointer difference as a signed 32-bit number.\<close>

definition stream_size :: "prop_stream \<Rightarrow> int" where
  "stream_size s = sint (of_nat (length s) :: u32)"

text \<open>\<open>getType\<close> and \<open>getStruct\<close>: the next \<open>n\<close> bytes, or nothing read.\<close>

definition getStruct :: "nat \<Rightarrow> prop_stream \<Rightarrow> bytes option \<times> prop_stream" where
  "getStruct n s = (if stream_size s < int n then (None, s) else (Some (take n s), drop n s))"

definition getByte :: "prop_stream \<Rightarrow> u8 option \<times> prop_stream" where
  "getByte s = (case getStruct 1 s of (v, s) \<Rightarrow> (map_option (\<lambda>b. b ! 0) v, s))"

definition getShort :: "prop_stream \<Rightarrow> u16 option \<times> prop_stream" where
  "getShort s = (case getStruct 2 s of (v, s) \<Rightarrow> (map_option (\<lambda>b. of_le16 (b ! 0) (b ! 1)) v, s))"

definition getLong :: "prop_stream \<Rightarrow> u32 option \<times> prop_stream" where
  "getLong s = (case getStruct 4 s of
     (v, s) \<Rightarrow> (map_option (\<lambda>b. of_le32 (b ! 0) (b ! 1) (b ! 2) (b ! 3)) v, s))"

text \<open>A \<open>time_t\<close> is 64 bits; a \<open>float\<close> is kept as its 32-bit pattern.\<close>

definition getTime :: "prop_stream \<Rightarrow> u64 option \<times> prop_stream" where
  "getTime s = (case getStruct 8 s of
     (v, s) \<Rightarrow> (map_option (\<lambda>b. ucast (of_le32 (b ! 0) (b ! 1) (b ! 2) (b ! 3))
        OR push_bit 32 (ucast (of_le32 (b ! 4) (b ! 5) (b ! 6) (b ! 7)))) v, s))"

definition getFloat :: "prop_stream \<Rightarrow> u32 option \<times> prop_stream" where
  "getFloat s = (case getStruct 4 s of
     (v, s) \<Rightarrow> (map_option (\<lambda>b. of_le32 (b ! 0) (b ! 1) (b ! 2) (b ! 3)) v, s))"

text \<open>
  The strings: the length is tested as a signed number, so a long string whose length has the top
  bit set passes the test and the copy runs behind the end: \<^const>\<open>None\<close>.
\<close>

definition stream_getString :: "prop_stream \<Rightarrow> bytes option \<times> prop_stream" where
  "stream_getString s =
     (case getShort s of
        (None, s) \<Rightarrow> (None, s)
      | (Some strLen, s) \<Rightarrow>
          if stream_size s < uint strLen then (None, s)
          else (Some (take (unat strLen) s), drop (unat strLen) s))"

definition getLongString :: "prop_stream \<Rightarrow> (bytes option \<times> prop_stream) option" where
  "getLongString s =
     (case getLong s of
        (None, s) \<Rightarrow> Some (None, s)
      | (Some strLen, s) \<Rightarrow>
          if stream_size s < sint strLen then Some (None, s)
          else if length s < unat strLen then None
          else Some (Some (take (unat strLen) s), drop (unat strLen) s))"

text \<open>
  \<open>skip\<close> takes an \<^verbatim>\<open>int16_t\<close>: a negative count, which a length of 32,768 or more becomes,
  moves the read pointer back. The first argument is what was read before; \<^const>\<open>None\<close> is a
  pointer in front of the buffer.
\<close>

definition stream_skip :: "16 word \<Rightarrow> bytes \<Rightarrow> prop_stream \<Rightarrow> (bool \<times> bytes \<times> prop_stream) option" where
  "stream_skip n past s =
     (let k = sint n in
      if stream_size s < k then Some (False, past, s)
      else if 0 \<le> k then Some (True, past @ take (nat k) s, drop (nat k) s)
      else if int (length past) < - k then None
      else let p = length past - nat (- k) in Some (True, take p past, drop p past @ s))"

text \<open>Skipping stays in the buffer; it goes on only for a count that is not negative.\<close>

lemma stream_skip_buffer:
  "stream_skip n past s = Some (ok, past', s') \<Longrightarrow> past' @ s' = past @ s
     \<and> (ok \<longrightarrow> int (length past') = int (length past) + min (sint n) (int (length s)))"
  by (auto simp: stream_skip_def Let_def split: if_splits)

lemma stream_size_small: "length s < 2 ^ 31 \<Longrightarrow> stream_size s = int (length s)"
  by (simp add: stream_size_def sint_uint unat_of_nat uint_nat take_bit_eq_mod signed_take_bit_int_eq_self)

section \<open>PropWriteStream\<close>

record write_stream =
  w_buffer :: bytes
  w_bufferSize :: u32
  w_size :: u32

definition new_write_stream :: write_stream where
  "new_write_stream = \<lparr>w_buffer = replicate 32 0, w_bufferSize = 32, w_size = 0\<rparr>"

definition getStream :: "write_stream \<Rightarrow> bytes" where
  "getStream w = take (unat (w_size w)) (w_buffer w)"

text \<open>
  The common body of the writers: grow the buffer by the number of bytes rounded up to 32 when
  they do not fit, then copy. The bytes that growing adds are never read before they are written.
\<close>

definition grow :: "nat \<Rightarrow> write_stream \<Rightarrow> write_stream" where
  "grow n w =
     (if unat (w_bufferSize w - w_size w) < n then
        let sz = w_bufferSize w + ((of_nat n + 0x1F) AND 0xFFFFFFE0)
        in w\<lparr>w_bufferSize := sz,
             w_buffer := take (unat sz) (w_buffer w @ replicate (unat sz - length (w_buffer w)) 0)\<rparr>
      else w)"

definition addStruct :: "bytes \<Rightarrow> write_stream \<Rightarrow> write_stream option" where
  "addStruct b w =
     (let w = grow (length b) w; p = unat (w_size w) in
      if p + length b \<le> length (w_buffer w)
      then Some (w\<lparr>w_buffer := take p (w_buffer w) @ b @ drop (p + length b) (w_buffer w),
                   w_size := w_size w + of_nat (length b)\<rparr>)
      else None)"

definition addByte :: "u8 \<Rightarrow> write_stream \<Rightarrow> write_stream option" where
  "addByte v = addStruct [v]"

definition addShort :: "u16 \<Rightarrow> write_stream \<Rightarrow> write_stream option" where
  "addShort v = addStruct (le_bytes16 v)"

definition addLong :: "u32 \<Rightarrow> write_stream \<Rightarrow> write_stream option" where
  "addLong v = addStruct (le_bytes32 v)"

definition addTime :: "u64 \<Rightarrow> write_stream \<Rightarrow> write_stream option" where
  "addTime v = addStruct (le_bytes32 (ucast v) @ le_bytes32 (ucast (drop_bit 32 v)))"

text \<open>Both strings take the length as a 16-bit number and copy that many bytes.\<close>

definition addString :: "bytes \<Rightarrow> write_stream \<Rightarrow> write_stream option" where
  "addString s w =
     (let strLen = of_nat (length s) :: u16 in
      Option.bind (addShort strLen w) (addStruct (take (unat strLen) s)))"

definition addLongString :: "bytes \<Rightarrow> write_stream \<Rightarrow> write_stream option" where
  "addLongString s w =
     (let strLen = of_nat (length s) :: u16 in
      Option.bind (addLong (ucast strLen) w) (addStruct (take (unat strLen) s)))"

subsection \<open>The buffer is what was written\<close>

definition wf_write :: "write_stream \<Rightarrow> bool" where
  [inv_simps]: "wf_write w \<longleftrightarrow> length (w_buffer w) = unat (w_bufferSize w) \<and> w_size w \<le> w_bufferSize w"

lemma wf_new_write [simp]: "wf_write new_write_stream" "getStream new_write_stream = []"
  by (simp_all add: inv_simps new_write_stream_def getStream_def)

lemma round_up_32: "n \<le> 2 ^ 16 \<Longrightarrow>
    n \<le> unat ((of_nat n + 0x1F) AND 0xFFFFFFE0 :: u32) \<and>
    unat ((of_nat n + 0x1F) AND 0xFFFFFFE0 :: u32) \<le> n + 31"
proof -
  assume n: "n \<le> 2 ^ 16"
  let ?x = "of_nat n + 0x1F :: u32"
  have x: "unat ?x = n + 31"
    using n by (subst unat_add_small; simp add: unat_of_nat take_bit_eq_mod)
  have m: "(0xFFFFFFE0 :: u32) = NOT (mask 5)" by (simp add: mask_eq_exp_minus_1)
  have "?x AND NOT (mask 5) = push_bit 5 (drop_bit 5 ?x)"
    by (rule bit_word_eqI) (auto simp: bit_simps)
  then have "unat (?x AND NOT (mask 5)) = (n + 31) div 32 * 32 mod 2 ^ 32"
    using x by (simp only: unsigned_push_bit_eq unsigned_drop_bit_eq)
      (use n in \<open>simp add: push_bit_eq_mult drop_bit_eq_div take_bit_eq_mod\<close>)
  also have "\<dots> = (n + 31) div 32 * 32" using n by simp
  finally have "unat (?x AND NOT (mask 5)) = (n + 31) div 32 * 32" .
  then show ?thesis using m by simp
qed

lemma addStruct_view:
  assumes "wf_write w" and "length b \<le> 2 ^ 16"
    and "unat (w_bufferSize w) + length b + 31 < 2 ^ 32"
  shows "\<exists>w'. addStruct b w = Some w' \<and> wf_write w' \<and> getStream w' = getStream w @ b
    \<and> unat (w_bufferSize w') \<le> unat (w_bufferSize w) + length b + 31
    \<and> length (getStream w') = unat (w_size w')"
proof -
  let ?g = "grow (length b) w"
  have sz: "unat (w_size w) \<le> unat (w_bufferSize w)" using assms(1) by (simp add: inv_simps word_le_nat_alt)
  have d: "unat (w_bufferSize w - w_size w) = unat (w_bufferSize w) - unat (w_size w)"
    using assms(1) by (simp add: inv_simps unat_sub)
  let ?r = "(of_nat (length b) + 0x1F) AND 0xFFFFFFE0 :: u32"
  have r: "length b \<le> unat ?r" "unat ?r \<le> length b + 31" using round_up_32[OF assms(2)] by auto
  have u: "unat (w_bufferSize w + ?r) = unat (w_bufferSize w) + unat ?r"
    by (rule unat_add_small) (use r assms(3) in simp)
  have g: "length (w_buffer ?g) = unat (w_bufferSize ?g)" "w_size ?g = w_size w"
    "unat (w_size w) + length b \<le> unat (w_bufferSize ?g)"
    "unat (w_bufferSize ?g) \<le> unat (w_bufferSize w) + length b + 31"
    "take (unat (w_size w)) (w_buffer ?g) = take (unat (w_size w)) (w_buffer w)"
    using assms(1) sz d r u by (auto simp: grow_def inv_simps Let_def)
  have s: "unat (w_size w + of_nat (length b)) = unat (w_size w) + length b"
    using assms(2,3) sz by (subst unat_add_small; simp add: unat_of_nat take_bit_eq_mod)
  have lt: "length (take (unat (w_size w)) (w_buffer ?g)) = unat (w_size w)"
    using g(1,3) by simp
  have "getStream (?g\<lparr>w_buffer := take (unat (w_size w)) (w_buffer ?g) @ b
      @ drop (unat (w_size w) + length b) (w_buffer ?g), w_size := w_size w + of_nat (length b)\<rparr>)
      = getStream w @ b"
    using g(1,3) by (simp add: getStream_def s g(5)[symmetric])
  then show ?thesis
    using g(1-4) s lt by (simp add: addStruct_def Let_def inv_simps word_le_nat_alt getStream_def)
qed

section \<open>What one writes the other reads\<close>

text \<open>The bytes of each kind of value.\<close>

definition enc_string :: "bytes \<Rightarrow> bytes" where
  "enc_string s = le_bytes16 (of_nat (length s)) @ s"

definition enc_long_string :: "bytes \<Rightarrow> bytes" where
  "enc_long_string s = le_bytes32 (of_nat (length s)) @ s"

definition as_dec :: "(prop_stream \<Rightarrow> 'a option \<times> prop_stream) \<Rightarrow> bytes \<Rightarrow> ('a \<times> bytes) option" where
  "as_dec g s = (case g s of (None, r) \<Rightarrow> None | (Some a, r) \<Rightarrow> Some (a, r))"

lemma as_dec_iff: "as_dec g s = Some (a, r) \<longleftrightarrow> g s = (Some a, r)"
  by (auto simp: as_dec_def split: prod.splits option.splits)

definition total_read :: "('a option \<times> bytes) option \<Rightarrow> 'a option \<times> bytes" where
  "total_read x = (case x of None \<Rightarrow> (None, []) | Some y \<Rightarrow> y)"

lemma getStruct_append:
  "length b = n \<Longrightarrow> n + length r < 2 ^ 31 \<Longrightarrow> getStruct n (b @ r) = (Some b, r)"
  by (simp add: getStruct_def stream_size_small)

lemma getByte_append: "length r < 2 ^ 31 - 1 \<Longrightarrow> getByte (b # r) = (Some b, r)"
  using getStruct_append[of "[b]" 1 r] by (simp add: getByte_def)

lemma getShort_append: "length r < 2 ^ 31 - 2 \<Longrightarrow> getShort (le_bytes16 v @ r) = (Some v, r)"
  using getStruct_append[of "le_bytes16 v" 2 r] by (simp add: getShort_def le_bytes16_def)

lemma getLong_append: "length r < 2 ^ 31 - 4 \<Longrightarrow> getLong (le_bytes32 v @ r) = (Some v, r)"
  using getStruct_append[of "le_bytes32 v" 4 r] by (simp add: getLong_def le_bytes32_def)

lemma length_enc_string [simp]: "length (enc_string s) = 2 + length s"
  by (simp add: enc_string_def)

lemma length_enc_long_string [simp]: "length (enc_long_string s) = 4 + length s"
  by (simp add: enc_long_string_def)

lemma getFloat_getLong: "getFloat = getLong"
  by (simp add: fun_eq_iff getFloat_def getLong_def)

lemma getString_append:
  assumes "length b < 2 ^ 16" and "length b + length r < 2 ^ 31 - 2"
  shows "stream_getString (enc_string b @ r) = (Some b, r)"
proof -
  have "unat (of_nat (length b) :: u16) = length b"
    using assms(1) by (simp add: unat_of_nat take_bit_eq_mod)
  moreover from this have "uint (of_nat (length b) :: u16) = int (length b)" by (simp only: uint_nat)
  moreover have "getShort (le_bytes16 (of_nat (length b)) @ b @ r) = (Some (of_nat (length b)), b @ r)"
    by (rule getShort_append) (use assms(2) in simp)
  ultimately show ?thesis using assms(2) by (simp add: stream_getString_def enc_string_def stream_size_small)
qed

lemma getLongString_append:
  assumes "length b + length r < 2 ^ 31 - 4"
  shows "getLongString (enc_long_string b @ r) = Some (Some b, r)"
proof -
  have "unat (of_nat (length b) :: u32) = length b"
    using assms by (simp add: unat_of_nat take_bit_eq_mod)
  moreover have "sint (of_nat (length b) :: u32) = int (length b)"
    using stream_size_small[of b] assms by (simp add: stream_size_def)
  moreover have "getLong (le_bytes32 (of_nat (length b)) @ b @ r) = (Some (of_nat (length b)), b @ r)"
    by (rule getLong_append) (use assms in simp)
  ultimately show ?thesis
    using assms by (simp add: getLongString_def enc_long_string_def stream_size_small)
qed

interpretation byte_codec: prefix_codec "\<lambda>b. [b]" "as_dec getByte" "\<lambda>_. True" "2 ^ 31"
  by unfold_locales (simp add: as_dec_iff getByte_append)

interpretation short_codec: prefix_codec le_bytes16 "as_dec getShort" "\<lambda>_. True" "2 ^ 31"
  by unfold_locales (simp add: as_dec_iff getShort_append)

interpretation long_codec: prefix_codec le_bytes32 "as_dec getLong" "\<lambda>_. True" "2 ^ 31"
  by unfold_locales (simp add: as_dec_iff getLong_append)

interpretation string_codec:
  prefix_codec enc_string "as_dec stream_getString" "\<lambda>s. length s < 2 ^ 16" "2 ^ 31"
  by unfold_locales (simp add: as_dec_iff getString_append)

interpretation long_string_codec: prefix_codec enc_long_string
  "as_dec (\<lambda>s. total_read (getLongString s))" "\<lambda>_. True" "2 ^ 31"
  by unfold_locales (simp add: as_dec_iff getLongString_append total_read_def)

text \<open>
  The writers against the bytes: \<open>appends k b w r\<close> says that \<open>r\<close> is the stream \<open>w\<close> with \<open>b\<close> written
  behind it, its capacity grown by at most \<open>k\<close> more than the bytes written.
\<close>

definition appends :: "nat \<Rightarrow> bytes \<Rightarrow> write_stream \<Rightarrow> write_stream option \<Rightarrow> bool" where
  "appends k b w r \<longleftrightarrow> (\<exists>w'. r = Some w' \<and> wf_write w' \<and> getStream w' = getStream w @ b
     \<and> unat (w_bufferSize w') \<le> unat (w_bufferSize w) + length b + k)"

lemma appends_addStruct [codec_simps]:
  "wf_write w \<Longrightarrow> length b \<le> 2 ^ 16 \<Longrightarrow> unat (w_bufferSize w) + length b + 31 < 2 ^ 32 \<Longrightarrow>
    appends 31 b w (addStruct b w)"
  using addStruct_view[of w b] by (auto simp: appends_def)

lemma appends_mono: "appends k b w r \<Longrightarrow> k \<le> l \<Longrightarrow> appends l b w r"
  by (fastforce simp: appends_def)

lemma appends_bind:
  assumes "appends k a w r"
    and "\<And>w'. wf_write w' \<Longrightarrow> unat (w_bufferSize w') \<le> unat (w_bufferSize w) + length a + k \<Longrightarrow>
      appends l b w' (f w')"
  shows "appends (k + l) (a @ b) w (Option.bind r f)"
proof -
  obtain w1 where w1: "r = Some w1" "wf_write w1" "getStream w1 = getStream w @ a"
    "unat (w_bufferSize w1) \<le> unat (w_bufferSize w) + length a + k"
    using assms(1) by (auto simp: appends_def)
  obtain w2 where "f w1 = Some w2" "wf_write w2" "getStream w2 = getStream w1 @ b"
    "unat (w_bufferSize w2) \<le> unat (w_bufferSize w1) + length b + l"
    using assms(2)[OF w1(2,4)] by (auto simp: appends_def)
  then show ?thesis using w1 by (auto simp: appends_def)
qed

lemma unat_length16: "unat (of_nat (length s) :: u16) = length s mod 65536"
  by (simp add: unat_of_nat take_bit_eq_mod)

lemma mod_length_less: "length s mod 65536 \<le> length s" "length s mod 65536 < 65536"
  by simp_all

lemma appends_addString [codec_simps]:
  assumes "wf_write w" and "unat (w_bufferSize w) + 2 ^ 17 < 2 ^ 32"
  shows "appends 62 (enc_string (take (length s mod 65536) s)) w (addString s w)"
proof -
  let ?n = "of_nat (length s) :: u16"
  let ?t = "take (length s mod 65536) s"
  have "(of_nat (length ?t) :: u16) = ?n"
    unfolding word_unat_eq_iff unat_length16 using mod_length_less[of s] by (simp add: min_absorb2)
  moreover have "appends (31 + 31) (le_bytes16 ?n @ ?t) w
      (Option.bind (addStruct (le_bytes16 ?n) w) (addStruct ?t))"
    by (rule appends_bind; rule appends_addStruct) (use assms mod_length_less[of s] in simp_all)
  ultimately show ?thesis
    by (simp add: addString_def addShort_def Let_def unat_length16 enc_string_def)
qed

lemma appends_addLongString [codec_simps]:
  assumes "wf_write w" and "unat (w_bufferSize w) + 2 ^ 17 < 2 ^ 32"
  shows "appends 62 (enc_long_string (take (length s mod 65536) s)) w (addLongString s w)"
proof -
  let ?n = "ucast (of_nat (length s) :: u16) :: u32"
  let ?t = "take (length s mod 65536) s"
  have "unat ?n = length s mod 65536"
    using unat_length16[of s] by (simp add: unsigned_ucast_eq take_bit_eq_mod)
  then have "(of_nat (length ?t) :: u32) = ?n"
    unfolding word_unat_eq_iff using mod_length_less[of s]
    by (simp add: min_absorb2 unat_of_nat take_bit_eq_mod)
  moreover have "appends (31 + 31) (le_bytes32 ?n @ ?t) w
      (Option.bind (addStruct (le_bytes32 ?n) w) (addStruct ?t))"
    by (rule appends_bind; rule appends_addStruct) (use assms mod_length_less[of s] in simp_all)
  ultimately show ?thesis
    by (simp add: addLongString_def addLong_def Let_def unat_length16 enc_long_string_def)
qed

lemma appends_short_strings:
  assumes "wf_write w" and "unat (w_bufferSize w) + 2 ^ 17 < 2 ^ 32" and "length s < 2 ^ 16"
  shows "appends 62 (enc_string s) w (addString s w)"
    and "appends 62 (enc_long_string s) w (addLongString s w)"
  using appends_addString[OF assms(1,2), of s] appends_addLongString[OF assms(1,2), of s] assms(3)
  by simp_all

section \<open>Properties\<close>

datatype stream_value =
    VByte u8 | VShort u16 | VLong u32 | VTime u64 | VString bytes | VLongString bytes

datatype stream_kind = KByte | KShort | KLong | KTime | KString | KLongString

fun put_value :: "stream_value \<Rightarrow> write_stream \<Rightarrow> write_stream option" where
  "put_value (VByte v) w = addByte v w"
| "put_value (VShort v) w = addShort v w"
| "put_value (VLong v) w = addLong v w"
| "put_value (VTime v) w = addTime v w"
| "put_value (VString s) w = addString s w"
| "put_value (VLongString s) w = addLongString s w"

fun kind_of :: "stream_value \<Rightarrow> stream_kind" where
  "kind_of (VByte v) = KByte"
| "kind_of (VShort v) = KShort"
| "kind_of (VLong v) = KLong"
| "kind_of (VTime v) = KTime"
| "kind_of (VString s) = KString"
| "kind_of (VLongString s) = KLongString"

definition got :: "('a \<Rightarrow> stream_value) \<Rightarrow> 'a option \<times> prop_stream \<Rightarrow> (stream_value \<times> prop_stream) option" where
  "got f r = map_option (\<lambda>a. (f a, snd r)) (fst r)"

fun get_value :: "stream_kind \<Rightarrow> prop_stream \<Rightarrow> (stream_value \<times> prop_stream) option" where
  "get_value KByte s = got VByte (getByte s)"
| "get_value KShort s = got VShort (getShort s)"
| "get_value KLong s = got VLong (getLong s)"
| "get_value KTime s = got VTime (getTime s)"
| "get_value KString s = got VString (stream_getString s)"
| "get_value KLongString s = Option.bind (getLongString s) (got VLongString)"

fun put_values :: "stream_value list \<Rightarrow> write_stream \<Rightarrow> write_stream option" where
  "put_values [] w = Some w"
| "put_values (v # vs) w = Option.bind (put_value v w) (put_values vs)"

fun get_values :: "stream_kind list \<Rightarrow> prop_stream \<Rightarrow> (stream_value list \<times> prop_stream) option" where
  "get_values [] s = Some ([], s)"
| "get_values (k # ks) s =
     (case get_value k s of None \<Rightarrow> None
      | Some (v, s) \<Rightarrow> map_option (\<lambda>(vs, s). (v # vs, s)) (get_values ks s))"

text \<open>What reading a written value gives: a string longer than 65,535 bytes comes back cut.\<close>

fun stored_value :: "stream_value \<Rightarrow> stream_value" where
  "stored_value (VString s) = VString (take (length s mod 65536) s)"
| "stored_value (VLongString s) = VLongString (take (length s mod 65536) s)"
| "stored_value v = v"

fun value_bytes :: "stream_value \<Rightarrow> bytes" where
  "value_bytes (VByte v) = [v]"
| "value_bytes (VShort v) = le_bytes16 v"
| "value_bytes (VLong v) = le_bytes32 v"
| "value_bytes (VTime v) = le_bytes32 (ucast v) @ le_bytes32 (ucast (drop_bit 32 v))"
| "value_bytes (VString s) = enc_string s"
| "value_bytes (VLongString s) = enc_long_string s"

lemma put_value_appends:
  assumes "wf_write w" and "unat (w_bufferSize w) + 2 ^ 17 < 2 ^ 32"
  shows "appends 62 (value_bytes (stored_value v)) w (put_value v w)"
  using assms
  by (cases v) (simp_all add: addByte_def addShort_def addLong_def addTime_def codec_simps
      appends_mono[OF appends_addStruct])

lemma stored_length: "length (value_bytes (stored_value v)) \<le> 65539"
proof -
  have "length s mod 65536 < 65536" for s :: bytes by simp
  then show ?thesis by (cases v) (auto simp: min_def less_Suc_eq_le[symmetric] intro: less_imp_le)
qed

lemma ucast_halves [simp]:
  "ucast (ucast v :: u32) OR push_bit 32 (ucast (ucast (drop_bit 32 v) :: u32)) = (v :: u64)"
  by (rule bit_word_eqI) (auto simp: bit_simps)

lemma getTime_append:
  assumes "length r < 2 ^ 31 - 8"
  shows "getTime (le_bytes32 (ucast v) @ le_bytes32 (ucast (drop_bit 32 v)) @ r) = (Some v, r)"
  using getStruct_append[of "le_bytes32 (ucast v) @ le_bytes32 (ucast (drop_bit 32 v))" 8 r] assms
  by (simp add: getTime_def le_bytes32_def)

lemma get_value_stored:
  assumes "length r + 65540 < 2 ^ 31"
  shows "get_value (kind_of v) (value_bytes (stored_value v) @ r) = Some (stored_value v, r)"
proof -
  have "length (take (length s mod 65536) s) < 65536" for s :: bytes
    by (simp add: min.strict_coboundedI2)
  then show ?thesis
    using assms getByte_append[of r] getShort_append[of r] getLong_append[of r] getTime_append[of r]
      getString_append[of "take (length s mod 65536) s" r for s]
      getLongString_append[of "take (length s mod 65536) s" r for s]
    by (cases v) (auto simp: got_def)
qed

lemma put_values_appends:
  assumes "wf_write w" and "unat (w_bufferSize w) + 65602 * length vs + 2 ^ 17 < 2 ^ 32"
  shows "\<exists>w'. put_values vs w = Some w' \<and>
    getStream w' = getStream w @ concat (map (\<lambda>v. value_bytes (stored_value v)) vs)"
  using assms
proof (induction vs arbitrary: w)
  case Nil
  then show ?case by simp
next
  case (Cons v vs)
  obtain w1 where w1: "put_value v w = Some w1" "wf_write w1"
    "getStream w1 = getStream w @ value_bytes (stored_value v)"
    "unat (w_bufferSize w1) \<le> unat (w_bufferSize w) + length (value_bytes (stored_value v)) + 62"
    using put_value_appends[of w v] Cons.prems by (auto simp: appends_def)
  have "unat (w_bufferSize w1) + 65602 * length vs + 2 ^ 17 < 2 ^ 32"
    using w1(4) stored_length[of v] Cons.prems(2) by simp
  from Cons.IH[OF w1(2) this] show ?case using w1 by auto
qed

lemma stored_total: "length (concat (map (\<lambda>v. value_bytes (stored_value v)) vs)) \<le> 65539 * length vs"
proof (induction vs)
  case (Cons v vs)
  then show ?case using stored_length[of v] by simp
qed simp

lemma get_values_stored:
  "65539 * length vs + 65540 + length r < 2 ^ 31 \<Longrightarrow>
    get_values (map kind_of vs) (concat (map (\<lambda>v. value_bytes (stored_value v)) vs) @ r) =
      Some (map stored_value vs, r)"
proof (induction vs)
  case (Cons v vs)
  have "length (concat (map (\<lambda>v. value_bytes (stored_value v)) vs) @ r) + 65540 < 2 ^ 31"
    using stored_total[of vs] Cons.prems by simp
  then show ?case
    using get_value_stored[of "concat (map (\<lambda>v. value_bytes (stored_value v)) vs) @ r" v] Cons
    by simp
qed simp

text \<open>
  C34. Up to 32,000 values of any kind and size, written to a new write stream one after the other,
  all fit their growing buffer, and reading the stream by their kinds gives them back in order and
  ends exactly at its end; only strings of 65,536 bytes or more come back cut, to their length
  modulo 65,536, the long strings too, whose length field has 32 bits.
\<close>

theorem stream_values_roundtrip:
  assumes "length vs \<le> 32000"
  shows "\<exists>w. put_values vs new_write_stream = Some w
    \<and> get_values (map kind_of vs) (getStream w) = Some (map stored_value vs, [])"
proof -
  have "unat (w_bufferSize new_write_stream) + 65602 * length vs + 2 ^ 17 < 2 ^ 32"
    using assms by (simp add: new_write_stream_def)
  then show ?thesis
    using put_values_appends[of new_write_stream vs] get_values_stored[of vs "[]"] assms by auto
qed

theorem stream_values_roundtrip_witness:
  "\<exists>w. put_values [VLong 7, VString [1, 2, 3], VLongString [], VByte 255] new_write_stream = Some w
    \<and> get_values [KLong, KString, KLongString, KByte] (getStream w) =
      Some ([VLong 7, VString [1, 2, 3], VLongString [], VByte 255], [])"
  using stream_values_roundtrip[of "[VLong 7, VString [1, 2, 3], VLongString [], VByte 255]"]
  by simp

text \<open>
  The readers never go behind the end, with one exception: \<open>getLongString\<close> on a stream whose
  length field has the top bit set passes its signed test, and the copy reads behind the end.
\<close>

theorem getLongString_overread:
  assumes "length s < 2 ^ 31"
  shows "getLongString s = None \<longleftrightarrow>
    4 \<le> length s \<and> 2 ^ 31 \<le> unat (of_le32 (s ! 0) (s ! 1) (s ! 2) (s ! 3))"
proof (cases "length s < 4")
  case True
  then show ?thesis using assms by (auto simp: getLongString_def getLong_def getStruct_def stream_size_small)
next
  case False
  define n where "n = of_le32 (s ! 0) (s ! 1) (s ! 2) (s ! 3)"
  have g: "getLong s = (Some n, drop 4 s)"
    using False assms by (simp add: getLong_def getStruct_def stream_size_small n_def)
  have sz: "stream_size (drop 4 s) = int (length s - 4)"
    using assms stream_size_small[of "drop 4 s"] by simp
  have lt: "unat n < 2 ^ 32" using unsigned_less[of n, where ?'a = nat] by simp
  have "int (length s) - 4 < uint n" if "\<not> unat n < 2 ^ 31"
    using that assms uint_less_iff_unat[of n "2 ^ 31"] by simp
  moreover have "uint n < 2 ^ 32" using unsigned_less[of n, where ?'a = int] by simp
  moreover have "length s - 4 < unat n \<longleftrightarrow> int (length s) - 4 < uint n"
    using False uint_less_iff_unat[of n "length s - 3"] by auto
  ultimately have "getLongString s = None \<longleftrightarrow> 2 ^ 31 \<le> unat n"
    using False assms lt sint_u32[of n] by (auto simp: getLongString_def g sz split: if_splits)
  then show ?thesis using False by (simp add: n_def)
qed

theorem getLongString_overread_witness: "getLongString [0, 0, 0, 128, 65] = None"
  using getLongString_overread[of "[0, 0, 0, 128, 65]"] by (simp add: of_le32_def)

end
