(* ===== verification/FileLoader.thy ===== *)
theory FileLoader
  imports PropStreams
begin

text \<open>
  \<^verbatim>\<open>fileloader.h\<close> / \<^verbatim>\<open>fileloader.cpp\<close>: the node files of the server (items and maps). The loader
  with its file, its error, its property buffer and its three-block read cache is one record; the
  parser is the code's, over that record; \<open>parse_at\<close> is the same parser over the bytes of the file
  and a position, and the refinement between the two holds with and without the cache.
\<close>

section \<open>The loader\<close>

datatype fl_error =
    ERROR_NONE | ERROR_INVALID_FILE_VERSION | ERROR_CAN_NOT_OPEN | ERROR_CAN_NOT_CREATE | ERROR_EOF
  | ERROR_SEEK_ERROR | ERROR_NOT_OPEN | ERROR_INVALID_NODE | ERROR_INVALID_FORMAT | ERROR_TELL_ERROR
  | ERROR_COULDNOTWRITE | ERROR_CACHE_ERROR

text \<open>The tree of nodes; \<open>child\<close> and \<open>next\<close> are pointers that may be null.\<close>

datatype fnode =
  FNode (n_start: u32) (n_propsSize: u32) (n_type: u32)
    (n_child: "fnode option") (n_next: "fnode option")

definition NODE_START :: u8 where "NODE_START = 0xFE"
definition NODE_END :: u8 where "NODE_END = 0xFF"
definition ESCAPE_CHAR :: u8 where "ESCAPE_CHAR = 0xFD"

lemmas special_bytes = NODE_START_def NODE_END_def ESCAPE_CHAR_def

text \<open>A cache block; its \<open>size\<close> is the length of the data read into it.\<close>

record cache_block =
  ch_loaded :: bool
  ch_base :: u32
  ch_data :: bytes

text \<open>
  The file is its bytes and its position; \<open>fl_room\<close> is how many bytes the disk still takes. The
  index \<^const>\<open>None\<close> is \<open>NO_VALID_CACHE\<close>.
\<close>

record floader =
  fl_file :: "bytes option"
  fl_pos :: nat
  fl_room :: nat
  m_lastError :: fl_error
  m_buffer_size :: u32
  m_use_cache :: bool
  m_cache_size :: u32
  m_cached_data :: "cache_block list"
  m_cache_index :: "nat option"
  m_cache_offset :: u32

definition new_loader :: floader where
  "new_loader = \<lparr>fl_file = None, fl_pos = 0, fl_room = 0, m_lastError = ERROR_NONE,
     m_buffer_size = 1024, m_use_cache = False, m_cache_size = 0,
     m_cached_data = replicate 3 \<lparr>ch_loaded = False, ch_base = 0, ch_data = []\<rparr>,
     m_cache_index = None, m_cache_offset = 0xFFFFFFFF\<rparr>"

definition file_of :: "floader \<Rightarrow> bytes" where
  "file_of fl = (case fl_file fl of None \<Rightarrow> [] | Some f \<Rightarrow> f)"

subsection \<open>Reading\<close>

text \<open>
  \<open>loadCacheBlock\<close>: a block that is not loaded, else one further away than two blocks, else the
  first. \<^const>\<open>None\<close> is the return of -1.
\<close>

definition base_pos :: "u32 \<Rightarrow> floader \<Rightarrow> u32" where
  "base_pos pos fl = pos AND NOT (m_cache_size fl - 1)"

definition choose_block :: "u32 \<Rightarrow> floader \<Rightarrow> nat" where
  "choose_block base fl =
     (case List.find (\<lambda>i. \<not> ch_loaded (m_cached_data fl ! i)) [0, 1, 2] of
        Some i \<Rightarrow> i
      | None \<Rightarrow>
          (case List.find (\<lambda>i. \<bar>uint (ch_base (m_cached_data fl ! i)) - uint base\<bar>
                  > 2 * uint (m_cache_size fl)) [0, 1, 2] of
             Some i \<Rightarrow> i
           | None \<Rightarrow> 0))"

definition loadCacheBlock :: "u32 \<Rightarrow> floader \<Rightarrow> nat option \<times> floader" where
  "loadCacheBlock pos fl =
     (let base = base_pos pos fl;
          i = choose_block base fl;
          data = take (unat (m_cache_size fl)) (drop (unat base) (file_of fl));
          b = (m_cached_data fl ! i)\<lparr>ch_base := base, ch_data := data\<rparr>
      in if of_nat (length data) < pos - base
         then (None, fl\<lparr>m_cached_data := (m_cached_data fl)[i := b], m_lastError := ERROR_SEEK_ERROR\<rparr>)
         else (Some i, fl\<lparr>m_cached_data := (m_cached_data fl)[i := b\<lparr>ch_loaded := True\<rparr>]\<rparr>))"

definition getCacheBlock :: "u32 \<Rightarrow> floader \<Rightarrow> nat option \<times> floader" where
  "getCacheBlock pos fl =
     (case List.find (\<lambda>i. ch_loaded (m_cached_data fl ! i)
             \<and> ch_base (m_cached_data fl ! i) = base_pos pos fl) [0, 1, 2] of
        Some i \<Rightarrow> (Some i, fl)
      | None \<Rightarrow> loadCacheBlock pos fl)"

definition block_size :: "nat \<Rightarrow> floader \<Rightarrow> u32" where
  "block_size i fl = of_nat (length (ch_data (m_cached_data fl ! i)))"

definition readByte :: "floader \<Rightarrow> u8 option \<times> floader" where
  "readByte fl =
     (if m_use_cache fl then
        (case m_cache_index fl of
           None \<Rightarrow> (None, fl\<lparr>m_lastError := ERROR_CACHE_ERROR\<rparr>)
         | Some i \<Rightarrow>
             let take_byte = (\<lambda>i fl.
                   (Some (ch_data (m_cached_data fl ! i) ! unat (m_cache_offset fl)),
                    fl\<lparr>m_cache_offset := m_cache_offset fl + 1\<rparr>)) in
             if m_cache_offset fl \<ge> block_size i fl then
               let pos = m_cache_offset fl + ch_base (m_cached_data fl ! i) in
               case getCacheBlock pos fl of
                 (None, fl) \<Rightarrow> (None, fl)
               | (Some j, fl) \<Rightarrow>
                   let fl = fl\<lparr>m_cache_index := Some j,
                               m_cache_offset := pos - ch_base (m_cached_data fl ! j)\<rparr> in
                   if m_cache_offset fl \<ge> block_size j fl then (None, fl) else take_byte j fl
             else take_byte i fl)
      else if fl_pos fl < length (file_of fl)
        then (Some (file_of fl ! fl_pos fl), fl\<lparr>fl_pos := fl_pos fl + 1\<rparr>)
        else (None, fl\<lparr>m_lastError := ERROR_EOF\<rparr>))"

definition safeSeek :: "u32 \<Rightarrow> floader \<Rightarrow> bool \<times> floader" where
  "safeSeek pos fl =
     (if m_use_cache fl then
        (case getCacheBlock pos fl of
           (None, fl) \<Rightarrow> (False, fl)
         | (Some i, fl) \<Rightarrow>
             (True, fl\<lparr>m_cache_index := Some i, m_cache_offset := pos - ch_base (m_cached_data fl ! i)\<rparr>))
      else (True, fl\<lparr>fl_pos := unat pos\<rparr>))"

definition safeTell :: "floader \<Rightarrow> u32 option \<times> floader" where
  "safeTell fl =
     (if m_use_cache fl then
        (case m_cache_index fl of
           None \<Rightarrow> (None, fl\<lparr>m_lastError := ERROR_CACHE_ERROR\<rparr>)
         | Some i \<Rightarrow> (Some (ch_base (m_cached_data fl ! i) + m_cache_offset fl - 1), fl))
      else (Some (of_nat (fl_pos fl) - 1), fl))"

subsection \<open>Parsing\<close>

text \<open>
  \<open>parseNode\<close>: the outer loop reads the type of a node, the inner loop its bytes; a child starts
  a recursive call, a sibling the outer loop again. The node under construction carries its
  \<open>start\<close>, \<open>propsSize\<close>, \<open>type\<close> and \<open>child\<close>; the result is the chain of nodes from it, also when
  the parse fails. The fuel bounds the nesting of calls; \<^const>\<open>None\<close> is running out of it.
\<close>

fun parse_type :: "nat \<Rightarrow> u32 \<Rightarrow> floader \<Rightarrow> (bool \<times> fnode \<times> floader) option"
  and parse_body :: "nat \<Rightarrow> u32 \<Rightarrow> u32 \<Rightarrow> u32 \<Rightarrow> fnode option \<Rightarrow> bool \<Rightarrow> floader \<Rightarrow>
    (bool \<times> fnode \<times> floader) option" where
  "parse_type 0 start fl = None"
| "parse_type (Suc k) start fl =
     (case readByte fl of
        (None, fl) \<Rightarrow> Some (False, FNode start 0 0 None None, fl)
      | (Some b, fl) \<Rightarrow> parse_body k start 0 (ucast b) None False fl)"
| "parse_body 0 start psize ty child setp fl = None"
| "parse_body (Suc k) start psize ty child setp fl =
     (case readByte fl of
        (None, fl) \<Rightarrow> Some (False, FNode start psize ty child None, fl)
      | (Some b, fl) \<Rightarrow>
          if b = NODE_START then
            (case safeTell fl of
               (None, fl) \<Rightarrow> Some (False, FNode start psize ty child None, fl)
             | (Some pos, fl) \<Rightarrow>
                 Option.bind (parse_type k pos fl) (\<lambda>(ok, c, fl).
                   if \<not> ok then Some (False, FNode start (pos - start - 2) ty (Some c) None, fl)
                   else parse_body k start (pos - start - 2) ty (Some c) True fl))
          else if b = NODE_END then
            (case (if setp then (Some psize, fl)
                   else case safeTell fl of (p, fl) \<Rightarrow> (map_option (\<lambda>pos. pos - start - 2) p, fl)) of
               (None, fl) \<Rightarrow> Some (False, FNode start psize ty child None, fl)
             | (Some psize, fl) \<Rightarrow>
                 (case readByte fl of
                    (None, fl) \<Rightarrow> Some (True, FNode start psize ty child None, fl)
                  | (Some b, fl) \<Rightarrow>
                      if b = NODE_START then
                        (case safeTell fl of
                           (None, fl) \<Rightarrow> Some (False, FNode start psize ty child None, fl)
                         | (Some pos, fl) \<Rightarrow>
                             map_option (\<lambda>(ok, n, fl). (ok, FNode start psize ty child (Some n), fl))
                               (parse_type k pos fl))
                      else if b = NODE_END then
                        (case safeTell fl of
                           (None, fl) \<Rightarrow> Some (False, FNode start psize ty child None, fl)
                         | (Some pos, fl) \<Rightarrow>
                             (case safeSeek pos fl of
                                (ok, fl) \<Rightarrow> Some (ok, FNode start psize ty child None, fl)))
                      else Some (False, FNode start psize ty child None,
                                 fl\<lparr>m_lastError := ERROR_INVALID_FORMAT\<rparr>)))
          else if b = ESCAPE_CHAR then
            (case readByte fl of
               (None, fl) \<Rightarrow> Some (False, FNode start psize ty child None, fl)
             | (Some b, fl) \<Rightarrow> parse_body k start psize ty child setp fl)
          else parse_body k start psize ty child setp fl)"

text \<open>
  \<open>openFile\<close> for reading. \<open>fs\<close> is the file system: what \<open>fopen\<close> finds under a name. The first
  \<open>fopen\<close> only decides about the suffix.
\<close>

definition parse_fuel :: "bytes \<Rightarrow> nat" where
  "parse_fuel f = length f + 1"

definition cache_size_for :: "nat \<Rightarrow> u32" where
  "cache_size_for n = of_nat (min 32768 (max (n div 20) 8192)) AND NOT 0x1FFF"

definition openFile_read ::
  "(string \<Rightarrow> bytes option) \<Rightarrow> string \<Rightarrow> bool \<Rightarrow> floader \<Rightarrow> (bool \<times> fnode option \<times> floader) option" where
  "openFile_read fs name caching fl =
     (let name = (if fs name = None then name @ ''.gz'' else name) in
      case fs name of
        None \<Rightarrow> Some (False, None, fl\<lparr>fl_file := None, m_lastError := ERROR_CAN_NOT_OPEN\<rparr>)
      | Some f \<Rightarrow>
          let fl = fl\<lparr>fl_file := Some f, fl_pos := 0\<rparr> in
          if length f < 4 then Some (False, None, fl\<lparr>m_lastError := ERROR_EOF\<rparr>)
          else if of_le32 (f ! 0) (f ! 1) (f ! 2) (f ! 3) > 0
          then Some (False, None, fl\<lparr>fl_file := None, m_lastError := ERROR_INVALID_FILE_VERSION\<rparr>)
          else
            let fl = (if caching then fl\<lparr>m_use_cache := True, m_cache_size := cache_size_for (length f)\<rparr>
                      else fl) in
            case safeSeek 4 fl of
              (False, fl) \<Rightarrow> Some (False, None, fl\<lparr>m_lastError := ERROR_INVALID_FORMAT\<rparr>)
            | (True, fl) \<Rightarrow>
                (case safeSeek 4 fl of
                   (False, fl) \<Rightarrow> Some (False, Some (FNode 4 0 0 None None), fl)
                 | (True, fl) \<Rightarrow>
                     (case readByte fl of
                        (None, fl) \<Rightarrow> Some (False, Some (FNode 4 0 0 None None), fl)
                      | (Some b, fl) \<Rightarrow>
                          if b = NODE_START
                          then map_option (\<lambda>(ok, n, fl). (ok, Some n, fl)) (parse_type (parse_fuel f) 4 fl)
                          else Some (False, Some (FNode 4 0 0 None None), fl))))"

subsection \<open>Walking the tree\<close>

definition getChildNode :: "fnode \<Rightarrow> fnode option \<Rightarrow> u32 \<Rightarrow> fnode option \<times> u32" where
  "getChildNode root parent ty =
     (case parent of
        None \<Rightarrow> (Some root, n_type root)
      | Some p \<Rightarrow> (case n_child p of None \<Rightarrow> (None, ty) | Some c \<Rightarrow> (Some c, n_type c)))"

definition getNextNode :: "fnode option \<Rightarrow> u32 \<Rightarrow> fnode option \<times> u32" where
  "getNextNode prev ty =
     (case prev of
        None \<Rightarrow> (None, ty)
      | Some p \<Rightarrow> (case n_next p of None \<Rightarrow> (None, ty) | Some c \<Rightarrow> (Some c, n_type c)))"

text \<open>
  \<open>readBytes\<close>. With the cache it copies block by block, in a loop that only ends when nothing
  remains: \<^const>\<open>None\<close> is a loop that does not end.
\<close>

partial_function (option) readBytes_cached ::
  "u32 \<Rightarrow> u32 \<Rightarrow> bytes \<Rightarrow> floader \<Rightarrow> (bytes option \<times> floader) option" where
  "readBytes_cached remain pos acc fl =
     (case getCacheBlock pos fl of
        (None, fl) \<Rightarrow> Some (None, fl)
      | (Some i, fl) \<Rightarrow>
          let offset = pos - ch_base (m_cached_data fl ! i);
              reading = min remain (block_size i fl - offset);
              acc = acc @ take (unat reading) (drop (unat offset) (ch_data (m_cached_data fl ! i)));
              remain = remain - reading;
              fl = fl\<lparr>m_cache_index := Some i, m_cache_offset := offset + reading\<rparr>
          in if remain > 0 then readBytes_cached remain (pos + reading) acc fl
             else Some (Some acc, fl))"

definition readBytes :: "u32 \<Rightarrow> u32 \<Rightarrow> floader \<Rightarrow> (bytes option \<times> floader) option" where
  "readBytes sz pos fl =
     (if m_use_cache fl then readBytes_cached sz pos [] fl
      else let got = take (unat sz) (drop (unat pos) (file_of fl)) in
        if length got = unat sz
        then Some (Some got, fl\<lparr>fl_pos := unat pos + unat sz\<rparr>)
        else Some (None, fl\<lparr>fl_pos := unat pos + length got, m_lastError := ERROR_EOF\<rparr>))"

text \<open>
  The in-place removal of the escape bytes; an escape in the last place takes the byte behind
  the properties, \<open>behind\<close>.
\<close>

fun unescape :: "u8 \<Rightarrow> bytes \<Rightarrow> bytes" where
  "unescape behind [] = []"
| "unescape behind (b # bs) =
     (if b = ESCAPE_CHAR then (case bs of [] \<Rightarrow> [behind] | c # cs \<Rightarrow> c # unescape behind cs)
      else b # unescape behind bs)"

text \<open>
  \<open>getProps\<close>. \<open>Inr\<close> is a result; \<open>Inl True\<close> is a read of more bytes than the property buffer has,
  \<open>Inl False\<close> a loop that does not end.
\<close>

definition getProps :: "u8 \<Rightarrow> fnode option \<Rightarrow> floader \<Rightarrow> bool + (bytes option \<times> floader)" where
  "getProps behind node fl =
     (case node of
        None \<Rightarrow> Inr (None, fl)
      | Some n \<Rightarrow>
          let fl = (if n_propsSize n \<ge> m_buffer_size fl
                    then fl\<lparr>m_buffer_size := m_buffer_size fl + 1024\<rparr> else fl) in
          if n_propsSize n > m_buffer_size fl then Inl True
          else case readBytes (n_propsSize n) (n_start n + 2) fl of
            None \<Rightarrow> Inl False
          | Some (None, fl) \<Rightarrow> Inr (None, fl)
          | Some (Some b, fl) \<Rightarrow> Inr (Some (unescape behind b), fl))"

definition getProps_stream :: "u8 \<Rightarrow> fnode option \<Rightarrow> floader \<Rightarrow> bool + (bool \<times> prop_stream \<times> floader)" where
  "getProps_stream behind node fl =
     (case getProps behind node fl of
        Inl e \<Rightarrow> Inl e
      | Inr (Some b, fl) \<Rightarrow> Inr (True, b, fl)
      | Inr (None, fl) \<Rightarrow> Inr (False, [], fl))"

subsection \<open>Writing\<close>

definition fwrite1 :: "u8 \<Rightarrow> floader \<Rightarrow> bool \<times> floader" where
  "fwrite1 c fl =
     (if fl_room fl = 0 then (False, fl)
      else (True, fl\<lparr>fl_file := Some (file_of fl @ [c]), fl_room := fl_room fl - 1\<rparr>))"

fun writeData :: "bytes \<Rightarrow> bool \<Rightarrow> floader \<Rightarrow> bool \<times> floader" where
  "writeData [] esc fl = (True, fl)"
| "writeData (c # cs) esc fl =
     (case (if esc \<and> (c = NODE_START \<or> c = NODE_END \<or> c = ESCAPE_CHAR) then fwrite1 ESCAPE_CHAR fl
            else (True, fl)) of
        (False, fl) \<Rightarrow> (False, fl\<lparr>m_lastError := ERROR_COULDNOTWRITE\<rparr>)
      | (True, fl) \<Rightarrow>
          (case fwrite1 c fl of
             (False, fl) \<Rightarrow> (False, fl\<lparr>m_lastError := ERROR_COULDNOTWRITE\<rparr>)
           | (True, fl) \<Rightarrow> writeData cs esc fl))"

definition startNode :: "u8 \<Rightarrow> floader \<Rightarrow> floader" where
  "startNode ty fl = snd (writeData [ty] True (snd (writeData [NODE_START] False fl)))"

definition endNode :: "floader \<Rightarrow> floader" where
  "endNode fl = snd (writeData [NODE_END] False fl)"

definition setProps :: "bytes \<Rightarrow> floader \<Rightarrow> fl_error \<times> floader" where
  "setProps data fl =
     (case writeData data True fl of (ok, fl) \<Rightarrow> (if ok then ERROR_NONE else m_lastError fl, fl))"

text \<open>\<open>openFile\<close> for writing: the version, four zero bytes, in a new file; \<open>can\<close> says whether the
  file can be created.\<close>

definition openFile_write :: "bool \<Rightarrow> floader \<Rightarrow> bool \<times> floader" where
  "openFile_write can fl =
     (if can then (True, snd (writeData [0, 0, 0, 0] False (fl\<lparr>fl_file := Some []\<rparr>)))
      else (False, fl\<lparr>fl_file := None, m_lastError := ERROR_CAN_NOT_CREATE\<rparr>))"

section \<open>The parser over the bytes of a file\<close>

fun parse_at :: "nat \<Rightarrow> u32 \<Rightarrow> bytes \<Rightarrow> nat \<Rightarrow> (bool \<times> fnode \<times> nat) option"
  and body_at :: "nat \<Rightarrow> u32 \<Rightarrow> u32 \<Rightarrow> u32 \<Rightarrow> fnode option \<Rightarrow> bool \<Rightarrow> bytes \<Rightarrow> nat \<Rightarrow>
    (bool \<times> fnode \<times> nat) option" where
  "parse_at 0 start f p = None"
| "parse_at (Suc k) start f p =
     (if length f \<le> p then Some (False, FNode start 0 0 None None, p)
      else body_at k start 0 (ucast (f ! p)) None False f (p + 1))"
| "body_at 0 start psize ty child setp f p = None"
| "body_at (Suc k) start psize ty child setp f p =
     (if length f \<le> p then Some (False, FNode start psize ty child None, p)
      else if f ! p = NODE_START then
        Option.bind (parse_at k (of_nat p) f (p + 1)) (\<lambda>(ok, c, q).
          if \<not> ok then Some (False, FNode start (of_nat p - start - 2) ty (Some c) None, q)
          else body_at k start (of_nat p - start - 2) ty (Some c) True f q)
      else if f ! p = NODE_END then
        let psize = (if setp then psize else of_nat p - start - 2) in
        if length f \<le> p + 1 then Some (True, FNode start psize ty child None, p + 1)
        else if f ! (p + 1) = NODE_START then
          map_option (\<lambda>(ok, n, q). (ok, FNode start psize ty child (Some n), q))
            (parse_at k (of_nat (p + 1)) f (p + 2))
        else if f ! (p + 1) = NODE_END then
          Some (True, FNode start psize ty child None, p + 1)
        else Some (False, FNode start psize ty child None, p + 2)
      else if f ! p = ESCAPE_CHAR then
        if length f \<le> p + 1 then Some (False, FNode start psize ty child None, p + 1)
        else body_at k start psize ty child setp f (p + 2)
      else body_at k start psize ty child setp f (p + 1))"

lemma parse_at_total:
  shows "length f - p < k \<Longrightarrow> p \<le> length f \<Longrightarrow>
    \<exists>ok n q. parse_at k start f p = Some (ok, n, q) \<and> p \<le> q \<and> q \<le> length f"
    and "length f - p < k \<Longrightarrow> p \<le> length f \<Longrightarrow>
    \<exists>ok n q. body_at k start psize ty child setp f p = Some (ok, n, q) \<and> p \<le> q \<and> q \<le> length f"
proof (induction k start f p and k start psize ty child setp f p rule: parse_at_body_at.induct)
  case (2 k start f p)
  show ?case
  proof (cases "length f \<le> p")
    case False
    then show ?thesis using 2 by fastforce
  qed (use 2 in auto)
next
  case (4 k start psize ty child setp f p)
  show ?case
  proof (cases "length f \<le> p")
    case True
    then show ?thesis using 4 by auto
  next
    case in_file: False
    then have one: "length f - (p + 1) < k" "p + 1 \<le> length f"
      and two: "p + 1 < length f \<Longrightarrow> length f - (p + 2) < k \<and> p + 2 \<le> length f"
      using 4(6,7) by auto
    show ?thesis
    proof (cases "f ! p = NODE_START")
      case True
      obtain ok c q where c: "parse_at k (of_nat p) f (p + 1) = Some (ok, c, q)"
        "p + 1 \<le> q" "q \<le> length f"
        using 4(1)[OF in_file True one] by auto
      show ?thesis
      proof (cases ok)
        case True
        then show ?thesis
          using 4(2)[OF in_file \<open>f ! p = NODE_START\<close>, of "(ok, c, q)" ok "(c, q)" c q] one c in_file
            \<open>f ! p = NODE_START\<close> by fastforce
      qed (use c True in_file in simp)
    next
      case ns: False
      show ?thesis
      proof (cases "f ! p = NODE_END")
        case True
        show ?thesis
        proof (cases "\<not> length f \<le> p + 1 \<and> f ! (p + 1) = NODE_START")
          case start: True
          then obtain ok n q where "parse_at k (of_nat (p + 1)) f (p + 2) = Some (ok, n, q)"
            "p + 2 \<le> q" "q \<le> length f"
            using 4(3)[OF in_file ns True refl] two by auto
          then show ?thesis using True ns in_file start by (auto simp: Let_def)
        qed (use True ns in_file in \<open>auto simp: Let_def\<close>)
      next
        case False
        note ne = this
        show ?thesis
        proof (cases "f ! p = ESCAPE_CHAR")
          case True
          show ?thesis
          proof (cases "length f \<le> p + 1")
            case False
            then show ?thesis using 4(4)[OF in_file ns ne True False] two in_file ns ne True by auto
          qed (use True in_file ns ne in auto)
        next
          case False
          then show ?thesis using 4(5)[OF in_file ns ne False one] in_file ns ne by auto
        qed
      qed
    qed
  qed
qed simp_all

section \<open>The loader reads the file, cached or not\<close>

definition cache_ok :: "bytes \<Rightarrow> floader \<Rightarrow> bool" where
  [inv_simps]: "cache_ok f fl \<longleftrightarrow> m_use_cache fl \<and> fl_file fl = Some f \<and> 0 < m_cache_size fl
     \<and> 1024 \<le> m_buffer_size fl
     \<and> length (m_cached_data fl) = 3
     \<and> (\<forall>i<3. ch_loaded (m_cached_data fl ! i) \<longrightarrow> ch_data (m_cached_data fl ! i) =
          take (unat (m_cache_size fl)) (drop (unat (ch_base (m_cached_data fl ! i))) f))"

definition cached_at :: "nat \<Rightarrow> nat \<Rightarrow> floader \<Rightarrow> bool" where
  [inv_simps]: "cached_at i p fl \<longleftrightarrow> i < 3 \<and> m_cache_index fl = Some i \<and> ch_loaded (m_cached_data fl ! i)
     \<and> p = unat (ch_base (m_cached_data fl ! i)) + unat (m_cache_offset fl)"

text \<open>The loader has the file \<open>f\<close> open; it is at position \<open>p\<close> of it.\<close>

definition opened :: "bytes \<Rightarrow> floader \<Rightarrow> bool" where
  "opened f fl \<longleftrightarrow> length f < 2 ^ 31 \<and> fl_file fl = Some f \<and> 1024 \<le> m_buffer_size fl \<and> (m_use_cache fl \<longrightarrow> cache_ok f fl)"

definition reads_at :: "bytes \<Rightarrow> nat \<Rightarrow> floader \<Rightarrow> bool" where
  "reads_at f p fl \<longleftrightarrow> p \<le> length f \<and> length f < 2 ^ 31 \<and> fl_file fl = Some f \<and> 1024 \<le> m_buffer_size fl \<and>
     (if m_use_cache fl then cache_ok f fl \<and> (\<exists>i. cached_at i p fl) else fl_pos fl = p)"

lemma reads_at_opened: "reads_at f p fl \<Longrightarrow> opened f fl"
  by (auto simp: reads_at_def opened_def)

lemma base_pos_split:
  "unat (base_pos pos fl) \<le> unat pos"
  "unat (pos - base_pos pos fl) = unat pos - unat (base_pos pos fl)"
  "0 < m_cache_size fl \<Longrightarrow> unat pos - unat (base_pos pos fl) < unat (m_cache_size fl)"
proof -
  let ?m = "m_cache_size fl - 1"
  have le: "base_pos pos fl \<le> pos" by (simp add: base_pos_def word_and_le2)
  then show "unat (base_pos pos fl) \<le> unat pos" by (simp add: word_le_nat_alt)
  show s: "unat (pos - base_pos pos fl) = unat pos - unat (base_pos pos fl)"
    using le by (simp add: unat_sub)
  have "base_pos pos fl + (pos AND ?m) = base_pos pos fl OR (pos AND ?m)"
    unfolding base_pos_def by (rule disjunctive_add) (auto simp: bit_simps)
  also have "\<dots> = pos" unfolding base_pos_def by (rule bit_word_eqI) (auto simp: bit_simps)
  finally have "pos - base_pos pos fl = pos AND ?m" by (metis add_diff_cancel_left')
  then have d: "pos - base_pos pos fl \<le> ?m" by (simp add: word_and_le1)
  show "unat pos - unat (base_pos pos fl) < unat (m_cache_size fl)" if "0 < m_cache_size fl"
  proof -
    have "unat ?m < unat (m_cache_size fl)"
      using that by (simp add: unat_minus_one word_gt_0) (simp add: unat_gt_0 word_gt_0)
    then show ?thesis using d s by (simp add: word_le_nat_alt)
  qed
qed

lemma find3: "List.find P [0, 1, 2 :: nat] = Some i \<Longrightarrow> i < 3 \<and> P i"
  by (auto split: if_splits)

lemma find3s: "List.find P [0, Suc 0, 2 :: nat] = Some i \<Longrightarrow> i < 3"
  using find3[of P i] by simp

lemma choose_block_less: "choose_block base fl < 3"
  unfolding choose_block_def by (auto split: option.split dest: find3s simp del: List.find.simps)

lemma getCacheBlock_view:
  assumes ok: "cache_ok f fl" and p: "unat pos \<le> length f" and len: "length f < 2 ^ 31"
  shows "\<exists>i fl'. getCacheBlock pos fl = (Some i, fl') \<and> i < 3 \<and> cache_ok f fl'
    \<and> ch_loaded (m_cached_data fl' ! i) \<and> ch_base (m_cached_data fl' ! i) = base_pos pos fl
    \<and> m_cache_size fl' = m_cache_size fl \<and> m_lastError fl' = m_lastError fl
    \<and> m_buffer_size fl' = m_buffer_size fl"
proof (cases "List.find (\<lambda>i. ch_loaded (m_cached_data fl ! i)
    \<and> ch_base (m_cached_data fl ! i) = base_pos pos fl) [0, 1, 2]")
  case (Some i)
  then have "i < 3 \<and> ch_loaded (m_cached_data fl ! i) \<and> ch_base (m_cached_data fl ! i) = base_pos pos fl"
    by (rule find3)
  then show ?thesis using ok Some by (simp add: getCacheBlock_def)
next
  case None
  let ?b = "base_pos pos fl"
  let ?d = "take (unat (m_cache_size fl)) (drop (unat ?b) f)"
  let ?i = "choose_block ?b fl"
  have f: "file_of fl = f" and cs: "0 < m_cache_size fl" and l3: "length (m_cached_data fl) = 3"
    using ok by (simp_all add: inv_simps file_of_def)
  have u: "unat (of_nat (length ?d) :: u32) = length ?d"
    using len by (simp add: unat_of_nat take_bit_eq_mod)
  have "unat (pos - ?b) \<le> length ?d"
    using base_pos_split[where pos = pos and fl = fl] cs p by (simp add: less_imp_le)
  then have n: "\<not> of_nat (length ?d) < pos - ?b" by (simp only: word_less_nat_alt u not_less)
  have i: "?i < 3" by (rule choose_block_less)
  have "getCacheBlock pos fl = (Some ?i, fl\<lparr>m_cached_data := (m_cached_data fl)[?i :=
      (m_cached_data fl ! ?i)\<lparr>ch_base := ?b, ch_data := ?d, ch_loaded := True\<rparr>]\<rparr>)"
    unfolding getCacheBlock_def None loadCacheBlock_def Let_def f using n by simp
  then show ?thesis using ok i l3 by (auto simp: inv_simps nth_list_update)
qed

lemma block_view:
  assumes "cache_ok f fl" and "i < 3" and "ch_loaded (m_cached_data fl ! i)" and "length f < 2 ^ 31"
  shows "unat (block_size i fl) =
      min (unat (m_cache_size fl)) (length f - unat (ch_base (m_cached_data fl ! i)))"
    and "ch_data (m_cached_data fl ! i) =
      take (unat (m_cache_size fl)) (drop (unat (ch_base (m_cached_data fl ! i))) f)"
proof -
  show d: "ch_data (m_cached_data fl ! i) =
      take (unat (m_cache_size fl)) (drop (unat (ch_base (m_cached_data fl ! i))) f)"
    using assms by (simp add: inv_simps)
  then show "unat (block_size i fl) =
      min (unat (m_cache_size fl)) (length f - unat (ch_base (m_cached_data fl ! i)))"
    using assms(4) by (simp add: block_size_def unat_of_nat take_bit_eq_mod min_def)
qed

lemma cache_ok_cursor [simp]:
  "cache_ok f (fl\<lparr>m_cache_index := i\<rparr>) = cache_ok f fl"
  "cache_ok f (fl\<lparr>m_cache_offset := off\<rparr>) = cache_ok f fl"
  by (simp_all add: inv_simps)

lemma cache_ok_file:
  "cache_ok f fl \<Longrightarrow> m_use_cache fl \<and> fl_file fl = Some f \<and> 1024 \<le> m_buffer_size fl"
  by (simp add: inv_simps)

text \<open>Moving the cached cursor to a position, as \<open>safeSeek\<close> and a read past a block do.\<close>

lemma cached_move:
  assumes "cache_ok f fl" and "p \<le> length f" and "length f < 2 ^ 31"
  shows "\<exists>i fl'. getCacheBlock (of_nat p) fl = (Some i, fl') \<and> i < 3
    \<and> cache_ok f fl' \<and> ch_loaded (m_cached_data fl' ! i)
    \<and> unat (of_nat p - ch_base (m_cached_data fl' ! i)) = p - unat (ch_base (m_cached_data fl' ! i))
    \<and> unat (ch_base (m_cached_data fl' ! i)) \<le> p
    \<and> p - unat (ch_base (m_cached_data fl' ! i)) < unat (m_cache_size fl')"
proof -
  have u: "unat (of_nat p :: u32) = p" using assms(2,3) by (simp add: unat_of_nat take_bit_eq_mod)
  have cs: "0 < m_cache_size fl" using assms(1) by (simp add: inv_simps)
  obtain i fl' where g: "getCacheBlock (of_nat p) fl = (Some i, fl')" "i < 3" "cache_ok f fl'"
    "ch_loaded (m_cached_data fl' ! i)" "ch_base (m_cached_data fl' ! i) = base_pos (of_nat p) fl"
    "m_cache_size fl' = m_cache_size fl"
    using getCacheBlock_view[of f fl "of_nat p"] assms u by auto
  show ?thesis
    using g base_pos_split(1,2)[where pos = "of_nat p" and fl = fl]
      base_pos_split(3)[where pos = "of_nat p" and fl = fl, OF cs] u by (intro exI) auto
qed

lemma cached_take:
  assumes "cache_ok f fl" and "cached_at i p fl" and "length f < 2 ^ 31" and "p \<le> length f"
    and "m_cache_offset fl < block_size i fl"
  shows "ch_data (m_cached_data fl ! i) ! unat (m_cache_offset fl) = f ! p" and "p < length f"
    and "cached_at i (p + 1) (fl\<lparr>m_cache_offset := m_cache_offset fl + 1\<rparr>)"
proof -
  have i: "i < 3" "ch_loaded (m_cached_data fl ! i)"
    "p = unat (ch_base (m_cached_data fl ! i)) + unat (m_cache_offset fl)"
    using assms(2) by (simp_all add: inv_simps)
  note v = block_view[OF assms(1) i(1,2) assms(3)]
  have o: "unat (m_cache_offset fl) < unat (m_cache_size fl)"
    "unat (m_cache_offset fl) < length f - unat (ch_base (m_cached_data fl ! i))"
    using assms(5) v(1) by (simp_all add: word_less_nat_alt)
  show "ch_data (m_cached_data fl ! i) ! unat (m_cache_offset fl) = f ! p"
    using o i(3) by (simp add: v(2))
  show "p < length f" using o(2) i(3) by simp
  have "unat (m_cache_offset fl + 1) = unat (m_cache_offset fl) + 1"
    by (subst unat_add_small) (use o(2) assms(3) in simp_all)
  then show "cached_at i (p + 1) (fl\<lparr>m_cache_offset := m_cache_offset fl + 1\<rparr>)"
    using assms(2) i(3) by (simp add: inv_simps)
qed

lemma readByte_cached:
  assumes "cache_ok f fl" and "cached_at i p fl" and "length f < 2 ^ 31" and "p \<le> length f"
  shows "\<exists>fl' j. readByte fl = (if p < length f then Some (f ! p) else None, fl')
    \<and> cache_ok f fl' \<and> cached_at j (if p < length f then p + 1 else p) fl'"
proof -
  have use: "m_use_cache fl" "m_cache_index fl = Some i" using assms(1,2) by (simp_all add: inv_simps)
  show ?thesis
  proof (cases "m_cache_offset fl < block_size i fl")
    case True
    note t = cached_take[OF assms True]
    have "\<not> block_size i fl \<le> m_cache_offset fl" using True by (simp only: not_le)
    then have "readByte fl = (Some (f ! p), fl\<lparr>m_cache_offset := m_cache_offset fl + 1\<rparr>)"
      using use t(1) by (simp add: readByte_def Let_def)
    then show ?thesis using t(2,3) assms(1) by auto
  next
    case False
    have pos: "m_cache_offset fl + ch_base (m_cached_data fl ! i) = of_nat p"
    proof -
      have "p = unat (ch_base (m_cached_data fl ! i)) + unat (m_cache_offset fl)"
        using assms(2) by (simp add: inv_simps)
      then show ?thesis by (simp add: add.commute)
    qed
    obtain j fl1 where g: "getCacheBlock (of_nat p) fl = (Some j, fl1)" "j < 3" "cache_ok f fl1"
      "ch_loaded (m_cached_data fl1 ! j)"
      "unat (of_nat p - ch_base (m_cached_data fl1 ! j)) = p - unat (ch_base (m_cached_data fl1 ! j))"
      "unat (ch_base (m_cached_data fl1 ! j)) \<le> p"
      "p - unat (ch_base (m_cached_data fl1 ! j)) < unat (m_cache_size fl1)"
      using cached_move[OF assms(1,4,3)] by auto
    define fl2 where "fl2 = fl1\<lparr>m_cache_index := Some j,
      m_cache_offset := of_nat p - ch_base (m_cached_data fl1 ! j)\<rparr>"
    have c2: "cache_ok f fl2" "cached_at j p fl2" using g by (simp_all add: cached_at_def fl2_def)
    have "unat (block_size j fl2) = min (unat (m_cache_size fl1))
        (length f - unat (ch_base (m_cached_data fl1 ! j)))"
      using block_view(1)[OF g(3,2,4) assms(3)] by (simp add: block_size_def fl2_def)
    moreover have "unat (m_cache_offset fl2) = p - unat (ch_base (m_cached_data fl1 ! j))"
      using g(5) by (simp add: fl2_def)
    ultimately have bs: "m_cache_offset fl2 < block_size j fl2 \<longleftrightarrow> p < length f"
      unfolding word_less_nat_alt using g(6,7) by auto
    have r: "readByte fl = (if m_cache_offset fl2 \<ge> block_size j fl2 then (None, fl2)
        else (Some (ch_data (m_cached_data fl2 ! j) ! unat (m_cache_offset fl2)),
              fl2\<lparr>m_cache_offset := m_cache_offset fl2 + 1\<rparr>))"
      using False by (simp add: readByte_def Let_def use pos g(1) not_less fl2_def)
    show ?thesis
    proof (cases "p < length f")
      case True
      then have lt: "m_cache_offset fl2 < block_size j fl2" using bs by blast
      note t = cached_take[OF c2 assms(3,4) lt]
      have "\<not> block_size j fl2 \<le> m_cache_offset fl2" using lt by (simp only: not_le)
      then have "readByte fl = (Some (f ! p), fl2\<lparr>m_cache_offset := m_cache_offset fl2 + 1\<rparr>)"
        unfolding r by (simp only: t(1) if_False)
      then show ?thesis using True t(3) c2(1) by (intro exI) auto
    next
      case False
      then have "block_size j fl2 \<le> m_cache_offset fl2"
        unfolding not_less[symmetric] using bs by blast
      then have "readByte fl = (None, fl2)" unfolding r by (simp only: if_True)
      then show ?thesis using False c2 by auto
    qed
  qed
qed

lemma readByte_at:
  assumes "reads_at f p fl"
  shows "\<exists>fl'. readByte fl = (if p < length f then Some (f ! p) else None, fl')
    \<and> reads_at f (if p < length f then p + 1 else p) fl'"
proof (cases "m_use_cache fl")
  case True
  then obtain i where i: "cache_ok f fl" "cached_at i p fl" "p \<le> length f" "length f < 2 ^ 31"
    using assms by (auto simp: reads_at_def)
  obtain fl' j where "readByte fl = (if p < length f then Some (f ! p) else None, fl')"
    "cache_ok f fl'" "cached_at j (if p < length f then p + 1 else p) fl'"
    using readByte_cached[OF i(1,2,4,3)] by blast
  then show ?thesis
    using i(3,4) cache_ok_file[of f fl'] by (auto simp: reads_at_def split: if_splits)
next
  case False
  then show ?thesis using assms by (auto simp: reads_at_def readByte_def file_of_def)
qed

lemma reads_at_readByte:
  assumes "reads_at f p fl"
  obtains (byte) fl' where "p < length f" "readByte fl = (Some (f ! p), fl')" "reads_at f (p + 1) fl'"
    | (eof) fl' where "length f = p" "readByte fl = (None, fl')" "reads_at f p fl'"
proof -
  have "p \<le> length f" using assms by (simp add: reads_at_def)
  then show thesis using readByte_at[OF assms] byte eof by (cases "p < length f") auto
qed

lemma safeTell_at:
  assumes "reads_at f (p + 1) fl"
  shows "safeTell fl = (Some (of_nat p), fl)"
proof (cases "m_use_cache fl")
  case True
  then obtain i where i: "m_cache_index fl = Some i"
    "unat (ch_base (m_cached_data fl ! i)) + unat (m_cache_offset fl) = p + 1"
    using assms by (auto simp: reads_at_def inv_simps)
  have "ch_base (m_cached_data fl ! i) + m_cache_offset fl =
      of_nat (unat (ch_base (m_cached_data fl ! i)) + unat (m_cache_offset fl))" by simp
  also have "\<dots> = of_nat (p + 1)" unfolding i(2) by (rule refl)
  finally have "ch_base (m_cached_data fl ! i) + m_cache_offset fl - 1 = of_nat p" by simp
  then show ?thesis using True i(1) by (simp add: safeTell_def)
next
  case False
  then show ?thesis using assms by (simp add: reads_at_def safeTell_def)
qed

lemma safeSeek_opened:
  assumes "opened f fl" and "p \<le> length f"
  shows "\<exists>fl'. safeSeek (of_nat p) fl = (True, fl') \<and> reads_at f p fl'"
proof (cases "m_use_cache fl")
  case True
  then have c: "cache_ok f fl" "length f < 2 ^ 31" using assms(1) by (auto simp: opened_def)
  obtain j fl1 where g: "getCacheBlock (of_nat p) fl = (Some j, fl1)" "j < 3" "cache_ok f fl1"
      "ch_loaded (m_cached_data fl1 ! j)"
      "unat (of_nat p - ch_base (m_cached_data fl1 ! j)) = p - unat (ch_base (m_cached_data fl1 ! j))"
      "unat (ch_base (m_cached_data fl1 ! j)) \<le> p"
    using cached_move[OF c(1) assms(2) c(2)] by auto
  let ?fl2 = "fl1\<lparr>m_cache_index := Some j, m_cache_offset := of_nat p - ch_base (m_cached_data fl1 ! j)\<rparr>"
  have "safeSeek (of_nat p) fl = (True, ?fl2)" using True g(1) by (simp add: safeSeek_def)
  moreover have "reads_at f p ?fl2"
    using g assms(2) c(2) cache_ok_file[OF g(3)] by (auto simp: reads_at_def cached_at_def)
  ultimately show ?thesis by blast
next
  case False
  have "unat (of_nat p :: u32) = p"
    using assms by (simp add: opened_def unat_of_nat take_bit_eq_mod)
  then show ?thesis using False assms by (simp add: safeSeek_def reads_at_def opened_def)
qed

lemma safeSeek_at:
  "reads_at f q fl \<Longrightarrow> p \<le> length f \<Longrightarrow> \<exists>fl'. safeSeek (of_nat p) fl = (True, fl') \<and> reads_at f p fl'"
  by (rule safeSeek_opened[OF reads_at_opened])

lemma reads_at_error [simp]: "reads_at f p (fl\<lparr>m_lastError := e\<rparr>) = reads_at f p fl"
  by (simp add: reads_at_def inv_simps)

text \<open>The result of the loader's parser is the result over the bytes.\<close>

definition parsed :: "bytes \<Rightarrow> (bool \<times> fnode \<times> nat) option \<Rightarrow> (bool \<times> fnode \<times> floader) option \<Rightarrow> bool" where
  "parsed f a r = (case a of None \<Rightarrow> r = None
     | Some (ok, n, q) \<Rightarrow> \<exists>fl'. r = Some (ok, n, fl') \<and> reads_at f q fl')"

lemma parsed_Some [simp]: "parsed f (Some (ok, n, q)) r \<longleftrightarrow> (\<exists>fl'. r = Some (ok, n, fl') \<and> reads_at f q fl')"
  and parsed_None [simp]: "parsed f None r \<longleftrightarrow> r = None"
  by (simp_all add: parsed_def)

lemma parsed_cases:
  assumes "parsed f a r"
  obtains "a = None" "r = None"
    | ok n q fl' where "a = Some (ok, n, q)" "r = Some (ok, n, fl')" "reads_at f q fl'"
  using assms by (cases a) (auto simp: parsed_def)

lemma parse_refines:
  shows "reads_at f p fl \<Longrightarrow> parsed f (parse_at k start f p) (parse_type k start fl)"
    and "reads_at f p fl \<Longrightarrow>
      parsed f (body_at k start psize ty child setp f p) (parse_body k start psize ty child setp fl)"
proof (induction k arbitrary: start p fl psize ty child setp)
  case 0
  {
    case 1 then show ?case by simp
  next
    case 2 then show ?case by simp
  }
next
  case (Suc k)
  {
    case 1
    then show ?case
      by (cases rule: reads_at_readByte) (simp_all add: Suc.IH(2))
  next
    case 2
    then show ?case
    proof (cases rule: reads_at_readByte)
      case (eof fl')
      then show ?thesis by simp
    next
      case (byte fl1)
      note tell = safeTell_at[OF byte(3)]
      show ?thesis
      proof (cases "f ! p = NODE_START")
        case True
        have "parsed f (parse_at k (of_nat p) f (p + 1)) (parse_type k (of_nat p) fl1)"
          by (rule Suc.IH(1)[OF byte(3)])
        then show ?thesis
          using byte(1,2) True tell by (cases rule: parsed_cases) (auto simp: Suc.IH(2))
      next
        case ns: False
        show ?thesis
        proof (cases "f ! p = NODE_END")
          case True
          have "NODE_END \<noteq> NODE_START" by (simp add: special_bytes)
          from byte(3) show ?thesis
          proof (cases rule: reads_at_readByte)
            case (eof fl2)
            then show ?thesis using byte(1,2) True ns tell by (simp add: Let_def)
          next
            case second: (byte fl2)
            note tell2 = safeTell_at[OF second(3)]
            consider "f ! (p + 1) = NODE_START" | "f ! (p + 1) = NODE_END"
              | "f ! (p + 1) \<noteq> NODE_START" "f ! (p + 1) \<noteq> NODE_END" by blast
            then show ?thesis
            proof cases
              case 1
              have "parsed f (parse_at k (of_nat (p + 1)) f (p + 2)) (parse_type k (of_nat (p + 1)) fl2)"
                using Suc.IH(1)[OF second(3)] by simp
              then show ?thesis
                using byte(1,2) True ns tell second(1,2) tell2 1
                by (cases rule: parsed_cases) (auto simp: Let_def)
            next
              case 2
              obtain fl3 where "safeSeek (of_nat (p + 1)) fl2 = (True, fl3)" "reads_at f (p + 1) fl3"
                using safeSeek_at[OF second(3), of "p + 1"] byte(1) by auto
              then show ?thesis
                using byte(1,2) True ns tell second(1,2) tell2 2 \<open>NODE_END \<noteq> NODE_START\<close>
                by (auto simp: Let_def)
            next
              case 3
              then show ?thesis using byte(1,2) True ns tell second by (auto simp: Let_def)
            qed
          qed
        next
          case ne: False
          show ?thesis
          proof (cases "f ! p = ESCAPE_CHAR")
            case True
            from byte(3) show ?thesis
              by (cases rule: reads_at_readByte)
                (use byte(1,2) True ns ne in \<open>auto simp: Suc.IH(2)\<close>)
          next
            case False
            then show ?thesis using byte ns ne by (simp add: Suc.IH(2))
          qed
        qed
      qed
    qed
  }
qed

section \<open>Opening a file\<close>

text \<open>The parse of a whole file from its root.\<close>

definition parse_file :: "bytes \<Rightarrow> bool \<times> fnode" where
  "parse_file f =
     (if length f > 4 \<and> f ! 4 = NODE_START
      then case parse_at (parse_fuel f) 4 f 5 of None \<Rightarrow> (False, FNode 4 0 0 None None)
           | Some (ok, n, q) \<Rightarrow> (ok, n)
      else (False, FNode 4 0 0 None None))"

lemma cache_size_for_pos: "0 < cache_size_for n"
proof -
  define x where "x = min 32768 (max (n div 20) 8192)"
  have x: "8192 \<le> x" "x \<le> 32768" by (auto simp: x_def)
  have ux: "unat (of_nat x :: u32) = x" using x by (simp add: unat_of_nat take_bit_eq_mod)
  have "cache_size_for n \<noteq> 0"
  proof
    assume z: "cache_size_for n = 0"
    have "(of_nat x :: u32) AND NOT 0x1FFF OR (of_nat x AND 0x1FFF) = of_nat x"
      by (rule bit_word_eqI) (auto simp: bit_simps)
    then have "of_nat x AND 0x1FFF = (of_nat x :: u32)"
      using z by (simp add: cache_size_for_def x_def[symmetric])
    then have "(of_nat x :: u32) \<le> 0x1FFF" by (metis word_and_le1)
    then have "x \<le> 8191" by (simp add: word_le_nat_alt ux)
    then show False using x by simp
  qed
  then show ?thesis by (simp add: word_gt_0)
qed

lemma parse_fuel_enough: "length f - p < parse_fuel f"
  by (simp add: parse_fuel_def)

lemma openFile_view:
  assumes "fs name = Some f" and "length f < 2 ^ 31" and "4 \<le> length f"
    and "of_le32 (f ! 0) (f ! 1) (f ! 2) (f ! 3) = 0"
  shows "\<exists>fl'. openFile_read fs name caching new_loader =
      Some (fst (parse_file f), Some (snd (parse_file f)), fl') \<and> opened f fl'"
proof -
  define fl where "fl = (if caching then new_loader\<lparr>fl_file := Some f, fl_pos := 0,
      m_use_cache := True, m_cache_size := cache_size_for (length f)\<rparr>
      else new_loader\<lparr>fl_file := Some f, fl_pos := 0\<rparr>)"
  have "opened f fl"
    using assms(2) cache_size_for_pos
    by (auto simp: opened_def fl_def new_loader_def inv_simps less_Suc_eq numeral_3_eq_3)
  then obtain fl1 where s1: "safeSeek 4 fl = (True, fl1)" "reads_at f 4 fl1"
    using safeSeek_opened[of f fl 4] assms(3) by auto
  obtain fl2 where s2: "safeSeek 4 fl1 = (True, fl2)" "reads_at f 4 fl2"
    using safeSeek_at[OF s1(2), of 4] assms(3) by auto
  have o: "openFile_read fs name caching new_loader =
     (case readByte fl2 of
        (None, fl) \<Rightarrow> Some (False, Some (FNode 4 0 0 None None), fl)
      | (Some b, fl) \<Rightarrow>
          if b = NODE_START
          then map_option (\<lambda>(ok, n, fl). (ok, Some n, fl)) (parse_type (parse_fuel f) 4 fl)
          else Some (False, Some (FNode 4 0 0 None None), fl))"
    using assms(1,3,4) s1(1) s2(1) by (simp add: openFile_read_def fl_def Let_def)
  from s2(2) show ?thesis
  proof (cases rule: reads_at_readByte)
    case (eof fl3)
    then show ?thesis using reads_at_opened by (auto simp: o parse_file_def)
  next
    case (byte fl3)
    show ?thesis
    proof (cases "f ! 4 = NODE_START")
      case True
      obtain ok n q where p: "parse_at (parse_fuel f) 4 f 5 = Some (ok, n, q)"
        using parse_at_total(1)[OF parse_fuel_enough, where f = f and p = 5 and start = 4] byte(1) by auto
      obtain fl4 where "parse_type (parse_fuel f) 4 fl3 = Some (ok, n, fl4)" "reads_at f q fl4"
        using parse_refines(1)[of f 5 fl3 "parse_fuel f" 4] byte(3) p by auto
      then show ?thesis using True byte(1,2) p reads_at_opened by (auto simp: o parse_file_def)
    qed (use byte reads_at_opened in \<open>auto simp: o parse_file_def\<close>)
  qed
qed

section \<open>Reading properties\<close>

lemma readBytes_cached_view:
  assumes "length f < 2 ^ 31"
  shows "cache_ok f fl \<Longrightarrow> unat pos + unat remain \<le> length f \<Longrightarrow>
    \<exists>fl'. readBytes_cached remain pos acc fl =
      Some (Some (acc @ take (unat remain) (drop (unat pos) f)), fl')"
proof (induction "unat remain" arbitrary: remain pos acc fl rule: less_induct)
  case less
  obtain i fl1 where g: "getCacheBlock pos fl = (Some i, fl1)" "i < 3" "cache_ok f fl1"
    "ch_loaded (m_cached_data fl1 ! i)"
    "unat (pos - ch_base (m_cached_data fl1 ! i)) = unat pos - unat (ch_base (m_cached_data fl1 ! i))"
    "unat (ch_base (m_cached_data fl1 ! i)) \<le> unat pos"
    "unat pos - unat (ch_base (m_cached_data fl1 ! i)) < unat (m_cache_size fl1)"
    using cached_move[OF less.prems(1) _ assms, of "unat pos"] less.prems(2) by auto
  define off where "off = pos - ch_base (m_cached_data fl1 ! i)"
  define rd where "rd = min remain (block_size i fl1 - off)"
  note v = block_view[OF g(3,2,4) assms]
  let ?b = "unat (ch_base (m_cached_data fl1 ! i))"
  have off: "unat off = unat pos - ?b" using g(5) by (simp add: off_def)
  have le: "unat off \<le> unat (block_size i fl1)" using v(1) off g(6,7) less.prems(2) by auto
  then have sub: "unat (block_size i fl1 - off) = unat (block_size i fl1) - unat off"
    by (simp add: unat_sub word_le_nat_alt)
  have rd: "unat rd = min (unat remain) (unat (block_size i fl1) - unat off)"
    using sub by (auto simp: rd_def min_def word_le_nat_alt)
  have chunk: "take (unat rd) (drop (unat off) (ch_data (m_cached_data fl1 ! i))) =
      take (unat rd) (drop (unat pos) f)"
  proof -
    have "unat rd \<le> unat (m_cache_size fl1) - unat off" using rd v(1) by linarith
    moreover have "unat off + ?b = unat pos" using off g(6) by simp
    ultimately show ?thesis by (simp add: v(2) drop_take min_absorb1)
  qed
  have rem: "unat (remain - rd) = unat remain - unat rd"
    by (rule unat_sub) (simp add: word_le_nat_alt rd)
  have pos: "unat (pos + rd) = unat pos + unat rd"
    by (rule unat_add_small) (use less.prems(2) rd assms in simp)
  define fl2 where "fl2 = fl1\<lparr>m_cache_index := Some i, m_cache_offset := off + rd\<rparr>"
  have c2: "cache_ok f fl2" using g(3) by (simp add: fl2_def)
  have step: "readBytes_cached remain pos acc fl =
      (if remain - rd > 0 then readBytes_cached (remain - rd) (pos + rd) (acc @ take (unat rd) (drop (unat pos) f)) fl2
       else Some (Some (acc @ take (unat rd) (drop (unat pos) f)), fl2))"
    by (subst readBytes_cached.simps)
      (simp add: g(1) Let_def off_def[symmetric] rd_def[symmetric] chunk fl2_def)
  show ?case
  proof (cases "remain - rd > 0")
    case True
    then have "unat (remain - rd) > 0" by (simp add: word_less_nat_alt)
    then have r0: "0 < unat remain" using rem by linarith
    then have "unat off < length f - ?b" using off g(6) less.prems(2) by linarith
    moreover have "unat off < unat (m_cache_size fl1)" using off g(7) by linarith
    ultimately have "0 < unat rd" using rd v(1) r0 by linarith
    then have dec: "unat (remain - rd) < unat remain" using rem \<open>unat (remain - rd) > 0\<close> by simp
    have inside: "unat (pos + rd) + unat (remain - rd) \<le> length f"
      using rem pos less.prems(2) rd by linarith
    obtain fl' where "readBytes_cached (remain - rd) (pos + rd) (acc @ take (unat rd) (drop (unat pos) f)) fl2
        = Some (Some ((acc @ take (unat rd) (drop (unat pos) f))
            @ take (unat (remain - rd)) (drop (unat (pos + rd)) f)), fl')"
      using less.hyps[OF dec c2 inside] by blast
    moreover have "take (unat rd) (drop (unat pos) f) @ take (unat (remain - rd)) (drop (unat (pos + rd)) f)
        = take (unat remain) (drop (unat pos) f)"
    proof -
      have "unat rd \<le> unat remain" using rd by simp
      then have "unat remain = unat rd + unat (remain - rd)" using rem by simp
      then have "take (unat remain) (drop (unat pos) f) =
          take (unat rd) (drop (unat pos) f) @ take (unat (remain - rd)) (drop (unat rd + unat pos) f)"
        by (simp only: take_add drop_drop)
      then show ?thesis by (simp only: pos add.commute)
    qed
    ultimately show ?thesis using step True by simp
  next
    case False
    then have "unat (remain - rd) = 0" by (simp add: word_gt_0)
    then have "unat rd = unat remain" using rem rd by simp
    then show ?thesis using step False by simp
  qed
qed

lemma readBytes_view:
  assumes "opened f fl" and "unat pos + unat n \<le> length f"
  shows "\<exists>fl'. readBytes n pos fl = Some (Some (take (unat n) (drop (unat pos) f)), fl')"
proof (cases "m_use_cache fl")
  case True
  then show ?thesis
    using assms readBytes_cached_view[of f fl pos n "[]"] by (auto simp: opened_def readBytes_def)
next
  case False
  then show ?thesis
    using assms by (auto simp: opened_def readBytes_def file_of_def Let_def)
qed

fun escape :: "bytes \<Rightarrow> bytes" where
  "escape [] = []"
| "escape (b # bs) =
     (if b = NODE_START \<or> b = NODE_END \<or> b = ESCAPE_CHAR then ESCAPE_CHAR # b # escape bs
      else b # escape bs)"

lemma unescape_escape [simp]: "unescape behind (escape ps) = ps"
  by (induction ps) auto

lemma getProps_view:
  assumes "opened f fl" and "unat (n_propsSize n) \<le> 2048"
    and "unat (n_start n) + 2 + unat (n_propsSize n) \<le> length f"
    and "take (unat (n_propsSize n)) (drop (unat (n_start n) + 2) f) = escape ps"
  shows "\<exists>fl'. getProps behind (Some n) fl = Inr (Some ps, fl')"
proof -
  define fl1 where "fl1 = (if n_propsSize n \<ge> m_buffer_size fl
      then fl\<lparr>m_buffer_size := m_buffer_size fl + 1024\<rparr> else fl)"
  have b: "1024 \<le> m_buffer_size fl" "length f < 2 ^ 31" using assms(1) by (simp_all add: opened_def)
  have sm: "unat (m_buffer_size fl + 1024) = unat (m_buffer_size fl) + 1024" if "m_buffer_size fl \<le> n_propsSize n"
    by (subst unat_add_small) (use that assms(2) in \<open>simp_all add: word_le_nat_alt\<close>)
  have o: "opened f fl1" and nb: "\<not> n_propsSize n > m_buffer_size fl1"
    using assms(1,2) b(1) sm by (auto simp: fl1_def opened_def inv_simps word_le_nat_alt word_less_nat_alt)
  have st: "unat (n_start n + 2) = unat (n_start n) + 2"
    by (subst unat_add_small) (use assms(3) b(2) in simp_all)
  obtain fl' where "readBytes (n_propsSize n) (n_start n + 2) fl1 = Some (Some (escape ps), fl')"
    using readBytes_view[OF o, of "n_start n + 2" "n_propsSize n"] assms(3,4) st by auto
  then show ?thesis using nb by (simp add: getProps_def Let_def fl1_def[symmetric])
qed

section \<open>Trees\<close>

text \<open>A tree as a client writes it: \<open>startNode\<close>, \<open>setProps\<close>, the children, \<open>endNode\<close>.\<close>

datatype ftree = FT u8 bytes "ftree list"

fun write_forest :: "ftree list \<Rightarrow> floader \<Rightarrow> floader" where
  "write_forest [] fl = fl"
| "write_forest (FT ty ps ks # ts) fl =
     write_forest ts (endNode (write_forest ks (snd (setProps ps (startNode ty fl)))))"

fun forest_bytes :: "ftree list \<Rightarrow> bytes" where
  "forest_bytes [] = []"
| "forest_bytes (FT ty ps ks # ts) =
     NODE_START # ty # escape ps @ forest_bytes ks @ NODE_END # forest_bytes ts"

text \<open>The parser reads the type byte as it stands, so a type must not be one of the special bytes.\<close>

fun plain_types :: "ftree list \<Rightarrow> bool" where
  "plain_types [] = True"
| "plain_types (FT ty ps ks # ts) \<longleftrightarrow>
     ty \<noteq> NODE_START \<and> ty \<noteq> NODE_END \<and> ty \<noteq> ESCAPE_CHAR \<and> plain_types ks \<and> plain_types ts"

fun layout :: "nat \<Rightarrow> ftree list \<Rightarrow> fnode option" where
  "layout s [] = None"
| "layout s (FT ty ps ks # ts) =
     Some (FNode (of_nat s) (of_nat (length (escape ps))) (ucast ty)
       (layout (s + 2 + length (escape ps)) ks)
       (layout (s + 3 + length (escape ps) + length (forest_bytes ks)) ts))"

lemma writeData_view:
  assumes "fl_file fl = Some f" and "length (if esc then escape cs else cs) \<le> fl_room fl"
  shows "writeData cs esc fl = (True, fl\<lparr>fl_file := Some (f @ (if esc then escape cs else cs)),
      fl_room := fl_room fl - length (if esc then escape cs else cs)\<rparr>)"
  using assms
proof (induction cs arbitrary: fl f)
  case (Cons c cs)
  define b where "b = (if esc \<and> (c = NODE_START \<or> c = NODE_END \<or> c = ESCAPE_CHAR) then [ESCAPE_CHAR, c] else [c])"
  define fl1 where "fl1 = fl\<lparr>fl_file := Some (f @ b), fl_room := fl_room fl - length b\<rparr>"
  have e: "(if esc then escape (c # cs) else c # cs) = b @ (if esc then escape cs else cs)"
    by (auto simp: b_def)
  have room: "length b \<le> fl_room fl" "length (if esc then escape cs else cs) \<le> fl_room fl - length b"
    using Cons.prems(2) unfolding e length_append by auto
  then have s: "writeData (c # cs) esc fl = writeData cs esc fl1"
    using Cons.prems(1) by (auto simp: fwrite1_def b_def fl1_def file_of_def special_bytes)
  show ?case
    using Cons.IH[of fl1 "f @ b"] room s unfolding e by (simp add: fl1_def)
qed simp

lemma write_forest_view:
  "plain_types ts \<Longrightarrow> fl_file fl = Some f \<Longrightarrow> length (forest_bytes ts) \<le> fl_room fl \<Longrightarrow>
    write_forest ts fl = fl\<lparr>fl_file := Some (f @ forest_bytes ts),
      fl_room := fl_room fl - length (forest_bytes ts)\<rparr>"
proof (induction ts arbitrary: fl f rule: forest_bytes.induct)
  case (2 ty ps ks ts)
  define g where "g fl b = fl\<lparr>fl_file := Some (file_of fl @ b), fl_room := fl_room fl - length b\<rparr>" for fl b
  have w: "snd (writeData cs esc fl) = g fl (if esc then escape cs else cs)"
    if "fl_file fl \<noteq> None" "length (if esc then escape cs else cs) \<le> fl_room fl" for cs esc fl
    using that by (auto simp: writeData_view g_def file_of_def)
  have gg: "g (g fl a) b = g fl (a @ b)" "fl_file (g fl a) \<noteq> None" "fl_room (g fl a) = fl_room fl - length a" for fl a b
    by (simp_all add: g_def file_of_def)
  have ih: "write_forest us fl = g fl (forest_bytes us)"
    if "us \<in> {ks, ts}" "fl_file fl \<noteq> None" "length (forest_bytes us) \<le> fl_room fl" for us fl
    using that 2 by (auto simp: g_def file_of_def)
  have n: "escape [ty] = [ty]" using 2(3) by simp
  have sp: "snd (setProps ps fl) = snd (writeData ps True fl)" for fl
    by (simp add: setProps_def split: prod.split)
  have "write_forest (FT ty ps ks # ts) fl = g fl (forest_bytes (FT ty ps ks # ts))"
    using 2(4,5) n by (simp add: startNode_def endNode_def sp w gg ih del: writeData.simps escape.simps)
  then show ?case using 2(4) by (simp add: g_def file_of_def)
qed simp

lemma drop_Cons_at:
  assumes "drop p f = x # r"
  shows "p < length f" "f ! p = x" "drop (Suc p) f = r"
proof -
  show p: "p < length f" using assms by (metis drop_eq_Nil linorder_not_le list.discI)
  then show "f ! p = x" "drop (Suc p) f = r" using assms Cons_nth_drop_Suc[OF p] by auto
qed

lemma body_escape:
  "drop p f = escape ps @ r \<Longrightarrow> length ps \<le> k \<Longrightarrow> body_at k start psize ty child setp f p =
    body_at (k - length ps) start psize ty child setp f (p + length (escape ps))"
proof (induction ps arbitrary: p k)
  case (Cons b ps)
  obtain k' where k: "k = Suc k'" using Cons.prems(2) by (cases k) auto
  show ?case
  proof (cases "b = NODE_START \<or> b = NODE_END \<or> b = ESCAPE_CHAR")
    case True
    then have d: "drop p f = ESCAPE_CHAR # b # escape ps @ r" using Cons.prems(1) by simp
    note d1 = drop_Cons_at[OF d] and d2 = drop_Cons_at[OF drop_Cons_at(3)[OF d]]
    have "body_at k start psize ty child setp f p = body_at k' start psize ty child setp f (p + 2)"
      using d1 d2(1) by (simp add: k special_bytes)
    then show ?thesis using Cons.IH[of "p + 2" k'] Cons.prems(2) d2(3) True by (auto simp: k)
  next
    case False
    then have d: "drop p f = b # escape ps @ r" using Cons.prems(1) by simp
    note d1 = drop_Cons_at[OF d]
    have "body_at k start psize ty child setp f p = body_at k' start psize ty child setp f (p + 1)"
      using d1 False by (simp add: k)
    then show ?thesis using Cons.IH[of "p + 1" k'] Cons.prems(2) d1(3) False by (auto simp: k)
  qed
qed simp

lemma body_end:
  assumes "drop p f = NODE_END # r" and "r = [] \<or> hd r = NODE_END" and "0 < k"
  shows "body_at k start psize ty child setp f p =
    Some (True, FNode start (if setp then psize else of_nat p - start - 2) ty child None, p + 1)"
proof -
  note d = drop_Cons_at[OF assms(1)]
  have "length f \<le> Suc p \<or> f ! Suc p = NODE_END"
    using assms(2) d(3) drop_Cons_at(2)[of "Suc p" f NODE_END "tl r"] by (cases r) auto
  then show ?thesis using d(1,2) assms(3) by (cases k) (auto simp: Let_def special_bytes)
qed

lemma body_next:
  assumes "drop p f = NODE_END # NODE_START # r" and "0 < k"
  shows "body_at k start psize ty child setp f p =
    map_option (\<lambda>(ok, n, q). (ok, FNode start (if setp then psize else of_nat p - start - 2) ty child (Some n), q))
      (parse_at (k - 1) (of_nat (p + 1)) f (p + 2))"
proof -
  note d = drop_Cons_at[OF assms(1)]
  note d2 = drop_Cons_at[OF d(3)]
  show ?thesis using d(1,2) d2(1,2) assms(2) by (cases k) (auto simp: Let_def special_bytes)
qed

lemma body_child:
  assumes "drop p f = NODE_START # r" and "0 < k" and "parse_at (k - 1) (of_nat p) f (p + 1) = Some (True, c, q)"
  shows "body_at k start psize ty child setp f p =
    body_at (k - 1) start (of_nat p - start - 2) ty (Some c) True f q"
  using drop_Cons_at[OF assms(1)] assms(2,3) by (cases k) auto

lemma length_escape: "length ps \<le> length (escape ps)"
  by (induction ps) auto

lemma forest_start: "ts \<noteq> [] \<Longrightarrow> \<exists>r. forest_bytes ts = NODE_START # r"
  by (cases ts rule: forest_bytes.cases) auto

lemma parse_forest:
  "ts \<noteq> [] \<Longrightarrow> drop s f = forest_bytes ts @ rest \<Longrightarrow> rest = [] \<or> hd rest = NODE_END \<Longrightarrow>
    length f - s \<le> k \<Longrightarrow>
    parse_at k (of_nat s) f (s + 1) = Some (True, the (layout s ts), s + length (forest_bytes ts))"
proof (induction ts arbitrary: s k rest rule: forest_bytes.induct)
  case (2 ty ps ks ts)
  let ?len = "length (escape ps)"
  define p2 where "p2 = s + 2 + ?len"
  define p3 where "p3 = p2 + length (forest_bytes ks)"
  have d0: "drop s f = NODE_START # ty # escape ps @ forest_bytes ks @ NODE_END # forest_bytes ts @ rest"
    using 2(4) by simp
  note d1 = drop_Cons_at(3)[OF d0]
  have d2: "drop (s + 2) f = escape ps @ forest_bytes ks @ NODE_END # forest_bytes ts @ rest"
    using drop_Cons_at(3)[OF d1] by simp
  have d3: "drop p2 f = forest_bytes ks @ NODE_END # forest_bytes ts @ rest"
  proof -
    have "drop p2 f = drop ?len (drop (s + 2) f)" by (simp add: p2_def add.commute)
    then show ?thesis unfolding d2 by simp
  qed
  have d4: "drop p3 f = NODE_END # forest_bytes ts @ rest"
  proof -
    have "drop p3 f = drop (length (forest_bytes ks)) (drop p2 f)" by (simp add: p3_def add.commute)
    then show ?thesis unfolding d3 by simp
  qed
  have p3: "p3 < length f" by (rule drop_Cons_at(1)[OF d4])
  have lens: "s + 2 + ?len \<le> p3" by (simp add: p3_def p2_def)
  define k2 where "k2 = k - 1 - length ps"
  have k2: "length f - p2 < k2 + 0" "length ps \<le> k - 1" "0 < k" "0 < k2"
    using 2(6) p3 lens length_escape[of ps] by (auto simp: k2_def p2_def)
  have st: "parse_at k (of_nat s) f (s + 1) = body_at k2 (of_nat s) 0 (ucast ty) None False f p2"
  proof -
    have "parse_at k (of_nat s) f (s + 1) = body_at (k - 1) (of_nat s) 0 (ucast ty) None False f (s + 2)"
      using drop_Cons_at[OF d1] k2(3) by (cases k) auto
    also have "\<dots> = body_at k2 (of_nat s) 0 (ucast ty) None False f p2"
      unfolding k2_def p2_def by (rule body_escape[OF d2 k2(2)])
    finally show ?thesis .
  qed
  have psz: "(of_nat p2 :: u32) - of_nat s - 2 = of_nat ?len" by (simp add: p2_def)
  define child where "child = layout p2 ks"
  have kids: "\<exists>k3 setp psize. 0 < k3 \<and> length f - p3 \<le> k3 \<and> (if setp then psize else of_nat p3 - of_nat s - 2) = (of_nat ?len :: u32)
      \<and> parse_at k (of_nat s) f (s + 1) = body_at k3 (of_nat s) psize (ucast ty) child setp f p3"
  proof (cases "ks = []")
    case True
    then have "p3 = p2" "child = None" by (simp_all add: p3_def child_def)
    then show ?thesis using st psz k2 by (intro exI[of _ k2] exI[of _ False] exI[of _ 0]) simp
  next
    case False
    have "parse_at (k2 - 1) (of_nat p2) f (p2 + 1) = Some (True, the (layout p2 ks), p3)"
      using 2(1)[OF False d3, of "k2 - 1"] k2 by (simp add: p3_def)
    moreover obtain r where "drop p2 f = NODE_START # r" using forest_start[OF False] d3 by auto
    ultimately have b: "parse_at k (of_nat s) f (s + 1) =
        body_at (k2 - 1) (of_nat s) (of_nat p2 - of_nat s - 2) (ucast ty) (Some (the (layout p2 ks))) True f p3"
      unfolding st using body_child k2(4) by blast
    have "Some (the (layout p2 ks)) = child"
      using False by (cases ks rule: forest_bytes.cases) (auto simp: child_def)
    moreover have "p2 < p3" using False forest_start[OF False] by (auto simp: p3_def)
    ultimately show ?thesis using b psz k2 p3
      by (intro exI[of _ "k2 - 1"] exI[of _ True] exI[of _ "of_nat ?len"]) auto
  qed
  then obtain k3 setp psize where k3: "0 < k3" "length f - p3 \<le> k3"
    "(if setp then psize else of_nat p3 - of_nat s - 2) = (of_nat ?len :: u32)"
    "parse_at k (of_nat s) f (s + 1) = body_at k3 (of_nat s) psize (ucast ty) child setp f p3" by blast
  have lay: "layout s (FT ty ps ks # ts) = Some (FNode (of_nat s) (of_nat ?len) (ucast ty) child (layout (p3 + 1) ts))"
  proof -
    have "s + 3 + ?len + length (forest_bytes ks) = p3 + 1" by (simp add: p3_def p2_def)
    then show ?thesis by (simp only: layout.simps child_def p2_def)
  qed
  have len: "s + length (forest_bytes (FT ty ps ks # ts)) = p3 + 1 + length (forest_bytes ts)"
    by (simp add: p2_def p3_def)
  show ?case
  proof (cases "ts = []")
    case True
    then have "drop p3 f = NODE_END # rest" using d4 by simp
    from body_end[OF this 2(5) k3(1)] show ?thesis
      unfolding k3(4) lay len using k3(3) True by simp
  next
    case False
    obtain r where r: "forest_bytes ts = NODE_START # r" using forest_start[OF False] by blast
    have d5: "drop (p3 + 1) f = forest_bytes ts @ rest" using drop_Cons_at(3)[OF d4] by simp
    have "parse_at (k3 - 1) (of_nat (p3 + 1)) f (p3 + 1 + 1) =
        Some (True, the (layout (p3 + 1) ts), p3 + 1 + length (forest_bytes ts))"
      by (rule 2(2)[OF False d5 2(5)]) (use k3(2) in simp)
    then have "body_at k3 (of_nat s) psize (ucast ty) child setp f p3 =
        Some (True, FNode (of_nat s) (of_nat ?len) (ucast ty) child (Some (the (layout (p3 + 1) ts))),
          p3 + 1 + length (forest_bytes ts))"
      using body_next[of p3 f "r @ rest" k3] d4 r k3(1,3) by simp
    moreover have "Some (the (layout (p3 + 1) ts)) = layout (p3 + 1) ts"
      using False by (cases ts rule: forest_bytes.cases) auto
    ultimately show ?thesis unfolding k3(4) lay len by simp
  qed
qed simp

section \<open>Properties\<close>

text \<open>
  C4. Opening a file always ends, whatever its bytes, and the block cache does not show: with and
  without it the outcome and the tree of nodes are the same.
\<close>

theorem openFile_cache_transparent:
  assumes "fs name = Some f" and "length f < 2 ^ 31"
  shows "\<exists>ok root fl1 fl2. openFile_read fs name False new_loader = Some (ok, root, fl1)
    \<and> openFile_read fs name True new_loader = Some (ok, root, fl2)"
proof -
  consider "length f < 4" | "4 \<le> length f" "of_le32 (f ! 0) (f ! 1) (f ! 2) (f ! 3) > 0"
    | "4 \<le> length f" "of_le32 (f ! 0) (f ! 1) (f ! 2) (f ! 3) = 0"
    unfolding word_gt_0 by (metis not_le)
  then show ?thesis
  proof cases
    case 3
    then show ?thesis using openFile_view[where fs = fs and name = name, OF assms] by blast
  qed (use assms in \<open>auto simp: openFile_read_def Let_def\<close>)
qed

theorem openFile_cache_transparent_witness:
  "\<exists>ok root fl1 fl2. openFile_read (\<lambda>_. Some [0, 0, 0, 0, 0xFE, 1, 0xFD]) ''a'' False new_loader = Some (ok, root, fl1)
    \<and> openFile_read (\<lambda>_. Some [0, 0, 0, 0, 0xFE, 1, 0xFD]) ''a'' True new_loader = Some (ok, root, fl2)"
  using openFile_cache_transparent[of "\<lambda>_. Some [0, 0, 0, 0, 0xFE, 1, 0xFD]" "''a''"] by simp

text \<open>The tree a client sees through the pointers and \<open>getProps\<close> is the forest.\<close>

definition props_of :: "floader \<Rightarrow> fnode \<Rightarrow> bytes option" where
  "props_of fl n = (case getProps 0 (Some n) fl of Inl e \<Rightarrow> None | Inr (b, fl) \<Rightarrow> b)"

fun shows_forest :: "(fnode \<Rightarrow> bytes option) \<Rightarrow> fnode option \<Rightarrow> ftree list \<Rightarrow> bool" where
  "shows_forest props None [] \<longleftrightarrow> True"
| "shows_forest props (Some n) (FT ty ps ks # ts) \<longleftrightarrow>
     n_type n = ucast ty \<and> props n = Some ps \<and> shows_forest props (n_child n) ks
     \<and> shows_forest props (n_next n) ts"
| "shows_forest props _ _ \<longleftrightarrow> False"

fun short_props :: "ftree list \<Rightarrow> bool" where
  "short_props [] \<longleftrightarrow> True"
| "short_props (FT ty ps ks # ts) \<longleftrightarrow> length (escape ps) \<le> 2048 \<and> short_props ks \<and> short_props ts"

lemma layout_shows:
  "opened f fl \<Longrightarrow> short_props ts \<Longrightarrow> drop s f = forest_bytes ts @ rest \<Longrightarrow>
    shows_forest (props_of fl) (layout s ts) ts"
proof (induction ts arbitrary: s rest rule: forest_bytes.induct)
  case (2 ty ps ks ts)
  let ?len = "length (escape ps)"
  define p2 where "p2 = s + 2 + ?len"
  have d0: "drop s f = [NODE_START, ty] @ escape ps @ forest_bytes ks @ NODE_END # forest_bytes ts @ rest"
    using 2(5) by simp
  have "drop (s + 2) f = drop 2 (drop s f)" by (simp add: add.commute)
  then have d2: "drop (s + 2) f = escape ps @ forest_bytes ks @ NODE_END # forest_bytes ts @ rest"
    unfolding d0 by simp
  have "drop p2 f = drop ?len (drop (s + 2) f)" by (simp add: p2_def add.commute)
  then have d3: "drop p2 f = forest_bytes ks @ NODE_END # forest_bytes ts @ rest" unfolding d2 by simp
  define p4 where "p4 = p2 + length (forest_bytes ks) + 1"
  have "drop p4 f = drop (length (forest_bytes ks) + 1) (drop p2 f)" by (simp add: p4_def add.commute)
  then have d4: "drop p4 f = forest_bytes ts @ rest" unfolding d3 by simp
  have len: "length f < 2 ^ 31" "s + 2 + ?len \<le> length f" "?len \<le> 2048"
    using 2(3,4) arg_cong[OF d3, of length] by (auto simp: opened_def p2_def)
  have u: "unat (of_nat ?len :: u32) = ?len" "unat (of_nat s :: u32) = s"
    using len by (simp_all add: unat_of_nat take_bit_eq_mod)
  have "props_of fl (FNode (of_nat s) (of_nat ?len) ty' c x) = Some ps" for ty' c x
  proof -
    have "take ?len (drop (s + 2) f) = escape ps" unfolding d2 by simp
    then obtain fl' where "getProps 0 (Some (FNode (of_nat s) (of_nat ?len) ty' c x)) fl = Inr (Some ps, fl')"
      using getProps_view[OF 2(3), of "FNode (of_nat s) (of_nat ?len) ty' c x" ps 0] len u by auto
    then show ?thesis by (simp add: props_of_def)
  qed
  moreover have "shows_forest (props_of fl) (layout p2 ks) ks" by (rule 2(1)[OF 2(3) _ d3]) (use 2(4) in simp)
  moreover have "shows_forest (props_of fl) (layout p4 ts) ts" by (rule 2(2)[OF 2(3) _ d4]) (use 2(4) in simp)
  moreover have "s + 3 + ?len + length (forest_bytes ks) = p4" by (simp add: p4_def p2_def)
  ultimately show ?case by (simp only: layout.simps shows_forest.simps fnode.sel p2_def[symmetric])
qed simp

text \<open>
  C2. A tree written with \<open>startNode\<close>, \<open>setProps\<close> and \<open>endNode\<close> and opened again, cached or not, is
  found through the node pointers as it was written: the types, the properties with any bytes in
  them, the children and the siblings in order. The types must not be the three special bytes (the
  parser takes the type unescaped) and the properties of one node at most 2,048 bytes as stored.
\<close>

theorem node_file_roundtrip:
  assumes "plain_types [t]" and "short_props [t]" and "length (forest_bytes [t]) + 4 \<le> room"
    and "length (forest_bytes [t]) + 4 < 2 ^ 31"
    and "fl_file (write_forest [t] (snd (openFile_write True (new_loader\<lparr>fl_room := room\<rparr>)))) = Some f"
    and "fs name = Some f"
  shows "\<exists>root fl. openFile_read fs name caching new_loader = Some (True, Some root, fl)
    \<and> shows_forest (props_of fl) (Some root) [t]"
proof -
  let ?w = "snd (openFile_write True (new_loader\<lparr>fl_room := room\<rparr>))"
  have w: "fl_file ?w = Some [0, 0, 0, 0]" "fl_room ?w = room - 4"
    using assms(3) writeData_view[of "new_loader\<lparr>fl_room := room, fl_file := Some []\<rparr>" "[]" False "[0, 0, 0, 0]"]
    by (simp_all add: openFile_write_def)
  have f: "f = [0, 0, 0, 0] @ forest_bytes [t]"
    using write_forest_view[OF assms(1) w(1)] w(2) assms(3,5) by simp
  obtain r where r: "forest_bytes [t] = NODE_START # r" using forest_start[of "[t]"] by auto
  have v: "of_le32 (f ! 0) (f ! 1) (f ! 2) (f ! 3) = 0" "4 < length f" "f ! 4 = NODE_START"
    using r by (simp_all add: f of_le32_def del: forest_bytes.simps)
  have d: "drop 4 f = forest_bytes [t] @ []" by (simp add: f del: forest_bytes.simps)
  have "parse_at (parse_fuel f) (of_nat 4) f (4 + 1) =
      Some (True, the (layout 4 [t]), 4 + length (forest_bytes [t]))"
    by (rule parse_forest[OF _ d]) (simp_all add: parse_fuel_def)
  then have p: "parse_file f = (True, the (layout 4 [t]))" using v by (simp add: parse_file_def)
  have "length f < 2 ^ 31" using assms(4) by (simp add: f del: forest_bytes.simps)
  then obtain fl where fl: "openFile_read fs name caching new_loader = Some (True, Some (the (layout 4 [t])), fl)"
    "opened f fl"
    using openFile_view[of fs name f caching] assms(6) v p by auto
  have "Some (the (layout 4 [t])) = layout 4 [t]" by (cases t) simp
  then show ?thesis using fl(1) layout_shows[OF fl(2) assms(2) d] by metis
qed

theorem node_file_roundtrip_witness:
  "\<exists>root fl. openFile_read (\<lambda>_. Some [0, 0, 0, 0, 0xFE, 1, 7, 0xFD, 0xFF, 0xFE, 2, 0xFF, 0xFF]) ''m'' True new_loader
      = Some (True, Some root, fl)
    \<and> shows_forest (props_of fl) (Some root) [FT 1 [7, 0xFF] [FT 2 [] []]]"
  by (rule node_file_roundtrip[where room = 100]) (simp_all add: openFile_write_def new_loader_def fwrite1_def
      file_of_def special_bytes startNode_def endNode_def setProps_def)

text \<open>
  The property buffer grows by 1,024 bytes only, once per call: the properties of a node with
  more than 2,048 stored bytes are read over the end of the fresh loader's buffer.
\<close>

theorem getProps_overflow:
  assumes "m_buffer_size fl = 1024"
  shows "getProps behind (Some n) fl = Inl True \<longleftrightarrow> n_propsSize n > 2048"
proof -
  have "1024 \<le> n_propsSize n \<longleftrightarrow> \<not> n_propsSize n < 1024" by (simp add: not_less)
  moreover have "n_propsSize n < 1024 \<Longrightarrow> \<not> 2048 < n_propsSize n"
    by (simp add: word_less_nat_alt)
  moreover have "n_propsSize n < 1024 \<Longrightarrow> \<not> 1024 < n_propsSize n"
    by (simp add: word_less_nat_alt)
  ultimately show ?thesis
    using assms by (auto simp: getProps_def Let_def split: option.splits)
qed

theorem getProps_overflow_witness:
  "getProps 0 (Some (FNode 4 2049 1 None None)) new_loader = Inl True"
  using getProps_overflow[of new_loader 0 "FNode 4 2049 1 None None"] by (simp add: new_loader_def)

end
