(* ===== verification/ItemAttributes.thy ===== *)
theory ItemAttributes
  imports PropStreams "HOL-Library.List_Lexorder"
begin

text \<open>
  \<^verbatim>\<open>itemattributes.h\<close> / \<^verbatim>\<open>itemattributes.cpp\<close>: the typed key/value attributes of an item and
  their binary form. A \<open>std::string\<close> is its bytes, compared as unsigned bytes; an \<open>int32_t\<close> is the
  32-bit word read as signed, a \<open>float\<close> its 32-bit pattern.
\<close>

section \<open>One attribute\<close>

text \<open>The tagged union \<open>type\<close> / \<open>data\<close>, and the values a \<open>boost::any\<close> arrives with.\<close>

datatype item_attribute =
    AttrNone | AttrString bytes | AttrInteger u32 | AttrFloat u32 | AttrBoolean bool

datatype any_value =
    AnyEmpty | AnyString bytes | AnyInteger u32 | AnyFloat u32 | AnyBoolean bool | AnyOther

definition attr_clear :: "item_attribute \<Rightarrow> item_attribute" where
  "attr_clear a = AttrNone"

fun attr_set_any :: "any_value \<Rightarrow> item_attribute \<Rightarrow> item_attribute" where
  "attr_set_any AnyEmpty a = attr_clear a"
| "attr_set_any (AnyString s) a = AttrString s"
| "attr_set_any (AnyInteger i) a = AttrInteger i"
| "attr_set_any (AnyFloat f) a = AttrFloat f"
| "attr_set_any (AnyBoolean b) a = AttrBoolean b"
| "attr_set_any AnyOther a = attr_clear a"

fun attr_getString :: "item_attribute \<Rightarrow> bytes option" where
  "attr_getString (AttrString s) = Some s"
| "attr_getString a = None"

fun attr_getInteger :: "item_attribute \<Rightarrow> u32 option" where
  "attr_getInteger (AttrInteger i) = Some i"
| "attr_getInteger a = None"

fun attr_getFloat :: "item_attribute \<Rightarrow> u32 option" where
  "attr_getFloat (AttrFloat f) = Some f"
| "attr_getFloat a = None"

fun attr_getBoolean :: "item_attribute \<Rightarrow> bool option" where
  "attr_getBoolean (AttrBoolean b) = Some b"
| "attr_getBoolean a = None"

fun attr_get :: "item_attribute \<Rightarrow> any_value" where
  "attr_get (AttrString s) = AnyString s"
| "attr_get (AttrInteger i) = AnyInteger i"
| "attr_get (AttrFloat f) = AnyFloat f"
| "attr_get (AttrBoolean b) = AnyBoolean b"
| "attr_get AttrNone = AnyEmpty"

section \<open>The attributes of an item\<close>

text \<open>The map is created with the first attribute; before, the pointer is null.\<close>

type_synonym attribute_map = "(bytes, item_attribute) omap"
type_synonym item_attributes = "attribute_map option"

definition createAttributes :: "item_attributes \<Rightarrow> attribute_map" where
  "createAttributes as = (case as of None \<Rightarrow> [] | Some m \<Rightarrow> m)"

definition eraseAttribute :: "bytes \<Rightarrow> item_attributes \<Rightarrow> item_attributes" where
  "eraseAttribute key as = map_option (om_erase key) as"

text \<open>\<open>(*attributes)[key].set(value)\<close>: the entry is created empty when it is missing.\<close>

definition entry_of :: "bytes \<Rightarrow> attribute_map \<Rightarrow> item_attribute" where
  "entry_of key m = (case om_lookup m key of None \<Rightarrow> AttrNone | Some a \<Rightarrow> a)"

definition setAttribute :: "bytes \<Rightarrow> any_value \<Rightarrow> item_attributes \<Rightarrow> item_attributes" where
  "setAttribute key v as =
     (let m = createAttributes as in Some (om_assign key (attr_set_any v (entry_of key m)) m))"

definition findAttribute :: "bytes \<Rightarrow> item_attributes \<Rightarrow> item_attribute option" where
  "findAttribute key as = (case as of None \<Rightarrow> None | Some m \<Rightarrow> om_lookup m key)"

definition getAttribute :: "bytes \<Rightarrow> item_attributes \<Rightarrow> any_value" where
  "getAttribute key as = (case findAttribute key as of None \<Rightarrow> AnyEmpty | Some a \<Rightarrow> attr_get a)"

definition getStringAttribute :: "bytes \<Rightarrow> item_attributes \<Rightarrow> bytes option" where
  "getStringAttribute key as = Option.bind (findAttribute key as) attr_getString"

definition getIntegerAttribute :: "bytes \<Rightarrow> item_attributes \<Rightarrow> u32 option" where
  "getIntegerAttribute key as = Option.bind (findAttribute key as) attr_getInteger"

definition getFloatAttribute :: "bytes \<Rightarrow> item_attributes \<Rightarrow> u32 option" where
  "getFloatAttribute key as = Option.bind (findAttribute key as) attr_getFloat"

definition getBooleanAttribute :: "bytes \<Rightarrow> item_attributes \<Rightarrow> bool option" where
  "getBooleanAttribute key as = Option.bind (findAttribute key as) attr_getBoolean"

text \<open>
  The copy constructor assigns the member only when the source has a map; otherwise the pointer
  keeps whatever was in the memory, the parameter \<open>garbage\<close>.
\<close>

definition copy_attributes :: "item_attributes \<Rightarrow> item_attributes \<Rightarrow> item_attributes" where
  "copy_attributes garbage src = (case src of None \<Rightarrow> garbage | Some m \<Rightarrow> Some m)"

section \<open>The binary form\<close>

fun attr_type :: "item_attribute \<Rightarrow> u8" where
  "attr_type AttrNone = 0"
| "attr_type (AttrString s) = 1"
| "attr_type (AttrInteger i) = 2"
| "attr_type (AttrFloat f) = 3"
| "attr_type (AttrBoolean b) = 4"

definition attr_serialize :: "item_attribute \<Rightarrow> write_stream \<Rightarrow> write_stream option" where
  "attr_serialize a w =
     Option.bind (addByte (attr_type a) w) (\<lambda>w.
       case a of
         AttrNone \<Rightarrow> Some w
       | AttrString s \<Rightarrow> addLongString s w
       | AttrInteger i \<Rightarrow> addLong i w
       | AttrFloat f \<Rightarrow> addLong f w
       | AttrBoolean b \<Rightarrow> addByte (if b then 1 else 0) w)"

text \<open>
  Reading: a missing type byte counts as type 0; an unknown type leaves the attribute empty and is
  no error. \<^const>\<open>None\<close> is the over-read of \<^const>\<open>getLongString\<close>.
\<close>

definition attr_unserialize :: "prop_stream \<Rightarrow> (bool \<times> item_attribute \<times> prop_stream) option" where
  "attr_unserialize s =
     (case getByte s of (t, s) \<Rightarrow>
      let ty = (case t of None \<Rightarrow> 0 | Some ty \<Rightarrow> ty) in
      if ty = 1 then
        Option.bind (getLongString s) (\<lambda>(v, s).
          Some (case v of None \<Rightarrow> (False, AttrNone, s) | Some v \<Rightarrow> (True, AttrString v, s)))
      else if ty = 2 then
        (case getLong s of
           (None, s) \<Rightarrow> Some (False, AttrNone, s)
         | (Some v, s) \<Rightarrow> Some (True, AttrInteger v, s))
      else if ty = 3 then
        (case getFloat s of
           (None, s) \<Rightarrow> Some (False, AttrNone, s)
         | (Some v, s) \<Rightarrow> Some (True, AttrFloat v, s))
      else if ty = 4 then
        (case getByte s of
           (None, s) \<Rightarrow> Some (False, AttrNone, s)
         | (Some v, s) \<Rightarrow> Some (True, AttrBoolean (v \<noteq> 0), s))
      else Some (True, AttrNone, s))"

text \<open>The loop writes at most \<open>0x10000\<close> entries, the count says at most \<open>0xFFFF\<close>.\<close>

fun serialize_entries :: "attribute_map \<Rightarrow> write_stream \<Rightarrow> write_stream option" where
  "serialize_entries [] w = Some w"
| "serialize_entries ((key, a) # m) w =
     Option.bind (if length key > 0xFFFF then addString (take 0xFFFF key) w else addString key w)
       (\<lambda>w. Option.bind (attr_serialize a w) (serialize_entries m))"

definition serializeMap :: "attribute_map \<Rightarrow> write_stream \<Rightarrow> write_stream option" where
  "serializeMap m w =
     Option.bind (addShort (of_nat (min 0xFFFF (length m))) w)
       (serialize_entries (take 0x10000 m))"

fun unserialize_entries ::
  "nat \<Rightarrow> attribute_map \<Rightarrow> prop_stream \<Rightarrow> (bool \<times> attribute_map \<times> prop_stream) option" where
  "unserialize_entries 0 m s = Some (True, m, s)"
| "unserialize_entries (Suc n) m s =
     (case stream_getString s of
        (None, s) \<Rightarrow> Some (False, m, s)
      | (Some key, s) \<Rightarrow>
          Option.bind (attr_unserialize s) (\<lambda>(ok, a, s).
            if \<not> ok then Some (False, m, s)
            else unserialize_entries n (om_assign key a m) s))"

definition unserializeMap ::
  "item_attributes \<Rightarrow> prop_stream \<Rightarrow> (bool \<times> item_attributes \<times> prop_stream) option" where
  "unserializeMap as s =
     (case getShort s of
        (None, s) \<Rightarrow> Some (True, as, s)
      | (Some n, s) \<Rightarrow>
          map_option (\<lambda>(ok, m, s). (ok, Some m, s))
            (unserialize_entries (unat n) (createAttributes as) s))"

section \<open>The attributes are a finite map\<close>

definition attrs_valid :: "item_attributes \<Rightarrow> bool" where
  [inv_simps]: "attrs_valid as \<longleftrightarrow> (case as of None \<Rightarrow> True | Some m \<Rightarrow> om_valid m)"

definition any_attr :: "any_value \<Rightarrow> item_attribute" where
  "any_attr v = attr_set_any v AttrNone"

lemma attr_set_any_indep: "attr_set_any v a = any_attr v"
  by (cases v) (simp_all add: any_attr_def attr_clear_def)

lemma om_lookup_empty: "om_lookup [] = Map.empty"
  by (rule ext) simp

interpretation attrs: keyed_store "\<lambda>as k. findAttribute k as" "\<lambda>k v. setAttribute k (attr_get v)"
  eraseAttribute attrs_valid
proof unfold_locales
  fix as :: item_attributes and k v
  have v: "any_attr (attr_get v) = v" by (cases v) (simp_all add: any_attr_def attr_clear_def)
  assume a: "attrs_valid as"
  then have m: "om_valid (createAttributes as)"
    by (simp add: createAttributes_def inv_simps split: option.splits)
  have l: "om_lookup (createAttributes as) = (\<lambda>k. findAttribute k as)"
    by (rule ext) (simp add: createAttributes_def findAttribute_def split: option.splits)
  show "(\<lambda>k'. findAttribute k' (setAttribute k (attr_get v) as)) = (\<lambda>k'. findAttribute k' as)(k := Some v)"
    using om_lookup_assign[OF m, of k v]
    by (simp add: setAttribute_def Let_def attr_set_any_indep v l findAttribute_def[of _ "Some _"]
        fun_upd_def)
  show "(\<lambda>k'. findAttribute k' (eraseAttribute k as)) = (\<lambda>k'. findAttribute k' as)(k := None)"
    using a by (cases as) (simp_all add: eraseAttribute_def findAttribute_def inv_simps fun_eq_iff)
  show "attrs_valid (setAttribute k (attr_get v) as)"
    using m by (simp add: setAttribute_def Let_def inv_simps)
  show "attrs_valid (eraseAttribute k as)"
    using a by (cases as) (simp_all add: eraseAttribute_def inv_simps)
qed

datatype attr_request = SetAttr bytes any_value | EraseAttr bytes

fun attr_request_step :: "attr_request \<Rightarrow> item_attributes \<Rightarrow> item_attributes" where
  "attr_request_step (SetAttr k v) as = setAttribute k v as"
| "attr_request_step (EraseAttr k) as = eraseAttribute k as"

fun attr_map_op :: "attr_request \<Rightarrow> (bytes, item_attribute) store_op" where
  "attr_map_op (SetAttr k v) = Assign k (any_attr v)"
| "attr_map_op (EraseAttr k) = Erase k"

lemma setAttribute_any_attr: "setAttribute k v as = setAttribute k (attr_get (any_attr v)) as"
proof -
  have "any_attr (attr_get (any_attr v)) = any_attr v"
    by (cases v) (simp_all add: any_attr_def attr_clear_def)
  then show ?thesis by (simp add: setAttribute_def Let_def attr_set_any_indep)
qed

lemma attr_request_store: "attr_request_step r as = attrs.store_op_step (attr_map_op r) as"
  by (cases r) (simp_all add: setAttribute_any_attr[symmetric])

lemma attr_requests_store:
  "fold attr_request_step rs as = fold attrs.store_op_step (map attr_map_op rs) as"
  by (induction rs arbitrary: as) (simp_all add: attr_request_store)

text \<open>
  C33. Any sequence of attribute assignments (of every type, an unsupported value counts as empty)
  and erasures on an item without attributes leaves exactly the finite map of the last assignments:
  every typed getter answers from it, and the entries stay in strict key order.
\<close>

theorem attributes_are_a_map:
  "findAttribute key (fold attr_request_step rs None) = fold map_op (map attr_map_op rs) Map.empty key
   \<and> getStringAttribute key (fold attr_request_step rs None) =
       (case fold map_op (map attr_map_op rs) Map.empty key of Some (AttrString s) \<Rightarrow> Some s | _ \<Rightarrow> None)
   \<and> getIntegerAttribute key (fold attr_request_step rs None) =
       (case fold map_op (map attr_map_op rs) Map.empty key of Some (AttrInteger i) \<Rightarrow> Some i | _ \<Rightarrow> None)
   \<and> getBooleanAttribute key (fold attr_request_step rs None) =
       (case fold map_op (map attr_map_op rs) Map.empty key of Some (AttrBoolean b) \<Rightarrow> Some b | _ \<Rightarrow> None)
   \<and> attrs_valid (fold attr_request_step rs None)"
proof -
  have e: "(\<lambda>k. findAttribute k None) = Map.empty" by (simp add: findAttribute_def)
  have v: "attrs_valid None" by (simp add: inv_simps)
  have f: "findAttribute key (fold attr_request_step rs None) =
      fold map_op (map attr_map_op rs) Map.empty key"
    and w: "attrs_valid (fold attr_request_step rs None)"
    using attrs.store_runs[OF v, of "map attr_map_op rs"] e
    by (simp_all add: attr_requests_store fun_eq_iff)
  show ?thesis
    using w by (auto simp: getStringAttribute_def getIntegerAttribute_def getBooleanAttribute_def f
        split: option.split item_attribute.split)
qed

section \<open>The round trip\<close>

fun attr_bytes :: "item_attribute \<Rightarrow> bytes" where
  "attr_bytes AttrNone = [0]"
| "attr_bytes (AttrString s) = 1 # enc_long_string s"
| "attr_bytes (AttrInteger i) = 2 # le_bytes32 i"
| "attr_bytes (AttrFloat f) = 3 # le_bytes32 f"
| "attr_bytes (AttrBoolean b) = [4, if b then 1 else 0]"

text \<open>What the format can hold: keys and strings of at most 65,535 bytes.\<close>

fun short_entry :: "bytes \<times> item_attribute \<Rightarrow> bool" where
  "short_entry (k, a) \<longleftrightarrow> length k < 65536 \<and> (case a of AttrString s \<Rightarrow> length s < 65536 | _ \<Rightarrow> True)"

definition entry_bytes :: "bytes \<times> item_attribute \<Rightarrow> bytes" where
  "entry_bytes e = enc_string (fst e) @ attr_bytes (snd e)"

lemma attr_bytes_length: "short_entry (k, a) \<Longrightarrow> length (attr_bytes a) \<le> 65540"
  by (cases a) auto

lemma entry_bytes_length: "short_entry e \<Longrightarrow> length (entry_bytes e) \<le> 131077"
  using attr_bytes_length[of "fst e" "snd e"] by (cases e) (auto simp: entry_bytes_def)

lemma attr_serialize_appends:
  assumes "short_entry (k, a)" and "wf_write w" and "unat (w_bufferSize w) + 2 ^ 18 < 2 ^ 32"
  shows "appends 93 (attr_bytes a) w (attr_serialize a w)"
proof -
  have b: "appends 31 [attr_type a] w (addByte (attr_type a) w)"
    unfolding addByte_def by (rule appends_addStruct) (use assms in simp_all)
  define rest where "rest = tl (attr_bytes a)"
  have r: "attr_bytes a = [attr_type a] @ rest" by (cases a) (simp_all add: rest_def)
  have nil: "appends 62 [] w' (Some w')" if "wf_write w'" for w' using that by (simp add: appends_def)
  have "appends (31 + 62) ([attr_type a] @ rest) w (attr_serialize a w)"
    unfolding attr_serialize_def
  proof (rule appends_bind[OF b])
    fix w'
    assume w': "wf_write w'" "unat (w_bufferSize w') \<le> unat (w_bufferSize w) + length [attr_type a] + 31"
    then have u: "unat (w_bufferSize w') + 2 ^ 17 < 2 ^ 32" using assms(3) by simp
    show "appends 62 rest w' (case a of AttrNone \<Rightarrow> Some w' | AttrString s \<Rightarrow> addLongString s w'
        | AttrInteger i \<Rightarrow> addLong i w' | AttrFloat f \<Rightarrow> addLong f w'
        | AttrBoolean b \<Rightarrow> addByte (if b then 1 else 0) w')"
      using assms(1) w'(1) u nil appends_short_strings[OF w'(1) u]
      by (cases a) (auto simp: rest_def addLong_def addByte_def appends_mono[OF appends_addStruct])
  qed
  then show ?thesis by (simp add: r)
qed

lemma entry_appends:
  assumes "short_entry (k, a)" and "wf_write w" and "unat (w_bufferSize w) + 2 ^ 19 < 2 ^ 32"
    and rest: "\<And>w'. wf_write w' \<Longrightarrow> unat (w_bufferSize w') \<le> unat (w_bufferSize w) + length (entry_bytes (k, a)) + 155 \<Longrightarrow>
      appends l b w' (f w')"
  shows "appends (155 + l) (entry_bytes (k, a) @ b) w
    (Option.bind (if length k > 0xFFFF then addString (take 0xFFFF k) w else addString k w)
       (\<lambda>w. Option.bind (attr_serialize a w) f))"
proof -
  have k: "length k < 65536" using assms(1) by simp
  have s: "appends 62 (enc_string k) w (addString k w)"
    using appends_short_strings[of w k] assms k by simp
  have "appends (62 + (93 + l)) (enc_string k @ (attr_bytes a @ b)) w
      (Option.bind (addString k w) (\<lambda>w. Option.bind (attr_serialize a w) f))"
  proof (rule appends_bind[OF s])
    fix w1
    assume w1: "wf_write w1" "unat (w_bufferSize w1) \<le> unat (w_bufferSize w) + length (enc_string k) + 62"
    then have u: "unat (w_bufferSize w1) + 2 ^ 18 < 2 ^ 32" using assms(3) k by simp
    show "appends (93 + l) (attr_bytes a @ b) w1 (Option.bind (attr_serialize a w1) f)"
      by (rule appends_bind[OF attr_serialize_appends[OF assms(1) w1(1) u]], rule rest)
        (use w1 in \<open>auto simp: entry_bytes_def\<close>)
  qed
  then show ?thesis using k by (simp add: entry_bytes_def add.commute add.left_commute)
qed

lemma entries_appends:
  "\<forall>e\<in>set m. short_entry e \<Longrightarrow> wf_write w \<Longrightarrow>
    unat (w_bufferSize w) + 131232 * length m + 2 ^ 19 < 2 ^ 32 \<Longrightarrow>
    appends (155 * length m) (concat (map entry_bytes m)) w (serialize_entries m w)"
proof (induction m arbitrary: w)
  case Nil
  then show ?case by (simp add: appends_def)
next
  case (Cons e m)
  obtain k a where e: "e = (k, a)" by fastforce
  have sh: "short_entry (k, a)" using Cons.prems(1) e by simp
  have "appends (155 + 155 * length m) (entry_bytes (k, a) @ concat (map entry_bytes m)) w
      (Option.bind (if length k > 0xFFFF then addString (take 0xFFFF k) w else addString k w)
         (\<lambda>w. Option.bind (attr_serialize a w) (serialize_entries m)))"
  proof (rule entry_appends[OF sh Cons.prems(2)])
    show "unat (w_bufferSize w) + 2 ^ 19 < 2 ^ 32" using Cons.prems(3) by simp
    fix w'
    assume "wf_write w'" "unat (w_bufferSize w') \<le> unat (w_bufferSize w) + length (entry_bytes (k, a)) + 155"
    then show "appends (155 * length m) (concat (map entry_bytes m)) w' (serialize_entries m w')"
      using Cons.IH[of w'] Cons.prems entry_bytes_length[OF sh] by simp
  qed
  then show ?case by (simp add: e)
qed

lemma attr_unserialize_bytes:
  assumes "short_entry (k, a)" and "length r + 65560 < 2 ^ 31"
  shows "attr_unserialize (attr_bytes a @ r) = Some (True, a, r)"
proof (cases a)
  case (AttrString s)
  then have "length s < 65536" using assms(1) by simp
  then show ?thesis
    using AttrString assms getByte_append[of "enc_long_string s @ r" 1] getLongString_append[of s r]
    by (simp add: attr_unserialize_def)
qed (use assms getByte_append[of r] getLong_append[of r] getByte_append[of "le_bytes32 i @ r" for i]
      getByte_append[of "[b] @ r" for b] getFloat_getLong
    in \<open>simp_all add: attr_unserialize_def\<close>)

lemma entries_length: "\<forall>e\<in>set m. short_entry e \<Longrightarrow> length (concat (map entry_bytes m)) \<le> 131077 * length m"
proof (induction m)
  case (Cons e m)
  then show ?case using entry_bytes_length[of e] by simp
qed simp

lemma unserialize_entries_bytes:
  "\<forall>e\<in>set m. short_entry e \<Longrightarrow> om_valid (m0 @ m) \<Longrightarrow>
    131077 * length m + 131120 + length r < 2 ^ 31 \<Longrightarrow>
    unserialize_entries (length m) m0 (concat (map entry_bytes m) @ r) = Some (True, m0 @ m, r)"
proof (induction m arbitrary: m0)
  case Nil
  then show ?case by simp
next
  case (Cons e m)
  obtain k a where e: "e = (k, a)" by fastforce
  let ?r = "concat (map entry_bytes m) @ r"
  have sh: "short_entry (k, a)" and k: "length k < 65536" using Cons.prems(1) e by auto
  have l: "length ?r + 131120 < 2 ^ 31"
    using entries_length[of m] Cons.prems(1,3) by simp
  have "stream_getString (enc_string k @ attr_bytes a @ ?r) = (Some k, attr_bytes a @ ?r)"
    by (rule getString_append) (use k l attr_bytes_length[OF sh] in simp_all)
  moreover have "attr_unserialize (attr_bytes a @ ?r) = Some (True, a, ?r)"
    by (rule attr_unserialize_bytes[OF sh]) (use l in simp)
  moreover have "om_assign k a m0 = m0 @ [(k, a)]"
    by (rule om_assign_last) (use Cons.prems(2) e in \<open>auto simp: sorted_wrt_append\<close>)
  moreover have "unserialize_entries (length m) (m0 @ [(k, a)]) ?r = Some (True, (m0 @ [(k, a)]) @ m, r)"
    by (rule Cons.IH) (use Cons.prems e in simp_all)
  ultimately show ?case by (simp add: e entry_bytes_def[of "(k, a)"])
qed

text \<open>
  C3. Writing the attributes of an item and reading them back into an item without attributes gives
  the same attributes and reads exactly what was written, for up to 16,000 attributes whose keys
  and strings have at most 65,535 bytes.
\<close>

theorem attributes_roundtrip:
  assumes "om_valid m" and "\<forall>e\<in>set m. short_entry e" and "length m \<le> 16000"
  shows "\<exists>w. serializeMap m new_write_stream = Some w
    \<and> unserializeMap None (getStream w) = Some (True, Some m, [])"
proof -
  let ?n = "of_nat (length m) :: u16"
  have n: "min 65535 (length m) = length m" "take 65536 m = m" "unat ?n = length m"
    using assms(3) by (simp_all add: unat_of_nat take_bit_eq_mod)
  have c: "unat (w_bufferSize new_write_stream) = 32" by (simp add: new_write_stream_def)
  have "appends (31 + 155 * length m) (le_bytes16 ?n @ concat (map entry_bytes m)) new_write_stream
      (Option.bind (addStruct (le_bytes16 ?n) new_write_stream) (serialize_entries m))"
  proof (rule appends_bind)
    show "appends 31 (le_bytes16 ?n) new_write_stream (addStruct (le_bytes16 ?n) new_write_stream)"
      by (rule appends_addStruct) (simp_all add: c)
    fix w'
    assume "wf_write w'"
      "unat (w_bufferSize w') \<le> unat (w_bufferSize new_write_stream) + length (le_bytes16 ?n) + 31"
    then show "appends (155 * length m) (concat (map entry_bytes m)) w' (serialize_entries m w')"
      by (intro entries_appends) (use assms(2,3) c in simp_all)
  qed
  then obtain w where w: "serializeMap m new_write_stream = Some w"
    "getStream w = le_bytes16 ?n @ concat (map entry_bytes m)"
    by (auto simp: appends_def serializeMap_def addShort_def n(1,2))
  have l: "length (concat (map entry_bytes m)) \<le> 131077 * length m" using entries_length[OF assms(2)] .
  have "getShort (le_bytes16 ?n @ concat (map entry_bytes m)) = (Some ?n, concat (map entry_bytes m))"
    by (rule getShort_append) (use l assms(3) in simp)
  moreover have "unserialize_entries (length m) [] (concat (map entry_bytes m)) = Some (True, m, [])"
    using unserialize_entries_bytes[of m "[]" "[]"] assms by simp
  ultimately show ?thesis using w by (simp add: unserializeMap_def n(3) createAttributes_def)
qed

theorem attributes_roundtrip_witness:
  "\<exists>w. serializeMap [([97], AttrInteger 5), ([97, 98], AttrString [1, 2])] new_write_stream = Some w
    \<and> unserializeMap None (getStream w) =
      Some (True, Some [([97], AttrInteger 5), ([97, 98], AttrString [1, 2])], [])"
  using attributes_roundtrip[of "[([97], AttrInteger 5), ([97, 98], AttrString [1, 2])]"]
  by simp

end
