(* ===== verification/WaitList.thy ===== *)
theory WaitList
  imports Tools
begin

text \<open>
  \<^verbatim>\<open>waitlist.h\<close> / \<^verbatim>\<open>waitlist.cpp\<close>: the queue of players who wait for a free place on a full server.
  The player, the number of players online, the configured maximum and the clock (milliseconds) are
  arguments.
\<close>

section \<open>The queue\<close>

record wait_entry =
  w_ip :: u32
  w_name :: string
  w_premium :: bool
  w_timeout :: int

text \<open>What the queue asks of a player.\<close>

record wait_player =
  p_ip :: u32
  p_name :: string
  p_premium :: bool
  p_alwaysLogin :: bool
  p_accountManager :: bool

type_synonym wait_list = "wait_entry list"

definition getTime :: "nat \<Rightarrow> int" where
  "getTime slot =
     (if slot < 5 then 5 else if slot < 10 then 10 else if slot < 20 then 20
      else if slot < 50 then 60 else 120)"

definition getTimeout :: "nat \<Rightarrow> int" where
  "getTimeout slot = getTime slot + 15"

definition same_player :: "wait_player \<Rightarrow> wait_entry \<Rightarrow> bool" where
  "same_player p w \<longleftrightarrow> w_ip w = p_ip p \<and> asLowerCaseString (w_name w) = asLowerCaseString (p_name p)"

text \<open>\<open>find\<close>: the slot of the player, counted from 1; \<^const>\<open>None\<close> is the end of the list.\<close>

fun find_slot :: "wait_player \<Rightarrow> nat \<Rightarrow> wait_list \<Rightarrow> nat option" where
  "find_slot p slot [] = None"
| "find_slot p slot (w # ws) = (if same_player p w then Some slot else find_slot p (slot + 1) ws)"

definition getSlot :: "wait_player \<Rightarrow> wait_list \<Rightarrow> int" where
  "getSlot p ws = (case find_slot p 1 ws of None \<Rightarrow> -1 | Some slot \<Rightarrow> int slot)"

definition cleanup :: "int \<Rightarrow> wait_list \<Rightarrow> wait_list" where
  "cleanup now ws = filter (\<lambda>w. \<not> w_timeout w - now \<le> 0) ws"

text \<open>The place of a premium newcomer: before the first entry that is not premium.\<close>

fun premium_slot :: "wait_list \<Rightarrow> nat" where
  "premium_slot [] = 1"
| "premium_slot (w # ws) = (if \<not> w_premium w then 1 else premium_slot ws + 1)"

definition exempt :: "bool \<Rightarrow> nat \<Rightarrow> nat \<Rightarrow> wait_player \<Rightarrow> wait_list \<Rightarrow> bool" where
  "exempt premiumSkip online mx p ws \<longleftrightarrow>
     p_alwaysLogin p \<or> p_accountManager p \<or> (ws = [] \<and> online < mx) \<or> (premiumSkip \<and> p_premium p)"

definition login ::
  "bool \<Rightarrow> nat \<Rightarrow> nat \<Rightarrow> int \<Rightarrow> wait_player \<Rightarrow> wait_list \<Rightarrow> bool \<times> wait_list" where
  "login premiumSkip online mx now p ws =
     (if exempt premiumSkip online mx p ws then (True, ws)
      else let ws = cleanup now ws in
        case find_slot p 1 ws of
          Some slot \<Rightarrow>
            if online + slot > mx
            then (False, ws[slot - 1 := (ws ! (slot - 1))\<lparr>w_timeout := now + getTimeout slot * 1000\<rparr>])
            else (True, take (slot - 1) ws @ drop slot ws)
        | None \<Rightarrow>
            let slot = (if p_premium p then premium_slot ws else length ws + 1);
                w = \<lparr>w_ip = p_ip p, w_name = p_name p, w_premium = p_premium p,
                     w_timeout = now + getTimeout slot * 1000\<rparr>
            in (False, take (slot - 1) ws @ [w] @ drop (slot - 1) ws))"

section \<open>The order of the queue\<close>

definition wait_key :: "wait_entry \<Rightarrow> u32 \<times> string" where
  "wait_key w = (w_ip w, asLowerCaseString (w_name w))"

text \<open>Premium players stand before the others, and nobody stands in the queue twice.\<close>

definition wait_inv :: "wait_list \<Rightarrow> bool" where
  [inv_simps]: "wait_inv ws \<longleftrightarrow> sorted_wrt (\<lambda>a b. w_premium b \<longrightarrow> w_premium a) ws
     \<and> distinct (map wait_key ws)"

lemma find_slot_Some:
  "find_slot p k ws = Some slot \<Longrightarrow> k \<le> slot \<and> slot - k < length ws \<and> same_player p (ws ! (slot - k))
    \<and> (\<forall>i < slot - k. \<not> same_player p (ws ! i))"
proof (induction ws arbitrary: k)
  case (Cons w ws)
  show ?case
  proof (cases "same_player p w")
    case False
    then have "find_slot p (k + 1) ws = Some slot" using Cons.prems by simp
    note i = Cons.IH[OF this]
    then have "slot - k = Suc (slot - (k + 1))" by linarith
    then show ?thesis using i False by (auto simp: nth_Cons' less_Suc_eq_0_disj)
  qed (use Cons.prems in auto)
qed simp

lemma find_slot_None: "find_slot p k ws = None \<longleftrightarrow> (\<forall>w\<in>set ws. \<not> same_player p w)"
  by (induction ws arbitrary: k) auto

lemma cleanup_inv [keeps_inv]: "wait_inv ws \<Longrightarrow> wait_inv (cleanup now ws)"
  by (auto simp: inv_simps cleanup_def sorted_wrt_filter distinct_map_filter)

lemma premium_slot_takeWhile: "premium_slot ws = length (takeWhile w_premium ws) + 1"
  by (induction ws) auto

lemma premium_slot_split:
  "take (premium_slot ws - 1) ws = takeWhile w_premium ws"
  "drop (premium_slot ws - 1) ws = dropWhile w_premium ws"
  by (simp_all add: premium_slot_takeWhile takeWhile_eq_take[symmetric] dropWhile_eq_drop[symmetric])

abbreviation premium_first :: "wait_list \<Rightarrow> bool" where
  "premium_first \<equiv> sorted_wrt (\<lambda>a b. w_premium b \<longrightarrow> w_premium a)"

lemma premium_first_rest: "premium_first ws \<Longrightarrow> \<forall>w\<in>set (dropWhile w_premium ws). \<not> w_premium w"
proof (induction ws)
  case (Cons a ws)
  show ?case
  proof (cases "w_premium a")
    case True
    have "premium_first ws" using Cons.prems unfolding sorted_wrt.simps by (rule conjunct2)
    note rest = Cons.IH[OF this]
    have "dropWhile w_premium (a # ws) = dropWhile w_premium ws" using True by simp
    then show ?thesis using rest by presburger
  next
    case False
    have "\<forall>w\<in>set ws. w_premium w \<longrightarrow> w_premium a"
      using Cons.prems unfolding sorted_wrt.simps by (rule conjunct1)
    then have "\<forall>w\<in>set ws. \<not> w_premium w" using False by blast
    then show ?thesis using False by simp
  qed
qed simp

lemma wait_inv_insert:
  assumes "wait_inv (a @ b)" and "wait_key w \<notin> set (map wait_key (a @ b))"
    and "w_premium w \<Longrightarrow> \<forall>x\<in>set a. w_premium x" and "\<not> w_premium w \<Longrightarrow> \<forall>x\<in>set b. \<not> w_premium x"
  shows "wait_inv (a @ [w] @ b)"
proof -
  have "premium_first (a @ [w] @ b)"
  proof (cases "w_premium w")
    case True
    then show ?thesis using assms(1) assms(3)[OF True] by (simp add: inv_simps sorted_wrt_append)
  next
    case False
    then show ?thesis using assms(1) assms(4)[OF False] by (simp add: inv_simps sorted_wrt_append)
  qed
  moreover have "distinct (map wait_key (a @ [w] @ b))"
    using assms(1,2) by (auto simp: inv_simps)
  ultimately show ?thesis by (simp add: inv_simps)
qed

lemma wait_inv_remove:
  assumes "wait_inv ws"
  shows "wait_inv (take k ws @ drop (Suc k) ws)"
proof (cases "k < length ws")
  case True
  then have e: "ws = take k ws @ ws ! k # drop (Suc k) ws" by (rule id_take_nth_drop)
  have "premium_first (take k ws @ ws ! k # drop (Suc k) ws)"
    "distinct (map wait_key (take k ws @ ws ! k # drop (Suc k) ws))"
    using assms e by (simp_all add: inv_simps)
  then show ?thesis by (simp add: inv_simps sorted_wrt_append)
qed (use assms in simp)

lemma wait_inv_update:
  assumes "wait_inv ws" and "k < length ws" and "wait_key w = wait_key (ws ! k)"
    and "w_premium w = w_premium (ws ! k)"
  shows "wait_inv (ws[k := w])"
proof -
  have "map wait_key (ws[k := w]) = map wait_key ws"
    using assms(2,3) by (simp add: map_update list_update_same_conv)
  moreover have "sorted_wrt (\<lambda>a b. w_premium b \<longrightarrow> w_premium a) (ws[k := w])"
    using assms by (auto simp: sorted_wrt_iff_nth_less nth_list_update inv_simps)
  ultimately show ?thesis using assms(1) by (simp add: inv_simps)
qed

lemma same_player_key: "same_player p w \<longleftrightarrow> wait_key w = (p_ip p, asLowerCaseString (p_name p))"
  by (auto simp: same_player_def wait_key_def)

lemma login_inv [keeps_inv]:
  assumes "wait_inv ws"
  shows "wait_inv (snd (login ps online mx now p ws))"
proof (cases "exempt ps online mx p ws")
  case False
  let ?c = "cleanup now ws"
  have c: "wait_inv ?c" using assms by (rule cleanup_inv)
  show ?thesis
  proof (cases "find_slot p 1 ?c")
    case (Some slot)
    note f = find_slot_Some[OF Some]
    have "wait_inv (?c[slot - 1 := (?c ! (slot - 1))\<lparr>w_timeout := t\<rparr>])" for t
      by (rule wait_inv_update[OF c]) (use f in \<open>auto simp: wait_key_def\<close>)
    moreover have "wait_inv (take (slot - 1) ?c @ drop slot ?c)"
      using wait_inv_remove[OF c, of "slot - 1"] f by simp
    ultimately show ?thesis using False Some by (simp add: login_def Let_def)
  next
    case None
    define slot where "slot = (if p_premium p then premium_slot ?c else length ?c + 1)"
    let ?w = "\<lparr>w_ip = p_ip p, w_name = p_name p, w_premium = p_premium p,
      w_timeout = now + getTimeout slot * 1000\<rparr>"
    have "wait_inv (take (slot - 1) ?c @ [?w] @ drop (slot - 1) ?c)"
    proof (rule wait_inv_insert)
      show "wait_inv (take (slot - 1) ?c @ drop (slot - 1) ?c)" using c by simp
      have "wait_key ?w \<notin> set (map wait_key ?c)"
        using None by (auto simp: find_slot_None same_player_key wait_key_def)
      then show "wait_key ?w \<notin> set (map wait_key (take (slot - 1) ?c @ drop (slot - 1) ?c))"
        by (simp only: append_take_drop_id not_False_eq_True)
      have pr: "premium_first ?c" using c by (simp add: inv_simps)
      show "\<forall>x\<in>set (take (slot - 1) ?c). w_premium x" if "w_premium ?w"
        using that premium_slot_split(1)[of ?c] by (auto simp: slot_def dest: set_takeWhileD)
      show "\<forall>x\<in>set (drop (slot - 1) ?c). \<not> w_premium x" if "\<not> w_premium ?w"
        using that premium_first_rest[OF pr] by (simp add: slot_def)
    qed
    then show ?thesis using False None by (simp add: login_def Let_def slot_def)
  qed
qed (use assms in \<open>simp add: login_def\<close>)

section \<open>Properties\<close>

datatype wait_request = Login bool nat nat int wait_player

fun wait_step :: "wait_request \<Rightarrow> wait_list \<Rightarrow> wait_list" where
  "wait_step (Login premiumSkip online mx now p) ws = snd (login premiumSkip online mx now p ws)"

interpretation waiting: guarded_machine wait_step wait_inv
proof unfold_locales
  fix ws r
  assume "wait_inv ws"
  then show "wait_inv (wait_step r ws)" by (cases r) (simp add: keeps_inv)
qed

text \<open>
  C36. Whatever the sequence of login attempts, the queue keeps its order: premium players stand
  before the others and no player (address and name, regardless of case) is queued twice.
\<close>

theorem wait_queue_order:
  "wait_inv (fold wait_step rs [])"
  by (rule waiting.run_inv) (simp only: inv_simps, simp)

lemma find_slot_unique:
  assumes "k < length ws" and "same_player p (ws ! k)" and "distinct (map wait_key ws)"
  shows "find_slot p 1 ws = Some (k + 1)"
proof (cases "find_slot p 1 ws")
  case None
  then show ?thesis using assms(1,2) by (auto simp: find_slot_None)
next
  case (Some slot)
  note f = find_slot_Some[OF Some]
  then have "wait_key (ws ! (slot - 1)) = wait_key (ws ! k)" using assms(2) by (simp add: same_player_key)
  then have "slot - 1 = k" using assms(1,3) f nth_eq_iff_index_eq[of "map wait_key ws" "slot - 1" k] by simp
  then show ?thesis using Some f by auto
qed

text \<open>
  A queued player without exemption who asks again is let in exactly when the players online
  and those up to and with his place in the queue (after the expired entries are gone) fit on the
  server; he then leaves the queue, and otherwise he keeps his place with a new time.
\<close>

theorem wait_login_turn:
  assumes "\<not> exempt premiumSkip online mx p ws" and "wait_inv ws"
    and "k < length (cleanup now ws)" and "same_player p (cleanup now ws ! k)"
  shows "(fst (login premiumSkip online mx now p ws) \<longleftrightarrow> online + (k + 1) \<le> mx)
    \<and> map wait_key (snd (login premiumSkip online mx now p ws)) =
      (if online + (k + 1) \<le> mx then map wait_key (take k (cleanup now ws) @ drop (k + 1) (cleanup now ws))
       else map wait_key (cleanup now ws))"
proof -
  have "distinct (map wait_key (cleanup now ws))"
    using cleanup_inv[OF assms(2)] by (simp only: inv_simps)
  then have f: "find_slot p 1 (cleanup now ws) = Some (k + 1)"
    using find_slot_unique[OF assms(3,4)] by blast
  have "fst (login premiumSkip online mx now p ws) \<longleftrightarrow> online + (k + 1) \<le> mx"
    using assms(1) f by (auto simp: login_def Let_def)
  moreover have "wait_key (w\<lparr>w_timeout := t\<rparr>) = wait_key w" for w t by (simp add: wait_key_def)
  then have "map wait_key (snd (login premiumSkip online mx now p ws)) =
      (if online + (k + 1) \<le> mx then map wait_key (take k (cleanup now ws) @ drop (k + 1) (cleanup now ws))
       else map wait_key (cleanup now ws))"
    using assms(1,3) f by (simp add: login_def Let_def map_update list_update_same_conv)
  ultimately show ?thesis by blast
qed

definition waiting_pair :: wait_list where
  "waiting_pair = [\<lparr>w_ip = 1, w_name = ''Ann'', w_premium = True, w_timeout = 1000\<rparr>,
     \<lparr>w_ip = 2, w_name = ''Bob'', w_premium = False, w_timeout = 1000\<rparr>]"

theorem wait_login_turn_witness:
  "\<not> fst (login False 99 100 500 \<lparr>p_ip = 2, p_name = ''bob'', p_premium = False,
      p_alwaysLogin = False, p_accountManager = False\<rparr> waiting_pair)"
proof -
  have c: "cleanup 500 waiting_pair = waiting_pair" by (simp add: cleanup_def waiting_pair_def)
  have "same_player \<lparr>p_ip = 2, p_name = ''bob'', p_premium = False, p_alwaysLogin = False,
      p_accountManager = False\<rparr> (waiting_pair ! 1)"
    by code_simp
  then show ?thesis
    using wait_login_turn[of False 99 100 "\<lparr>p_ip = 2, p_name = ''bob'', p_premium = False,
        p_alwaysLogin = False, p_accountManager = False\<rparr>" waiting_pair 1 500]
    by (simp add: c exempt_def) (simp add: waiting_pair_def inv_simps wait_key_def)
qed

end
