(* ===== verification/Tasks.thy ===== *)
theory Tasks
  imports Prelude "HOL-Library.Multiset"
begin

text \<open>
  \<^verbatim>\<open>dispatcher.h\<close> / \<^verbatim>\<open>dispatcher.cpp\<close> and \<^verbatim>\<open>scheduler.h\<close> / \<^verbatim>\<open>scheduler.cpp\<close>: the queue of tasks that
  the game thread executes one after the other, and the timed events that end up in it. A closure is
  a number; what running it posts to the dispatcher is a parameter. Times are milliseconds. One
  pass of a \<open>threadMain\<close> loop is one step; the locks make every other operation one step too.
\<close>

section \<open>Tasks and the dispatcher\<close>

datatype thread_state = STATE_RUNNING | STATE_CLOSING | STATE_TERMINATED

text \<open>The expiration 0 is \<open>SYSTEM_TIME_ZERO\<close>: the task does not expire.\<close>

record task =
  m_expiration :: int
  m_f :: nat
  m_eventId :: u32

definition createTask :: "nat \<Rightarrow> task" where
  "createTask f = \<lparr>m_expiration = 0, m_f = f, m_eventId = 0\<rparr>"

definition createTask_expiring :: "int \<Rightarrow> u32 \<Rightarrow> nat \<Rightarrow> task" where
  "createTask_expiring now ms f = \<lparr>m_expiration = now + uint ms, m_f = f, m_eventId = 0\<rparr>"

definition unsetExpiration :: "task \<Rightarrow> task" where
  "unsetExpiration t = t\<lparr>m_expiration := 0\<rparr>"

definition hasExpired :: "int \<Rightarrow> task \<Rightarrow> bool" where
  "hasExpired now t = (if m_expiration t = 0 then False else m_expiration t < now)"

text \<open>\<open>d_ran\<close> is the closures executed so far, \<open>d_signals\<close> the notifications sent.\<close>

record dispatcher =
  d_threadState :: thread_state
  d_taskList :: "task list"
  d_ran :: "nat list"
  d_signals :: nat

definition new_dispatcher :: dispatcher where
  "new_dispatcher = \<lparr>d_threadState = STATE_RUNNING, d_taskList = [], d_ran = [], d_signals = 0\<rparr>"

definition addTask :: "task \<Rightarrow> bool \<Rightarrow> dispatcher \<Rightarrow> dispatcher" where
  "addTask t front d =
     (if d_threadState d = STATE_RUNNING then
        let signal = d_taskList d = [];
            d = d\<lparr>d_taskList := (if front then t # d_taskList d else d_taskList d @ [t])\<rparr>
        in if signal then d\<lparr>d_signals := d_signals d + 1\<rparr> else d
      else d)"

text \<open>What a closure posts: tasks, at the back or at the front.\<close>

type_synonym posts = "nat \<Rightarrow> (task \<times> bool) list"

definition run_task :: "posts \<Rightarrow> task \<Rightarrow> dispatcher \<Rightarrow> dispatcher" where
  "run_task posts t d =
     fold (\<lambda>(t, front). addTask t front) (posts (m_f t)) (d\<lparr>d_ran := d_ran d @ [m_f t]\<rparr>)"

text \<open>One pass of \<open>threadMain\<close>; on an empty list it only waits.\<close>

definition dispatch :: "posts \<Rightarrow> int \<Rightarrow> dispatcher \<Rightarrow> dispatcher" where
  "dispatch posts now d =
     (if d_threadState d = STATE_TERMINATED then d
      else case d_taskList d of
        [] \<Rightarrow> d
      | t # ts \<Rightarrow>
          let d = d\<lparr>d_taskList := ts\<rparr> in
          if \<not> hasExpired now t then run_task posts t d else d)"

definition dispatcher_stop :: "dispatcher \<Rightarrow> dispatcher" where
  "dispatcher_stop d = d\<lparr>d_threadState := STATE_CLOSING\<rparr>"

text \<open>
  \<open>flush\<close> runs every task, expired or not, under the lock of \<open>shutdown\<close>; a task that posts waits for
  that lock in its own thread: \<^const>\<open>None\<close>.
\<close>

fun flush :: "posts \<Rightarrow> task list \<Rightarrow> dispatcher \<Rightarrow> dispatcher option" where
  "flush posts [] d = Some (d\<lparr>d_taskList := []\<rparr>)"
| "flush posts (t # ts) d =
     (if posts (m_f t) \<noteq> [] then None
      else flush posts ts (d\<lparr>d_ran := d_ran d @ [m_f t]\<rparr>))"

definition dispatcher_shutdown :: "posts \<Rightarrow> dispatcher \<Rightarrow> dispatcher option" where
  "dispatcher_shutdown posts d = flush posts (d_taskList d) (d\<lparr>d_threadState := STATE_TERMINATED\<rparr>)"

section \<open>The scheduler\<close>

definition SCHEDULER_MINTICKS :: u32 where
  "SCHEDULER_MINTICKS = 50"

definition createSchedulerTask :: "int \<Rightarrow> u32 \<Rightarrow> nat \<Rightarrow> task" where
  "createSchedulerTask now delay f =
     (let delay = (if delay < SCHEDULER_MINTICKS then SCHEDULER_MINTICKS else delay)
      in \<lparr>m_expiration = now + uint delay, m_f = f, m_eventId = 0\<rparr>)"

text \<open>
  The priority queue is the list of its tasks; \<open>top\<close> is the first with the least expiration.
  \<open>s_fired\<close> is the tasks handed to the dispatcher, in order.
\<close>

record scheduler =
  s_threadState :: thread_state
  m_lastEvent :: u32
  m_eventIds :: "u32 list"
  m_eventList :: "task list"
  s_fired :: "task list"
  s_signals :: nat

definition new_scheduler :: scheduler where
  "new_scheduler = \<lparr>s_threadState = STATE_RUNNING, m_lastEvent = 0, m_eventIds = [],
     m_eventList = [], s_fired = [], s_signals = 0\<rparr>"

fun top :: "task list \<Rightarrow> task option" where
  "top [] = None"
| "top (t # ts) = (case top ts of
      None \<Rightarrow> Some t
    | Some u \<Rightarrow> if m_expiration u < m_expiration t then Some u else Some t)"

definition addEvent :: "task \<Rightarrow> scheduler \<Rightarrow> u32 \<times> scheduler" where
  "addEvent t s =
     (if s_threadState s = STATE_RUNNING then
        let (t, s) =
              (if m_eventId t = 0 then
                 let n = (if m_lastEvent s \<ge> 0xFFFFFFFF then 0 else m_lastEvent s) + 1
                 in (t\<lparr>m_eventId := n\<rparr>, s\<lparr>m_lastEvent := n\<rparr>)
               else (t, s));
            s = s\<lparr>m_eventIds := List.insert (m_eventId t) (m_eventIds s),
                  m_eventList := m_eventList s @ [t]\<rparr>;
            s = (if top (m_eventList s) = Some t then s\<lparr>s_signals := s_signals s + 1\<rparr> else s)
        in (m_eventId t, s)
      else (m_eventId t, s))"

definition stopEvent :: "u32 \<Rightarrow> scheduler \<Rightarrow> bool \<times> scheduler" where
  "stopEvent eventId s =
     (if eventId = 0 then (False, s)
      else if eventId \<in> set (m_eventIds s)
      then (True, s\<lparr>m_eventIds := remove1 eventId (m_eventIds s)\<rparr>)
      else (False, s))"

text \<open>
  One pass of \<open>threadMain\<close> at a time: nothing before the expiration of the top task (a signal only
  restarts the wait); then the task is taken off, and fired unless its event was stopped.
\<close>

definition schedule :: "int \<Rightarrow> scheduler \<Rightarrow> scheduler" where
  "schedule now s =
     (if s_threadState s = STATE_TERMINATED then s
      else case top (m_eventList s) of
        None \<Rightarrow> s
      | Some t \<Rightarrow>
          if now < m_expiration t then s
          else let s = s\<lparr>m_eventList := remove1 t (m_eventList s)\<rparr> in
            if m_eventId t \<in> set (m_eventIds s)
            then s\<lparr>m_eventIds := remove1 (m_eventId t) (m_eventIds s),
                   s_fired := s_fired s @ [unsetExpiration t]\<rparr>
            else s)"

definition scheduler_stop :: "scheduler \<Rightarrow> scheduler" where
  "scheduler_stop s = s\<lparr>s_threadState := STATE_CLOSING\<rparr>"

definition scheduler_shutdown :: "scheduler \<Rightarrow> scheduler" where
  "scheduler_shutdown s = s\<lparr>s_threadState := STATE_TERMINATED, m_eventList := [], m_eventIds := []\<rparr>"

section \<open>The dispatcher keeps the order\<close>

lemma addTask_back:
  "\<exists>new. d_taskList (addTask t False d) = d_taskList d @ new
    \<and> d_ran (addTask t False d) = d_ran d \<and> d_threadState (addTask t False d) = d_threadState d"
  by (auto simp: addTask_def Let_def)

lemma posts_back:
  "\<forall>p\<in>set ps. \<not> snd p \<Longrightarrow>
    \<exists>new. d_taskList (fold (\<lambda>(t, front). addTask t front) ps d) = d_taskList d @ new
      \<and> d_ran (fold (\<lambda>(t, front). addTask t front) ps d) = d_ran d
      \<and> d_threadState (fold (\<lambda>(t, front). addTask t front) ps d) = d_threadState d"
proof (induction ps arbitrary: d)
  case (Cons p ps)
  obtain t where p: "p = (t, False)" using Cons.prems by (cases p) auto
  obtain n1 where "d_taskList (addTask t False d) = d_taskList d @ n1"
    "d_ran (addTask t False d) = d_ran d" "d_threadState (addTask t False d) = d_threadState d"
    using addTask_back by blast
  moreover have "\<forall>p\<in>set ps. \<not> snd p" using Cons.prems by simp
  ultimately show ?case using Cons.IH[of "addTask t False d"] p by auto
qed simp

lemma dispatch_head:
  assumes "d_taskList d = t # ts" and "d_threadState d \<noteq> STATE_TERMINATED"
    and "\<forall>p\<in>set (posts (m_f t)). \<not> snd p"
  shows "\<exists>new. d_taskList (dispatch posts now d) = ts @ new
    \<and> d_ran (dispatch posts now d) = d_ran d @ (if hasExpired now t then [] else [m_f t])
    \<and> d_threadState (dispatch posts now d) = d_threadState d"
  using assms posts_back[OF assms(3), of "d\<lparr>d_taskList := ts, d_ran := d_ran d @ [m_f t]\<rparr>"]
  by (auto simp: dispatch_def run_task_def Let_def)

text \<open>
  C30. As long as no task posts at the front, the dispatcher executes the tasks it holds in their
  order: after as many passes as tasks it held, exactly those that had not expired by the time of
  their pass have run, once each, and what they posted waits behind them.
\<close>

theorem dispatcher_fifo:
  assumes "d_threadState d \<noteq> STATE_TERMINATED" and "\<forall>f. \<forall>p\<in>set (posts f). \<not> snd p"
    and "length nows = length ts" and "d_taskList d = ts @ later"
  shows "\<exists>new. d_taskList (fold (dispatch posts) nows d) = later @ new
    \<and> d_ran (fold (dispatch posts) nows d) =
        d_ran d @ map (\<lambda>(now, t). m_f t) (filter (\<lambda>(now, t). \<not> hasExpired now t) (zip nows ts))"
  using assms
proof (induction nows arbitrary: ts d later)
  case (Cons now nows)
  obtain t us where ts: "ts = t # us" using Cons.prems(3) by (cases ts) auto
  obtain new where d1: "d_taskList (dispatch posts now d) = us @ (later @ new)"
    "d_ran (dispatch posts now d) = d_ran d @ (if hasExpired now t then [] else [m_f t])"
    "d_threadState (dispatch posts now d) = d_threadState d"
    using dispatch_head[of d t "us @ later" posts now] Cons.prems ts by auto
  obtain new2 where "d_taskList (fold (dispatch posts) nows (dispatch posts now d)) = (later @ new) @ new2"
    "d_ran (fold (dispatch posts) nows (dispatch posts now d)) = d_ran (dispatch posts now d)
      @ map (\<lambda>(now, t). m_f t) (filter (\<lambda>(now, t). \<not> hasExpired now t) (zip nows us))"
    using Cons.IH[of "dispatch posts now d" us "later @ new"] Cons.prems d1 ts by auto
  then show ?case using d1(2) ts by auto
qed simp

theorem dispatcher_fifo_witness:
  "d_ran (fold (dispatch (\<lambda>f. if f = 1 then [(createTask 3, False)] else [])) [10, 20]
      (new_dispatcher\<lparr>d_taskList := [createTask 1, createTask_expiring 0 5 2]\<rparr>)) = [1]"
  using dispatcher_fifo[of "new_dispatcher\<lparr>d_taskList := [createTask 1, createTask_expiring 0 5 2]\<rparr>"
      "\<lambda>f. if f = 1 then [(createTask 3, False)] else []" "[10, 20]"
      "[createTask 1, createTask_expiring 0 5 2]" "[]"]
  by (simp add: new_dispatcher_def createTask_def createTask_expiring_def hasExpired_def)

text \<open>
  A shutdown with a task in the list that posts another task never returns: \<open>flush\<close> runs under
  the lock the posting task waits for. Without such a task everything left is run, in order and
  whether expired or not.
\<close>

theorem dispatcher_shutdown_deadlock:
  "dispatcher_shutdown posts d =
    (if list_ex (\<lambda>t. posts (m_f t) \<noteq> []) (d_taskList d) then None
     else Some (d\<lparr>d_threadState := STATE_TERMINATED, d_ran := d_ran d @ map m_f (d_taskList d),
                  d_taskList := []\<rparr>))"
proof -
  have "flush posts ts d = (if list_ex (\<lambda>t. posts (m_f t) \<noteq> []) ts then None
      else Some (d\<lparr>d_ran := d_ran d @ map m_f ts, d_taskList := []\<rparr>))" for ts d
    by (induction ts arbitrary: d) auto
  then show ?thesis by (simp add: dispatcher_shutdown_def)
qed

section \<open>The scheduler fires what was not stopped\<close>

text \<open>The events of the queue have distinct numbers, and the active ones are queued.\<close>

definition sched_inv :: "scheduler \<Rightarrow> bool" where
  [inv_simps]: "sched_inv s \<longleftrightarrow> distinct (map m_eventId (m_eventList s))
     \<and> (\<forall>t\<in>set (m_eventList s). m_eventId t \<le> m_lastEvent s)
     \<and> distinct (m_eventIds s) \<and> set (m_eventIds s) \<subseteq> m_eventId ` set (m_eventList s)"

datatype sched_event = EvAdd int u32 nat | EvStop u32 | EvTimer int

fun sched_step :: "sched_event \<Rightarrow> scheduler \<Rightarrow> scheduler" where
  "sched_step (EvAdd now delay f) s = snd (addEvent (createSchedulerTask now delay f) s)"
| "sched_step (EvStop eventId) s = snd (stopEvent eventId s)"
| "sched_step (EvTimer now) s = schedule now s"

lemma top_None: "top ts = None \<longleftrightarrow> ts = []"
  by (cases ts) (auto split: option.splits)

lemma top_Some: "top ts = Some t \<Longrightarrow> t \<in> set ts \<and> (\<forall>u\<in>set ts. m_expiration t \<le> m_expiration u)"
  by (induction ts arbitrary: t) (force split: option.splits if_splits simp: top_None)+

lemma unat_suc: "unat (w :: u32) < 2 ^ 32 - 1 \<Longrightarrow> unat (w + 1) = unat w + 1"
  by (subst unat_add_small) simp_all

lemma addEvent_view:
  assumes "unat (m_lastEvent s) < 2 ^ 32 - 1" and "m_eventId t = 0" and "s_threadState s = STATE_RUNNING"
  shows "m_lastEvent (snd (addEvent t s)) = m_lastEvent s + 1"
    and "m_eventIds (snd (addEvent t s)) = List.insert (m_lastEvent s + 1) (m_eventIds s)"
    and "m_eventList (snd (addEvent t s)) = m_eventList s @ [t\<lparr>m_eventId := m_lastEvent s + 1\<rparr>]"
    and "s_fired (snd (addEvent t s)) = s_fired s"
    and "s_threadState (snd (addEvent t s)) = s_threadState s"
proof -
  have n: "\<not> m_lastEvent s \<ge> 0xFFFFFFFF" using assms(1) by (simp add: word_le_nat_alt)
  show "m_lastEvent (snd (addEvent t s)) = m_lastEvent s + 1"
    "m_eventIds (snd (addEvent t s)) = List.insert (m_lastEvent s + 1) (m_eventIds s)"
    "m_eventList (snd (addEvent t s)) = m_eventList s @ [t\<lparr>m_eventId := m_lastEvent s + 1\<rparr>]"
    "s_fired (snd (addEvent t s)) = s_fired s"
    "s_threadState (snd (addEvent t s)) = s_threadState s"
    using n assms(2,3) by (simp_all add: addEvent_def Let_def)
qed

lemma addEvent_inv:
  assumes "sched_inv s" and "unat (m_lastEvent s) < 2 ^ 32 - 1" and "m_eventId t = 0"
  shows "sched_inv (snd (addEvent t s))"
proof (cases "s_threadState s = STATE_RUNNING")
  case True
  note v = addEvent_view[OF assms(2,3) True]
  have u: "unat (m_lastEvent s + 1) = unat (m_lastEvent s) + 1" using unat_suc[OF assms(2)] .
  then have lt: "m_lastEvent s < m_lastEvent s + 1" by (simp add: word_less_nat_alt)
  then have "m_lastEvent s + 1 \<notin> m_eventId ` set (m_eventList s)"
    using assms(1) by (force simp: inv_simps)
  moreover have "\<forall>t\<in>set (m_eventList s). m_eventId t \<le> m_lastEvent s + 1"
    using assms(1) lt by (auto simp: inv_simps intro: order_trans less_imp_le)
  ultimately show ?thesis using assms(1) by (auto simp: inv_simps v)
next
  case False
  then show ?thesis using assms(1) by (simp add: addEvent_def)
qed

lemma stopEvent_inv: "sched_inv s \<Longrightarrow> sched_inv (snd (stopEvent i s))"
  by (auto simp: inv_simps stopEvent_def)

lemma schedule_due:
  assumes "top (m_eventList s) = Some t" and "m_expiration t \<le> now" and "s_threadState s \<noteq> STATE_TERMINATED"
  shows "schedule now s = (if m_eventId t \<in> set (m_eventIds s)
    then s\<lparr>m_eventList := remove1 t (m_eventList s), m_eventIds := remove1 (m_eventId t) (m_eventIds s),
           s_fired := s_fired s @ [unsetExpiration t]\<rparr>
    else s\<lparr>m_eventList := remove1 t (m_eventList s)\<rparr>)"
  using assms by (simp add: schedule_def Let_def)

lemma schedule_idle:
  "schedule now s = s \<or> s_threadState s \<noteq> STATE_TERMINATED \<and>
    (\<exists>t. top (m_eventList s) = Some t \<and> m_expiration t \<le> now)"
  by (auto simp: schedule_def Let_def split: option.split)

lemma distinct_ids_remove1:
  assumes "distinct (map m_eventId ts)" and "t \<in> set ts"
  shows "m_eventId ` set (remove1 t ts) = m_eventId ` set ts - {m_eventId t}"
    and "distinct (map m_eventId (remove1 t ts))"
proof -
  have d: "distinct ts" using assms(1) by (simp add: distinct_map)
  then show "m_eventId ` set (remove1 t ts) = m_eventId ` set ts - {m_eventId t}"
    using assms by (auto simp: distinct_map inj_on_def)
  show "distinct (map m_eventId (remove1 t ts))"
    using assms(1) d by (auto simp: distinct_map inj_on_def)
qed

lemma schedule_inv: "sched_inv s \<Longrightarrow> sched_inv (schedule now s)"
proof -
  assume i: "sched_inv s"
  consider "schedule now s = s" | t where "s_threadState s \<noteq> STATE_TERMINATED"
    "top (m_eventList s) = Some t" "m_expiration t \<le> now"
    using schedule_idle[of now s] by blast
  then show ?thesis
  proof cases
    case (2 t)
    have t: "t \<in> set (m_eventList s)" using top_Some[OF 2(2)] by blast
    note r = distinct_ids_remove1[OF _ t]
    have sub: "set (remove1 t (m_eventList s)) \<subseteq> set (m_eventList s)" by (rule set_remove1_subset)
    show ?thesis
      unfolding schedule_due[OF 2(2,3,1)] using i r sub by (auto simp: inv_simps)
  qed (use i in simp)
qed

text \<open>
  C12. An event that was stopped in time never fires: whatever is added, stopped or comes due
  afterwards (before the 32-bit event numbers run out), the dispatcher does not get it.
\<close>

theorem stopped_event_never_fires:
  assumes "sched_inv s" and "stopEvent i s = (True, s')"
    and "unat (m_lastEvent s) + length evs < 2 ^ 32"
  shows "\<exists>new. s_fired (fold sched_step evs s') = s_fired s' @ new \<and> i \<notin> m_eventId ` set new"
proof -
  have s': "sched_inv s'" using stopEvent_inv[OF assms(1), of i] assms(2) by simp
  have "i \<in> set (m_eventIds s)" "s' = s\<lparr>m_eventIds := remove1 i (m_eventIds s)\<rparr>"
    using assms(2) by (auto simp: stopEvent_def split: if_splits)
  then have i: "i \<notin> set (m_eventIds s')" "i \<le> m_lastEvent s'" "m_lastEvent s' = m_lastEvent s"
    using assms(1) by (auto simp: inv_simps)
  have "\<exists>new. s_fired (fold sched_step evs s') = s_fired s' @ new \<and> i \<notin> m_eventId ` set new"
    if "sched_inv s'" "i \<notin> set (m_eventIds s')" "i \<le> m_lastEvent s'"
      "unat (m_lastEvent s') + length evs < 2 ^ 32" for s'
    using that
  proof (induction evs arbitrary: s')
    case Nil
    then show ?case by simp
  next
    case (Cons e evs)
    have room: "unat (m_lastEvent s') < 2 ^ 32 - 1" using Cons.prems(4) by simp
    let ?s = "sched_step e s'"
    have inv: "sched_inv ?s"
      using Cons.prems(1) room by (cases e) (auto intro!: addEvent_inv stopEvent_inv schedule_inv
          simp: createSchedulerTask_def Let_def)
    have step: "i \<notin> set (m_eventIds ?s) \<and> i \<le> m_lastEvent ?s
      \<and> unat (m_lastEvent ?s) \<le> unat (m_lastEvent s') + 1
      \<and> (\<exists>n. s_fired ?s = s_fired s' @ n \<and> i \<notin> m_eventId ` set n)"
    proof (cases e)
      case (EvAdd now delay f)
      show ?thesis
      proof (cases "s_threadState s' = STATE_RUNNING")
        case True
        have z: "m_eventId (createSchedulerTask now delay f) = 0" by (simp add: createSchedulerTask_def Let_def)
        have lt: "m_lastEvent s' < m_lastEvent s' + 1"
          using unat_suc[OF room] by (simp add: word_less_nat_alt)
        then have "i \<noteq> m_lastEvent s' + 1" "i \<le> m_lastEvent s' + 1" using Cons.prems(3) by auto
        then show ?thesis
          using EvAdd addEvent_view[OF room z True] Cons.prems(2) unat_suc[OF room] by simp
      qed (use EvAdd Cons.prems in \<open>simp add: addEvent_def\<close>)
    next
      case (EvStop j)
      then show ?thesis using Cons.prems by (auto simp: stopEvent_def dest: set_remove1_subset')
    next
      case (EvTimer now)
      show ?thesis
      proof (cases "schedule now s' = s'")
        case True
        then show ?thesis using EvTimer Cons.prems by simp
      next
        case False
        then obtain t where "s_threadState s' \<noteq> STATE_TERMINATED" "top (m_eventList s') = Some t"
          "m_expiration t \<le> now"
          using schedule_idle[of now s'] by blast
        then show ?thesis using EvTimer Cons.prems
          by (auto simp: schedule_due unsetExpiration_def dest: set_remove1_subset')
      qed
    qed
    then obtain n where n: "s_fired ?s = s_fired s' @ n" "i \<notin> m_eventId ` set n" by blast
    obtain new where "s_fired (fold sched_step evs ?s) = s_fired ?s @ new" "i \<notin> m_eventId ` set new"
      using Cons.IH[OF inv] step Cons.prems(4) by auto
    then show ?case using n by (intro exI[of _ "n @ new"]) auto
  qed
  from this[OF s' i(1,2)] show ?thesis using i(3) assms(3) by simp
qed

definition two_events :: scheduler where
  "two_events = sched_step (EvAdd 0 100 7) (sched_step (EvAdd 0 60 8) new_scheduler)"

lemma two_events_inv: "sched_inv two_events"
  by code_simp

theorem stopped_event_never_fires_witness:
  "\<exists>new. s_fired (fold sched_step [EvTimer 500, EvTimer 500] (snd (stopEvent 1 two_events))) = new
    \<and> 1 \<notin> m_eventId ` set new"
proof -
  have "stopEvent 1 two_events = (True, snd (stopEvent 1 two_events))"
    "s_fired (snd (stopEvent 1 two_events)) = []" "unat (m_lastEvent two_events) = 2"
    by code_simp+
  then show ?thesis
    using stopped_event_never_fires[OF two_events_inv, of 1 "snd (stopEvent 1 two_events)"
        "[EvTimer 500, EvTimer 500]"] by simp
qed

text \<open>
  C13. When the time of every queued event has come, as many passes as there are events empty the
  queue, and what the dispatcher gets is the events that were not stopped, each once, in the order
  of their times.
\<close>

theorem scheduler_drains:
  assumes "sched_inv s" and "s_threadState s \<noteq> STATE_TERMINATED"
    and "\<forall>t\<in>set (m_eventList s). m_expiration t \<le> now" and "n = length (m_eventList s)"
  shows "\<exists>order. mset order = mset (m_eventList s) \<and> sorted (map m_expiration order)
    \<and> m_eventList ((schedule now ^^ n) s) = []
    \<and> s_fired ((schedule now ^^ n) s) = s_fired s
        @ map unsetExpiration (filter (\<lambda>t. m_eventId t \<in> set (m_eventIds s)) order)"
  using assms
proof (induction n arbitrary: s)
  case 0
  then show ?case by auto
next
  case (Suc n)
  have "top (m_eventList s) \<noteq> None" using Suc.prems(4) by (auto simp: top_None)
  then obtain t where t: "top (m_eventList s) = Some t" by blast
  have tin: "t \<in> set (m_eventList s)" and least: "\<forall>u\<in>set (m_eventList s). m_expiration t \<le> m_expiration u"
    using top_Some[OF t] by auto
  let ?s = "schedule now s"
  have eq: "?s = (if m_eventId t \<in> set (m_eventIds s)
    then s\<lparr>m_eventList := remove1 t (m_eventList s), m_eventIds := remove1 (m_eventId t) (m_eventIds s),
           s_fired := s_fired s @ [unsetExpiration t]\<rparr>
    else s\<lparr>m_eventList := remove1 t (m_eventList s)\<rparr>)"
    using schedule_due[OF t] tin Suc.prems(2,3) by blast
  have l: "m_eventList ?s = remove1 t (m_eventList s)" by (simp add: eq)
  have sub: "set (remove1 t (m_eventList s)) \<subseteq> set (m_eventList s)" by (rule set_remove1_subset)
  have st: "s_threadState ?s \<noteq> STATE_TERMINATED" using Suc.prems(2) by (simp add: eq)
  have due: "\<forall>t\<in>set (m_eventList ?s). m_expiration t \<le> now" using Suc.prems(3) sub by (auto simp: l)
  have len: "n = length (m_eventList ?s)" using Suc.prems(4) tin by (simp add: l length_remove1)
  obtain order where o: "mset order = mset (m_eventList ?s)" "sorted (map m_expiration order)"
    "m_eventList ((schedule now ^^ n) ?s) = []"
    "s_fired ((schedule now ^^ n) ?s) = s_fired ?s
        @ map unsetExpiration (filter (\<lambda>t. m_eventId t \<in> set (m_eventIds ?s)) order)"
    using Suc.IH[OF schedule_inv[OF Suc.prems(1)] st due len] by blast
  have so: "set order = set (remove1 t (m_eventList s))" using o(1) l by (metis set_mset_mset)
  have ids: "m_eventId u \<noteq> m_eventId t" if "u \<in> set order" for u
  proof -
    have "m_eventId u \<in> m_eventId ` set (m_eventList s) - {m_eventId t}"
      using that so distinct_ids_remove1(1)[OF _ tin] Suc.prems(1) by (auto simp: inv_simps)
    then show ?thesis by blast
  qed
  have "filter (\<lambda>u. m_eventId u \<in> set (m_eventIds ?s)) order = filter (\<lambda>u. m_eventId u \<in> set (m_eventIds s)) order"
    by (rule filter_cong) (use ids Suc.prems(1) in \<open>auto simp: eq inv_simps\<close>)
  then have "s_fired ((schedule now ^^ n) ?s) = s_fired s
      @ map unsetExpiration (filter (\<lambda>t. m_eventId t \<in> set (m_eventIds s)) (t # order))"
    using o(4) by (simp add: eq)
  moreover have "mset (t # order) = mset (m_eventList s)" using o(1) tin by (simp add: l)
  moreover have "sorted (map m_expiration (t # order))" using o(2) so least sub by auto
  ultimately show ?case using o(3) by (intro exI[of _ "t # order"]) (simp add: funpow_swap1)
qed

theorem scheduler_drains_witness:
  "m_eventList ((schedule 200 ^^ 2) two_events) = []
   \<and> map m_f (s_fired ((schedule 200 ^^ 2) two_events)) = [8, 7]"
proof -
  have e: "\<forall>t\<in>set (m_eventList two_events). m_expiration t \<le> 200" "length (m_eventList two_events) = 2"
    "s_threadState two_events \<noteq> STATE_TERMINATED"
    by code_simp+
  have "m_eventList ((schedule 200 ^^ 2) two_events) = []"
    using scheduler_drains[OF two_events_inv e(3,1), of 2] e(2) by auto
  moreover have "map m_f (s_fired ((schedule 200 ^^ 2) two_events)) = [8, 7]" by code_simp
  ultimately show ?thesis by blast
qed

end
