(* ===== verification/Parties.thy ===== *)
theory Parties
  imports Positions Tools
begin

text \<open>
  \<^verbatim>\<open>party.h\<close> / \<^verbatim>\<open>party.cpp\<close> with the party operations of \<^verbatim>\<open>player.cpp\<close> and the party requests of
  \<^verbatim>\<open>game.cpp\<close>. Players and parties point at each other, so the state is a store: the players by
  number and the parties by address, a deleted party an empty address. Reading one is
  \<^const>\<open>None\<close>, the use of freed memory. Texts and icons sent to the clients are left out.
\<close>

section \<open>The store\<close>

record pplayer =
  pl_removed :: bool
  pl_level :: nat
  pl_position :: position
  pl_guid :: nat
  pl_party :: "nat option"
  pl_invites :: "nat list"
  pl_infight :: bool
  pl_notGainInFight :: bool

text \<open>The sums are 32-bit integers; the code reads them as signed ones.\<close>

record count_block =
  totalHeal :: u32
  totalDamage :: u32
  ticks :: int

record party =
  leader :: nat
  memberList :: "nat list"
  inviteList :: "nat list"
  sharedExpActive :: bool
  sharedExpEnabled :: bool
  pointMap :: "(nat, count_block) omap"

text \<open>A player who is not online is a removed one; \<open>w_next\<close> is the next free address.\<close>

record pworld =
  w_player :: "nat \<Rightarrow> pplayer"
  w_party :: "nat \<Rightarrow> party option"
  w_next :: nat

definition offline :: pplayer where
  "offline = \<lparr>pl_removed = True, pl_level = 1, pl_position = Position 0 0 0, pl_guid = 0,
     pl_party = None, pl_invites = [], pl_infight = False, pl_notGainInFight = False\<rparr>"

definition empty_world :: pworld where
  "empty_world = \<lparr>w_player = (\<lambda>_. offline), w_party = (\<lambda>_. None), w_next = 0\<rparr>"

definition setParty :: "nat option \<Rightarrow> nat \<Rightarrow> pworld \<Rightarrow> pworld" where
  "setParty p x w = w\<lparr>w_player := (w_player w)(x := (w_player w x)\<lparr>pl_party := p\<rparr>)\<rparr>"

definition upd_party :: "nat \<Rightarrow> (party \<Rightarrow> party) \<Rightarrow> pworld \<Rightarrow> pworld" where
  "upd_party p f w = w\<lparr>w_party := (w_party w)(p := map_option f (w_party w p))\<rparr>"

section \<open>Invitations of a player\<close>

definition addPartyInvitation :: "nat \<Rightarrow> nat \<Rightarrow> pworld \<Rightarrow> bool \<times> pworld" where
  "addPartyInvitation p x w =
     (if p \<in> set (pl_invites (w_player w x)) then (False, w)
      else (True, w\<lparr>w_player := (w_player w)(x :=
              (w_player w x)\<lparr>pl_invites := pl_invites (w_player w x) @ [p]\<rparr>)\<rparr>))"

definition removePartyInvitation :: "nat \<Rightarrow> nat \<Rightarrow> pworld \<Rightarrow> bool \<times> pworld" where
  "removePartyInvitation p x w =
     (if p \<in> set (pl_invites (w_player w x))
      then (True, w\<lparr>w_player := (w_player w)(x :=
              (w_player w x)\<lparr>pl_invites := remove1 p (pl_invites (w_player w x))\<rparr>)\<rparr>)
      else (False, w))"

section \<open>The party\<close>

definition isPlayerMember :: "pworld \<Rightarrow> party \<Rightarrow> nat \<Rightarrow> bool \<Rightarrow> bool" where
  "isPlayerMember w P x result = (if pl_removed (w_player w x) then result else x \<in> set (memberList P))"

definition isPlayerInvited :: "pworld \<Rightarrow> party \<Rightarrow> nat \<Rightarrow> bool \<Rightarrow> bool" where
  "isPlayerInvited w P x result = (if pl_removed (w_player w x) then result else x \<in> set (inviteList P))"

definition canDisband :: "party \<Rightarrow> bool" where
  "canDisband P \<longleftrightarrow> memberList P = [] \<and> inviteList P = []"

text \<open>
  The configuration of shared experience: the least level for a highest level (the ceiling of a
  floating-point product in the code), the radius, the activity time, and the clock.
\<close>

record share_env =
  minLevel :: "nat \<Rightarrow> nat"
  shareRadius :: position
  shareActivity :: int
  shareNow :: int

definition highest_level :: "pworld \<Rightarrow> party \<Rightarrow> nat" where
  "highest_level w P =
     fold (\<lambda>x h. if pl_level (w_player w x) > h then pl_level (w_player w x) else h)
       (memberList P) (pl_level (w_player w (leader P)))"

definition canUseSharedExperience :: "share_env \<Rightarrow> pworld \<Rightarrow> party \<Rightarrow> nat \<Rightarrow> nat \<Rightarrow> bool" where
  "canUseSharedExperience env w P x highest =
     (if pl_removed (w_player w x) then False
      else let highest = (if highest = 0 then highest_level w P else highest) in
        if pl_level (w_player w x) < minLevel env highest
           \<or> \<not> areInRange (shareRadius env) (pl_position (w_player w (leader P))) (pl_position (w_player w x))
        then False
        else case om_lookup (pointMap P) x of
          None \<Rightarrow> False
        | Some b \<Rightarrow> shareNow env - ticks b \<le> shareActivity env)"

definition canEnableSharedExperience :: "share_env \<Rightarrow> pworld \<Rightarrow> party \<Rightarrow> bool" where
  "canEnableSharedExperience env w P =
     (if memberList P = [] then False
      else let highest = highest_level w P in
        list_all (\<lambda>x. canUseSharedExperience env w P x highest) (memberList P)
          \<and> canUseSharedExperience env w P (leader P) highest)"

definition update_shared :: "share_env \<Rightarrow> pworld \<Rightarrow> party \<Rightarrow> party" where
  "update_shared env w P =
     (if \<not> sharedExpActive P then P
      else let result = canEnableSharedExperience env w P in
        if result = sharedExpEnabled P then P else P\<lparr>sharedExpEnabled := result\<rparr>)"

definition updateSharedExperience :: "share_env \<Rightarrow> nat \<Rightarrow> pworld \<Rightarrow> pworld" where
  "updateSharedExperience env p w = upd_party p (update_shared env w) w"

definition setSharedExperience :: "share_env \<Rightarrow> nat \<Rightarrow> nat \<Rightarrow> bool \<Rightarrow> pworld \<Rightarrow> (bool \<times> pworld) option" where
  "setSharedExperience env p x active w =
     (case w_party w p of
        None \<Rightarrow> None
      | Some P \<Rightarrow>
          if pl_removed (w_player w x) \<or> x \<noteq> leader P then Some (False, w)
          else if sharedExpActive P = active then Some (True, w)
          else let P = P\<lparr>sharedExpActive := active\<rparr>;
                   P = (if active then P\<lparr>sharedExpEnabled := canEnableSharedExperience env w P\<rparr> else P)
               in Some (True, upd_party p (\<lambda>_. P) w))"

text \<open>The points of a member: created with the time of the event, counted up afterwards.\<close>

definition addPlayerHealedMember :: "share_env \<Rightarrow> nat \<Rightarrow> nat \<Rightarrow> u32 \<Rightarrow> pworld \<Rightarrow> pworld" where
  "addPlayerHealedMember env p x points w =
     (if points = 0 then w
      else updateSharedExperience env p (upd_party p (\<lambda>P. P\<lparr>pointMap := om_assign x
        (case om_lookup (pointMap P) x of
           Some b \<Rightarrow> b\<lparr>totalHeal := totalHeal b + points, ticks := shareNow env\<rparr>
         | None \<Rightarrow> \<lparr>totalHeal = points, totalDamage = 0, ticks = shareNow env\<rparr>) (pointMap P)\<rparr>) w))"

definition addPlayerDamageMonster :: "share_env \<Rightarrow> nat \<Rightarrow> nat \<Rightarrow> u32 \<Rightarrow> pworld \<Rightarrow> pworld" where
  "addPlayerDamageMonster env p x points w =
     (if points = 0 then w
      else updateSharedExperience env p (upd_party p (\<lambda>P. P\<lparr>pointMap := om_assign x
        (case om_lookup (pointMap P) x of
           Some b \<Rightarrow> b\<lparr>totalDamage := totalDamage b + points, ticks := shareNow env\<rparr>
         | None \<Rightarrow> \<lparr>totalHeal = 0, totalDamage = points, ticks = shareNow env\<rparr>) (pointMap P)\<rparr>) w))"

definition clearPlayerPoints :: "share_env \<Rightarrow> nat \<Rightarrow> nat \<Rightarrow> pworld \<Rightarrow> pworld" where
  "clearPlayerPoints env p x w =
     (case w_party w p of
        None \<Rightarrow> w
      | Some P \<Rightarrow>
          if om_lookup (pointMap P) x = None then w
          else updateSharedExperience env p (upd_party p (\<lambda>P. P\<lparr>pointMap := om_erase x (pointMap P)\<rparr>) w))"

definition new_party :: "nat \<Rightarrow> pworld \<Rightarrow> nat \<times> pworld" where
  "new_party x w =
     (let p = w_next w;
          w = w\<lparr>w_party := (w_party w)(p := Some \<lparr>leader = x, memberList = [], inviteList = [],
                  sharedExpActive = False, sharedExpEnabled = False, pointMap = []\<rparr>),
                w_next := p + 1\<rparr>
      in (p, setParty (Some p) x w))"

definition disband :: "nat \<Rightarrow> pworld \<Rightarrow> pworld option" where
  "disband p w =
     (case w_party w p of
        None \<Rightarrow> None
      | Some P \<Rightarrow>
          let w = setParty None (leader P) w;
              w = fold (\<lambda>x w. snd (removePartyInvitation p x w)) (inviteList P) w;
              w = fold (setParty None) (memberList P) w
          in Some (w\<lparr>w_party := (w_party w)(p := None)\<rparr>))"

definition passLeadership :: "share_env \<Rightarrow> nat \<Rightarrow> nat \<Rightarrow> pworld \<Rightarrow> (bool \<times> pworld) option" where
  "passLeadership env p x w =
     (case w_party w p of
        None \<Rightarrow> None
      | Some P \<Rightarrow>
          if \<not> isPlayerMember w P x False \<or> x = leader P then Some (False, w)
          else Some (True, updateSharedExperience env p
            (upd_party p (\<lambda>P. P\<lparr>leader := x, memberList := leader P # remove1 x (memberList P)\<rparr>) w)))"

definition leave :: "share_env \<Rightarrow> nat \<Rightarrow> nat \<Rightarrow> pworld \<Rightarrow> (bool \<times> pworld) option" where
  "leave env p x w =
     (case w_party w p of
        None \<Rightarrow> None
      | Some P \<Rightarrow>
          if \<not> isPlayerMember w P x False \<and> x \<noteq> leader P then Some (False, w)
          else
            let missingLeader = (leader P = x \<and>
                  (memberList P = [] \<or> length (memberList P) = 1 \<and> inviteList P = [])) in
            Option.bind (if leader P = x \<and> \<not> missingLeader
                         then map_option snd (passLeadership env p (hd (memberList P)) w) else Some w)
              (\<lambda>w.
                let w = upd_party p (\<lambda>P. P\<lparr>memberList := remove1 x (memberList P),
                          inviteList := remove1 x (inviteList P)\<rparr>) w;
                    w = setParty None x w;
                    w = updateSharedExperience env p w;
                    w = clearPlayerPoints env p x w
                in case w_party w p of
                     None \<Rightarrow> None
                   | Some P \<Rightarrow>
                       if missingLeader \<or> canDisband P then map_option (\<lambda>w. (True, w)) (disband p w)
                       else Some (True, w)))"

definition join :: "share_env \<Rightarrow> nat \<Rightarrow> nat \<Rightarrow> pworld \<Rightarrow> (bool \<times> pworld) option" where
  "join env p x w =
     (case w_party w p of
        None \<Rightarrow> None
      | Some P \<Rightarrow>
          if isPlayerMember w P x False \<or> \<not> isPlayerInvited w P x False then Some (False, w)
          else
            let w = upd_party p (\<lambda>P. P\<lparr>memberList := memberList P @ [x]\<rparr>) w;
                w = setParty (Some p) x w;
                w = snd (removePartyInvitation p x w);
                w = upd_party p (\<lambda>P. P\<lparr>inviteList := remove1 x (inviteList P)\<rparr>) w
            in Some (True, updateSharedExperience env p w))"

definition removeInvite :: "nat \<Rightarrow> nat \<Rightarrow> pworld \<Rightarrow> (bool \<times> pworld) option" where
  "removeInvite p x w =
     (case w_party w p of
        None \<Rightarrow> None
      | Some P \<Rightarrow>
          if \<not> isPlayerInvited w P x False then Some (False, w)
          else
            let P' = P\<lparr>inviteList := remove1 x (inviteList P)\<rparr>;
                w = upd_party p (\<lambda>_. P') w;
                w = snd (removePartyInvitation p x w)
            in if canDisband P' then map_option (\<lambda>w. (True, w)) (disband p w) else Some (True, w))"

definition revokeInvitation :: "nat \<Rightarrow> nat \<Rightarrow> pworld \<Rightarrow> pworld option" where
  "revokeInvitation p x w =
     (if pl_removed (w_player w x) then Some w else map_option snd (removeInvite p x w))"

definition invitePlayer :: "nat \<Rightarrow> nat \<Rightarrow> pworld \<Rightarrow> (bool \<times> pworld) option" where
  "invitePlayer p x w =
     (case w_party w p of
        None \<Rightarrow> None
      | Some P \<Rightarrow>
          if isPlayerInvited w P x True then Some (False, w)
          else Some (True, snd (addPartyInvitation p x
            (upd_party p (\<lambda>P. P\<lparr>inviteList := inviteList P @ [x]\<rparr>) w))))"

section \<open>The requests\<close>

text \<open>\<open>isInviting(player)\<close> of a player; a party that is gone cannot be asked for its leader.\<close>

definition isInviting :: "pworld \<Rightarrow> nat \<Rightarrow> nat \<Rightarrow> bool option" where
  "isInviting w y x =
     (if pl_removed (w_player w x) then Some False
      else case pl_party (w_player w y) of
        None \<Rightarrow> Some False
      | Some p \<Rightarrow>
          (case w_party w p of
             None \<Rightarrow> None
           | Some P \<Rightarrow> Some (leader P = y \<and> isPlayerInvited w P x False)))"

text \<open>\<open>clearPartyInvitations\<close> walks a copy of the list after emptying it.\<close>

fun clear_invitations :: "nat list \<Rightarrow> nat \<Rightarrow> pworld \<Rightarrow> pworld option" where
  "clear_invitations [] x w = Some w"
| "clear_invitations (p # ps) x w =
     Option.bind (removeInvite p x w) (\<lambda>(_, w). clear_invitations ps x w)"

definition clearPartyInvitations :: "nat \<Rightarrow> pworld \<Rightarrow> pworld option" where
  "clearPartyInvitations x w =
     clear_invitations (pl_invites (w_player w x)) x
       (w\<lparr>w_player := (w_player w)(x := (w_player w x)\<lparr>pl_invites := []\<rparr>)\<rparr>)"

definition playerInviteToParty :: "nat \<Rightarrow> nat \<Rightarrow> pworld \<Rightarrow> (bool \<times> pworld) option" where
  "playerInviteToParty x y w =
     (if pl_removed (w_player w x) then Some (False, w)
      else if pl_removed (w_player w y) then Some (False, w)
      else Option.bind (isInviting w y x) (\<lambda>inviting.
        if inviting then Some (False, w)
        else if pl_party (w_player w y) \<noteq> None then Some (False, w)
        else if y = x then Some (False, w)
        else case pl_party (w_player w x) of
          None \<Rightarrow> (case new_party x w of (p, w) \<Rightarrow> invitePlayer p y w)
        | Some p \<Rightarrow>
            (case w_party w p of
               None \<Rightarrow> None
             | Some P \<Rightarrow> if leader P \<noteq> x then Some (False, w) else invitePlayer p y w)))"

definition playerJoinParty :: "share_env \<Rightarrow> nat \<Rightarrow> nat \<Rightarrow> pworld \<Rightarrow> (bool \<times> pworld) option" where
  "playerJoinParty env x y w =
     (if pl_removed (w_player w x) then Some (False, w)
      else if pl_removed (w_player w y) then Some (False, w)
      else Option.bind (isInviting w y x) (\<lambda>inviting.
        if \<not> inviting then Some (False, w)
        else if pl_party (w_player w x) = None then
          (case pl_party (w_player w y) of None \<Rightarrow> None | Some p \<Rightarrow> join env p x w)
        else Some (False, w)))"

definition leader_of :: "pworld \<Rightarrow> nat \<Rightarrow> nat option" where
  "leader_of w p = map_option leader (w_party w p)"

definition playerRevokePartyInvitation :: "nat \<Rightarrow> nat \<Rightarrow> pworld \<Rightarrow> (bool \<times> pworld) option" where
  "playerRevokePartyInvitation x y w =
     (case (pl_removed (w_player w x), pl_party (w_player w x)) of
        (False, Some p) \<Rightarrow>
          Option.bind (leader_of w p) (\<lambda>l.
            if l \<noteq> x then Some (False, w)
            else if pl_removed (w_player w y) then Some (False, w)
            else Option.bind (isInviting w x y) (\<lambda>inviting.
              if \<not> inviting then Some (False, w)
              else map_option (\<lambda>w. (True, w)) (revokeInvitation p y w)))
      | _ \<Rightarrow> Some (False, w))"

definition playerPassPartyLeadership :: "share_env \<Rightarrow> nat \<Rightarrow> nat \<Rightarrow> pworld \<Rightarrow> (bool \<times> pworld) option" where
  "playerPassPartyLeadership env x y w =
     (case (pl_removed (w_player w x), pl_party (w_player w x)) of
        (False, Some p) \<Rightarrow>
          Option.bind (leader_of w p) (\<lambda>l.
            if l \<noteq> x then Some (False, w)
            else if pl_removed (w_player w y) \<or> pl_party (w_player w y) \<noteq> Some p then Some (False, w)
            else passLeadership env p y w)
      | _ \<Rightarrow> Some (False, w))"

definition playerLeaveParty :: "share_env \<Rightarrow> nat \<Rightarrow> bool \<Rightarrow> pworld \<Rightarrow> (bool \<times> pworld) option" where
  "playerLeaveParty env x forced w =
     (case (pl_removed (w_player w x), pl_party (w_player w x)) of
        (False, Some p) \<Rightarrow>
          if pl_infight (w_player w x) \<and> \<not> forced then Some (False, w) else leave env p x w
      | _ \<Rightarrow> Some (False, w))"

definition playerSharePartyExperience :: "share_env \<Rightarrow> nat \<Rightarrow> bool \<Rightarrow> pworld \<Rightarrow> (bool \<times> pworld) option" where
  "playerSharePartyExperience env x activate w =
     (if pl_removed (w_player w x) then Some (False, w)
      else case pl_party (w_player w x) of
        None \<Rightarrow> Some (False, w)
      | Some p \<Rightarrow>
          if \<not> pl_notGainInFight (w_player w x) \<and> pl_infight (w_player w x) then Some (False, w)
          else setSharedExperience env p x activate w)"

text \<open>
  A player who disappears gives back his invitations and leaves his party, and is removed after
  that; one who comes in is a new object without a party.
\<close>

definition player_disappears :: "share_env \<Rightarrow> nat \<Rightarrow> pworld \<Rightarrow> pworld option" where
  "player_disappears env x w =
     (if pl_removed (w_player w x) then Some w
      else Option.bind (clearPartyInvitations x w) (\<lambda>w.
        map_option (\<lambda>w. w\<lparr>w_player := (w_player w)(x := (w_player w x)\<lparr>pl_removed := True\<rparr>)\<rparr>)
          (case pl_party (w_player w x) of
             None \<Rightarrow> Some w
           | Some p \<Rightarrow> map_option snd (leave env p x w))))"

definition player_enters :: "nat \<Rightarrow> pplayer \<Rightarrow> pworld \<Rightarrow> pworld" where
  "player_enters x pl w =
     (if pl_removed (w_player w x)
      then w\<lparr>w_player := (w_player w)(x := pl\<lparr>pl_removed := False, pl_party := None, pl_invites := []\<rparr>)\<rparr>
      else w)"

text \<open>
  What a player does that concerns his party: he moves, becomes idle, hurts a monster, heals
  somebody. The player healed is the target or the master of the target.
\<close>

definition on_party :: "nat \<Rightarrow> (nat \<Rightarrow> pworld \<Rightarrow> pworld) \<Rightarrow> pworld \<Rightarrow> pworld option" where
  "on_party x f w =
     (case pl_party (w_player w x) of
        None \<Rightarrow> Some w
      | Some p \<Rightarrow> (case w_party w p of None \<Rightarrow> None | Some _ \<Rightarrow> Some (f p w)))"

definition onCreatureMove :: "share_env \<Rightarrow> nat \<Rightarrow> pworld \<Rightarrow> pworld option" where
  "onCreatureMove env x = on_party x (updateSharedExperience env)"

definition onIdleStatus :: "share_env \<Rightarrow> nat \<Rightarrow> pworld \<Rightarrow> pworld option" where
  "onIdleStatus env x = on_party x (\<lambda>p. clearPlayerPoints env p x)"

definition onAttackedCreatureDrain :: "share_env \<Rightarrow> nat \<Rightarrow> bool \<Rightarrow> u32 \<Rightarrow> pworld \<Rightarrow> pworld option" where
  "onAttackedCreatureDrain env x hostile points w =
     (if hostile then on_party x (\<lambda>p. addPlayerDamageMonster env p x points) w else Some w)"

definition isPartner :: "pworld \<Rightarrow> nat \<Rightarrow> nat option \<Rightarrow> bool" where
  "isPartner w x y = (case y of None \<Rightarrow> False
     | Some y \<Rightarrow> pl_party (w_player w y) \<noteq> None \<and> pl_party (w_player w y) = pl_party (w_player w x))"

definition onTargetCreatureGainHealth ::
    "share_env \<Rightarrow> nat \<Rightarrow> nat option \<Rightarrow> u32 \<Rightarrow> pworld \<Rightarrow> pworld option" where
  "onTargetCreatureGainHealth env x target points w =
     (if isPartner w x target then on_party x (\<lambda>p. addPlayerHealedMember env p x points) w else Some w)"

section \<open>What the others see\<close>

text \<open>The shield that \<open>x\<close> sees on \<open>y\<close>.\<close>

definition getPartyShield :: "share_env \<Rightarrow> pworld \<Rightarrow> nat \<Rightarrow> nat \<Rightarrow> shield option" where
  "getPartyShield env w x y =
     (let invited = Option.bind (isInviting w y x) (\<lambda>i. Some (if i then SHIELD_WHITEYELLOW else SHIELD_NONE)) in
      case pl_party (w_player w x) of
        None \<Rightarrow> invited
      | Some p \<Rightarrow>
          (case w_party w p of
             None \<Rightarrow> None
           | Some P \<Rightarrow>
               if leader P = y then Some
                 (if \<not> sharedExpActive P then SHIELD_YELLOW
                  else if sharedExpEnabled P then SHIELD_YELLOW_SHAREDEXP
                  else if canUseSharedExperience env w P y 0 then SHIELD_YELLOW_NOSHAREDEXP
                  else SHIELD_YELLOW_NOSHAREDEXP_BLINK)
               else if isPlayerMember w P y False then Some
                 (if \<not> sharedExpActive P then SHIELD_BLUE
                  else if sharedExpEnabled P then SHIELD_BLUE_SHAREDEXP
                  else if canUseSharedExperience env w P y 0 then SHIELD_BLUE_NOSHAREDEXP
                  else SHIELD_BLUE_NOSHAREDEXP_BLINK)
               else Option.bind (isInviting w x y) (\<lambda>i. if i then Some SHIELD_WHITEBLUE else invited)))"

definition canOpenCorpse :: "(nat \<Rightarrow> nat option) \<Rightarrow> pworld \<Rightarrow> party \<Rightarrow> nat \<Rightarrow> bool" where
  "canOpenCorpse playerByGuid w P owner \<longleftrightarrow>
     pl_guid (w_player w (leader P)) = owner
     \<or> (case playerByGuid owner of None \<Rightarrow> False | Some x \<Rightarrow> isPlayerMember w P x False)"

section \<open>Sequences of requests\<close>

text \<open>
  Everything that reaches the parties, each at a time and configuration of its own; a
  \<open>Change\<close> of a player's level, place and conditions comes from the rest of the server.
\<close>

datatype party_request =
    Invite nat nat
  | Join nat nat
  | Revoke nat nat
  | PassLead nat nat
  | Leave nat bool
  | Share nat bool
  | Disappear nat
  | Enter nat pplayer
  | Moved nat
  | Idle nat
  | Drain nat bool u32
  | Heal nat "nat option" u32
  | Change nat nat position bool bool

definition player_changes :: "nat \<Rightarrow> nat \<Rightarrow> position \<Rightarrow> bool \<Rightarrow> bool \<Rightarrow> pworld \<Rightarrow> pworld" where
  "player_changes x lv pos infight gm w = w\<lparr>w_player := (w_player w)(x := (w_player w x)
     \<lparr>pl_level := lv, pl_position := pos, pl_infight := infight, pl_notGainInFight := gm\<rparr>)\<rparr>"

fun party_step :: "share_env \<times> party_request \<Rightarrow> pworld \<Rightarrow> pworld option" where
  "party_step (env, Invite x y) w = map_option snd (playerInviteToParty x y w)"
| "party_step (env, Join x y) w = map_option snd (playerJoinParty env x y w)"
| "party_step (env, Revoke x y) w = map_option snd (playerRevokePartyInvitation x y w)"
| "party_step (env, PassLead x y) w = map_option snd (playerPassPartyLeadership env x y w)"
| "party_step (env, Leave x forced) w = map_option snd (playerLeaveParty env x forced w)"
| "party_step (env, Share x activate) w = map_option snd (playerSharePartyExperience env x activate w)"
| "party_step (env, Disappear x) w = player_disappears env x w"
| "party_step (env, Enter x pl) w = Some (player_enters x pl w)"
| "party_step (env, Moved x) w = onCreatureMove env x w"
| "party_step (env, Idle x) w = onIdleStatus env x w"
| "party_step (env, Drain x hostile points) w = onAttackedCreatureDrain env x hostile points w"
| "party_step (env, Heal x target points) w = onTargetCreatureGainHealth env x target points w"
| "party_step (env, Change x lv pos infight gm) w = Some (player_changes x lv pos infight gm w)"

text \<open>A run stops at the first use of a freed party.\<close>

definition party_run :: "(share_env \<times> party_request) list \<Rightarrow> pworld option" where
  "party_run rs = fold (\<lambda>r w. Option.bind w (party_step r)) rs (Some empty_world)"

section \<open>Who points at whom\<close>

text \<open>
  The invariant of the store. The pointers between players and parties agree in both directions,
  nobody removed is pointed at, a party is never without members and invitations. \<open>E\<close> is the
  parties in the middle of an operation: their leader may have left already.
\<close>

definition party_ok :: "nat set \<Rightarrow> pworld \<Rightarrow> nat \<Rightarrow> party \<Rightarrow> bool" where
  "party_ok E w p P \<longleftrightarrow> p < w_next w
     \<and> distinct (leader P # memberList P @ inviteList P)
     \<and> (\<forall>x\<in>set (memberList P). pl_party (w_player w x) = Some p \<and> \<not> pl_removed (w_player w x))
     \<and> (\<forall>x\<in>set (inviteList P). p \<in> set (pl_invites (w_player w x)) \<and> \<not> pl_removed (w_player w x))
     \<and> pl_party (w_player w (leader P)) \<in> {None, Some p} \<and> \<not> pl_removed (w_player w (leader P))
     \<and> (p \<notin> E \<longrightarrow> pl_party (w_player w (leader P)) = Some p \<and> \<not> canDisband P)"

definition world_ok :: "nat set \<Rightarrow> pworld \<Rightarrow> bool" where
  "world_ok E w \<longleftrightarrow> (\<forall>p P. w_party w p = Some P \<longrightarrow> party_ok E w p P)
     \<and> (\<forall>x p. pl_party (w_player w x) = Some p \<longrightarrow>
          (\<exists>P. w_party w p = Some P \<and> x \<in> set (leader P # memberList P)))
     \<and> (\<forall>x. \<forall>p\<in>set (pl_invites (w_player w x)). \<exists>P. w_party w p = Some P \<and> x \<in> set (inviteList P))
     \<and> (\<forall>x. distinct (pl_invites (w_player w x)))"

abbreviation party_inv :: "pworld \<Rightarrow> bool" where
  "party_inv \<equiv> world_ok {}"

lemma world_okD:
  assumes "world_ok E w"
  shows "w_party w p = Some P \<Longrightarrow> party_ok E w p P"
    and "pl_party (w_player w x) = Some p \<Longrightarrow> \<exists>P. w_party w p = Some P \<and> x \<in> set (leader P # memberList P)"
    and "p \<in> set (pl_invites (w_player w x)) \<Longrightarrow> \<exists>P. w_party w p = Some P \<and> x \<in> set (inviteList P)"
    and "distinct (pl_invites (w_player w x))"
  using assms by (simp_all add: world_ok_def)

text \<open>The invariant only sees the lists of a party, not what it knows about sharing.\<close>

definition core :: "party \<Rightarrow> nat \<times> nat list \<times> nat list" where
  "core P = (leader P, memberList P, inviteList P)"

definition same_core :: "pworld \<Rightarrow> pworld \<Rightarrow> bool" where
  "same_core w w' \<longleftrightarrow> w_player w' = w_player w \<and> w_next w' = w_next w
     \<and> (\<forall>p. map_option core (w_party w' p) = map_option core (w_party w p))"

lemma same_core_refl [simp]: "same_core w w"
  by (simp add: same_core_def)

lemma same_core_trans: "same_core w1 w2 \<Longrightarrow> same_core w2 w3 \<Longrightarrow> same_core w1 w3"
  by (simp add: same_core_def)

lemma same_core_party:
  assumes "same_core w w'" and "w_party w' p = Some P'"
  obtains P where "w_party w p = Some P" "leader P = leader P'" "memberList P = memberList P'"
    "inviteList P = inviteList P'"
proof -
  have "map_option core (w_party w p) = Some (core P')" using assms by (metis option.map(2) same_core_def)
  then show thesis using that by (auto simp: core_def)
qed

lemma same_core_sym: "same_core w w' \<Longrightarrow> same_core w' w"
  by (simp add: same_core_def)

lemma same_core_some:
  assumes "same_core w w'" and "w_party w p = Some P"
  obtains P' where "w_party w' p = Some P'" "leader P' = leader P" "memberList P' = memberList P"
    "inviteList P' = inviteList P"
  using same_core_party[OF same_core_sym[OF assms(1)] assms(2)] by blast

lemma same_core_ok:
  assumes "same_core w w'" and "world_ok E w"
  shows "world_ok E w'"
proof -
  have pl: "w_player w' = w_player w" "w_next w' = w_next w" using assms(1) by (simp_all add: same_core_def)
  have "party_ok E w' p P'" if P': "w_party w' p = Some P'" for p P'
  proof -
    obtain P where P: "w_party w p = Some P" "leader P = leader P'" "memberList P = memberList P'"
      "inviteList P = inviteList P'" by (rule same_core_party[OF assms(1) P'])
    show ?thesis
      using world_okD(1)[OF assms(2) P(1)] unfolding party_ok_def canDisband_def P(2-4) pl by blast
  qed
  moreover have "\<exists>P. w_party w' p = Some P \<and> x \<in> set (leader P # memberList P)"
    if x: "pl_party (w_player w' x) = Some p" for x p
  proof -
    obtain P where P: "w_party w p = Some P" "x \<in> set (leader P # memberList P)"
      using world_okD(2)[OF assms(2)] x by (auto simp: pl)
    show ?thesis using P(2) by (rule_tac same_core_some[OF assms(1) P(1)]) simp
  qed
  moreover have "\<exists>P. w_party w' p = Some P \<and> x \<in> set (inviteList P)"
    if x: "p \<in> set (pl_invites (w_player w' x))" for x p
  proof -
    obtain P where P: "w_party w p = Some P" "x \<in> set (inviteList P)"
      using world_okD(3)[OF assms(2)] x by (auto simp: pl)
    show ?thesis using P(2) by (rule_tac same_core_some[OF assms(1) P(1)]) simp
  qed
  moreover have "distinct (pl_invites (w_player w' x))" for x
    using world_okD(4)[OF assms(2)] by (simp add: pl)
  ultimately show ?thesis unfolding world_ok_def by blast
qed

lemma upd_party_same_core:
  "(\<And>P. core (f P) = core P) \<Longrightarrow> same_core w (upd_party p f w)"
  by (cases "w_party w p") (auto simp: same_core_def upd_party_def)

lemma updateShared_same_core [simp]: "same_core w (updateSharedExperience env p w)"
  unfolding updateSharedExperience_def
  by (rule upd_party_same_core) (simp add: update_shared_def Let_def core_def)

lemma clearPlayerPoints_same_core [simp]: "same_core w (clearPlayerPoints env p x w)"
proof -
  have "same_core w (upd_party p (\<lambda>P. P\<lparr>pointMap := om_erase x (pointMap P)\<rparr>) w)"
    by (rule upd_party_same_core) (simp add: core_def)
  then show ?thesis
    by (auto simp: clearPlayerPoints_def intro: same_core_trans split: option.split)
qed

lemma fold_setParty:
  "w_player (fold (setParty v) xs w) =
     (\<lambda>x. if x \<in> set xs then (w_player w x)\<lparr>pl_party := v\<rparr> else w_player w x)"
  "w_party (fold (setParty v) xs w) = w_party w" "w_next (fold (setParty v) xs w) = w_next w"
  by (induction xs arbitrary: w) (auto simp: setParty_def fun_eq_iff)

lemma removePartyInvitation_player:
  "w_player (snd (removePartyInvitation p x w)) =
     (w_player w)(x := (w_player w x)\<lparr>pl_invites := remove1 p (pl_invites (w_player w x))\<rparr>)"
  "w_party (snd (removePartyInvitation p x w)) = w_party w"
  "w_next (snd (removePartyInvitation p x w)) = w_next w"
  by (auto simp: removePartyInvitation_def remove1_idem)

lemma fold_removeInvitation:
  "distinct xs \<Longrightarrow> w_player (fold (\<lambda>x w. snd (removePartyInvitation p x w)) xs w) =
     (\<lambda>x. if x \<in> set xs then (w_player w x)\<lparr>pl_invites := remove1 p (pl_invites (w_player w x))\<rparr>
          else w_player w x)"
  "w_party (fold (\<lambda>x w. snd (removePartyInvitation p x w)) xs w) = w_party w"
  "w_next (fold (\<lambda>x w. snd (removePartyInvitation p x w)) xs w) = w_next w"
  by (induction xs arbitrary: w) (auto simp: removePartyInvitation_player fun_eq_iff)

section \<open>Every operation keeps the store consistent\<close>

lemma disband_eq:
  assumes "w_party w p = Some P" and "distinct (inviteList P)"
  shows "disband p w = Some
    \<lparr>w_player = (\<lambda>x. let pl = w_player w x;
         pl = (if x \<in> set (leader P # memberList P) then pl\<lparr>pl_party := None\<rparr> else pl)
       in if x \<in> set (inviteList P) then pl\<lparr>pl_invites := remove1 p (pl_invites pl)\<rparr> else pl),
     w_party = (w_party w)(p := None), w_next = w_next w\<rparr>"
  using assms
  by (auto simp: disband_def Let_def fold_setParty fold_removeInvitation setParty_def fun_eq_iff intro!: pworld.equality)

lemma disband_ok:
  assumes ok: "world_ok {p} w" and P: "w_party w p = Some P"
  obtains w' where "disband p w = Some w'" "party_inv w'"
    "\<And>x. pl_removed (w_player w' x) = pl_removed (w_player w x)"
    "\<And>x. pl_invites (w_player w' x) =
        (if x \<in> set (inviteList P) then remove1 p (pl_invites (w_player w x)) else pl_invites (w_player w x))"
    "\<And>x. pl_party (w_player w' x) =
        (if x \<in> set (leader P # memberList P) then None else pl_party (w_player w x))"
proof -
  have okP: "party_ok {p} w p P" by (rule world_okD(1)[OF ok P])
  then have d: "distinct (inviteList P)" by (simp add: party_ok_def)
  obtain w' where w': "disband p w = Some w'" "w_party w' = (w_party w)(p := None)" "w_next w' = w_next w"
    "\<And>x. pl_removed (w_player w' x) = pl_removed (w_player w x)"
    "\<And>x. pl_invites (w_player w' x) =
        (if x \<in> set (inviteList P) then remove1 p (pl_invites (w_player w x)) else pl_invites (w_player w x))"
    "\<And>x. pl_party (w_player w' x) =
        (if x \<in> set (leader P # memberList P) then None else pl_party (w_player w x))"
    using disband_eq[OF P d] by (simp add: Let_def)
  have "party_ok {} w' q Q" if Q: "w_party w' q = Some Q" for q Q
  proof -
    have q: "q \<noteq> p" "w_party w q = Some Q" using Q by (simp_all add: w'(2) split: if_splits)
    have okQ: "party_ok {p} w q Q" by (rule world_okD(1)[OF ok q(2)])
    have away: "x \<notin> set (leader P # memberList P)" if "pl_party (w_player w x) = Some q" for x
      using okP q(1) that by (auto simp: party_ok_def)
    show ?thesis using okQ q(1) away unfolding party_ok_def w' by (auto simp: in_set_remove1)
  qed
  moreover have "\<exists>Q. w_party w' q = Some Q \<and> x \<in> set (leader Q # memberList Q)"
    if x: "pl_party (w_player w' x) = Some q" for x q
  proof -
    have x': "pl_party (w_player w x) = Some q" "x \<notin> set (leader P # memberList P)"
      using x by (simp_all add: w' split: if_splits)
    obtain Q where Q: "w_party w q = Some Q" "x \<in> set (leader Q # memberList Q)"
      using world_okD(2)[OF ok x'(1)] by blast
    then have "q \<noteq> p" using x'(2) P by auto
    then show ?thesis using Q by (simp add: w'(2))
  qed
  moreover have "\<exists>Q. w_party w' q = Some Q \<and> x \<in> set (inviteList Q)"
    if x: "q \<in> set (pl_invites (w_player w' x))" for x q
  proof -
    have q: "q \<in> set (pl_invites (w_player w x))"
      using x by (auto simp: w' split: if_splits dest: set_remove1_subset')
    obtain Q where Q: "w_party w q = Some Q" "x \<in> set (inviteList Q)"
      using world_okD(3)[OF ok q] by blast
    have "q \<noteq> p"
    proof
      assume "q = p"
      then have "x \<in> set (inviteList P)" using Q P by simp
      then show False using x world_okD(4)[OF ok] by (simp add: w' \<open>q = p\<close>)
    qed
    then show ?thesis using Q by (simp add: w'(2))
  qed
  moreover have "distinct (pl_invites (w_player w' x))" for x
    using world_okD(4)[OF ok] by (simp add: w' distinct_remove1)
  ultimately have "party_inv w'" unfolding world_ok_def by blast
  then show thesis using that w' by blast
qed

text \<open>An operation that changes one party and only its own pointers in the players.\<close>

lemma world_upd:
  assumes ok: "party_inv w" and E: "E \<subseteq> {p}"
    and party: "w_party w' = (w_party w)(p := Some P')" "w_next w \<le> w_next w'"
    and rem: "\<And>y. pl_removed (w_player w' y) = pl_removed (w_player w y)"
    and pp: "\<And>y q. q \<noteq> p \<Longrightarrow> pl_party (w_player w' y) = Some q \<longleftrightarrow> pl_party (w_player w y) = Some q"
    and inv: "\<And>y q. q \<noteq> p \<Longrightarrow> q \<in> set (pl_invites (w_player w' y)) \<longleftrightarrow> q \<in> set (pl_invites (w_player w y))"
    and dist: "\<And>y. distinct (pl_invites (w_player w' y))"
    and okP: "party_ok E w' p P'"
    and bk1: "\<And>y. pl_party (w_player w' y) = Some p \<Longrightarrow> y \<in> set (leader P' # memberList P')"
    and bk2: "\<And>y. p \<in> set (pl_invites (w_player w' y)) \<Longrightarrow> y \<in> set (inviteList P')"
  shows "world_ok E w'"
proof -
  have "party_ok E w' q Q" if Q: "w_party w' q = Some Q" for q Q
  proof (cases "q = p")
    case True
    then show ?thesis using Q okP party(1) by simp
  next
    case False
    then have "party_ok {} w q Q" using Q party(1) world_okD(1)[OF ok] by simp
    then show ?thesis using False party(2) E unfolding party_ok_def rem
      by (auto simp: pp inv)
  qed
  moreover have "\<exists>Q. w_party w' q = Some Q \<and> x \<in> set (leader Q # memberList Q)"
    if x: "pl_party (w_player w' x) = Some q" for x q
    using x bk1[of x] pp[of q x] world_okD(2)[OF ok, of x q] party(1) by (cases "q = p") simp_all
  moreover have "\<exists>Q. w_party w' q = Some Q \<and> x \<in> set (inviteList Q)"
    if x: "q \<in> set (pl_invites (w_player w' x))" for x q
    using x bk2[of x] inv[of q x] world_okD(3)[OF ok, of q x] party(1) by (cases "q = p") simp_all
  ultimately show ?thesis unfolding world_ok_def using dist by blast
qed

lemma removeInvite_ok:
  assumes ok: "party_inv w" and x: "p \<in> set (pl_invites (w_player w x))"
  obtains w' where "removeInvite p x w = Some (True, w')" "party_inv w'"
    "pl_invites (w_player w' x) = remove1 p (pl_invites (w_player w x))"
    "\<And>y. pl_removed (w_player w' y) = pl_removed (w_player w y)"
proof -
  obtain P where P: "w_party w p = Some P" "x \<in> set (inviteList P)" using world_okD(3)[OF ok x] by blast
  have okP: "party_ok {} w p P" by (rule world_okD(1)[OF ok P(1)])
  define P' where "P' = P\<lparr>inviteList := remove1 x (inviteList P)\<rparr>"
  define w1 where "w1 = snd (removePartyInvitation p x (upd_party p (\<lambda>_. P') w))"
  have w1: "w_party w1 = (w_party w)(p := Some P')" "w_next w1 = w_next w"
    "w_player w1 = (w_player w)(x := (w_player w x)\<lparr>pl_invites := remove1 p (pl_invites (w_player w x))\<rparr>)"
    using P by (simp_all add: w1_def removePartyInvitation_player upd_party_def)
  have eq: "removeInvite p x w = (if canDisband P' then map_option (\<lambda>w. (True, w)) (disband p w1) else Some (True, w1))"
    using P okP unfolding removeInvite_def isPlayerInvited_def w1_def P'_def party_ok_def by (auto simp: Let_def)
  have keep: "world_ok E w1" if E: "E \<subseteq> {p}" "canDisband P' \<Longrightarrow> p \<in> E" for E
  proof (rule world_upd[OF ok E(1) w1(1)])
    show "party_ok E w1 p P'"
      using okP E(2) unfolding party_ok_def w1 P'_def by (auto simp: in_set_remove1 distinct_remove1)
    show "y \<in> set (inviteList P')" if "p \<in> set (pl_invites (w_player w1 y))" for y
    proof -
      have y: "y \<noteq> x" "p \<in> set (pl_invites (w_player w y))" using that world_okD(4)[OF ok] by (auto simp: w1 split: if_splits)
      then have "y \<in> set (inviteList P)" using world_okD(3)[OF ok y(2)] P by auto
      then show ?thesis using y by (simp add: P'_def)
    qed
    show "y \<in> set (leader P' # memberList P')" if "pl_party (w_player w1 y) = Some p" for y
    proof -
      have "pl_party (w_player w y) = Some p" using that by (simp add: w1 split: if_splits)
      then show ?thesis using world_okD(2)[OF ok] P by (fastforce simp: P'_def)
    qed
  qed (use world_okD(4)[OF ok] in \<open>auto simp: w1 distinct_remove1 in_set_remove1\<close>)
  show thesis
  proof (cases "canDisband P'")
    case False
    then show ?thesis using keep[of "{}"] that[of w1] eq w1 by simp
  next
    case True
    obtain w' where w': "disband p w1 = Some w'" "party_inv w'"
      "\<And>y. pl_removed (w_player w' y) = pl_removed (w_player w1 y)"
      "\<And>y. pl_invites (w_player w' y) =
        (if y \<in> set (inviteList P') then remove1 p (pl_invites (w_player w1 y)) else pl_invites (w_player w1 y))"
      by (rule disband_ok[of p w1 P']) (use keep[of "{p}"] w1 in auto)
    have "inviteList P' = []" using True by (simp add: canDisband_def)
    then show ?thesis using that[of w'] w' eq True by (simp add: w1)
  qed
qed

lemma same_core_players:
  assumes "same_core w w'"
  shows "w_player w' = w_player w" and "w_next w' = w_next w"
  using assms by (simp_all add: same_core_def)

lemma passLeadership_ok:
  assumes ok: "party_inv w" and P: "w_party w p = Some P" "x \<in> set (memberList P)"
  obtains w' P' where "passLeadership env p x w = Some (True, w')" "party_inv w'" "w_player w' = w_player w"
    "w_party w' p = Some P'" "leader P' = x" "memberList P' = leader P # remove1 x (memberList P)"
    "inviteList P' = inviteList P"
proof -
  have okP: "party_ok {} w p P" by (rule world_okD(1)[OF ok P(1)])
  define Q where "Q = P\<lparr>leader := x, memberList := leader P # remove1 x (memberList P)\<rparr>"
  define w1 where "w1 = upd_party p (\<lambda>P. P\<lparr>leader := x, memberList := leader P # remove1 x (memberList P)\<rparr>) w"
  have w1: "w_party w1 = (w_party w)(p := Some Q)" "w_next w1 = w_next w" "w_player w1 = w_player w"
    using P by (simp_all add: w1_def upd_party_def Q_def)
  have mem: "set (leader Q # memberList Q) = set (leader P # memberList P)"
    using okP P(2) by (auto simp: Q_def party_ok_def)
  have inv1: "party_inv w1"
  proof (rule world_upd[OF ok _ w1(1)])
    show "party_ok {} w1 p Q"
      using okP P(2) unfolding party_ok_def w1 by (auto simp: Q_def canDisband_def distinct_remove1)
    show "y \<in> set (leader Q # memberList Q)" if "pl_party (w_player w1 y) = Some p" for y
      using world_okD(2)[OF ok, of y p] that P(1) unfolding mem w1 by auto
    show "y \<in> set (inviteList Q)" if "p \<in> set (pl_invites (w_player w1 y))" for y
      using world_okD(3)[OF ok, of p y] that P(1) by (auto simp: w1 Q_def)
  qed (use world_okD(4)[OF ok] in \<open>auto simp: w1\<close>)
  have sc: "same_core w1 (updateSharedExperience env p w1)" by simp
  have "w_party w1 p = Some Q" by (simp add: w1)
  then obtain P' where P': "w_party (updateSharedExperience env p w1) p = Some P'" "leader P' = leader Q"
    "memberList P' = memberList Q" "inviteList P' = inviteList Q" by (rule same_core_some[OF sc])
  have "passLeadership env p x w = Some (True, updateSharedExperience env p w1)"
    using P okP by (auto simp: passLeadership_def w1_def isPlayerMember_def party_ok_def)
  then show thesis
    using that[of "updateSharedExperience env p w1" P'] P' same_core_ok[OF sc inv1] same_core_players[OF sc] w1
    by (simp add: Q_def)
qed

text \<open>The second half of \<^const>\<open>leave\<close>, after the leadership was passed on.\<close>

definition leave_rest :: "share_env \<Rightarrow> nat \<Rightarrow> nat \<Rightarrow> bool \<Rightarrow> pworld \<Rightarrow> (bool \<times> pworld) option" where
  "leave_rest env p x missing w =
     (let w = clearPlayerPoints env p x (updateSharedExperience env p (setParty None x
                (upd_party p (\<lambda>P. P\<lparr>memberList := remove1 x (memberList P),
                   inviteList := remove1 x (inviteList P)\<rparr>) w)))
      in case w_party w p of
           None \<Rightarrow> None
         | Some P \<Rightarrow>
             if missing \<or> canDisband P then map_option (\<lambda>w. (True, w)) (disband p w) else Some (True, w))"

lemma leave_rest_ok:
  assumes ok: "party_inv w" and P: "w_party w p = Some P"
    and x: "if missing then x = leader P else x \<in> set (memberList P)"
  obtains w' where "leave_rest env p x missing w = Some (True, w')" "party_inv w'"
    "pl_party (w_player w' x) = None" "pl_invites (w_player w' x) = pl_invites (w_player w x)"
    "\<And>y. pl_removed (w_player w' y) = pl_removed (w_player w y)"
proof -
  have okP: "party_ok {} w p P" by (rule world_okD(1)[OF ok P])
  define Q where "Q = P\<lparr>memberList := remove1 x (memberList P), inviteList := remove1 x (inviteList P)\<rparr>"
  define w1 where "w1 = setParty None x (upd_party p (\<lambda>P. P\<lparr>memberList := remove1 x (memberList P),
                   inviteList := remove1 x (inviteList P)\<rparr>) w)"
  have w1: "w_party w1 = (w_party w)(p := Some Q)" "w_next w1 = w_next w"
    "w_player w1 = (w_player w)(x := (w_player w x)\<lparr>pl_party := None\<rparr>)"
    using P by (simp_all add: w1_def upd_party_def Q_def setParty_def)
  have notInv: "x \<notin> set (inviteList P)" using okP x by (auto simp: party_ok_def split: if_splits)
  have xp: "pl_party (w_player w x) = Some p" using okP x by (auto simp: party_ok_def split: if_splits)
  have keep: "world_ok E w1" if E: "E \<subseteq> {p}" "missing \<or> canDisband Q \<Longrightarrow> p \<in> E" for E
  proof (rule world_upd[OF ok E(1) w1(1)])
    show "party_ok E w1 p Q"
      using okP E(2) x notInv unfolding party_ok_def w1
      by (auto simp: Q_def distinct_remove1 remove1_idem dest: set_remove1_subset' split: if_splits)
    show "y \<in> set (leader Q # memberList Q)" if "pl_party (w_player w1 y) = Some p" for y
    proof -
      have "y \<noteq> x" "pl_party (w_player w y) = Some p" using that by (auto simp: w1 split: if_splits)
      then show ?thesis using world_okD(2)[OF ok, of y p] P by (auto simp: Q_def)
    qed
    show "y \<in> set (inviteList Q)" if "p \<in> set (pl_invites (w_player w1 y))" for y
      using world_okD(3)[OF ok, of p y] that P notInv by (auto simp: w1 Q_def remove1_idem split: if_splits)
  qed (use world_okD(4)[OF ok] xp in \<open>auto simp: w1\<close>)
  define w2 where "w2 = clearPlayerPoints env p x (updateSharedExperience env p w1)"
  have sc: "same_core w1 w2"
    unfolding w2_def by (rule same_core_trans[OF updateShared_same_core clearPlayerPoints_same_core])
  have "w_party w1 p = Some Q" by (simp add: w1)
  then obtain P2 where P2: "w_party w2 p = Some P2" "leader P2 = leader Q"
    "memberList P2 = memberList Q" "inviteList P2 = inviteList Q" by (rule same_core_some[OF sc])
  have can: "canDisband P2 = canDisband Q" by (simp add: canDisband_def P2)
  have eq: "leave_rest env p x missing w =
      (if missing \<or> canDisband Q then map_option (\<lambda>w. (True, w)) (disband p w2) else Some (True, w2))"
    using P2(1) by (simp add: leave_rest_def Let_def flip: w1_def w2_def can)
  note pl2 = same_core_players[OF sc]
  show thesis
  proof (cases "missing \<or> canDisband Q")
    case False
    then show ?thesis using keep[of "{}"] that[of w2] eq w1 pl2 same_core_ok[OF sc] by simp
  next
    case True
    obtain w' where w': "disband p w2 = Some w'" "party_inv w'"
      "\<And>y. pl_removed (w_player w' y) = pl_removed (w_player w2 y)"
      "\<And>y. pl_invites (w_player w' y) =
        (if y \<in> set (inviteList P2) then remove1 p (pl_invites (w_player w2 y)) else pl_invites (w_player w2 y))"
      "\<And>y. pl_party (w_player w' y) =
        (if y \<in> set (leader P2 # memberList P2) then None else pl_party (w_player w2 y))"
      by (rule disband_ok[OF same_core_ok[OF sc keep[of "{p}"]] P2(1)]) auto
    have "x \<notin> set (inviteList P2)" using notInv by (simp add: P2 Q_def remove1_idem)
    then show ?thesis using that[of w'] w' eq True by (simp add: pl2 w1)
  qed
qed

lemma leave_ok:
  assumes ok: "party_inv w" and x: "pl_party (w_player w x) = Some p"
  obtains w' where "leave env p x w = Some (True, w')" "party_inv w'"
    "pl_party (w_player w' x) = None" "pl_invites (w_player w' x) = pl_invites (w_player w x)"
    "\<And>y. pl_removed (w_player w' y) = pl_removed (w_player w y)"
proof -
  obtain P where P: "w_party w p = Some P" "x \<in> set (leader P # memberList P)"
    using world_okD(2)[OF ok x] by blast
  have okP: "party_ok {} w p P" by (rule world_okD(1)[OF ok P(1)])
  define missing where "missing = (leader P = x \<and>
                  (memberList P = [] \<or> length (memberList P) = 1 \<and> inviteList P = []))"
  have eq: "leave env p x w = Option.bind (if leader P = x \<and> \<not> missing
        then map_option snd (passLeadership env p (hd (memberList P)) w) else Some w) (leave_rest env p x missing)"
    using P okP
    by (auto simp: leave_def isPlayerMember_def party_ok_def leave_rest_def[abs_def] missing_def Let_def)
  show thesis
  proof (cases "leader P = x \<and> \<not> missing")
    case False
    have "if missing then x = leader P else x \<in> set (memberList P)"
      using False P(2) by (auto simp: missing_def)
    from leave_rest_ok[OF ok P(1) this, of env thesis] show ?thesis using that eq False by simp
  next
    case True
    then have ne: "hd (memberList P) \<in> set (memberList P)" by (auto simp: missing_def)
    obtain w1 P1 where w1: "passLeadership env p (hd (memberList P)) w = Some (True, w1)" "party_inv w1"
      "w_player w1 = w_player w" "w_party w1 p = Some P1" "memberList P1 = leader P # remove1 (hd (memberList P)) (memberList P)"
      by (rule passLeadership_ok[OF ok P(1) ne]) auto
    have "if missing then x = leader P1 else x \<in> set (memberList P1)" using w1(5) True by simp
    from leave_rest_ok[OF w1(2,4) this, of env thesis] show ?thesis using that eq True w1(1,3) by simp
  qed
qed

lemma join_ok:
  assumes ok: "party_inv w" and P: "w_party w p = Some P" and x: "pl_party (w_player w x) = None"
    "x \<in> set (inviteList P)"
  obtains w' where "join env p x w = Some (True, w')" "party_inv w'"
proof -
  have okP: "party_ok {} w p P" by (rule world_okD(1)[OF ok P])
  define Q where "Q = P\<lparr>memberList := memberList P @ [x], inviteList := remove1 x (inviteList P)\<rparr>"
  define w1 where "w1 = upd_party p (\<lambda>P. P\<lparr>inviteList := remove1 x (inviteList P)\<rparr>)
    (snd (removePartyInvitation p x (setParty (Some p) x (upd_party p (\<lambda>P. P\<lparr>memberList := memberList P @ [x]\<rparr>) w))))"
  have w1: "w_party w1 = (w_party w)(p := Some Q)" "w_next w1 = w_next w"
    "w_player w1 = (w_player w)(x := (w_player w x)\<lparr>pl_party := Some p,
       pl_invites := remove1 p (pl_invites (w_player w x))\<rparr>)"
    using P by (simp_all add: w1_def removePartyInvitation_player upd_party_def Q_def setParty_def)
  have notMem: "x \<notin> set (memberList P)" "\<not> pl_removed (w_player w x)" using okP x by (auto simp: party_ok_def)
  have inv1: "party_inv w1"
  proof (rule world_upd[OF ok _ w1(1)])
    show "party_ok {} w1 p Q"
      using okP x notMem unfolding party_ok_def w1
      by (auto simp: Q_def distinct_remove1 canDisband_def dest: set_remove1_subset')
    show "y \<in> set (leader Q # memberList Q)" if "pl_party (w_player w1 y) = Some p" for y
      using world_okD(2)[OF ok, of y p] that P by (auto simp: Q_def w1 split: if_splits)
    show "y \<in> set (inviteList Q)" if "p \<in> set (pl_invites (w_player w1 y))" for y
      using world_okD(3)[OF ok, of p y] world_okD(4)[OF ok] that P by (auto simp: w1 Q_def split: if_splits)
  qed (use world_okD(4)[OF ok] x in \<open>auto simp: w1 distinct_remove1 in_set_remove1\<close>)
  have sc: "same_core w1 (updateSharedExperience env p w1)" by simp
  have "join env p x w = Some (True, updateSharedExperience env p w1)"
    using P okP x notMem by (simp add: join_def isPlayerMember_def isPlayerInvited_def w1_def Let_def)
  then show thesis using that same_core_ok[OF sc inv1] by blast
qed

text \<open>
  An invitation: into a party that is there, and into one that was made for it. The second passes
  through a party with nobody in it but its leader.
\<close>

lemma invitePlayer_ok:
  assumes ok: "party_inv w" and P: "w_party w p = Some P" and y: "\<not> pl_removed (w_player w y)"
    "pl_party (w_player w y) \<noteq> Some p"
  obtains b w' where "invitePlayer p y w = Some (b, w')" "party_inv w'"
proof (cases "y \<in> set (inviteList P)")
  case True
  then show ?thesis using that[of False w] ok P y by (simp add: invitePlayer_def isPlayerInvited_def)
next
  case False
  have okP: "party_ok {} w p P" by (rule world_okD(1)[OF ok P])
  have notInv: "p \<notin> set (pl_invites (w_player w y))" using world_okD(3)[OF ok, of p y] P False by auto
  define Q where "Q = P\<lparr>inviteList := inviteList P @ [y]\<rparr>"
  define w1 where "w1 = snd (addPartyInvitation p y (upd_party p (\<lambda>P. P\<lparr>inviteList := inviteList P @ [y]\<rparr>) w))"
  have w1: "w_party w1 = (w_party w)(p := Some Q)" "w_next w1 = w_next w"
    "w_player w1 = (w_player w)(y := (w_player w y)\<lparr>pl_invites := pl_invites (w_player w y) @ [p]\<rparr>)"
    using P notInv by (simp_all add: w1_def addPartyInvitation_def upd_party_def Q_def)
  have "party_inv w1"
  proof (rule world_upd[OF ok _ w1(1)])
    show "party_ok {} w1 p Q"
      using okP y False unfolding party_ok_def w1 by (auto simp: Q_def canDisband_def)
    show "z \<in> set (leader Q # memberList Q)" if "pl_party (w_player w1 z) = Some p" for z
      using world_okD(2)[OF ok, of z p] that P by (auto simp: Q_def w1 split: if_splits)
    show "z \<in> set (inviteList Q)" if "p \<in> set (pl_invites (w_player w1 z))" for z
      using world_okD(3)[OF ok, of p z] that P by (auto simp: w1 Q_def split: if_splits)
  qed (use world_okD(4)[OF ok] notInv in \<open>auto simp: w1\<close>)
  then show ?thesis
    using that[of True w1] P y False by (simp add: invitePlayer_def isPlayerInvited_def w1_def)
qed

lemma new_party_invite_ok:
  assumes ok: "party_inv w" and x: "\<not> pl_removed (w_player w x)" "pl_party (w_player w x) = None"
    and y: "\<not> pl_removed (w_player w y)" "pl_party (w_player w y) = None" "y \<noteq> x"
  obtains w' where "(case new_party x w of (p, w) \<Rightarrow> invitePlayer p y w) = Some (True, w')" "party_inv w'"
    "w_party w' (w_next w) = Some \<lparr>leader = x, memberList = [], inviteList = [y],
       sharedExpActive = False, sharedExpEnabled = False, pointMap = []\<rparr>"
proof -
  let ?p = "w_next w"
  define Q where "Q = \<lparr>leader = x, memberList = [], inviteList = [y],
       sharedExpActive = False, sharedExpEnabled = False, pointMap = []\<rparr>"
  have free: "w_party w ?p = None"
  proof (rule ccontr)
    assume "w_party w ?p \<noteq> None"
    then obtain P where "w_party w ?p = Some P" by blast
    from world_okD(1)[OF ok this] show False by (simp add: party_ok_def)
  qed
  have notInv: "?p \<notin> set (pl_invites (w_player w z))" for z using world_okD(3)[OF ok, of ?p z] free by auto
  have notIn: "pl_party (w_player w z) \<noteq> Some ?p" for z using world_okD(2)[OF ok, of z ?p] free by auto
  define w1 where "w1 = \<lparr>w_player = (w_player w)(x := (w_player w x)\<lparr>pl_party := Some ?p\<rparr>,
        y := (w_player w y)\<lparr>pl_invites := pl_invites (w_player w y) @ [?p]\<rparr>),
      w_party = (w_party w)(?p := Some Q), w_next = Suc ?p\<rparr>"
  have eq: "(case new_party x w of (p, w) \<Rightarrow> invitePlayer p y w) = Some (True, w1)"
    using y notInv
    by (simp add: new_party_def Let_def invitePlayer_def setParty_def isPlayerInvited_def upd_party_def
        addPartyInvitation_def Q_def w1_def)
  have w1: "w_party w1 = (w_party w)(?p := Some Q)" "w_next w1 = Suc ?p"
    "w_player w1 = (w_player w)(x := (w_player w x)\<lparr>pl_party := Some ?p\<rparr>,
        y := (w_player w y)\<lparr>pl_invites := pl_invites (w_player w y) @ [?p]\<rparr>)"
    by (simp_all add: w1_def)
  have "party_inv w1"
  proof (rule world_upd[OF ok _ w1(1)])
    show "party_ok {} w1 ?p Q" using x y unfolding party_ok_def w1 by (simp add: Q_def canDisband_def)
    show "z \<in> set (leader Q # memberList Q)" if "pl_party (w_player w1 z) = Some ?p" for z
      using that notIn y(2) by (simp add: w1 Q_def split: if_splits)
    show "z \<in> set (inviteList Q)" if "?p \<in> set (pl_invites (w_player w1 z))" for z
      using that notInv by (simp add: w1 Q_def split: if_splits)
  qed (use world_okD(4)[OF ok] notInv x y in \<open>auto simp: w1\<close>)
  then show thesis using that eq w1 by (simp add: Q_def)
qed

lemma setSharedExperience_ok:
  assumes ok: "party_inv w" and P: "w_party w p = Some P"
  obtains b w' where "setSharedExperience env p x active w = Some (b, w')" "party_inv w'"
proof -
  have sc: "same_core w (upd_party p (\<lambda>_. P') w)" if "core P' = core P" for P'
    using that P by (auto simp: same_core_def upd_party_def)
  have "\<exists>b w'. setSharedExperience env p x active w = Some (b, w') \<and> same_core w w'"
    using P by (simp add: setSharedExperience_def Let_def sc core_def ex_bool_eq)
  then obtain b w' where r: "setSharedExperience env p x active w = Some (b, w')" "same_core w w'" by blast
  then show thesis using that same_core_ok[OF r(2) ok] by blast
qed

section \<open>A player who disappears\<close>

definition set_invites :: "nat \<Rightarrow> nat list \<Rightarrow> pworld \<Rightarrow> pworld" where
  "set_invites x ps w = w\<lparr>w_player := (w_player w)(x := (w_player w x)\<lparr>pl_invites := ps\<rparr>)\<rparr>"

lemma set_invites_party [simp]: "w_party (set_invites x ps w) = w_party w"
  by (simp add: set_invites_def)

lemma setParty_set_invites: "setParty v y (set_invites x ps w) = set_invites x ps (setParty v y w)"
  by (auto simp: setParty_def set_invites_def fun_eq_iff intro!: pworld.equality pplayer.equality)

lemma fold_setParty_set_invites:
  "fold (setParty v) ys (set_invites x ps w) = set_invites x ps (fold (setParty v) ys w)"
  by (induction ys arbitrary: w) (simp_all add: setParty_set_invites)

lemma disband_set_invites:
  "w_party w p = Some P \<Longrightarrow> inviteList P = [] \<Longrightarrow>
     disband p (set_invites x ps w) = map_option (set_invites x ps) (disband p w)"
  by (simp add: disband_def Let_def setParty_set_invites fold_setParty_set_invites) (simp add: set_invites_def)

lemma removeInvite_set_invites:
  "removeInvite p x (set_invites x [] w) = map_option (\<lambda>(b, w). (b, set_invites x [] w)) (removeInvite p x w)"
proof (cases "w_party w p")
  case None
  then show ?thesis by (simp add: removeInvite_def)
next
  case (Some P)
  define P' where "P' = P\<lparr>inviteList := remove1 x (inviteList P)\<rparr>"
  define w1 where "w1 = snd (removePartyInvitation p x (upd_party p (\<lambda>_. P') w))"
  have w1: "w_party w1 p = Some P'" using Some by (simp add: w1_def removePartyInvitation_player upd_party_def)
  have comm: "snd (removePartyInvitation p x (upd_party p (\<lambda>_. P') (set_invites x [] w))) = set_invites x [] w1"
    by (auto simp: removePartyInvitation_def set_invites_def upd_party_def w1_def)
  have "isPlayerInvited (set_invites x [] w) P x False = isPlayerInvited w P x False"
    by (simp add: isPlayerInvited_def set_invites_def)
  moreover have "disband p (set_invites x [] w1) = map_option (set_invites x []) (disband p w1)" if "canDisband P'"
    using disband_set_invites[OF w1] that by (simp add: canDisband_def)
  ultimately show ?thesis
    using Some by (auto simp: removeInvite_def Let_def comm option.map_comp comp_def simp flip: P'_def w1_def)
qed

lemma clear_invitations_set_invites:
  "clear_invitations ps x (set_invites x [] w) = map_option (set_invites x []) (clear_invitations ps x w)"
proof (induction ps arbitrary: w)
  case (Cons p ps)
  then show ?case by (cases "removeInvite p x w") (auto simp: removeInvite_set_invites)
qed simp

lemma clear_invitations_ok:
  "party_inv w \<Longrightarrow> pl_invites (w_player w x) = ps \<Longrightarrow>
     \<exists>w'. clear_invitations ps x w = Some w' \<and> party_inv w' \<and> pl_invites (w_player w' x) = []
       \<and> (\<forall>y. pl_removed (w_player w' y) = pl_removed (w_player w y))"
proof (induction ps arbitrary: w)
  case (Cons p ps)
  from removeInvite_ok[OF Cons.prems(1), of p x] Cons.prems(2)
  obtain w1 where w1: "removeInvite p x w = Some (True, w1)" "party_inv w1" "pl_invites (w_player w1 x) = ps"
    "\<And>y. pl_removed (w_player w1 y) = pl_removed (w_player w y)" by auto
  show ?case using Cons.IH[OF w1(2,3)] w1 by simp
qed auto

lemma clearPartyInvitations_ok:
  assumes "party_inv w"
  obtains w' where "clearPartyInvitations x w = Some w'" "party_inv w'" "pl_invites (w_player w' x) = []"
    "\<And>y. pl_removed (w_player w' y) = pl_removed (w_player w y)"
proof -
  obtain w' where w': "clear_invitations (pl_invites (w_player w x)) x w = Some w'" "party_inv w'"
    "pl_invites (w_player w' x) = []" "\<forall>y. pl_removed (w_player w' y) = pl_removed (w_player w y)"
    using clear_invitations_ok[OF assms refl] by blast
  have "(w_player w' x)\<lparr>pl_invites := []\<rparr> = w_player w' x" by (rule pplayer.equality) (simp_all add: w'(3))
  then have "set_invites x [] w' = w'" by (simp add: set_invites_def)
  moreover have "clearPartyInvitations x w = map_option (set_invites x []) (clear_invitations (pl_invites (w_player w x)) x w)"
    by (simp add: clearPartyInvitations_def clear_invitations_set_invites flip: set_invites_def)
  ultimately show thesis using that w' by simp
qed

lemma player_disappears_ok:
  assumes ok: "party_inv w"
  obtains w' where "player_disappears env x w = Some w'" "party_inv w'" "pl_removed (w_player w' x)"
proof (cases "pl_removed (w_player w x)")
  case True
  then show ?thesis using that ok by (simp add: player_disappears_def)
next
  case False
  obtain w1 where w1: "clearPartyInvitations x w = Some w1" "party_inv w1" "pl_invites (w_player w1 x) = []"
    by (rule clearPartyInvitations_ok[OF ok]) blast
  obtain w2 where w2: "(case pl_party (w_player w1 x) of None \<Rightarrow> Some w1
      | Some p \<Rightarrow> map_option snd (leave env p x w1)) = Some w2" "party_inv w2"
    "pl_party (w_player w2 x) = None" "pl_invites (w_player w2 x) = []"
  proof (cases "pl_party (w_player w1 x)")
    case None
    then show ?thesis using that w1 by simp
  next
    case (Some p)
    show ?thesis by (rule leave_ok[OF w1(2) Some, of env thesis]) (use that w1(3) Some in simp)
  qed
  let ?w = "w2\<lparr>w_player := (w_player w2)(x := (w_player w2 x)\<lparr>pl_removed := True\<rparr>)\<rparr>"
  have "party_inv ?w"
  proof -
    have "party_ok {} ?w p P" if "w_party w2 p = Some P" for p P
    proof -
      have *: "party_ok {} w2 p P" by (rule world_okD(1)[OF w2(2) that])
      have "x \<notin> set (leader P # memberList P @ inviteList P)"
        using * w2(3,4) by (auto simp: party_ok_def)
      then show ?thesis using * unfolding party_ok_def by auto
    qed
    then show ?thesis using w2(2) unfolding world_ok_def by (simp add: w2(3,4))
  qed
  then show ?thesis using that w1(1) w2(1) False by (simp add: player_disappears_def)
qed

lemma player_enters_ok:
  assumes ok: "party_inv w"
  shows "party_inv (player_enters x pl w)"
proof (cases "pl_removed (w_player w x)")
  case True
  let ?w = "player_enters x pl w"
  have pt: "w_party ?w = w_party w" by (simp add: player_enters_def)
  have away: "x \<notin> set (leader P # memberList P @ inviteList P)" if "party_ok {} w p P" for p P
    using that True by (auto simp: party_ok_def)
  have "party_ok {} ?w p P" if "w_party w p = Some P" for p P
    using world_okD(1)[OF ok that] away[OF world_okD(1)[OF ok that]] unfolding party_ok_def player_enters_def
    by auto
  then show ?thesis using world_okD(2-4)[OF ok] unfolding world_ok_def pt
    by (auto simp: player_enters_def)
qed (use ok in \<open>simp add: player_enters_def\<close>)

section \<open>The requests keep the store consistent\<close>

lemma isInviting_defined:
  assumes "party_inv w"
  obtains b where "isInviting w y x = Some b"
    "b = (\<not> pl_removed (w_player w x) \<and> (\<exists>p P. pl_party (w_player w y) = Some p \<and> w_party w p = Some P
           \<and> leader P = y \<and> x \<in> set (inviteList P)))"
proof (cases "pl_party (w_player w y)")
  case None
  then show ?thesis by (intro that[OF _ refl]) (simp add: isInviting_def)
next
  case (Some p)
  obtain P where "w_party w p = Some P" using world_okD(2)[OF assms Some] by blast
  then show ?thesis using Some by (intro that[OF _ refl]) (auto simp: isInviting_def isPlayerInvited_def)
qed

text \<open>A request that comes back at all leaves a good store.\<close>

fun good :: "pworld option \<Rightarrow> bool" where
  "good None = False"
| "good (Some w) = party_inv w"

lemma playerInviteToParty_good:
  assumes ok: "party_inv w"
  shows "good (map_option snd (playerInviteToParty x y w))"
proof -
  obtain b where b: "isInviting w y x = Some b" by (rule isInviting_defined[OF ok])
  show ?thesis
  proof (cases "pl_removed (w_player w x) \<or> pl_removed (w_player w y) \<or> b \<or> pl_party (w_player w y) \<noteq> None \<or> y = x")
    case True
    then show ?thesis using ok b by (auto simp: playerInviteToParty_def)
  next
    case False
    show ?thesis
    proof (cases "pl_party (w_player w x)")
      case None
      obtain w' where "(case new_party x w of (p, w) \<Rightarrow> invitePlayer p y w) = Some (True, w')" "party_inv w'"
        by (rule new_party_invite_ok[OF ok, of x y]) (use False None in auto)
      then show ?thesis using False None b by (simp add: playerInviteToParty_def)
    next
      case (Some p)
      obtain P where P: "w_party w p = Some P" using world_okD(2)[OF ok Some] by blast
      obtain c w' where "invitePlayer p y w = Some (c, w')" "party_inv w'"
        by (rule invitePlayer_ok[OF ok P, of y]) (use False in auto)
      then show ?thesis using False Some b P ok by (simp add: playerInviteToParty_def)
    qed
  qed
qed

lemma playerJoinParty_good:
  assumes ok: "party_inv w"
  shows "good (map_option snd (playerJoinParty env x y w))"
proof -
  obtain b where b: "isInviting w y x = Some b"
    "b = (\<not> pl_removed (w_player w x) \<and> (\<exists>p P. pl_party (w_player w y) = Some p \<and> w_party w p = Some P
           \<and> leader P = y \<and> x \<in> set (inviteList P)))"
    by (rule isInviting_defined[OF ok])
  show ?thesis
  proof (cases "\<not> pl_removed (w_player w x) \<and> \<not> pl_removed (w_player w y) \<and> b \<and> pl_party (w_player w x) = None")
    case False
    then show ?thesis using ok b by (auto simp: playerJoinParty_def)
  next
    case True
    then obtain p P where p: "pl_party (w_player w y) = Some p" "w_party w p = Some P" "x \<in> set (inviteList P)"
      using b(2) by blast
    obtain w' where "join env p x w = Some (True, w')" "party_inv w'"
      by (rule join_ok[OF ok p(2), of x]) (use True p in auto)
    then show ?thesis using True b(1) p by (simp add: playerJoinParty_def)
  qed
qed

lemma playerRevoke_good:
  assumes ok: "party_inv w"
  shows "good (map_option snd (playerRevokePartyInvitation x y w))"
proof (cases "pl_removed (w_player w x) \<or> pl_party (w_player w x) = None")
  case True
  then show ?thesis using ok by (auto simp: playerRevokePartyInvitation_def split: option.splits bool.splits)
next
  case False
  then obtain p where p: "pl_party (w_player w x) = Some p" "\<not> pl_removed (w_player w x)" by blast
  obtain P where P: "w_party w p = Some P" using world_okD(2)[OF ok p(1)] by blast
  obtain b where b: "isInviting w x y = Some b" "b = (\<not> pl_removed (w_player w y) \<and> (\<exists>p P. pl_party (w_player w x) = Some p
    \<and> w_party w p = Some P \<and> leader P = x \<and> y \<in> set (inviteList P)))"
    by (rule isInviting_defined[OF ok])
  show ?thesis
  proof (cases "leader P = x \<and> \<not> pl_removed (w_player w y) \<and> b")
    case False
    then show ?thesis using ok b(1) p P by (auto simp: playerRevokePartyInvitation_def leader_of_def)
  next
    case True
    then have "y \<in> set (inviteList P)" using b(2) p P by auto
    then have "p \<in> set (pl_invites (w_player w y))" using world_okD(1)[OF ok P] by (simp add: party_ok_def)
    from removeInvite_ok[OF ok this] obtain w' where "removeInvite p y w = Some (True, w')" "party_inv w'" by blast
    then show ?thesis using True b(1) p P
      by (simp add: playerRevokePartyInvitation_def leader_of_def revokeInvitation_def)
  qed
qed

lemma playerPass_good:
  assumes ok: "party_inv w"
  shows "good (map_option snd (playerPassPartyLeadership env x y w))"
proof (cases "pl_removed (w_player w x) \<or> pl_party (w_player w x) = None")
  case True
  then show ?thesis using ok by (auto simp: playerPassPartyLeadership_def split: option.splits bool.splits)
next
  case False
  then obtain p where p: "pl_party (w_player w x) = Some p" "\<not> pl_removed (w_player w x)" by blast
  obtain P where P: "w_party w p = Some P" using world_okD(2)[OF ok p(1)] by blast
  show ?thesis
  proof (cases "y \<in> set (memberList P)")
    case True
    from passLeadership_ok[OF ok P True, of env]
    obtain w' where "passLeadership env p y w = Some (True, w')" "party_inv w'" by blast
    then show ?thesis using ok p P by (simp add: playerPassPartyLeadership_def leader_of_def)
  next
    case False
    then have "passLeadership env p y w = Some (False, w)"
      using P by (simp add: passLeadership_def isPlayerMember_def)
    then show ?thesis using ok p P by (simp add: playerPassPartyLeadership_def leader_of_def)
  qed
qed

lemma playerLeave_good:
  assumes ok: "party_inv w"
  shows "good (map_option snd (playerLeaveParty env x forced w))"
proof (cases "pl_party (w_player w x)")
  case None
  then show ?thesis using ok by (simp add: playerLeaveParty_def split: bool.split)
next
  case (Some p)
  from leave_ok[OF ok Some, of env] obtain w' where "leave env p x w = Some (True, w')" "party_inv w'" by blast
  then show ?thesis using ok Some by (simp add: playerLeaveParty_def split: bool.split)
qed

lemma playerShare_good:
  assumes ok: "party_inv w"
  shows "good (map_option snd (playerSharePartyExperience env x activate w))"
proof (cases "pl_party (w_player w x)")
  case None
  then show ?thesis using ok by (simp add: playerSharePartyExperience_def)
next
  case (Some p)
  obtain P where P: "w_party w p = Some P" using world_okD(2)[OF ok Some] by blast
  from setSharedExperience_ok[OF ok P, of env x activate]
  obtain b w' where "setSharedExperience env p x activate w = Some (b, w')" "party_inv w'" by blast
  then show ?thesis using ok Some by (simp add: playerSharePartyExperience_def)
qed

lemma on_party_good:
  assumes ok: "party_inv w" and f: "\<And>p. same_core w (f p w)"
  shows "good (on_party x f w)"
proof (cases "pl_party (w_player w x)")
  case None
  then show ?thesis using ok by (simp add: on_party_def)
next
  case (Some p)
  obtain P where P: "w_party w p = Some P" using world_okD(2)[OF ok Some] by blast
  then show ?thesis using Some same_core_ok[OF f ok] by (simp add: on_party_def)
qed

lemma points_same_core [simp]:
  "same_core w (addPlayerHealedMember env p x points w)"
  "same_core w (addPlayerDamageMonster env p x points w)"
proof -
  have *: "same_core w (updateSharedExperience env p (upd_party p (\<lambda>P. P\<lparr>pointMap := g P\<rparr>) w))" for g
    by (rule same_core_trans[OF _ updateShared_same_core]) (rule upd_party_same_core, simp add: core_def)
  show "same_core w (addPlayerHealedMember env p x points w)" by (simp add: addPlayerHealedMember_def *)
  show "same_core w (addPlayerDamageMonster env p x points w)" by (simp add: addPlayerDamageMonster_def *)
qed

lemma player_changes_ok:
  assumes ok: "party_inv w"
  shows "party_inv (player_changes x lv pos infight gm w)"
proof -
  let ?w = "player_changes x lv pos infight gm w"
  have eq: "w_party ?w = w_party w" "w_next ?w = w_next w" "\<And>y. pl_party (w_player ?w y) = pl_party (w_player w y)"
    "\<And>y. pl_removed (w_player ?w y) = pl_removed (w_player w y)" "\<And>y. pl_invites (w_player ?w y) = pl_invites (w_player w y)"
    by (simp_all add: player_changes_def)
  show ?thesis using ok unfolding world_ok_def party_ok_def eq .
qed

lemma on_party_goods:
  assumes ok: "party_inv w"
  shows "good (onCreatureMove env x w)" "good (onIdleStatus env x w)"
    "good (onAttackedCreatureDrain env x hostile points w)"
    "good (onTargetCreatureGainHealth env x target points w)"
  unfolding onCreatureMove_def onIdleStatus_def onAttackedCreatureDrain_def onTargetCreatureGainHealth_def
  by (auto simp: ok intro!: on_party_good[OF ok])

lemma player_disappears_good:
  assumes ok: "party_inv w"
  shows "good (player_disappears env x w)"
  by (rule player_disappears_ok[OF ok, of env x]) simp

lemmas request_good = playerInviteToParty_good playerJoinParty_good playerRevoke_good playerPass_good
  playerLeave_good playerShare_good player_disappears_good on_party_goods

lemma party_step_good:
  assumes ok: "party_inv w"
  shows "good (party_step r w)"
proof -
  obtain env q where r: "r = (env, q)" by (cases r)
  show ?thesis unfolding r
    by (cases q; simp only: party_step.simps good.simps)
      (rule request_good[OF ok] player_enters_ok[OF ok] player_changes_ok[OF ok])+
qed

interpretation parties: guarded_machine "\<lambda>r w. Option.bind w (party_step r)" good
proof
  fix s and r
  assume "good s"
  then obtain w where "s = Some w" "party_inv w" by (cases s) auto
  then show "good (Option.bind s (party_step r))" using party_step_good[of w r] by simp
qed

lemma empty_world_ok: "party_inv empty_world"
  by (simp add: world_ok_def empty_world_def offline_def)

section \<open>Properties\<close>

lemma party_run_good: "good (party_run rs)"
  unfolding party_run_def by (rule parties.run_inv) (simp add: empty_world_ok)

text \<open>
  C5. Whatever the players ask for, in any order and at any time, no request uses a party that
  was deleted, and the pointers between players and parties agree afterwards: leaders and members
  point back at their party, invitations are known on both sides, nobody who is gone is pointed
  at, and no party is left without members and invitations.
\<close>

theorem parties_never_dangle: "\<exists>w. party_run rs = Some w \<and> party_inv w"
  using party_run_good[of rs] by (cases "party_run rs") simp_all

definition demo_env :: share_env where
  "demo_env = \<lparr>minLevel = (\<lambda>h. (2 * h + 2) div 3), shareRadius = Position 30 30 1,
     shareActivity = 120000, shareNow = 1000\<rparr>"

text \<open>
  A player who disappears, after whatever happened before, is in no party afterwards: no
  leader, no member, not invited.
\<close>

theorem disappeared_in_no_party:
  "\<exists>w. party_run (rs @ [(env, Disappear x)]) = Some w
     \<and> (\<forall>p. case w_party w p of None \<Rightarrow> True
              | Some P \<Rightarrow> x \<notin> set (leader P # memberList P @ inviteList P))"
proof -
  obtain w where w: "party_run rs = Some w" "party_inv w" using party_run_good[of rs] by (cases "party_run rs") simp_all
  obtain w' where w': "player_disappears env x w = Some w'" "party_inv w'" "pl_removed (w_player w' x)"
    by (rule player_disappears_ok[OF w(2)])
  have "x \<notin> set (leader P # memberList P @ inviteList P)" if "w_party w' p = Some P" for p P
    using world_okD(1)[OF w'(2) that] w'(3) by (auto simp: party_ok_def)
  moreover have "party_run (rs @ [(env, Disappear x)]) = Some w'"
    using w(1) w'(1) by (simp add: party_run_def)
  ultimately show ?thesis by (auto split: option.split)
qed

lemma highest_level_Max:
  "highest_level w P = Max (set (List.map (\<lambda>x. pl_level (w_player w x)) (leader P # memberList P)))"
proof -
  have "fold (\<lambda>x h. if l x > h then l x else h) xs a = Max (set (a # List.map l xs))" for l :: "nat \<Rightarrow> nat" and xs a
  proof -
    have "(\<lambda>x h. if l x > h then l x else h) = max \<circ> l" by (auto simp: fun_eq_iff max_def)
    then show ?thesis by (simp only: Max.set_eq_fold fold_map)
  qed
  from this[of "\<lambda>x. pl_level (w_player w x)" "memberList P" "pl_level (w_player w (leader P))"]
  show ?thesis by (simp add: highest_level_def)
qed

text \<open>
  What shared experience asks for: there are members, and each of them and the leader is online, has the
  least level that the highest level of the party asks for, is near the leader, and has fought or healed
  within the activity time.
\<close>

definition share_ready :: "share_env \<Rightarrow> pworld \<Rightarrow> party \<Rightarrow> bool" where
  "share_ready env w P \<longleftrightarrow> memberList P \<noteq> []
     \<and> (\<forall>x\<in>set (leader P # memberList P). \<not> pl_removed (w_player w x)
         \<and> minLevel env (Max (set (List.map (\<lambda>x. pl_level (w_player w x)) (leader P # memberList P)))) \<le> pl_level (w_player w x)
         \<and> areInRange (shareRadius env) (pl_position (w_player w (leader P))) (pl_position (w_player w x))
         \<and> (\<exists>b. om_lookup (pointMap P) x = Some b \<and> shareNow env - ticks b \<le> shareActivity env))"

lemma canUse_iff:
  "canUseSharedExperience env w P x (highest_level w P) \<longleftrightarrow> \<not> pl_removed (w_player w x)
     \<and> minLevel env (highest_level w P) \<le> pl_level (w_player w x)
     \<and> areInRange (shareRadius env) (pl_position (w_player w (leader P))) (pl_position (w_player w x))
     \<and> (\<exists>b. om_lookup (pointMap P) x = Some b \<and> shareNow env - ticks b \<le> shareActivity env)"
proof -
  have *: "(if highest_level w P = 0 then highest_level w P else highest_level w P) = highest_level w P" by simp
  show ?thesis
    unfolding canUseSharedExperience_def Let_def * by (cases "om_lookup (pointMap P) x") (simp_all add: not_less del: om_lookup_None)
qed

lemma canEnable_iff: "canEnableSharedExperience env w P \<longleftrightarrow> share_ready env w P"
  unfolding canEnableSharedExperience_def share_ready_def Let_def canUse_iff highest_level_Max[symmetric]
    list_all_iff by auto

text \<open>The flag of a party that shares experience is what it should be now.\<close>

definition share_current :: "share_env \<Rightarrow> nat \<Rightarrow> pworld \<Rightarrow> bool" where
  "share_current env p w \<longleftrightarrow> (\<forall>P. w_party w p = Some P \<and> sharedExpActive P \<longrightarrow>
     (sharedExpEnabled P \<longleftrightarrow> share_ready env w P))"

lemma share_ready_upd [simp]: "share_ready env (upd_party p f w) P = share_ready env w P"
  by (simp add: share_ready_def upd_party_def)

lemma share_ready_enabled [simp]: "share_ready env w (P\<lparr>sharedExpEnabled := b\<rparr>) = share_ready env w P"
  by (simp add: share_ready_def)

lemma update_current: "share_current env p (updateSharedExperience env p w)"
proof (cases "w_party w p")
  case (Some P)
  have "w_party (updateSharedExperience env p w) p = Some (update_shared env w P)"
    using Some by (simp add: updateSharedExperience_def upd_party_def)
  moreover have "share_ready env (updateSharedExperience env p w) (update_shared env w P) = share_ready env w P"
    by (simp add: updateSharedExperience_def update_shared_def Let_def)
  moreover have "sharedExpActive (update_shared env w P) \<longrightarrow>
      (sharedExpEnabled (update_shared env w P) \<longleftrightarrow> share_ready env w P)"
    by (simp add: update_shared_def Let_def canEnable_iff)
  ultimately show ?thesis
    unfolding share_current_def by (metis option.inject)
qed (simp add: share_current_def updateSharedExperience_def upd_party_def)

lemma clearPlayerPoints_current: "share_current env p w \<Longrightarrow> share_current env p (clearPlayerPoints env p x w)"
  by (auto simp: clearPlayerPoints_def update_current split: option.split)

lemma disband_current: "disband p w = Some w' \<Longrightarrow> share_current env p w'"
  by (auto simp: disband_def share_current_def Let_def split: option.splits)

lemma leave_current:
  assumes "leave env p x w = Some (True, w')"
  shows "share_current env p w'"
proof -
  have "share_current env p (clearPlayerPoints env p x (updateSharedExperience env p v))" for v
    by (rule clearPlayerPoints_current[OF update_current])
  then show ?thesis using assms
    by (auto simp: leave_def Let_def intro: disband_current split: option.splits if_splits Option.bind_splits)
qed

lemma setSharedExperience_current:
  assumes "setSharedExperience env p x True w = Some (True, w')" "w_party w p = Some P" "\<not> sharedExpActive P"
  shows "share_current env p w'"
  using assms by (auto simp: setSharedExperience_def share_current_def upd_party_def Let_def canEnable_iff
      share_ready_def split: if_splits)

text \<open>
  C6. Whenever somebody has joined or left a party, has become its leader, has hurt a monster, healed a
  partner or moved, and when the leader turns shared experience on, its flag is right: if the party
  shares experience, it is set exactly when there are members, and each of them and the leader is
  online, near the leader, of the least level for the highest of them, and was active in time.
\<close>

theorem shared_experience_current:
  "(join env p x w = Some (True, w') \<longrightarrow> share_current env p w')
   \<and> (leave env p x w = Some (True, w') \<longrightarrow> share_current env p w')
   \<and> (passLeadership env p x w = Some (True, w') \<longrightarrow> share_current env p w')
   \<and> (setSharedExperience env p x True w = Some (True, w')
        \<and> (\<exists>P. w_party w p = Some P \<and> \<not> sharedExpActive P) \<longrightarrow> share_current env p w')
   \<and> (points \<noteq> 0 \<longrightarrow> share_current env p (addPlayerDamageMonster env p x points w)
        \<and> share_current env p (addPlayerHealedMember env p x points w))
   \<and> (pl_party (w_player w x) = Some p \<and> onCreatureMove env x w = Some w' \<longrightarrow> share_current env p w')"
  using leave_current[of env p x w w'] setSharedExperience_current[of env p x w w']
  by (auto simp: join_def passLeadership_def addPlayerDamageMonster_def addPlayerHealedMember_def Let_def
      onCreatureMove_def on_party_def update_current split: option.splits if_splits)

text \<open>Two fighters share experience; a third player joins, who has not fought: they share no more.\<close>

definition sharing_run :: "(share_env \<times> party_request) list" where
  "sharing_run = List.map (Pair demo_env)
     [Enter 1 offline, Enter 2 offline, Enter 3 offline, Invite 1 2, Join 2 1, Invite 1 3, Share 1 True,
      Drain 1 True 7, Drain 2 True 5]"

theorem shared_experience_current_witness:
  "case party_run sharing_run of None \<Rightarrow> False | Some w \<Rightarrow>
     map_option sharedExpEnabled (w_party w 0) = Some True
     \<and> (case join demo_env 0 3 w of Some (True, w') \<Rightarrow> share_current demo_env 0 w'
            \<and> map_option (\<lambda>P. (sharedExpActive P, sharedExpEnabled P)) (w_party w' 0) = Some (True, False)
        | _ \<Rightarrow> False)"
proof -
  have "map_option (\<lambda>w. (map_option sharedExpEnabled (w_party w 0), map_option (\<lambda>(b, w').
        (b, map_option (\<lambda>P. (sharedExpActive P, sharedExpEnabled P)) (w_party w' 0))) (join demo_env 0 3 w)))
      (party_run sharing_run) = Some (Some True, Some (True, Some (True, False)))"
    by code_simp
  then obtain w w' P' where w: "party_run sharing_run = Some w" "map_option sharedExpEnabled (w_party w 0) = Some True"
    "join demo_env 0 3 w = Some (True, w')"
    "map_option (\<lambda>P. (sharedExpActive P, sharedExpEnabled P)) (w_party w' 0) = Some (True, False)"
    by auto
  have "share_current demo_env 0 w'"
    using shared_experience_current[of demo_env 0 3 w w'] w(3) by blast
  with w show ?thesis by simp
qed

end
