(* ===== verification/Containers.thy ===== *)
theory Containers
  imports Prelude "HOL-Library.Multiset"
begin

text \<open>
  \<^verbatim>\<open>container.h\<close> / \<^verbatim>\<open>container.cpp\<close>: items that hold items. Items point at the cylinder they are
  in, containers at the items they hold, so the state is a store of items by address. A loop over
  parents is a \<^theory_text>\<open>partial_function\<close>: \<^const>\<open>None\<close> means that it does not end. Weights are counted in
  hundredths, the unit of the item table; the rounding of the code's floating-point sums is left
  out. What the clients are sent is left out.
\<close>

section \<open>Items and containers\<close>

text \<open>A cylinder that is no item (a tile, a creature, the virtual cylinder) is a number.\<close>

datatype cylinder = InItem nat | Other nat

record container =
  maxSize :: nat
  totalWeight :: int
  itemlist :: "nat list"

record citem =
  it_id :: nat
  it_count :: u8
  it_fluid :: u16
  it_charges :: u16
  it_parent :: "cylinder option"
  it_depotLimit :: "nat option"
  it_content :: "container option"

type_synonym items = "nat \<Rightarrow> citem"

record item_type =
  stackable :: bool
  pickupable :: bool
  movable :: bool
  fluid :: bool
  charged :: bool
  weight :: nat

datatype return_value = RET_NOERROR | RET_NOTPOSSIBLE | RET_CANNOTPICKUP | RET_THISISIMPOSSIBLE
  | RET_CONTAINERNOTENOUGHROOM | RET_NOTMOVABLE | RET_DEPOTISFULL | RET_NEEDEXCHANGE | RET_OTHER nat

definition own_weight :: "(nat \<Rightarrow> item_type) \<Rightarrow> citem \<Rightarrow> int" where
  "own_weight types x =
     (let t = types (it_id x) in
      if stackable t then int (weight t) * max 1 (uint (it_count x)) else int (weight t))"

definition getWeight :: "(nat \<Rightarrow> item_type) \<Rightarrow> citem \<Rightarrow> int" where
  "getWeight types x = own_weight types x + (case it_content x of None \<Rightarrow> 0 | Some c \<Rightarrow> totalWeight c)"

definition getSubType :: "(nat \<Rightarrow> item_type) \<Rightarrow> citem \<Rightarrow> u16" where
  "getSubType types x =
     (let t = types (it_id x) in
      if fluid t then it_fluid x else if charged t then it_charges x else ucast (it_count x))"

definition setSubType :: "(nat \<Rightarrow> item_type) \<Rightarrow> u16 \<Rightarrow> citem \<Rightarrow> citem" where
  "setSubType types n x =
     (let t = types (it_id x) in
      if fluid t then x\<lparr>it_fluid := n\<rparr> else if charged t then x\<lparr>it_charges := n\<rparr> else x\<lparr>it_count := ucast n\<rparr>)"

definition upd_content :: "nat \<Rightarrow> (container \<Rightarrow> container) \<Rightarrow> items \<Rightarrow> items" where
  "upd_content c f s = s(c := (s c)\<lparr>it_content := map_option f (it_content (s c))\<rparr>)"

definition setParent :: "nat \<Rightarrow> cylinder option \<Rightarrow> items \<Rightarrow> items" where
  "setParent i p s = s(i := (s i)\<lparr>it_parent := p\<rparr>)"

definition content :: "items \<Rightarrow> nat \<Rightarrow> nat list" where
  "content s c = (case it_content (s c) of None \<Rightarrow> [] | Some k \<Rightarrow> itemlist k)"

section \<open>Parents\<close>

definition getParentContainer :: "items \<Rightarrow> nat \<Rightarrow> nat option" where
  "getParentContainer s i =
     (case it_parent (s i) of
        Some (InItem c) \<Rightarrow> if it_content (s c) \<noteq> None then Some c else None
      | _ \<Rightarrow> None)"

partial_function (option) updateItemWeight :: "nat \<Rightarrow> int \<Rightarrow> items \<Rightarrow> items option" where
  "updateItemWeight c diff s =
     (let s = upd_content c (\<lambda>k. k\<lparr>totalWeight := totalWeight k + diff\<rparr>) s in
      case getParentContainer s c of
        None \<Rightarrow> Some s
      | Some p \<Rightarrow> updateItemWeight p diff s)"

declare updateItemWeight.simps [code]

text \<open>The container items around an item, inside out, and the cylinder around all of them.\<close>

partial_function (option) climb :: "items \<Rightarrow> nat \<Rightarrow> (nat list \<times> nat option) option" where
  "climb s i =
     (case it_parent (s i) of
        None \<Rightarrow> Some ([], None)
      | Some y \<Rightarrow>
          (case y of
             Other k \<Rightarrow> Some ([], Some k)
           | InItem c \<Rightarrow> Option.bind (climb s c) (\<lambda>r. Some (c # fst r, snd r))))"

declare climb.simps [code]

text \<open>
  \<open>getTopParent\<close>: the cylinder just inside the outermost one; \<open>has_parent\<close> tells whether another
  cylinder is in one itself, as a creature is on a tile. An item that is no container is no
  cylinder: it gives way to what it is in, and is \<^const>\<open>None\<close> (a null pointer) when it is nowhere.
\<close>

definition this_cylinder :: "items \<Rightarrow> nat \<Rightarrow> cylinder option" where
  "this_cylinder s i = (if it_content (s i) \<noteq> None then Some (InItem i) else None)"

definition top_parent :: "(nat \<Rightarrow> bool) \<Rightarrow> items \<Rightarrow> nat \<Rightarrow> nat list \<times> nat option \<Rightarrow> cylinder option" where
  "top_parent has_parent s i r =
     (case snd r of
        Some k \<Rightarrow>
          if has_parent k then Some (Other k)
          else if fst r \<noteq> [] then Some (InItem (last (fst r)))
          else (case this_cylinder s i of None \<Rightarrow> Some (Other k) | prev \<Rightarrow> prev)
      | None \<Rightarrow>
          (case rev (fst r) of
             [] \<Rightarrow> this_cylinder s i
           | [c] \<Rightarrow> (case this_cylinder s i of None \<Rightarrow> Some (InItem c) | prev \<Rightarrow> prev)
           | c # c' # _ \<Rightarrow> Some (InItem c')))"

definition getTopParent :: "(nat \<Rightarrow> bool) \<Rightarrow> items \<Rightarrow> nat \<Rightarrow> cylinder option option" where
  "getTopParent has_parent s i = Option.bind (climb s i) (\<lambda>r. Some (top_parent has_parent s i r))"

definition capacity :: "container \<Rightarrow> nat" where
  "capacity k = (if maxSize k \<noteq> 0 then maxSize k else min 255 (length (itemlist k) + 1))"

definition full :: "container \<Rightarrow> bool" where
  "full k = (if maxSize k \<noteq> 0 then length (itemlist k) \<ge> maxSize k else (255::nat) \<noteq> 0)"

section \<open>The iterator\<close>

text \<open>
  The iterator is a queue of containers and what is left of the list of the first one. It goes
  through all the items inside, level by level; at the end the queue is empty.
\<close>

record iter =
  it_over :: "nat list"
  it_current :: "nat list"

definition iter_begin :: "items \<Rightarrow> nat \<Rightarrow> iter" where
  "iter_begin s c =
     (if content s c = [] then \<lparr>it_over = [], it_current = []\<rparr>
      else \<lparr>it_over = [c], it_current = content s c\<rparr>)"

definition iter_next :: "items \<Rightarrow> iter \<Rightarrow> iter" where
  "iter_next s it =
     (let x = hd (it_current it);
          over = (if it_content (s x) \<noteq> None \<and> content s x \<noteq> [] then it_over it @ [x] else it_over it);
          current = List.tl (it_current it)
      in if current \<noteq> [] then \<lparr>it_over = over, it_current = current\<rparr>
         else case List.tl over of
           [] \<Rightarrow> \<lparr>it_over = [], it_current = []\<rparr>
         | c # cs \<Rightarrow> \<lparr>it_over = c # cs, it_current = content s c\<rparr>)"

partial_function (option) iter_items :: "items \<Rightarrow> iter \<Rightarrow> nat list option" where
  "iter_items s it =
     (if it_over it = [] then Some []
      else Option.bind (iter_items s (iter_next s it)) (\<lambda>xs. Some (hd (it_current it) # xs)))"

declare iter_items.simps [code]

definition getItemHoldingCount :: "items \<Rightarrow> nat \<Rightarrow> nat option" where
  "getItemHoldingCount s c = Option.bind (iter_items s (iter_begin s c)) (\<lambda>xs. Some (length xs))"

definition isHoldingItem :: "items \<Rightarrow> nat \<Rightarrow> nat \<Rightarrow> bool option" where
  "isHoldingItem s c i = Option.bind (iter_items s (iter_begin s c)) (\<lambda>xs. Some (i \<in> set xs))"

definition getContentDescription :: "(citem \<Rightarrow> string) \<Rightarrow> items \<Rightarrow> nat \<Rightarrow> string option" where
  "getContentDescription name s c = Option.bind (iter_items s (iter_begin s c)) (\<lambda>xs.
     Some (if xs = [] then ''nothing'' else foldl (\<lambda>d x. d @ '', '' @ name (s x)) (name (s (hd xs))) (List.tl xs)))"

definition getItem :: "items \<Rightarrow> nat \<Rightarrow> nat \<Rightarrow> nat option" where
  "getItem s c index = (if index < length (content s c) then Some (content s c ! index) else None)"

section \<open>The cylinder operations\<close>

definition INDEX_WHEREEVER :: int where "INDEX_WHEREEVER = - 1"
definition FLAG_NOLIMIT :: u32 where "FLAG_NOLIMIT = 1"
definition FLAG_CHILDISOWNER :: u32 where "FLAG_CHILDISOWNER = 8"
definition FLAG_IGNORENOTMOVABLE :: u32 where "FLAG_IGNORENOTMOVABLE = 64"
definition FLAG_IGNOREAUTOSTACK :: u32 where "FLAG_IGNOREAUTOSTACK = 128"

text \<open>
  The world around a container: the item table, which cylinders have parents, and the answer of a
  cylinder that is no container.
\<close>

record cworld =
  types :: "nat \<Rightarrow> item_type"
  has_parent :: "nat \<Rightarrow> bool"
  other_queryAdd :: "nat \<Rightarrow> nat \<Rightarrow> nat \<Rightarrow> u32 \<Rightarrow> return_value"

text \<open>
  A thing is an item, or \<^const>\<open>None\<close> for a creature. A depot is a container with a limit on all it
  holds: an item inside it counts as new when it comes from somewhere else or is split off. The query
  of an outer container for its child is \<open>child_queryAdd\<close>: a plain container agrees, a depot looks
  at its limit.
\<close>

definition depot_full :: "cworld \<Rightarrow> items \<Rightarrow> nat \<Rightarrow> nat \<Rightarrow> nat \<Rightarrow> nat \<Rightarrow> bool option" where
  "depot_full W s d limit i cnt =
     Option.bind (getTopParent (has_parent W) s i) (\<lambda>top.
       Option.bind (if top \<noteq> Some (InItem d) then
                      (if it_content (s i) \<noteq> None then map_option Suc (getItemHoldingCount s i) else Some 1)
                    else Some (if stackable (types W (it_id (s i))) \<and> unat (it_count (s i)) \<noteq> cnt then 1 else 0))
         (\<lambda>addCount. map_option (\<lambda>n. n + addCount > limit) (getItemHoldingCount s d)))"

definition child_queryAdd :: "cworld \<Rightarrow> items \<Rightarrow> nat \<Rightarrow> nat \<Rightarrow> nat \<Rightarrow> u32 \<Rightarrow> return_value option" where
  "child_queryAdd W s t i cnt flags =
     (case it_depotLimit (s t) of
        None \<Rightarrow> Some RET_NOERROR
      | Some limit \<Rightarrow>
          if hasBitSet FLAG_NOLIMIT flags then Some RET_NOERROR
          else map_option (\<lambda>b. if b then RET_DEPOTISFULL else RET_NOERROR) (depot_full W s t limit i cnt))"

definition container_queryAdd ::
    "cworld \<Rightarrow> items \<Rightarrow> nat \<Rightarrow> int \<Rightarrow> nat option \<Rightarrow> nat \<Rightarrow> u32 \<Rightarrow> return_value option" where
  "container_queryAdd W s c index thing cnt flags =
     (if hasBitSet FLAG_CHILDISOWNER flags then Some RET_NOERROR
      else case thing of
        None \<Rightarrow> Some RET_NOTPOSSIBLE
      | Some i \<Rightarrow>
          if \<not> pickupable (types W (it_id (s i))) then Some RET_CANNOTPICKUP
          else if i = c then Some RET_THISISIMPOSSIBLE
          else Option.bind (climb s c) (\<lambda>r.
            if it_content (s i) \<noteq> None \<and> i \<in> set (fst r) then Some RET_THISISIMPOSSIBLE
            else if index = INDEX_WHEREEVER \<and> \<not> hasBitSet FLAG_NOLIMIT flags
                    \<and> (case it_content (s c) of None \<Rightarrow> False | Some k \<Rightarrow> full k)
            then Some RET_CONTAINERNOTENOUGHROOM
            else Option.bind (getTopParent (has_parent W) s c) (\<lambda>top.
              case top of
                None \<Rightarrow> None
              | Some (InItem t) \<Rightarrow> if t = c then Some RET_NOERROR else child_queryAdd W s t i cnt (flags OR FLAG_CHILDISOWNER)
              | Some (Other k) \<Rightarrow> Some (other_queryAdd W k i cnt (flags OR FLAG_CHILDISOWNER)))))"

definition depot_queryAdd ::
    "cworld \<Rightarrow> items \<Rightarrow> nat \<Rightarrow> nat \<Rightarrow> int \<Rightarrow> nat option \<Rightarrow> nat \<Rightarrow> u32 \<Rightarrow> return_value option" where
  "depot_queryAdd W s d limit index thing cnt flags =
     (case thing of
        None \<Rightarrow> Some RET_NOTPOSSIBLE
      | Some i \<Rightarrow>
          if hasBitSet FLAG_NOLIMIT flags then container_queryAdd W s d index thing cnt flags
          else Option.bind (depot_full W s d limit i cnt) (\<lambda>b.
            if b then Some RET_DEPOTISFULL else container_queryAdd W s d index thing cnt flags))"

definition queryAdd :: "cworld \<Rightarrow> items \<Rightarrow> nat \<Rightarrow> int \<Rightarrow> nat option \<Rightarrow> nat \<Rightarrow> u32 \<Rightarrow> return_value option" where
  "queryAdd W s c index thing cnt flags =
     (case it_depotLimit (s c) of
        None \<Rightarrow> container_queryAdd W s c index thing cnt flags
      | Some limit \<Rightarrow> depot_queryAdd W s c limit index thing cnt flags)"

definition getThing :: "items \<Rightarrow> nat \<Rightarrow> nat \<Rightarrow> nat option" where
  "getThing s c index =
     (if index > length (content s c) then None
      else if index < length (content s c) then Some (content s c ! index) else None)"

text \<open>A negative index is a large one when it is read as an unsigned number.\<close>

definition thing_at :: "items \<Rightarrow> nat \<Rightarrow> int \<Rightarrow> nat option" where
  "thing_at s c index = (if index < 0 then None else getThing s c (nat index))"

definition getIndexOfThing :: "items \<Rightarrow> nat \<Rightarrow> nat \<Rightarrow> int" where
  "getIndexOfThing s c i = (case index_of i (content s c) of None \<Rightarrow> - 1 | Some n \<Rightarrow> int n)"

text \<open>
  \<open>__queryMaxCount\<close>: the room for a stackable item counts the free places of a stack each, and what
  the stacks of the same kind still take. The sums are 32 bits wide.
\<close>

fun stack_room :: "cworld \<Rightarrow> items \<Rightarrow> nat \<Rightarrow> nat \<Rightarrow> u32 \<Rightarrow> nat \<Rightarrow> nat list \<Rightarrow> u32 option" where
  "stack_room W s c i flags slotIndex [] = Some 0"
| "stack_room W s c i flags slotIndex (x # xs) =
     Option.bind
       (if x \<noteq> i \<and> it_id (s x) = it_id (s i) \<and> it_count (s x) < 100
        then map_option (\<lambda>r. if r = RET_NOERROR then 100 - ucast (it_count (s x)) else 0)
               (queryAdd W s c (int slotIndex) (Some i) (100 - unat (it_count (s x))) flags)
        else Some 0)
       (\<lambda>n. map_option (\<lambda>m. n + m) (stack_room W s c i flags (Suc slotIndex) xs))"

definition queryMaxCount ::
    "cworld \<Rightarrow> items \<Rightarrow> nat \<Rightarrow> int \<Rightarrow> nat option \<Rightarrow> u32 \<Rightarrow> u32 \<Rightarrow> (u32 \<times> return_value) option" where
  "queryMaxCount W s c index thing cnt flags =
     (case thing of
        None \<Rightarrow> Some (0, RET_NOTPOSSIBLE)
      | Some i \<Rightarrow>
          if hasBitSet FLAG_NOLIMIT flags then Some (max 1 cnt, RET_NOERROR)
          else
            let k = the (it_content (s c));
                freeSlots = of_int (max (int (capacity k) - int (length (itemlist k))) 0) in
            if stackable (types W (it_id (s i))) then
              Option.bind
                (if index = INDEX_WHEREEVER then stack_room W s c i flags 0 (itemlist k)
                 else case thing_at s c index of
                   None \<Rightarrow> Some 0
                 | Some x \<Rightarrow>
                     if it_id (s x) = it_id (s i) \<and> it_count (s x) < 100
                     then map_option (\<lambda>r. if r = RET_NOERROR then 100 - ucast (it_count (s x)) else 0)
                            (queryAdd W s c index (Some i) (100 - unat (it_count (s x))) flags)
                     else Some 0)
                (\<lambda>n. let m = freeSlots * 100 + n in
                  Some (m, if m < cnt then RET_CONTAINERNOTENOUGHROOM else RET_NOERROR))
            else Some (freeSlots, if freeSlots = 0 then RET_CONTAINERNOTENOUGHROOM else RET_NOERROR))"

definition queryRemove :: "cworld \<Rightarrow> items \<Rightarrow> nat \<Rightarrow> nat option \<Rightarrow> u32 \<Rightarrow> u32 \<Rightarrow> return_value" where
  "queryRemove W s c thing cnt flags =
     (case thing of
        None \<Rightarrow> RET_NOTPOSSIBLE
      | Some i \<Rightarrow>
          if getIndexOfThing s c i = - 1 then RET_NOTPOSSIBLE
          else if cnt = 0 \<or> stackable (types W (it_id (s i))) \<and> cnt > ucast (it_count (s i)) then RET_NOTPOSSIBLE
          else if \<not> movable (types W (it_id (s i))) \<and> \<not> hasBitSet FLAG_IGNORENOTMOVABLE flags then RET_NOTMOVABLE
          else RET_NOERROR)"

text \<open>The last stack in the list with room for more, with its place counted from one.\<close>

fun last_stack :: "items \<Rightarrow> nat \<Rightarrow> nat \<Rightarrow> nat list \<Rightarrow> (nat \<times> nat) option" where
  "last_stack s i n [] = None"
| "last_stack s i n (x # xs) =
     (if it_id (s x) = it_id (s i) \<and> it_count (s x) < 100 then Some (x, n) else last_stack s i (n - 1) xs)"

text \<open>The destination: the cylinder, the index and the item at it. \<open>Other\<close> parents keep the container.\<close>

definition queryDestination ::
    "cworld \<Rightarrow> items \<Rightarrow> nat \<Rightarrow> int \<Rightarrow> nat option \<Rightarrow> nat option \<Rightarrow> u32 \<Rightarrow> nat \<times> int \<times> nat option" where
  "queryDestination W s c index thing destItem flags =
     (if index = 254 then
        (case getParentContainer s c of
           Some p \<Rightarrow> (p, INDEX_WHEREEVER, None)
         | None \<Rightarrow> (c, INDEX_WHEREEVER, None))
      else
        let (index, destItem) =
          (if index = 255 then (INDEX_WHEREEVER, None)
           else if index \<ge> int (capacity (the (it_content (s c)))) then (INDEX_WHEREEVER, None)
           else (index, destItem)) in
        case thing of
          None \<Rightarrow> (c, index, destItem)
        | Some i \<Rightarrow>
            (case (if \<not> hasBitSet FLAG_IGNOREAUTOSTACK flags \<and> stackable (types W (it_id (s i)))
                      \<and> it_parent (s i) \<noteq> Some (InItem c)
                   then last_stack s i (length (content s c)) (rev (content s c)) else None) of
               Some (x, n) \<Rightarrow> (c, int n, Some x)
             | None \<Rightarrow>
                 if index \<noteq> INDEX_WHEREEVER then
                   let destItem = (case thing_at s c index of None \<Rightarrow> destItem | Some x \<Rightarrow> Some x) in
                   (case destItem of
                      Some x \<Rightarrow> if it_content (s x) \<noteq> None then (x, INDEX_WHEREEVER, None) else (c, index, destItem)
                    | None \<Rightarrow> (c, index, destItem))
                 else (c, index, destItem)))"

definition add_weight :: "nat \<Rightarrow> int \<Rightarrow> items \<Rightarrow> items option" where
  "add_weight c diff s =
     (let s = upd_content c (\<lambda>k. k\<lparr>totalWeight := totalWeight k + diff\<rparr>) s in
      case getParentContainer s c of None \<Rightarrow> Some s | Some p \<Rightarrow> updateItemWeight p diff s)"

definition internalAddThing :: "cworld \<Rightarrow> nat \<Rightarrow> nat option \<Rightarrow> items \<Rightarrow> items option" where
  "internalAddThing W c thing s =
     (case thing of
        None \<Rightarrow> Some s
      | Some i \<Rightarrow>
          let s = upd_content c (\<lambda>k. k\<lparr>itemlist := i # itemlist k\<rparr>) s;
              s = setParent i (Some (InItem c)) s
          in add_weight c (getWeight (types W) (s i)) s)"

definition addThing :: "cworld \<Rightarrow> nat \<Rightarrow> int \<Rightarrow> nat option \<Rightarrow> items \<Rightarrow> items option" where
  "addThing W c index thing s =
     (if index \<ge> int (capacity (the (it_content (s c)))) then Some s
      else case thing of
        None \<Rightarrow> Some s
      | Some i \<Rightarrow>
          let s = setParent i (Some (InItem c)) s;
              s = upd_content c (\<lambda>k. k\<lparr>itemlist := i # itemlist k\<rparr>) s
          in add_weight c (getWeight (types W) (s i)) s)"

text \<open>\<open>addItem\<close> appends without counting the weight; reading a map node counts it afterwards.\<close>

definition addItem :: "nat \<Rightarrow> nat \<Rightarrow> items \<Rightarrow> items" where
  "addItem c i s = setParent i (Some (InItem c)) (upd_content c (\<lambda>k. k\<lparr>itemlist := itemlist k @ [i]\<rparr>) s)"

definition addItem_read :: "cworld \<Rightarrow> nat \<Rightarrow> nat \<Rightarrow> items \<Rightarrow> items option" where
  "addItem_read W c i s = (let s = addItem c i s in updateItemWeight c (getWeight (types W) (s i)) s)"

definition updateThing :: "cworld \<Rightarrow> nat \<Rightarrow> nat option \<Rightarrow> nat \<Rightarrow> u16 \<Rightarrow> items \<Rightarrow> items option" where
  "updateThing W c thing itemId cnt s =
     (case thing of
        None \<Rightarrow> Some s
      | Some i \<Rightarrow>
          if getIndexOfThing s c i = - 1 then Some s
          else
            let oldWeight = getWeight (types W) (s i);
                s = s(i := setSubType (types W) cnt ((s i)\<lparr>it_id := itemId\<rparr>))
            in add_weight c (- oldWeight + getWeight (types W) (s i)) s)"

definition replaceThing :: "cworld \<Rightarrow> nat \<Rightarrow> nat \<Rightarrow> nat option \<Rightarrow> items \<Rightarrow> items option" where
  "replaceThing W c index thing s =
     (case thing of
        None \<Rightarrow> Some s
      | Some i \<Rightarrow>
          if index \<ge> length (content s c) then Some s
          else
            let old = content s c ! index in
            Option.bind (add_weight c (- getWeight (types W) (s old) + getWeight (types W) (s i)) s)
              (\<lambda>s. let s = upd_content c (\<lambda>k. k\<lparr>itemlist := (itemlist k)[index := i]\<rparr>) s;
                       s = setParent i (Some (InItem c)) s
                   in Some (setParent old None s)))"

definition removeThing :: "cworld \<Rightarrow> nat \<Rightarrow> nat option \<Rightarrow> u32 \<Rightarrow> items \<Rightarrow> items option" where
  "removeThing W c thing cnt s =
     (case thing of
        None \<Rightarrow> Some s
      | Some i \<Rightarrow>
          if getIndexOfThing s c i = - 1 then Some s
          else if stackable (types W (it_id (s i))) \<and> cnt \<noteq> ucast (it_count (s i)) then
            let oldWeight = - getWeight (types W) (s i);
                left = max 0 (sint (ucast (it_count (s i)) - cnt));
                s = s(i := (s i)\<lparr>it_count := of_int left\<rparr>)
            in add_weight c (oldWeight + getWeight (types W) (s i)) s
          else
            Option.bind (add_weight c (- getWeight (types W) (s i)) s)
              (\<lambda>s. Some (upd_content c (\<lambda>k. k\<lparr>itemlist := remove1 i (itemlist k)\<rparr>) (setParent i None s))))"

definition getItemTypeCount :: "cworld \<Rightarrow> items \<Rightarrow> nat \<Rightarrow> nat \<Rightarrow> int \<Rightarrow> u32" where
  "getItemTypeCount W s c itemId subType =
     fold (\<lambda>x n. if it_id (s x) = itemId \<and> (subType = - 1 \<or> subType = uint (getSubType (types W) (s x)))
                 then n + ucast (it_count (s x)) else n) (content s c) 0"

definition getAllItemTypeCount :: "items \<Rightarrow> nat \<Rightarrow> (nat, u32) omap \<Rightarrow> (nat, u32) omap" where
  "getAllItemTypeCount s c m =
     fold (\<lambda>x m. om_assign (it_id (s x))
        ((case om_lookup m (it_id (s x)) of None \<Rightarrow> 0 | Some n \<Rightarrow> n) + ucast (it_count (s x))) m) (content s c) m"

section \<open>The tree of items\<close>

definition inside :: "items \<Rightarrow> (nat \<times> nat) set" where
  "inside s = {(i, c). it_parent (s i) = Some (InItem c)}"

text \<open>Parents and lists agree, nothing is inside itself, and only finitely many items are inside others.\<close>

definition tree_ok :: "items \<Rightarrow> bool" where
  "tree_ok s \<longleftrightarrow> finite (inside s) \<and> acyclic (inside s)
     \<and> (\<forall>i c. (i, c) \<in> inside s \<longleftrightarrow> i \<in> set (content s c)) \<and> (\<forall>c. distinct (content s c))"

lemma tree_okD:
  assumes "tree_ok s"
  shows "finite (inside s)" "acyclic (inside s)" "(i, c) \<in> inside s \<longleftrightarrow> i \<in> set (content s c)"
    "distinct (content s c)"
  using assms by (auto simp: tree_ok_def)

lemma tree_wf:
  assumes "tree_ok s"
  shows "wf (inside s)" "wf ((inside s)\<inverse>)"
  using tree_okD(1,2)[OF assms] by (simp_all add: finite_acyclic_wf finite_acyclic_wf_converse)

lemma inside_unique: "(i, c) \<in> inside s \<Longrightarrow> (i, c') \<in> inside s \<Longrightarrow> c = c'"
  by (simp add: inside_def)

lemma content_container: "i \<in> set (content s c) \<Longrightarrow> it_content (s c) \<noteq> None"
  by (cases "it_content (s c)") (simp_all add: content_def)

lemma getParentContainer_inside:
  assumes "tree_ok s"
  shows "getParentContainer s i = Some c \<longleftrightarrow> (i, c) \<in> inside s"
  using content_container[of i s c] tree_okD(3)[OF assms, of i c]
  by (auto simp: getParentContainer_def inside_def split: option.splits cylinder.splits if_splits)

text \<open>Climbing ends, with everything the item is inside of.\<close>

lemma climb_ok:
  assumes "tree_ok s"
  shows "\<exists>r. climb s i = Some r \<and> set (fst r) = {c. (i, c) \<in> (inside s)\<^sup>+}"
proof (induction i rule: wf_induct_rule[OF tree_wf(2)[OF assms]])
  case (1 i)
  show ?case
  proof (cases "\<exists>c. (i, c) \<in> inside s")
    case False
    then have "{c. (i, c) \<in> (inside s)\<^sup>+} = {}" by (auto dest: tranclD)
    with False show ?thesis
      by (subst climb.simps) (auto simp: inside_def split: option.split cylinder.split)
  next
    case True
    then obtain c where c: "(i, c) \<in> inside s" by blast
    then obtain r where r: "climb s c = Some r" "set (fst r) = {d. (c, d) \<in> (inside s)\<^sup>+}"
      using 1 by blast
    have "{d. (i, d) \<in> (inside s)\<^sup>+} = insert c {d. (c, d) \<in> (inside s)\<^sup>+}"
      using c by (auto intro: trancl_into_trancl2 dest: tranclD inside_unique
          elim: converse_tranclE)
    with c r show ?thesis by (subst climb.simps) (simp add: inside_def)
  qed
qed

text \<open>Two stores that differ in the sums of weights only.\<close>

definition shape :: "citem \<Rightarrow> _" where
  "shape x = (it_id x, it_count x, it_fluid x, it_charges x, it_parent x, it_depotLimit x,
     map_option (\<lambda>k. (maxSize k, itemlist k)) (it_content x))"

definition same_tree :: "items \<Rightarrow> items \<Rightarrow> bool" where
  "same_tree s s' \<longleftrightarrow> (\<forall>x. shape (s' x) = shape (s x))"

lemma same_treeD:
  assumes "same_tree s s'"
  shows "it_id (s' x) = it_id (s x)" "it_count (s' x) = it_count (s x)" "it_fluid (s' x) = it_fluid (s x)"
    "it_charges (s' x) = it_charges (s x)" "it_parent (s' x) = it_parent (s x)"
    "it_depotLimit (s' x) = it_depotLimit (s x)"
    "map_option (\<lambda>k. (maxSize k, itemlist k)) (it_content (s' x)) = map_option (\<lambda>k. (maxSize k, itemlist k)) (it_content (s x))"
  using assms by (simp_all add: same_tree_def shape_def)

lemma same_tree_content [simp]: "same_tree s s' \<Longrightarrow> content s' c = content s c"
  by (drule same_treeD(7)[of _ _ c]) (auto simp: content_def split: option.splits)

lemma same_tree_None: "same_tree s s' \<Longrightarrow> it_content (s' c) = None \<longleftrightarrow> it_content (s c) = None"
  by (drule same_treeD(7)[of _ _ c]) (cases "it_content (s c)"; cases "it_content (s' c)"; simp)

lemma same_tree_inside [simp]: "same_tree s s' \<Longrightarrow> inside s' = inside s"
  by (simp add: inside_def same_treeD(5))

lemma same_tree_ok: "same_tree s s' \<Longrightarrow> tree_ok s' = tree_ok s"
  by (simp add: tree_ok_def)

lemma same_tree_own: "same_tree s s' \<Longrightarrow> own_weight ty (s' x) = own_weight ty (s x)"
  by (simp add: own_weight_def Let_def same_treeD(1,2)[of s s'])

lemma same_tree_refl [simp]: "same_tree s s"
  by (simp add: same_tree_def)

lemma same_tree_trans: "same_tree s1 s2 \<Longrightarrow> same_tree s2 s3 \<Longrightarrow> same_tree s1 s3"
  by (simp add: same_tree_def)

section \<open>The sums of weights\<close>

text \<open>How much a container's sum lacks.\<close>

definition lack :: "(nat \<Rightarrow> item_type) \<Rightarrow> items \<Rightarrow> nat \<Rightarrow> int" where
  "lack ty s c =
     (case it_content (s c) of
        None \<Rightarrow> 0
      | Some k \<Rightarrow> (\<Sum>x\<leftarrow>itemlist k. getWeight ty (s x)) - totalWeight k)"

lemma lack_set:
  assumes "tree_ok s" and "it_content (s c) = Some k"
  shows "lack ty s c = (\<Sum>x\<in>set (content s c). getWeight ty (s x)) - totalWeight k"
proof -
  have "distinct (itemlist k)" using tree_okD(4)[OF assms(1), of c] assms(2) by (simp add: content_def)
  then show ?thesis using assms(2) by (simp add: lack_def content_def sum_list_distinct_conv_sum_set)
qed

lemma upd_total:
  fixes d :: int
  assumes ok: "tree_ok s" and c: "it_content (s c) \<noteq> None"
  defines "s' \<equiv> upd_content c (\<lambda>k. k\<lparr>totalWeight := totalWeight k + d\<rparr>) s"
  shows "same_tree s s'"
    and "lack ty s' x = lack ty s x - (if x = c then d else 0) + (if (c, x) \<in> inside s then d else 0)"
    and "x \<noteq> c \<Longrightarrow> s' x = s x"
proof -
  obtain k where k: "it_content (s c) = Some k" using c by blast
  show st: "same_tree s s'" using k by (auto simp: same_tree_def shape_def s'_def upd_content_def)
  then have ok': "tree_ok s'" using ok by (simp add: same_tree_ok)
  show "x \<noteq> c \<Longrightarrow> s' x = s x" by (simp add: s'_def upd_content_def)
  have w: "getWeight ty (s' y) = getWeight ty (s y) + (if y = c then d else 0)" for y
    using k by (simp add: s'_def upd_content_def getWeight_def own_weight_def Let_def)
  show "lack ty s' x = lack ty s x - (if x = c then d else 0) + (if (c, x) \<in> inside s then d else 0)"
  proof (cases "it_content (s x)")
    case None
    then have "it_content (s' x) = None" "(c, x) \<notin> inside s" "x \<noteq> c"
      using st k same_tree_None[OF st] tree_okD(3)[OF ok, of c x] content_container[of c s x] by auto
    then show ?thesis using None by (simp add: lack_def)
  next
    case (Some kx)
    have fin: "(\<Sum>y\<in>set (content s x). if y = c then d else 0) = (if (c, x) \<in> inside s then d else 0)"
      using tree_okD(3)[OF ok, of c x] by simp
    have k': "it_content (s' x) = Some (kx\<lparr>totalWeight := totalWeight kx + (if x = c then d else 0)\<rparr>)"
      using Some k by (auto simp: s'_def upd_content_def)
    show ?thesis
      by (simp add: lack_set[OF ok' k'] lack_set[OF ok Some] same_tree_content[OF st] w sum.distrib fin del: sum.delta sum.delta')
  qed
qed

lemma updateItemWeight_wf:
  assumes "wf (R\<inverse>)"
  shows "tree_ok s \<Longrightarrow> inside s = R \<Longrightarrow> it_content (s c) \<noteq> None \<Longrightarrow>
    \<exists>s'. updateItemWeight c d s = Some s' \<and> same_tree s s'
      \<and> (\<forall>x. lack ty s' x = lack ty s x - (if x = c then d else 0))
      \<and> (\<forall>x. x = c \<or> (c, x) \<in> R\<^sup>+ \<or> s' x = s x)"
proof (induction c arbitrary: s rule: wf_induct_rule[OF assms])
  case (1 c)
  note ok = "1.prems"(1) and R = "1.prems"(2) and k = "1.prems"(3)
  define s1 where "s1 = upd_content c (\<lambda>k. k\<lparr>totalWeight := totalWeight k + d\<rparr>) s"
  have st: "same_tree s s1" unfolding s1_def by (rule upd_total(1)[OF ok k])
  have lack1: "lack ty s1 x = lack ty s x - (if x = c then d else 0) + (if (c, x) \<in> R then d else 0)" for x
    unfolding s1_def R[symmetric] by (rule upd_total(2)[OF ok k])
  have other: "x \<noteq> c \<Longrightarrow> s1 x = s x" for x unfolding s1_def by (rule upd_total(3)[OF ok k])
  have ok1: "tree_ok s1" and R1: "inside s1 = R" using ok R st by (simp_all add: same_tree_ok)
  show ?case
  proof (cases "getParentContainer s1 c")
    case None
    then have none: "(c, x) \<notin> R" for x using getParentContainer_inside[OF ok1, of c x] R1 by auto
    have "updateItemWeight c d s = Some s1" using None by (subst updateItemWeight.simps) (simp add: s1_def Let_def)
    then show ?thesis using st lack1 other none by auto
  next
    case (Some p)
    then have cp: "(c, p) \<in> R" using getParentContainer_inside[OF ok1] R1 by auto
    have pk: "it_content (s1 p) \<noteq> None"
      using cp tree_okD(3)[OF ok1] R1 content_container by metis
    obtain s' where s': "updateItemWeight p d s1 = Some s'" "same_tree s1 s'"
      "\<forall>x. lack ty s' x = lack ty s1 x - (if x = p then d else 0)"
      "\<forall>x. x = p \<or> (p, x) \<in> R\<^sup>+ \<or> s' x = s1 x"
      using "1.IH"[of p s1] cp ok1 R1 pk by blast
    have iff: "(c, x) \<in> R \<longleftrightarrow> x = p" for x
      using cp R inside_unique by (metis R1)
    have "updateItemWeight c d s = Some s'" using Some s'(1)
      by (subst updateItemWeight.simps) (simp add: s1_def Let_def)
    moreover have "\<forall>x. lack ty s' x = lack ty s x - (if x = c then d else 0)"
      using s'(3) lack1 iff by auto
    moreover have "\<forall>x. x = c \<or> (c, x) \<in> R\<^sup>+ \<or> s' x = s x"
      using s'(4) other cp by (metis r_into_trancl trancl_into_trancl2)
    ultimately show ?thesis using same_tree_trans[OF st s'(2)] by blast
  qed
qed

lemma add_weight_eq: "add_weight c d s = updateItemWeight c d s"
  by (subst updateItemWeight.simps) (simp add: add_weight_def Let_def getParentContainer_def upd_content_def
      split: option.split cylinder.split)

lemma add_weight_ok:
  assumes ok: "tree_ok s" and c: "it_content (s c) \<noteq> None"
  obtains s' where "add_weight c d s = Some s'" "same_tree s s'"
    "\<And>x. lack ty s' x = lack ty s x - (if x = c then d else 0)"
    "\<And>x. x \<noteq> c \<Longrightarrow> (c, x) \<notin> (inside s)\<^sup>+ \<Longrightarrow> s' x = s x"
  using updateItemWeight_wf[OF tree_wf(2)[OF ok] ok refl c, of d ty] that unfolding add_weight_eq by blast

text \<open>An item goes into a list, comes out of one, or changes its own weight.\<close>

definition place :: "nat \<Rightarrow> nat \<Rightarrow> nat list \<Rightarrow> items \<Rightarrow> items" where
  "place c i xs s = setParent i (Some (InItem c)) (upd_content c (\<lambda>k. k\<lparr>itemlist := xs\<rparr>) s)"

definition unplace :: "nat \<Rightarrow> nat \<Rightarrow> items \<Rightarrow> items" where
  "unplace c i s = setParent i None (upd_content c (\<lambda>k. k\<lparr>itemlist := remove1 i (itemlist k)\<rparr>) s)"

lemma getWeight_setParent [simp]:
  "getWeight ty (setParent i p s x) = getWeight ty (s x)"
  "getWeight ty (upd_content c (\<lambda>k. k\<lparr>itemlist := f k\<rparr>) s x) = getWeight ty (s x)"
  by (auto simp: setParent_def upd_content_def getWeight_def own_weight_def Let_def split: option.split)

lemma content_setParent [simp]: "content (setParent i p s) c = content s c"
  by (simp add: content_def setParent_def)

lemma content_upd [simp]:
  "content (upd_content c f s) x = (if x = c then (case it_content (s c) of None \<Rightarrow> [] | Some k \<Rightarrow> itemlist (f k)) else content s x)"
  by (simp add: content_def upd_content_def split: option.split)

lemma inside_upd [simp]: "inside (upd_content c f s) = inside s"
  by (auto simp: inside_def upd_content_def split: if_splits)

definition free_item :: "items \<Rightarrow> nat \<Rightarrow> bool" where
  "free_item s i \<longleftrightarrow> (case it_parent (s i) of Some (InItem _) \<Rightarrow> False | _ \<Rightarrow> True)"

lemma free_item_inside: "free_item s i \<longleftrightarrow> (\<forall>c. (i, c) \<notin> inside s)"
  by (auto simp: free_item_def inside_def split: option.split cylinder.split)

lemma lack_total:
  assumes "it_content (s c) = Some k"
  shows "lack ty s c = (\<Sum>x\<leftarrow>content s c. getWeight ty (s x)) - totalWeight k"
  using assms by (simp add: lack_def content_def)

lemma place_ok:
  assumes ok: "tree_ok s" and k: "it_content (s c) = Some k" and free: "free_item s i"
    and up: "i \<noteq> c" "(c, i) \<notin> (inside s)\<^sup>+" and l: "mset xs = add_mset i (mset (itemlist k))"
  shows "tree_ok (place c i xs s)"
    and "lack ty (place c i xs s) x = lack ty s x + (if x = c then getWeight ty (s i) else 0)"
proof -
  let ?s = "place c i xs s"
  have notin: "i \<notin> set (content s x)" for x
    using free tree_okD(3)[OF ok, of i x] by (simp add: free_item_inside)
  have ins: "inside ?s = insert (i, c) (inside s)"
    using free by (auto simp: place_def inside_def setParent_def upd_content_def free_item_def split: if_splits)
  have con: "content ?s x = (if x = c then xs else content s x)" for x
    using k by (simp add: place_def)
  have sx: "set xs = insert i (set (content s c))" using arg_cong[OF l, of set_mset] k by (simp add: content_def)
  have dx: "distinct xs"
    using arg_cong[OF l, of size] sx notin[of c] tree_okD(4)[OF ok, of c] k
    by (intro card_distinct) (simp add: content_def distinct_card flip: size_mset)
  have "(c, i) \<notin> (inside s)\<^sup>*" using up by (auto simp: rtrancl_eq_or_trancl)
  then have "acyclic (inside ?s)" by (simp add: ins acyclic_insert tree_okD(2)[OF ok])
  then show "tree_ok ?s" unfolding tree_ok_def ins con
    using tree_okD[OF ok] sx dx by auto
  have w: "getWeight ty (?s y) = getWeight ty (s y)" for y by (simp add: place_def)
  show "lack ty ?s x = lack ty s x + (if x = c then getWeight ty (s i) else 0)"
  proof (cases "x = c")
    case True
    have k': "it_content (?s c) = Some (k\<lparr>itemlist := xs\<rparr>)"
      using k by (simp add: place_def setParent_def upd_content_def)
    have "(\<Sum>y\<leftarrow>xs. getWeight ty (s y)) = getWeight ty (s i) + (\<Sum>y\<leftarrow>itemlist k. getWeight ty (s y))"
      using l by (simp flip: sum_mset_sum_list)
    moreover have "content s c = itemlist k" using k by (simp add: content_def)
    ultimately show ?thesis using True
      by (simp add: lack_total[where s = ?s and c = c, OF k'] lack_total[where s = s and c = c, OF k] con w)
  next
    case False
    then have "it_content (?s x) = it_content (s x)" by (simp add: place_def setParent_def upd_content_def)
    then show ?thesis using False w by (cases "it_content (s x)") (simp_all add: lack_def)
  qed
qed

lemma unplace_ok:
  assumes ok: "tree_ok s" and i: "i \<in> set (content s c)"
  shows "tree_ok (unplace c i s)"
    and "lack ty (unplace c i s) x = lack ty s x - (if x = c then getWeight ty (s i) else 0)"
    and "inside (unplace c i s) = inside s - {(i, c)}"
proof -
  let ?s = "unplace c i s"
  obtain k where k: "it_content (s c) = Some k" using content_container[OF i] by blast
  have ic: "(i, c) \<in> inside s" using i tree_okD(3)[OF ok] by simp
  show ins: "inside ?s = inside s - {(i, c)}"
    using ic by (auto simp: unplace_def inside_def setParent_def upd_content_def split: if_splits)
  have con: "content ?s x = (if x = c then remove1 i (content s c) else content s x)" for x
    using k by (simp add: unplace_def content_def[of s c])
  have "acyclic (inside ?s)" using tree_okD(2)[OF ok] ins by (auto intro: acyclic_subset)
  moreover have "(j, d) \<in> inside ?s \<longleftrightarrow> j \<in> set (content ?s d)" for j d
    using tree_okD(3,4)[OF ok] ic inside_unique by (auto simp: ins con)
  ultimately show "tree_ok ?s" unfolding tree_ok_def
    using tree_okD(1,4)[OF ok] by (simp add: ins con distinct_remove1)
  have w: "getWeight ty (?s y) = getWeight ty (s y)" for y by (simp add: unplace_def)
  show "lack ty ?s x = lack ty s x - (if x = c then getWeight ty (s i) else 0)"
  proof (cases "x = c")
    case True
    have k': "it_content (?s c) = Some (k\<lparr>itemlist := remove1 i (itemlist k)\<rparr>)"
      using k by (simp add: unplace_def setParent_def upd_content_def)
    have "i \<in> set (itemlist k)" using i k by (simp add: content_def)
    then have "(\<Sum>y\<leftarrow>itemlist k. getWeight ty (s y)) = getWeight ty (s i) + (\<Sum>y\<leftarrow>remove1 i (itemlist k). getWeight ty (s y))"
      by (rule sum_list_map_remove1)
    moreover have "content s c = itemlist k" using k by (simp add: content_def)
    ultimately show ?thesis using True
      by (simp add: lack_total[where s = ?s and c = c, OF k'] lack_total[where s = s and c = c, OF k] con w)
  next
    case False
    then have "it_content (?s x) = it_content (s x)" by (simp add: unplace_def setParent_def upd_content_def)
    then show ?thesis using False w by (cases "it_content (s x)") (simp_all add: lack_def)
  qed
qed

lemma change_ok:
  assumes ok: "tree_ok s" and x': "it_parent x' = it_parent (s i)" "it_content x' = it_content (s i)"
  shows "tree_ok (s(i := x'))"
    and "lack ty (s(i := x')) x = lack ty s x
      + (if (i, x) \<in> inside s then getWeight ty x' - getWeight ty (s i) else 0)"
    and "inside (s(i := x')) = inside s"
proof -
  let ?s = "s(i := x')"
  show ins: "inside ?s = inside s" using x' by (auto simp: inside_def split: if_splits)
  have con: "content ?s y = content s y" for y using x' by (simp add: content_def)
  show ok': "tree_ok ?s" using ok by (simp add: tree_ok_def ins con)
  show "lack ty ?s x = lack ty s x + (if (i, x) \<in> inside s then getWeight ty x' - getWeight ty (s i) else 0)"
  proof (cases "it_content (s x)")
    case None
    then have "(i, x) \<notin> inside s" using tree_okD(3)[OF ok, of i x] content_container[of i s x] by auto
    moreover have "it_content (?s x) = None" using None x' by (cases "x = i") auto
    ultimately show ?thesis using None by (simp add: lack_def)
  next
    case (Some k)
    then have k': "it_content (?s x) = Some k" using x' by (cases "x = i") auto
    have "(\<Sum>y\<in>set (content s x). getWeight ty (?s y)) = (\<Sum>y\<in>set (content s x). getWeight ty (s y)
        + (if y = i then getWeight ty x' - getWeight ty (s i) else 0))"
      by (intro sum.cong) auto
    also have "\<dots> = (\<Sum>y\<in>set (content s x). getWeight ty (s y))
        + (if (i, x) \<in> inside s then getWeight ty x' - getWeight ty (s i) else 0)"
      using tree_okD(3)[OF ok, of i x] by (simp add: sum.distrib)
    finally show ?thesis by (simp add: lack_set[OF ok' k'] lack_set[OF ok Some] con del: fun_upd_apply)
  qed
qed

definition items_ok :: "(nat \<Rightarrow> item_type) \<Rightarrow> items \<Rightarrow> bool" where
  "items_ok ty s \<longleftrightarrow> tree_ok s \<and> (\<forall>c. lack ty s c = 0)"

text \<open>An operation that leaves one sum wrong by an amount, and then repairs it up to the outermost container.\<close>

lemma add_weight_repairs:
  assumes "tree_ok s" and "it_content (s c) \<noteq> None" and "\<And>x. lack ty s x = (if x = c then d else 0)"
  shows "\<exists>s'. add_weight c d s = Some s' \<and> same_tree s s' \<and> items_ok ty s'"
proof -
  obtain s' where "add_weight c d s = Some s'" "same_tree s s'"
    "\<And>x. lack ty s' x = lack ty s x - (if x = c then d else 0)"
    by (rule add_weight_ok[OF assms(1,2)]) blast
  then show ?thesis using assms by (auto simp: items_ok_def same_tree_ok)
qed

lemma content_place [simp]:
  "it_content (s c) = Some k \<Longrightarrow> it_content (place c i xs s c) = Some (k\<lparr>itemlist := xs\<rparr>)"
  by (simp add: place_def setParent_def upd_content_def)

lemma internalAddThing_ok:
  assumes ok: "items_ok (types W) s" and k: "it_content (s c) = Some k"
    and i: "free_item s i" "i \<noteq> c" "(c, i) \<notin> (inside s)\<^sup>+"
  shows "\<exists>s'. internalAddThing W c (Some i) s = Some s' \<and> items_ok (types W) s'
    \<and> inside s' = insert (i, c) (inside s)"
proof -
  have t: "tree_ok s" "\<And>x. lack (types W) s x = 0" using ok by (simp_all add: items_ok_def)
  have l: "mset (i # itemlist k) = add_mset i (mset (itemlist k))" by simp
  let ?s = "place c i (i # itemlist k) s"
  note p = place_ok[OF t(1) k i l]
  have "internalAddThing W c (Some i) s = add_weight c (getWeight (types W) (?s i)) ?s"
    using k by (simp add: internalAddThing_def place_def Let_def upd_content_def)
  moreover have "getWeight (types W) (?s i) = getWeight (types W) (s i)" by (simp add: place_def)
  moreover have "inside ?s = insert (i, c) (inside s)"
    using i(1) by (auto simp: place_def inside_def setParent_def upd_content_def free_item_def split: if_splits)
  ultimately show ?thesis
    using add_weight_repairs[OF p(1), of c "types W" "getWeight (types W) (s i)"] k t(2) p(2) by force
qed

lemma addThing_ok:
  assumes ok: "items_ok (types W) s" and k: "it_content (s c) = Some k"
    and i: "free_item s i" "i \<noteq> c" "(c, i) \<notin> (inside s)\<^sup>+"
  shows "\<exists>s'. addThing W c index (Some i) s = Some s' \<and> items_ok (types W) s'"
proof (cases "index \<ge> int (capacity k)")
  case True
  then show ?thesis using ok k by (simp add: addThing_def)
next
  case False
  have comm: "upd_content c (\<lambda>k. k\<lparr>itemlist := i # itemlist k\<rparr>) (setParent i (Some (InItem c)) s)
      = setParent i (Some (InItem c)) (upd_content c (\<lambda>k. k\<lparr>itemlist := i # itemlist k\<rparr>) s)"
    using i(2) by (auto simp: setParent_def upd_content_def fun_eq_iff)
  have "addThing W c index (Some i) s = internalAddThing W c (Some i) s"
    using False k by (simp add: addThing_def internalAddThing_def Let_def comm)
  then show ?thesis using internalAddThing_ok[OF assms] by auto
qed

lemma addItem_read_ok:
  assumes ok: "items_ok (types W) s" and k: "it_content (s c) = Some k"
    and i: "free_item s i" "i \<noteq> c" "(c, i) \<notin> (inside s)\<^sup>+"
  shows "\<exists>s'. addItem_read W c i s = Some s' \<and> items_ok (types W) s'"
proof -
  have t: "tree_ok s" "\<And>x. lack (types W) s x = 0" using ok by (simp_all add: items_ok_def)
  have l: "mset (itemlist k @ [i]) = add_mset i (mset (itemlist k))" by simp
  let ?s = "place c i (itemlist k @ [i]) s"
  note p = place_ok[OF t(1) k i l]
  have "addItem_read W c i s = add_weight c (getWeight (types W) (?s i)) ?s"
    using k by (simp add: addItem_read_def addItem_def place_def Let_def upd_content_def add_weight_eq)
  moreover have "getWeight (types W) (?s i) = getWeight (types W) (s i)" by (simp add: place_def)
  ultimately show ?thesis
    using add_weight_repairs[OF p(1), of c "types W" "getWeight (types W) (s i)"] k t(2) p(2) by force
qed

lemma getIndexOfThing_in [simp]: "getIndexOfThing s c i = - 1 \<longleftrightarrow> i \<notin> set (content s c)"
proof (cases "index_of i (content s c)")
  case None
  then have "i \<notin> set (content s c)" by simp
  then show ?thesis using None by (simp add: getIndexOfThing_def del: index_of_None)
next
  case (Some n)
  then have "i \<in> set (content s c)" using index_of_Some nth_mem by metis
  then show ?thesis using Some by (simp add: getIndexOfThing_def)
qed

lemma change_repairs:
  assumes ok: "items_ok ty s" and i: "i \<in> set (content s c)"
    and x': "it_parent x' = it_parent (s i)" "it_content x' = it_content (s i)"
  shows "\<exists>s'. add_weight c (getWeight ty x' - getWeight ty (s i)) (s(i := x')) = Some s' \<and> items_ok ty s'"
proof -
  have t: "tree_ok s" "\<And>x. lack ty s x = 0" using ok by (simp_all add: items_ok_def)
  note ch = change_ok[OF t(1) x']
  have iff: "(i, x) \<in> inside s \<longleftrightarrow> x = c" for x using i tree_okD(3)[OF t(1)] inside_unique by metis
  have "it_content ((s(i := x')) c) \<noteq> None" using content_container[OF i] x' by auto
  from add_weight_repairs[OF ch(1) this, of ty "getWeight ty x' - getWeight ty (s i)"]
  show ?thesis by (auto simp: ch(2) t(2) iff simp del: fun_upd_apply)
qed

lemma updateThing_ok:
  assumes ok: "items_ok (types W) s"
  shows "\<exists>s'. updateThing W c thing itemId n s = Some s' \<and> items_ok (types W) s'"
proof (cases "\<exists>i. thing = Some i \<and> i \<in> set (content s c)")
  case False
  then show ?thesis using ok by (auto simp: updateThing_def split: option.split)
next
  case True
  then obtain i where i: "thing = Some i" "i \<in> set (content s c)" by blast
  let ?x = "setSubType (types W) n ((s i)\<lparr>it_id := itemId\<rparr>)"
  have "it_parent ?x = it_parent (s i)" "it_content ?x = it_content (s i)"
    by (simp_all add: setSubType_def Let_def)
  from change_repairs[OF ok i(2) this] show ?thesis
    using i by (simp add: updateThing_def Let_def)
qed

lemma removeThing_ok:
  assumes ok: "items_ok (types W) s"
  shows "\<exists>s'. removeThing W c thing n s = Some s' \<and> items_ok (types W) s'"
proof (cases "\<exists>i. thing = Some i \<and> i \<in> set (content s c)")
  case False
  then show ?thesis using ok by (auto simp: removeThing_def split: option.split)
next
  case True
  then obtain i where i: "thing = Some i" "i \<in> set (content s c)" by blast
  have t: "tree_ok s" "\<And>x. lack (types W) s x = 0" using ok by (simp_all add: items_ok_def)
  show ?thesis
  proof (cases "stackable (types W (it_id (s i))) \<and> n \<noteq> ucast (it_count (s i))")
    case True
    let ?x = "(s i)\<lparr>it_count := of_int (max 0 (sint (ucast (it_count (s i)) - n)))\<rparr>"
    have "it_parent ?x = it_parent (s i)" "it_content ?x = it_content (s i)" by simp_all
    from change_repairs[OF ok i(2) this] show ?thesis
      using i True by (simp add: removeThing_def Let_def)
  next
    case False
    let ?w = "getWeight (types W) (s i)"
    have ic: "(i, c) \<in> inside s" using i(2) tree_okD(3)[OF t(1)] by simp
    have up: "i \<noteq> c" "(c, i) \<notin> (inside s)\<^sup>+"
      using ic tree_okD(2)[OF t(1)] by (auto simp: acyclic_def dest: trancl_into_trancl2)
    obtain s1 where s1: "add_weight c (- ?w) s = Some s1" "same_tree s s1"
      "\<And>x. lack (types W) s1 x = lack (types W) s x - (if x = c then - ?w else 0)" "s1 i = s i"
      by (rule add_weight_ok[OF t(1) content_container[OF i(2)], of "- ?w" "types W"]) (use up in blast)
    have i1: "i \<in> set (content s1 c)" "tree_ok s1" using i(2) t(1) s1(2) by (simp_all add: same_tree_ok)
    have comm: "upd_content c (\<lambda>k. k\<lparr>itemlist := remove1 i (itemlist k)\<rparr>) (setParent i None s1) = unplace c i s1"
      using up(1) by (auto simp: unplace_def setParent_def upd_content_def fun_eq_iff)
    have "items_ok (types W) (unplace c i s1)"
      unfolding items_ok_def using unplace_ok(1,2)[OF i1(2,1)] s1(3,4) t(2) by simp
    moreover have "removeThing W c thing n s = Some (unplace c i s1)"
      using i s1(1) by (simp only: removeThing_def option.case if_not_P[OF False]) (simp add: comm)
    ultimately show ?thesis by blast
  qed
qed

lemma replaceThing_ok:
  assumes ok: "items_ok (types W) s" and i: "free_item s i" "i \<noteq> c" "(c, i) \<notin> (inside s)\<^sup>+"
  shows "\<exists>s'. replaceThing W c index (Some i) s = Some s' \<and> items_ok (types W) s'"
proof (cases "index < length (content s c)")
  case False
  then show ?thesis using ok by (simp add: replaceThing_def)
next
  case True
  define old where "old = content s c ! index"
  let ?d = "- getWeight (types W) (s old) + getWeight (types W) (s i)"
  have t: "tree_ok s" "\<And>x. lack (types W) s x = 0" using ok by (simp_all add: items_ok_def)
  have mem: "old \<in> set (content s c)" using True by (simp add: old_def)
  have oc: "(old, c) \<in> inside s" using mem tree_okD(3)[OF t(1)] by simp
  have up: "old \<noteq> c" "(c, old) \<notin> (inside s)\<^sup>+" "old \<noteq> i"
    using oc tree_okD(2)[OF t(1)] i(1) by (auto simp: acyclic_def free_item_inside dest: trancl_into_trancl2)
  obtain s1 where s1: "add_weight c ?d s = Some s1" "same_tree s s1"
    "\<And>x. lack (types W) s1 x = lack (types W) s x - (if x = c then ?d else 0)" "s1 old = s old" "s1 i = s i"
    by (rule add_weight_ok[OF t(1) content_container[OF mem], of ?d "types W"]) (use up i in blast)
  have ok1: "tree_ok s1" and mem1: "old \<in> set (content s1 c)" and ins1: "inside s1 = inside s"
    using t(1) mem s1(2) by (simp_all add: same_tree_ok)
  obtain k where k: "it_content (s1 c) = Some k" using content_container[OF mem1] by blast
  define s2 where "s2 = unplace c old s1"
  note un = unplace_ok[OF ok1 mem1, folded s2_def]
  have k2: "it_content (s2 c) = Some (k\<lparr>itemlist := remove1 old (itemlist k)\<rparr>)"
    using k by (simp add: s2_def unplace_def setParent_def upd_content_def)
  have len: "index < length (itemlist k)" "old = itemlist k ! index"
    using True s1(2) k same_tree_content[OF s1(2), of c] by (simp_all add: old_def content_def split: option.splits)
  have l: "mset ((itemlist k)[index := i]) = add_mset i (mset (itemlist (k\<lparr>itemlist := remove1 old (itemlist k)\<rparr>)))"
    using len by (simp add: mset_update)
  have f2: "free_item s2 i" using i(1) un(3) ins1 by (simp add: free_item_inside)
  have u2: "(c, i) \<notin> (inside s2)\<^sup>+" using i(3) un(3) ins1 by (auto dest: trancl_mono)
  note pl = place_ok[OF un(1) k2 f2 i(2) u2 l]
  have w2: "getWeight (types W) (s2 i) = getWeight (types W) (s i)"
    using s1(5) by (simp add: s2_def unplace_def)
  have "setParent old None (setParent i (Some (InItem c)) (upd_content c (\<lambda>k. k\<lparr>itemlist := (itemlist k)[index := i]\<rparr>) s1))
      = place c i ((itemlist k)[index := i]) s2"
    using k up i(2) by (auto simp: place_def s2_def unplace_def setParent_def upd_content_def fun_eq_iff)
  moreover have "items_ok (types W) (place c i ((itemlist k)[index := i]) s2)"
    unfolding items_ok_def using pl un(2) s1(3,4) t(2) w2 by simp
  ultimately show ?thesis using True s1(1) by (simp add: replaceThing_def Let_def old_def[symmetric])
qed

text \<open>What the code asks before it adds an item keeps the items a tree.\<close>

lemma queryAdd_safe:
  assumes ok: "tree_ok s" and q: "queryAdd W s c index (Some i) n flags = Some RET_NOERROR"
    and fl: "\<not> hasBitSet FLAG_CHILDISOWNER flags"
  shows "i \<noteq> c \<and> (c, i) \<notin> (inside s)\<^sup>+"
proof -
  have c: "container_queryAdd W s c index (Some i) n flags = Some RET_NOERROR"
    using q by (auto simp: queryAdd_def depot_queryAdd_def bind_eq_Some_conv split: option.splits if_splits)
  then have ne: "i \<noteq> c" using fl by (auto simp: container_queryAdd_def split: if_splits)
  obtain r where r: "climb s c = Some r" "set (fst r) = {d. (c, d) \<in> (inside s)\<^sup>+}"
    using climb_ok[OF ok] by blast
  have "\<not> (it_content (s i) \<noteq> None \<and> i \<in> set (fst r))"
    using c fl ne r(1) by (auto simp: container_queryAdd_def split: if_splits)
  moreover have "it_content (s i) \<noteq> None" if up: "(c, i) \<in> (inside s)\<^sup>+"
  proof -
    obtain j where "(j, i) \<in> inside s" using tranclD2[OF up] by blast
    then show ?thesis using tree_okD(3)[OF ok] content_container by metis
  qed
  ultimately show ?thesis using ne r(2) by blast
qed

section \<open>The iterator visits every item inside once\<close>

definition iter_wf :: "items \<Rightarrow> iter \<Rightarrow> bool" where
  "iter_wf s it \<longleftrightarrow> (it_over it = [] \<longleftrightarrow> it_current it = []) \<and> (\<forall>x\<in>set (List.tl (it_over it)). content s x \<noteq> [])"

definition iter_rest :: "items \<Rightarrow> iter \<Rightarrow> nat list" where
  "iter_rest s it = it_current it @ concat (List.map (content s) (List.tl (it_over it)))"

lemma content_None [simp]: "it_content (s x) = None \<Longrightarrow> content s x = []"
  by (simp add: content_def)

lemma iter_next_rest:
  assumes "iter_wf s it" and "it_over it \<noteq> []"
  shows "iter_wf s (iter_next s it)"
    and "iter_rest s it = hd (it_current it) # List.tl (iter_rest s it)"
    and "iter_rest s (iter_next s it) = List.tl (iter_rest s it) @ content s (hd (it_current it))"
proof -
  obtain b os where o: "it_over it = b # os" using assms(2) by (cases "it_over it") auto
  obtain x xs where x: "it_current it = x # xs" using assms by (cases "it_current it") (auto simp: iter_wf_def)
  have os: "\<forall>y\<in>set os. content s y \<noteq> []" using assms(1) o by (simp add: iter_wf_def)
  show "iter_rest s it = hd (it_current it) # List.tl (iter_rest s it)" by (simp add: iter_rest_def x)
  define over where "over = (if content s x \<noteq> [] then it_over it @ [x] else it_over it)"
  have next': "iter_next s it = (if xs \<noteq> [] then \<lparr>it_over = over, it_current = xs\<rparr>
     else case List.tl over of [] \<Rightarrow> \<lparr>it_over = [], it_current = []\<rparr>
          | c # cs \<Rightarrow> \<lparr>it_over = c # cs, it_current = content s c\<rparr>)"
    by (auto simp: iter_next_def Let_def x over_def)
  have tl': "List.tl over = os @ (if content s x \<noteq> [] then [x] else [])" "over \<noteq> []"
    by (auto simp: over_def o)
  show "iter_wf s (iter_next s it)" using os tl'
    by (auto simp: next' iter_wf_def split: list.split)
  show "iter_rest s (iter_next s it) = List.tl (iter_rest s it) @ content s (hd (it_current it))"
    using tl' by (auto simp: next' iter_rest_def x o split: list.split)
qed

lemma iter_items_ok:
  fixes c :: nat
  assumes ok: "tree_ok s"
  defines "D \<equiv> {x. (x, c) \<in> (inside s)\<^sup>+}"
  shows "iter_wf s it \<Longrightarrow> distinct (V @ iter_rest s it) \<Longrightarrow> set (V @ iter_rest s it) \<subseteq> D \<Longrightarrow>
    (\<forall>y\<in>set (V @ iter_rest s it). \<exists>p\<in>insert c (set V). (y, p) \<in> inside s) \<Longrightarrow>
    (\<forall>p\<in>insert c (set V). \<forall>y. (y, p) \<in> inside s \<longrightarrow> y \<in> set (V @ iter_rest s it)) \<Longrightarrow>
    \<exists>xs. iter_items s it = Some xs \<and> distinct (V @ xs) \<and> set (V @ xs) = D"
proof (induction "card D - length V" arbitrary: V it rule: less_induct)
  case less
  note wf = less.prems(1) and dist = less.prems(2) and sub = less.prems(3) and par = less.prems(4) and clos = less.prems(5)
  have "D \<subseteq> fst ` inside s" by (force simp: D_def dest: tranclD)
  then have fin: "finite D" by (rule finite_subset) (simp add: tree_okD(1)[OF ok])
  show ?case
  proof (cases "it_over it = []")
    case True
    then have "iter_rest s it = []" using wf by (simp add: iter_wf_def iter_rest_def)
    moreover have "x \<in> set V" if "(x, c) \<in> (inside s)\<^sup>+" for x
      using that by (induction rule: converse_trancl_induct) (use clos \<open>iter_rest s it = []\<close> in auto)
    ultimately show ?thesis using True dist sub by (subst iter_items.simps) (auto simp: D_def)
  next
    case False
    define x where "x = hd (it_current it)"
    define q where "q = List.tl (iter_rest s it)"
    have rest: "iter_rest s it = x # q" "iter_wf s (iter_next s it)"
      "iter_rest s (iter_next s it) = q @ content s x"
      using iter_next_rest[OF wf False] by (simp_all add: x_def q_def)
    have xD: "x \<in> D" "x \<notin> set V" using sub dist by (auto simp: rest)
    have xc: "x \<noteq> c" using xD(1) tree_okD(2)[OF ok] by (auto simp: D_def acyclic_def)
    have kids: "y \<in> set (content s x) \<longleftrightarrow> (y, x) \<in> inside s" for y using tree_okD(3)[OF ok] by simp
    have new: "y \<notin> set (V @ x # q)" if "(y, x) \<in> inside s" for y
    proof
      assume "y \<in> set (V @ x # q)"
      then obtain p where "p \<in> insert c (set V)" "(y, p) \<in> inside s" using par by (auto simp: rest)
      then show False using inside_unique[OF that] xD(2) xc by auto
    qed
    have "distinct ((V @ [x]) @ iter_rest s (iter_next s it))"
      using dist new tree_okD(4)[OF ok, of x] by (auto simp: rest kids)
    moreover have "set ((V @ [x]) @ iter_rest s (iter_next s it)) \<subseteq> D"
      using sub xD(1) by (auto simp: rest kids D_def intro: trancl_into_trancl2)
    moreover have "\<forall>y\<in>set ((V @ [x]) @ iter_rest s (iter_next s it)). \<exists>p\<in>insert c (set (V @ [x])). (y, p) \<in> inside s"
      using par by (auto simp: rest kids)
    moreover have "\<forall>p\<in>insert c (set (V @ [x])). \<forall>y. (y, p) \<in> inside s \<longrightarrow> y \<in> set ((V @ [x]) @ iter_rest s (iter_next s it))"
      using clos by (auto simp: rest kids)
    moreover have "card D - length (V @ [x]) < card D - length V"
    proof -
      have "card (set (V @ [x])) \<le> card D" using sub xD(1) fin by (intro card_mono) auto
      moreover have "distinct (V @ [x])" using dist xD(2) by simp
      then have "card (set (V @ [x])) = length (V @ [x])" by (rule distinct_card)
      ultimately show ?thesis by simp
    qed
    ultimately obtain xs where xs: "iter_items s (iter_next s it) = Some xs" "distinct ((V @ [x]) @ xs)"
      "set ((V @ [x]) @ xs) = D" using less.hyps[of "V @ [x]"] rest(2) by blast
    have "iter_items s it = Some (x # xs)"
      using False xs(1) by (subst iter_items.simps) (simp add: x_def)
    then show ?thesis using xs(2,3) by auto
  qed
qed

lemma iter_begin_items:
  assumes ok: "tree_ok s"
  obtains xs where "iter_items s (iter_begin s c) = Some xs" "distinct xs" "set xs = {x. (x, c) \<in> (inside s)\<^sup>+}"
proof -
  let ?it = "iter_begin s c"
  have rest: "iter_wf s ?it" "iter_rest s ?it = content s c" by (simp_all add: iter_begin_def iter_wf_def iter_rest_def)
  have kids: "y \<in> set (content s c) \<longleftrightarrow> (y, c) \<in> inside s" for y using tree_okD(3)[OF ok] by simp
  have "\<exists>xs. iter_items s ?it = Some xs \<and> distinct ([] @ xs) \<and> set ([] @ xs) = {x. (x, c) \<in> (inside s)\<^sup>+}"
    by (rule iter_items_ok[OF ok rest(1)]) (use tree_okD(4)[OF ok] kids in \<open>auto simp: rest\<close>)
  then show ?thesis using that by auto
qed

text \<open>A container's sum is the weight of everything inside, at any depth.\<close>

lemma total_deep:
  assumes ok: "items_ok ty s"
  shows "it_content (s c) = Some k \<Longrightarrow> totalWeight k = (\<Sum>x | (x, c) \<in> (inside s)\<^sup>+. own_weight ty (s x))"
proof -
  have t: "tree_ok s" using ok by (simp add: items_ok_def)
  show "it_content (s c) = Some k \<Longrightarrow> ?thesis"
  proof (induction c arbitrary: k rule: wf_induct_rule[OF tree_wf(1)[OF t]])
  case (1 c)
  define D where "D y = {x. (x, y) \<in> (inside s)\<^sup>+}" for y
  have fin: "finite (D y)" for y
  proof (rule finite_subset)
    show "D y \<subseteq> fst ` inside s" by (force simp: D_def dest: tranclD)
  qed (use tree_okD(1)[OF t] in simp)
  have kids: "set (content s c) = {y. (y, c) \<in> inside s}" using tree_okD(3)[OF t] by auto
  have w: "getWeight ty (s y) = (\<Sum>x\<in>insert y (D y). own_weight ty (s x))" if "(y, c) \<in> inside s" for y
  proof -
    have "y \<notin> D y" using tree_okD(2)[OF t] by (simp add: D_def acyclic_def)
    moreover have "(case it_content (s y) of None \<Rightarrow> 0 | Some k \<Rightarrow> totalWeight k) = (\<Sum>x\<in>D y. own_weight ty (s x))"
    proof (cases "it_content (s y)")
      case None
      then have "D y = {}" using tree_okD(3)[OF t] content_container by (auto simp: D_def dest!: tranclD2)
      then show ?thesis using None by simp
    next
      case (Some k')
      then show ?thesis using "1.IH"[OF that Some] by (simp add: D_def)
    qed
    ultimately show ?thesis using fin by (simp add: getWeight_def)
  qed
  have Dc: "D c = (\<Union>y\<in>set (content s c). insert y (D y))"
    by (auto simp: D_def kids dest: tranclD2 intro: trancl_into_trancl elim: tranclE)
  have disj: "insert y (D y) \<inter> insert z (D z) = {}" if "(y, c) \<in> inside s" "(z, c) \<in> inside s" "y \<noteq> z" for y z
  proof -
    have chain: "(y', z') \<in> (inside s)\<^sup>* \<or> (z', y') \<in> (inside s)\<^sup>*"
      if "(x, y') \<in> (inside s)\<^sup>*" "(x, z') \<in> (inside s)\<^sup>*" for x y' z'
      using single_valued_confluent[OF _ that] by (auto simp: single_valued_def dest: inside_unique)
    have no: "(y, z) \<notin> (inside s)\<^sup>+" if "(y, c) \<in> inside s" "(z, c) \<in> inside s" for y z
    proof
      assume "(y, z) \<in> (inside s)\<^sup>+"
      then obtain d where "(y, d) \<in> inside s" "(d, z) \<in> (inside s)\<^sup>*" by (auto dest: tranclD)
      then have "(c, z) \<in> (inside s)\<^sup>*" using inside_unique[OF that(1)] by auto
      then have "(c, c) \<in> (inside s)\<^sup>+" using that(2) by (rule rtrancl_into_trancl1)
      then show False using tree_okD(2)[OF t] by (simp add: acyclic_def)
    qed
    show ?thesis
    proof (rule ccontr)
      assume "insert y (D y) \<inter> insert z (D z) \<noteq> {}"
      then obtain x where "(x, y) \<in> (inside s)\<^sup>*" "(x, z) \<in> (inside s)\<^sup>*"
        by (auto simp: D_def rtrancl_eq_or_trancl)
      from chain[OF this] show False using no that by (auto simp: rtrancl_eq_or_trancl)
    qed
  qed
  have "lack ty s c = 0" using ok by (simp add: items_ok_def)
  then have "totalWeight k = (\<Sum>y\<in>set (content s c). getWeight ty (s y))"
    using lack_set[OF t "1.prems"] by simp
  also have "\<dots> = (\<Sum>y\<in>set (content s c). \<Sum>x\<in>insert y (D y). own_weight ty (s x))"
    by (intro sum.cong refl w) (simp add: kids)
  also have "\<dots> = (\<Sum>x\<in>D c. own_weight ty (s x))"
    unfolding Dc
  proof (rule sum.UNION_disjoint[symmetric])
    show "finite (set (content s c))" by simp
  qed (use fin disj kids in auto)
  finally show ?case by (simp add: D_def)
  qed
qed

section \<open>Sequences of operations\<close>

text \<open>
  The operations as the moves of the game use them: a thing is added after the container agreed and
  after it was taken from where it was. \<open>Drop\<close> puts an item that is in no container on another
  cylinder.
\<close>

datatype container_op =
    Add nat int nat nat u32
  | InternalAdd nat nat nat u32
  | Load nat nat nat u32
  | Update nat "nat option" nat u16
  | Replace nat nat nat nat u32
  | Remove nat "nat option" u32
  | Drop nat nat

definition agrees :: "cworld \<Rightarrow> items \<Rightarrow> nat \<Rightarrow> int \<Rightarrow> nat \<Rightarrow> nat \<Rightarrow> u32 \<Rightarrow> bool" where
  "agrees W s c index i n flags \<longleftrightarrow> it_content (s c) \<noteq> None \<and> free_item s i
     \<and> \<not> hasBitSet FLAG_CHILDISOWNER flags \<and> queryAdd W s c index (Some i) n flags = Some RET_NOERROR"

fun container_step :: "cworld \<Rightarrow> container_op \<Rightarrow> items \<Rightarrow> items option" where
  "container_step W (Add c index i n flags) s =
     (if agrees W s c index i n flags then addThing W c index (Some i) s else Some s)"
| "container_step W (InternalAdd c i n flags) s =
     (if agrees W s c 0 i n flags then internalAddThing W c (Some i) s else Some s)"
| "container_step W (Load c i n flags) s =
     (if agrees W s c 0 i n flags then addItem_read W c i s else Some s)"
| "container_step W (Update c thing itemId n) s = updateThing W c thing itemId n s"
| "container_step W (Replace c index i n flags) s =
     (if agrees W s c (int index) i n flags then replaceThing W c index (Some i) s else Some s)"
| "container_step W (Remove c thing n) s = removeThing W c thing n s"
| "container_step W (Drop i k) s = (if free_item s i then Some (setParent i (Some (Other k)) s) else Some s)"

text \<open>New items are nowhere, new containers empty.\<close>

definition new_items :: "(nat \<Rightarrow> citem) \<Rightarrow> items" where
  "new_items t = (\<lambda>i. (t i)\<lparr>it_parent := None,
     it_content := map_option (\<lambda>k. k\<lparr>totalWeight := 0, itemlist := []\<rparr>) (it_content (t i))\<rparr>)"

definition container_run :: "cworld \<Rightarrow> (nat \<Rightarrow> citem) \<Rightarrow> container_op list \<Rightarrow> items option" where
  "container_run W t ops = fold (\<lambda>e s. Option.bind s (container_step W e)) ops (Some (new_items t))"

fun sound_items :: "cworld \<Rightarrow> items option \<Rightarrow> bool" where
  "sound_items W None = False"
| "sound_items W (Some s) = items_ok (types W) s"

lemma drop_ok:
  assumes "items_ok ty s" and "free_item s i"
  shows "items_ok ty (setParent i (Some (Other k)) s)"
proof -
  let ?s = "setParent i (Some (Other k)) s"
  have ins: "inside ?s = inside s"
    using assms(2) by (auto simp: inside_def setParent_def free_item_def split: if_splits)
  have "it_content (?s c) = it_content (s c)" for c by (simp add: setParent_def)
  then have "lack ty ?s c = lack ty s c" for c by (cases "it_content (s c)") (simp_all add: lack_def)
  then show ?thesis using assms(1) by (simp add: items_ok_def tree_ok_def ins)
qed

lemma container_step_sound:
  assumes ok: "items_ok (types W) s"
  shows "sound_items W (container_step W e s)"
proof -
  have t: "tree_ok s" using ok by (simp add: items_ok_def)
  have ag: "\<exists>k. it_content (s c) = Some k \<and> free_item s i \<and> i \<noteq> c \<and> (c, i) \<notin> (inside s)\<^sup>+"
    if "agrees W s c index i n flags" for c index i n flags
    using that queryAdd_safe[OF t, of W c index i n flags] by (auto simp: agrees_def)
  show ?thesis
  proof (cases e)
    case (Add c index i n flags)
    then show ?thesis using ag[of c index i n flags] addThing_ok[OF ok, of c _ i index] ok by fastforce
  next
    case (InternalAdd c i n flags)
    then show ?thesis using ag[of c 0 i n flags] internalAddThing_ok[OF ok, of c _ i] ok by fastforce
  next
    case (Load c i n flags)
    then show ?thesis using ag[of c 0 i n flags] addItem_read_ok[OF ok, of c _ i] ok by fastforce
  next
    case (Update c thing itemId n)
    then show ?thesis using updateThing_ok[OF ok, of c thing itemId n] by auto
  next
    case (Replace c index i n flags)
    then show ?thesis using ag[of c "int index" i n flags] replaceThing_ok[OF ok, of i c index] ok by fastforce
  next
    case (Remove c thing n)
    then show ?thesis using removeThing_ok[OF ok, of c thing n] by auto
  next
    case (Drop i k)
    then show ?thesis using drop_ok[OF ok] ok by simp
  qed
qed

interpretation containers: guarded_machine "\<lambda>e s. Option.bind s (container_step W e)" "sound_items W" for W
proof
  fix s and r
  assume "sound_items W s"
  then obtain s' where "s = Some s'" "items_ok (types W) s'" by (cases s) auto
  then show "sound_items W (Option.bind s (container_step W r))" using container_step_sound by simp
qed

lemma new_items_ok: "items_ok ty (new_items t)"
proof -
  have "inside (new_items t) = {}" by (simp add: inside_def new_items_def)
  moreover have "content (new_items t) c = []" for c
    by (cases "it_content (t c)") (simp_all add: content_def new_items_def)
  moreover have "lack ty (new_items t) c = 0" for c
    by (cases "it_content (t c)") (simp_all add: lack_def new_items_def)
  ultimately show ?thesis by (simp add: items_ok_def tree_ok_def acyclic_def)
qed

lemma container_run_sound: "sound_items W (container_run W t ops)"
  unfolding container_run_def by (rule containers.run_inv) (simp add: new_items_ok)

section \<open>Properties\<close>

text \<open>
  C7. After every sequence of container operations, every loop over parents has ended, and the sum of
  weights a container keeps is the weight of all the items its iterator visits, at any depth.
\<close>

theorem container_weights:
  "\<exists>s. container_run W t ops = Some s \<and> (\<forall>c. case it_content (s c) of None \<Rightarrow> True
     | Some k \<Rightarrow> (\<exists>xs. iter_items s (iter_begin s c) = Some xs
          \<and> totalWeight k = (\<Sum>x\<leftarrow>xs. own_weight (types W) (s x))))"
proof -
  obtain s where s: "container_run W t ops = Some s" "items_ok (types W) s"
    using container_run_sound[of W t ops] by (cases "container_run W t ops") auto
  have tree: "tree_ok s" using s(2) by (simp add: items_ok_def)
  have "\<exists>xs. iter_items s (iter_begin s c) = Some xs \<and> totalWeight k = (\<Sum>x\<leftarrow>xs. own_weight (types W) (s x))"
    if "it_content (s c) = Some k" for c k
  proof -
    obtain xs where "iter_items s (iter_begin s c) = Some xs" "distinct xs" "set xs = {x. (x, c) \<in> (inside s)\<^sup>+}"
      by (rule iter_begin_items[OF tree])
    then show ?thesis using total_deep[OF s(2) that] by (simp add: sum_list_distinct_conv_sum_set)
  qed
  then show ?thesis using s(1) by (auto split: option.split)
qed

text \<open>
  C8. The iterator of a container visits each item that is inside at some depth exactly once, and
  \<open>isHoldingItem\<close> answers whether the parents of an item lead to the container.
\<close>

theorem iterator_visits_once:
  "\<exists>s. container_run W t ops = Some s \<and> (\<exists>xs. iter_items s (iter_begin s c) = Some xs \<and> distinct xs
     \<and> set xs = {x. (x, c) \<in> {(i, p). it_parent (s i) = Some (InItem p)}\<^sup>+}
     \<and> getItemHoldingCount s c = Some (card (set xs))
     \<and> isHoldingItem s c i = Some (i \<in> set xs))"
proof -
  obtain s where s: "container_run W t ops = Some s" "tree_ok s"
    using container_run_sound[of W t ops] by (cases "container_run W t ops") (auto simp: items_ok_def)
  obtain xs where xs: "iter_items s (iter_begin s c) = Some xs" "distinct xs" "set xs = {x. (x, c) \<in> (inside s)\<^sup>+}"
    by (rule iter_begin_items[OF s(2)])
  have "getItemHoldingCount s c = Some (card (set xs))" "isHoldingItem s c i = Some (i \<in> set xs)"
    using xs(1) by (simp_all add: getItemHoldingCount_def isHoldingItem_def distinct_card[OF xs(2)])
  then show ?thesis using s(1) xs unfolding inside_def by blast
qed

text \<open>The place autostacking gives is counted from one.\<close>

lemma autostack_destination:
  assumes "it_content (s c) = Some k" "itemlist k = xs @ [x]"
    and "it_id (s x) = it_id (s i)" "it_count (s x) < 100" "stackable (types W (it_id (s i)))"
    and "it_parent (s i) \<noteq> Some (InItem c)" "index \<noteq> 254" "\<not> hasBitSet FLAG_IGNOREAUTOSTACK flags"
  shows "queryDestination W s c index (Some i) dest flags = (c, int (length (itemlist k)), Some x)"
proof -
  have "content s c = xs @ [x]" using assms(1,2) by (simp add: content_def)
  then show ?thesis using assms(2-8) by (simp add: queryDestination_def Let_def split: prod.split)
qed

text \<open>
  A full container and a stack of the same kind with room as its last item: the destination is
  that stack, but its index is counted one too far, and at that index the container finds no room.
\<close>

theorem autostack_index_off_by_one:
  assumes "it_content (s c) = Some k" "itemlist k = xs @ [x]" "maxSize k = length (itemlist k)"
    and "it_id (s x) = it_id (s i)" "it_count (s x) < 100" "stackable (types W (it_id (s i)))"
    and "it_parent (s i) \<noteq> Some (InItem c)" "index \<noteq> 254" "n > 0"
    and "\<not> hasBitSet FLAG_IGNOREAUTOSTACK flags" "\<not> hasBitSet FLAG_NOLIMIT flags"
  shows "queryDestination W s c index (Some i) dest flags = (c, int (length (itemlist k)), Some x)
    \<and> queryMaxCount W s c (int (length (itemlist k))) (Some i) n flags = Some (0, RET_CONTAINERNOTENOUGHROOM)"
proof
  have con: "content s c = xs @ [x]" using assms(1,2) by (simp add: content_def)
  show "queryDestination W s c index (Some i) dest flags = (c, int (length (itemlist k)), Some x)"
    by (rule autostack_destination) (use assms in auto)
  have "thing_at s c (int (length (itemlist k))) = None"
    using assms(2) by (simp add: thing_at_def getThing_def con)
  moreover have "capacity k = length (itemlist k)" using assms(2,3) by (simp add: capacity_def)
  ultimately show "queryMaxCount W s c (int (length (itemlist k))) (Some i) n flags = Some (0, RET_CONTAINERNOTENOUGHROOM)"
    using assms(1,6,9,11) by (simp add: queryMaxCount_def Let_def INDEX_WHEREEVER_def)
qed

definition coin :: "nat \<Rightarrow> u8 \<Rightarrow> cylinder option \<Rightarrow> container option \<Rightarrow> citem" where
  "coin kind n p k = \<lparr>it_id = kind, it_count = n, it_fluid = 0, it_charges = 0, it_parent = p,
     it_depotLimit = None, it_content = k\<rparr>"

definition coin_world :: cworld where
  "coin_world = \<lparr>types = (\<lambda>kind. \<lparr>stackable = (kind = 1), pickupable = True, movable = True, fluid = False,
     charged = False, weight = 10\<rparr>), has_parent = (\<lambda>_. False), other_queryAdd = (\<lambda>_ _ _ _. RET_NOERROR)\<rparr>"

definition coin_items :: items where
  "coin_items = (\<lambda>_. coin 1 5 (Some (Other 0)) None)
     (0 := coin 2 1 (Some (Other 0)) (Some \<lparr>maxSize = 1, totalWeight = 500, itemlist = [1]\<rparr>),
      1 := coin 1 50 (Some (InItem 0)) None)"

theorem autostack_index_off_by_one_witness:
  "queryDestination coin_world coin_items 0 255 (Some 2) None 0 = (0, 1, Some 1)
    \<and> queryMaxCount coin_world coin_items 0 1 (Some 2) 5 0 = Some (0, RET_CONTAINERNOTENOUGHROOM)"
proof -
  have k: "it_content (coin_items 0) = Some \<lparr>maxSize = 1, totalWeight = 500, itemlist = [] @ [1]\<rparr>"
    by (simp add: coin_items_def coin_def)
  show ?thesis
    using autostack_index_off_by_one[where s = coin_items and c = 0 and xs = "[]" and x = 1 and i = 2
      and W = coin_world and index = 255 and n = 5 and flags = 0 and dest = None, OF k]
    by (simp add: coin_items_def coin_def coin_world_def hasBitSet_def FLAG_IGNOREAUTOSTACK_def FLAG_NOLIMIT_def)
qed

end
