(* ===== verification/ItemMoves.thy ===== *)
theory ItemMoves
  imports Containers
begin

text \<open>
  The moves of items of \<^verbatim>\<open>game.cpp\<close> (\<open>internalMoveItem\<close>, \<open>internalAddItem\<close>, \<open>internalRemoveItem\<close>), between
  containers. Stacks are split and joined on the way: a part of a stack is a new item at an address
  that was not used before. The flags of a move are
  those the caller passes. Notifications and the release of removed items are left out.
\<close>

section \<open>The moves\<close>

record heap =
  h_items :: items
  h_next :: nat

definition MAP_MAX_LAYERS :: nat where "MAP_MAX_LAYERS = 16"

text \<open>\<open>Item::CreateItem\<close> of a stackable kind; a count of 0 leaves the count 1 of a new item.\<close>

definition new_stack :: "nat \<Rightarrow> u16 \<Rightarrow> citem" where
  "new_stack kind n = \<lparr>it_id = kind, it_count = (if n = 0 then 1 else ucast n), it_fluid = 0, it_charges = 0,
     it_parent = None, it_depotLimit = None, it_content = None\<rparr>"

definition create_stack :: "nat \<Rightarrow> u32 \<Rightarrow> heap \<Rightarrow> nat \<times> heap" where
  "create_stack kind n h =
     (h_next h, \<lparr>h_items = (h_items h)(h_next h := new_stack kind (ucast n)), h_next = h_next h + 1\<rparr>)"

text \<open>The loop over the destinations: a sub-container is entered at most \<open>MAP_MAX_LAYERS\<close> times.\<close>

fun dest_loop ::
    "cworld \<Rightarrow> items \<Rightarrow> nat \<Rightarrow> nat \<Rightarrow> nat \<Rightarrow> int \<Rightarrow> nat option \<Rightarrow> u32 \<Rightarrow> nat \<times> int \<times> nat option \<times> u32" where
  "dest_loop W s i 0 c index toItem flags = (c, index, toItem, flags)"
| "dest_loop W s i (Suc n) c index toItem flags =
     (case queryDestination W s c index (Some i) toItem flags of
        (sub, index', toItem') \<Rightarrow>
          if sub = c then (c, index', toItem', flags)
          else dest_loop W s i n sub index' toItem' 0)"

definition count32 :: "items \<Rightarrow> nat \<Rightarrow> u32" where
  "count32 s i = ucast (it_count (s i))"

text \<open>How much of \<open>m\<close> goes onto a stack; the code keeps it in eight bits.\<close>

definition fill_stack :: "items \<Rightarrow> nat \<Rightarrow> u32 \<Rightarrow> u8" where
  "fill_stack s t m = ucast (min (100 - count32 s t) m)"

text \<open>\<open>internalAddItem\<close>: the return value, the count that remained, and the store afterwards.\<close>

partial_function (option) internalAddItem ::
    "cworld \<Rightarrow> nat \<Rightarrow> nat \<Rightarrow> int \<Rightarrow> u32 \<Rightarrow> bool \<Rightarrow> heap \<Rightarrow> (return_value \<times> u32 \<times> heap) option" where
  "internalAddItem W c i index flags test h =
     (let s = h_items h; d = queryDestination W s c index (Some i) None flags;
          to = fst d; index = fst (snd d); toItem = snd (snd d) in
      Option.bind (queryAdd W s to index (Some i) (unat (it_count (s i))) flags) (\<lambda>ret.
        if ret \<noteq> RET_NOERROR then Some (ret, 0, h)
        else Option.bind (queryMaxCount W s c INDEX_WHEREEVER (Some i) (count32 s i) flags) (\<lambda>mr.
          if snd mr \<noteq> RET_NOERROR then Some (snd mr, 0, h)
          else if test then Some (RET_NOERROR, 0, h)
          else
            let m = min (count32 s i) (fst mr);
                place = Option.bind (addThing W to index (Some i) s) (\<lambda>s. Some (RET_NOERROR, 0, h\<lparr>h_items := s\<rparr>)) in
            case (if stackable (types W (it_id (s i))) then toItem else None) of
              None \<Rightarrow> place
            | Some t \<Rightarrow>
                let n = (if it_id (s t) = it_id (s i) then min (100 - count32 s t) m else 0) in
                Option.bind (if it_id (s t) = it_id (s i)
                             then updateThing W to (Some t) (it_id (s t)) (ucast (count32 s t + n)) s else Some s)
                  (\<lambda>s. let h = h\<lparr>h_items := s\<rparr>; left = m - n in
                    if left > 0 then
                      (if count32 s i \<noteq> left then
                         let p = create_stack (it_id (s i)) left h in
                         Option.bind (internalAddItem W c (fst p) INDEX_WHEREEVER flags False (snd p)) (\<lambda>r.
                           if fst r = RET_NOERROR then Some (RET_NOERROR, 0, snd (snd r))
                           else Some (fst r, left, snd (snd r)))
                       else Option.bind (addThing W to index (Some i) s) (\<lambda>s. Some (RET_NOERROR, 0, h\<lparr>h_items := s\<rparr>)))
                    else Some (RET_NOERROR, 0, h)))))"

declare internalAddItem.simps [code]

text \<open>
  The second half of a move: \<open>m\<close> of the item leave the source; they fill up the item at the
  destination, and the rest goes there as a new stack. An item that is not stacked moves itself.
\<close>

definition transfer_stack ::
    "cworld \<Rightarrow> nat \<Rightarrow> nat \<Rightarrow> int \<Rightarrow> nat \<Rightarrow> nat option \<Rightarrow> u32 \<Rightarrow> heap \<Rightarrow> heap option" where
  "transfer_stack W from to index i toItem m h =
     Option.bind (removeThing W from (Some i) m (h_items h)) (\<lambda>s.
       if \<not> stackable (types W (it_id (s i)))
       then Option.bind (addThing W to index (Some i) s) (\<lambda>s. Some (h\<lparr>h_items := s\<rparr>))
       else
         let t = (case toItem of None \<Rightarrow> None | Some t \<Rightarrow> if it_id (s t) = it_id (s i) then Some t else None);
             n = (case t of None \<Rightarrow> 0 | Some t \<Rightarrow> fill_stack s t m) in
         Option.bind (case t of None \<Rightarrow> Some s
                      | Some t \<Rightarrow> updateThing W to (Some t) (it_id (s t)) (ucast (count32 s t + ucast n)) s) (\<lambda>s.
           if m - ucast n > 0 then
             let p = create_stack (it_id (s i)) (m - ucast n) (h\<lparr>h_items := s\<rparr>) in
             Option.bind (addThing W to index (Some (fst p)) (h_items (snd p)))
               (\<lambda>s. Some ((snd p)\<lparr>h_items := s\<rparr>))
           else Some (h\<lparr>h_items := s\<rparr>)))"

text \<open>
  The exchange of an item with the one at its destination, for cylinders that ask for it: the other
  item goes to the source first, then the destination is asked again.
\<close>

definition exchange_items ::
    "cworld \<Rightarrow> nat \<Rightarrow> nat \<Rightarrow> int \<Rightarrow> nat \<Rightarrow> nat option \<Rightarrow> u32 \<Rightarrow> u32 \<Rightarrow> items
      \<Rightarrow> (return_value \<times> nat option \<times> items) option" where
  "exchange_items W from to index i toItem cnt flags s =
     (case toItem of
        None \<Rightarrow> None
      | Some t \<Rightarrow>
          Option.bind (queryAdd W s from (getIndexOfThing s from i) (Some t) (unat (it_count (s t))) 0) (\<lambda>ret.
            if ret \<noteq> RET_NOERROR then Some (ret, toItem, s)
            else Option.bind (queryMaxCount W s from (- 1) (Some t) (count32 s t) 0) (\<lambda>mr.
              if snd mr \<noteq> RET_NOERROR \<and> fst mr = 0 then Some (snd mr, toItem, s)
              else if queryRemove W s to (Some t) (count32 s t) flags \<noteq> RET_NOERROR then Some (ret, toItem, s)
              else Option.bind (removeThing W to (Some t) (count32 s t) s) (\<lambda>s.
                Option.bind (addThing W from 0 (Some t) s) (\<lambda>s.
                  Option.bind (queryAdd W s to index (Some i) (unat cnt) flags) (\<lambda>ret.
                    Some (ret, None, s)))))))"

definition internalMoveItem ::
    "cworld \<Rightarrow> nat \<Rightarrow> nat \<Rightarrow> int \<Rightarrow> nat \<Rightarrow> u32 \<Rightarrow> u32 \<Rightarrow> heap \<Rightarrow> (return_value \<times> heap) option" where
  "internalMoveItem W from to index i cnt flags h =
     (if it_parent (h_items h i) = None
      then map_option (\<lambda>r. (fst r, snd (snd r))) (internalAddItem W to i INDEX_WHEREEVER FLAG_NOLIMIT False h)
      else case dest_loop W (h_items h) i MAP_MAX_LAYERS to index None flags of
        (to, index, toItem, flags) \<Rightarrow>
          if toItem = Some i then Some (RET_NOERROR, h)
          else Option.bind (queryAdd W (h_items h) to index (Some i) (unat cnt) flags) (\<lambda>ret.
            Option.bind (if ret = RET_NEEDEXCHANGE
                         then exchange_items W from to index i toItem cnt flags (h_items h)
                         else Some (ret, toItem, h_items h)) (\<lambda>(ret, toItem, s).
              let h = h\<lparr>h_items := s\<rparr> in
              if ret \<noteq> RET_NOERROR then Some (ret, h)
              else Option.bind (queryMaxCount W s to index (Some i) cnt flags) (\<lambda>(maxQueryCount, retMaxCount).
                if retMaxCount \<noteq> RET_NOERROR \<and> maxQueryCount = 0 then Some (retMaxCount, h)
                else
                  let m = (if stackable (types W (it_id (s i))) then min cnt maxQueryCount else maxQueryCount) in
                  if queryRemove W s from (Some i) m flags \<noteq> RET_NOERROR then Some (ret, h)
                  else Option.bind (transfer_stack W from to index i toItem m h) (\<lambda>h.
                    Some (if stackable (types W (it_id (s i))) \<and> maxQueryCount < cnt then retMaxCount else ret, h))))))"

definition internalRemoveItem ::
    "cworld \<Rightarrow> (nat \<Rightarrow> bool) \<Rightarrow> nat \<Rightarrow> int \<Rightarrow> bool \<Rightarrow> u32 \<Rightarrow> items \<Rightarrow> (return_value \<times> items) option" where
  "internalRemoveItem W canRemove i cnt test flags s =
     (case it_parent (s i) of
        Some (InItem c) \<Rightarrow>
          let n = (if cnt = - 1 then count32 s i else of_int cnt);
              ret = queryRemove W s c (Some i) n (flags OR FLAG_IGNORENOTMOVABLE) in
          if ret \<noteq> RET_NOERROR then Some (ret, s)
          else if \<not> canRemove i then Some (RET_NOTPOSSIBLE, s)
          else if test then Some (RET_NOERROR, s)
          else map_option (\<lambda>s. (RET_NOERROR, s)) (removeThing W c (Some i) n s)
      | _ \<Rightarrow> Some (RET_NOTPOSSIBLE, s))"

section \<open>What the operations change\<close>

text \<open>What a store holds of an item besides its count, its place and the sums of weights.\<close>

definition core :: "citem \<Rightarrow> nat \<times> u16 \<times> u16 \<times> nat option \<times> nat option" where
  "core x = (it_id x, it_fluid x, it_charges x, it_depotLimit x, map_option maxSize (it_content x))"

lemma coreD:
  assumes "core x = core y"
  shows "it_id x = it_id y" "it_content x = None \<longleftrightarrow> it_content y = None"
    "map_option maxSize (it_content x) = map_option maxSize (it_content y)"
  using assms by (auto simp: core_def)

lemma same_tree_core: "same_tree s s' \<Longrightarrow> core (s' x) = core (s x)"
  using same_treeD[of s s' x]
  by (cases "it_content (s x)"; cases "it_content (s' x)") (auto simp: core_def)

lemma core_place [simp]: "core (place c i xs s x) = core (s x)" "it_count (place c i xs s x) = it_count (s x)"
  by (auto simp: core_def place_def setParent_def upd_content_def option.map_comp comp_def)

lemma core_unplace [simp]: "core (unplace c i s x) = core (s x)" "it_count (unplace c i s x) = it_count (s x)"
  by (auto simp: core_def unplace_def setParent_def upd_content_def option.map_comp comp_def)

lemma it_parent_place [simp]:
  "it_parent (place c i xs s x) = (if x = i then Some (InItem c) else it_parent (s x))"
  "it_parent (unplace c i s x) = (if x = i then None else it_parent (s x))"
  by (simp_all add: place_def unplace_def setParent_def upd_content_def)

text \<open>The store afterwards is sound, and differs in the given ways only.\<close>

definition effect ::
    "(nat \<Rightarrow> item_type) \<Rightarrow> (nat \<times> nat) set \<Rightarrow> (nat \<Rightarrow> u8) \<Rightarrow> items \<Rightarrow> items \<Rightarrow> bool" where
  "effect ty R f s s' \<longleftrightarrow> items_ok ty s' \<and> inside s' = R \<and> (\<forall>x. it_count (s' x) = f x) \<and> (\<forall>x. core (s' x) = core (s x))
     \<and> (\<forall>x. it_parent (s x) = None \<longrightarrow> (\<forall>c. (x, c) \<notin> R) \<longrightarrow> it_parent (s' x) = None)"

abbreviation counts :: "items \<Rightarrow> nat \<Rightarrow> u8" where
  "counts s \<equiv> \<lambda>x. it_count (s x)"

lemma effectD:
  assumes "effect ty R f s s'"
  shows "items_ok ty s'" "inside s' = R" "it_count (s' x) = f x" "core (s' x) = core (s x)"
    "it_parent (s x) = None \<Longrightarrow> (\<And>c. (x, c) \<notin> R) \<Longrightarrow> it_parent (s' x) = None"
  using assms by (simp_all add: effect_def)

lemma addThing_effect:
  assumes ok: "items_ok (types W) s" and k: "it_content (s c) = Some k" "index < int (capacity k)"
    and i: "free_item s i" "i \<noteq> c" "(c, i) \<notin> (inside s)\<^sup>+"
  shows "\<exists>s'. addThing W c index (Some i) s = Some s'
    \<and> effect (types W) (insert (i, c) (inside s)) (counts s) s s'"
proof -
  have t: "tree_ok s" "\<And>x. lack (types W) s x = 0" using ok by (simp_all add: items_ok_def)
  have l: "mset (i # itemlist k) = add_mset i (mset (itemlist k))" by simp
  let ?s = "place c i (i # itemlist k) s"
  note p = place_ok[OF t(1) k(1) i l]
  have comm: "upd_content c (\<lambda>k. k\<lparr>itemlist := i # itemlist k\<rparr>) (setParent i (Some (InItem c)) s) = ?s"
    using i(2) k(1) by (auto simp: place_def setParent_def upd_content_def fun_eq_iff)
  have add: "addThing W c index (Some i) s = add_weight c (getWeight (types W) (s i)) ?s"
    using k by (simp add: addThing_def Let_def comm)
  have ins: "inside ?s = insert (i, c) (inside s)"
    using i(1) by (auto simp: place_def inside_def setParent_def upd_content_def free_item_def split: if_splits)
  obtain s' where s': "add_weight c (getWeight (types W) (s i)) ?s = Some s'" "same_tree ?s s'" "items_ok (types W) s'"
    using add_weight_repairs[OF p(1), of c "types W" "getWeight (types W) (s i)"] k t(2) p(2) by force
  then have "effect (types W) (insert (i, c) (inside s)) (counts s) s s'"
    using ins same_tree_core[OF s'(2)] same_treeD(2,5)[OF s'(2)]
    by (auto simp: effect_def)
  then show ?thesis using add s'(1) by simp
qed

lemma change_effect:
  assumes ok: "items_ok ty s" and i: "i \<in> set (content s c)"
    and x': "it_parent x' = it_parent (s i)" "it_content x' = it_content (s i)" "core x' = core (s i)"
  shows "\<exists>s'. add_weight c (getWeight ty x' - getWeight ty (s i)) (s(i := x')) = Some s'
    \<and> effect ty (inside s) ((counts s)(i := it_count x')) s s'"
proof -
  have t: "tree_ok s" "\<And>x. lack ty s x = 0" using ok by (simp_all add: items_ok_def)
  note ch = change_ok[OF t(1) x'(1,2)]
  have iff: "(i, x) \<in> inside s \<longleftrightarrow> x = c" for x using i tree_okD(3)[OF t(1)] inside_unique by metis
  have "it_content ((s(i := x')) c) \<noteq> None" using content_container[OF i] x' by auto
  moreover have "lack ty (s(i := x')) x = (if x = c then getWeight ty x' - getWeight ty (s i) else 0)" for x
    by (simp add: ch(2) t(2) iff del: fun_upd_apply)
  ultimately obtain s' where s': "add_weight c (getWeight ty x' - getWeight ty (s i)) (s(i := x')) = Some s'"
    "same_tree (s(i := x')) s'" "items_ok ty s'"
    using add_weight_repairs[OF ch(1)] by blast
  have "effect ty (inside s) ((counts s)(i := it_count x')) s s'"
    using s'(3) ch(3) same_tree_core[OF s'(2)] same_treeD(2,5)[OF s'(2)] x' same_tree_inside[OF s'(2)]
    by (auto simp: effect_def)
  then show ?thesis using s'(1) by blast
qed

lemma updateThing_effect:
  assumes ok: "items_ok (types W) s" and i: "i \<in> set (content s c)"
    and plain: "\<not> fluid (types W (it_id (s i)))" "\<not> charged (types W (it_id (s i)))"
  shows "\<exists>s'. updateThing W c (Some i) (it_id (s i)) n s = Some s'
    \<and> effect (types W) (inside s) ((counts s)(i := ucast n)) s s'"
proof -
  let ?x = "(s i)\<lparr>it_count := ucast n\<rparr>"
  have "it_parent ?x = it_parent (s i)" "it_content ?x = it_content (s i)" "core ?x = core (s i)"
    by (simp_all add: core_def)
  from change_effect[OF ok i this] show ?thesis
    using i plain by (simp add: updateThing_def Let_def setSubType_def)
qed

lemma removeThing_partial:
  assumes ok: "items_ok (types W) s" and i: "i \<in> set (content s c)"
    and n: "stackable (types W (it_id (s i)))" "n < ucast (it_count (s i))"
  shows "\<exists>s'. removeThing W c (Some i) n s = Some s'
    \<and> effect (types W) (inside s) ((counts s)(i := it_count (s i) - ucast n)) s s'"
proof -
  let ?x = "(s i)\<lparr>it_count := it_count (s i) - ucast n\<rparr>"
  have "it_parent ?x = it_parent (s i)" "it_content ?x = it_content (s i)" "core ?x = core (s i)"
    by (simp_all add: core_def)
  note ch = change_effect[OF ok i this]
  have u: "uint n < uint (it_count (s i))" using n(2) by (simp add: word_less_def uint_up_ucast is_up)
  have b: "uint (it_count (s i)) < 256" using uint_lt2p[of "it_count (s i)"] by simp
  have d: "uint (ucast (it_count (s i)) - n :: u32) = uint (it_count (s i)) - uint n"
  proof -
    have "uint (it_count (s i)) - uint n < 4294967296" using b uint_ge_0[of n] by linarith
    then show ?thesis using u by (simp add: uint_word_ariths uint_up_ucast is_up mod_pos_pos_trivial)
  qed
  then have "sint (ucast (it_count (s i)) - n :: u32) = uint (it_count (s i)) - uint n"
  proof -
    have "uint (it_count (s i)) - uint n < 2147483648" using b uint_ge_0[of n] by linarith
    then show ?thesis using u d by (simp add: sint_uint signed_take_bit_int_eq_self)
  qed
  then have left: "(of_int (max 0 (sint (ucast (it_count (s i)) - n :: u32))) :: u8) = it_count (s i) - ucast n"
    using u by (simp add: max_def)
  have "stackable (types W (it_id (s i))) \<and> n \<noteq> ucast (it_count (s i))" using n by auto
  then have "removeThing W c (Some i) n s = add_weight c (getWeight (types W) ?x - getWeight (types W) (s i)) (s(i := ?x))"
    using i by (simp add: removeThing_def Let_def left)
  then show ?thesis using ch by simp
qed

lemma removeThing_whole:
  assumes ok: "items_ok (types W) s" and i: "i \<in> set (content s c)"
    and n: "stackable (types W (it_id (s i))) \<longrightarrow> n = ucast (it_count (s i))"
  shows "\<exists>s'. removeThing W c (Some i) n s = Some s'
    \<and> effect (types W) (inside s - {(i, c)}) (counts s) s s'"
proof -
  have t: "tree_ok s" "\<And>x. lack (types W) s x = 0" using ok by (simp_all add: items_ok_def)
  let ?w = "getWeight (types W) (s i)"
  have ic: "(i, c) \<in> inside s" using i tree_okD(3)[OF t(1)] by simp
  have up: "i \<noteq> c" "(c, i) \<notin> (inside s)\<^sup>+"
    using ic tree_okD(2)[OF t(1)] by (auto simp: acyclic_def dest: trancl_into_trancl2)
  obtain s1 where s1: "add_weight c (- ?w) s = Some s1" "same_tree s s1"
    "\<And>x. lack (types W) s1 x = lack (types W) s x - (if x = c then - ?w else 0)" "s1 i = s i"
    by (rule add_weight_ok[OF t(1) content_container[OF i], of "- ?w" "types W"]) (use up in blast)
  have i1: "i \<in> set (content s1 c)" "tree_ok s1" using i t(1) s1(2) by (simp_all add: same_tree_ok)
  have comm: "upd_content c (\<lambda>k. k\<lparr>itemlist := remove1 i (itemlist k)\<rparr>) (setParent i None s1) = unplace c i s1"
    using up(1) by (auto simp: unplace_def setParent_def upd_content_def fun_eq_iff)
  have "items_ok (types W) (unplace c i s1)"
    unfolding items_ok_def using unplace_ok(1,2)[OF i1(2,1)] s1(3,4) t(2) by simp
  then have "effect (types W) (inside s - {(i, c)}) (counts s) s (unplace c i s1)"
    using unplace_ok(3)[OF i1(2,1)] same_tree_core[OF s1(2)] same_treeD(2,5)[OF s1(2)] s1(2)
    by (simp add: effect_def)
  moreover have "removeThing W c (Some i) n s = Some (unplace c i s1)"
    using i s1(1) n by (auto simp add: removeThing_def comm)
  ultimately show ?thesis by blast
qed

section \<open>How much of a kind there is\<close>

definition tally :: "(nat \<times> nat) set \<Rightarrow> (nat \<Rightarrow> nat) \<Rightarrow> (nat \<Rightarrow> u8) \<Rightarrow> nat \<Rightarrow> nat" where
  "tally R ids f kind = (\<Sum>i\<in>fst ` R. if ids i = kind then unat (f i) else 0)"

text \<open>The count of a kind over all the items in containers.\<close>

definition kind_total :: "items \<Rightarrow> nat \<Rightarrow> nat" where
  "kind_total s kind = (\<Sum>i | (\<exists>c. it_parent (s i) = Some (InItem c)) \<and> it_id (s i) = kind. unat (it_count (s i)))"

lemma kind_total_tally:
  assumes "tree_ok s"
  shows "kind_total s kind = tally (inside s) (\<lambda>i. it_id (s i)) (counts s) kind"
proof -
  have "{i. (\<exists>c. it_parent (s i) = Some (InItem c)) \<and> it_id (s i) = kind}
      = {i \<in> fst ` inside s. it_id (s i) = kind}"
    by (force simp: inside_def)
  then show ?thesis
    using tree_okD(1)[OF assms] by (simp add: kind_total_def tally_def sum.inter_filter)
qed

lemma effect_total:
  assumes "effect ty R f s s'"
  shows "kind_total s' kind = tally R (\<lambda>i. it_id (s i)) f kind"
proof -
  have "tree_ok s'" using effectD(1)[OF assms] by (simp add: items_ok_def)
  moreover have "(\<lambda>i. it_id (s' i)) = (\<lambda>i. it_id (s i))" using coreD(1)[OF effectD(4)[OF assms]] by blast
  moreover have "counts s' = f" using effectD(3)[OF assms] by blast
  ultimately show ?thesis using effectD(2)[OF assms] by (simp add: kind_total_tally)
qed

lemma tally_insert:
  assumes "finite R" "i \<notin> fst ` R"
  shows "tally (insert (i, c) R) ids f kind = tally R ids f kind + (if ids i = kind then unat (f i) else 0)"
  using assms by (simp add: tally_def)

lemma tally_change:
  assumes "finite R" "i \<in> fst ` R"
  shows "tally R ids (f(i := n)) kind + (if ids i = kind then unat (f i) else 0)
    = tally R ids f kind + (if ids i = kind then unat n else 0)"
proof -
  have f: "finite (fst ` R)" using assms(1) by simp
  show ?thesis by (simp add: tally_def sum.remove[OF f assms(2)] cong: if_cong)
qed

lemma tally_remove:
  assumes "finite R" "(i, c) \<in> R" "\<And>d. (i, d) \<in> R \<Longrightarrow> d = c"
  shows "tally (R - {(i, c)}) ids f kind + (if ids i = kind then unat (f i) else 0) = tally R ids f kind"
proof -
  have "R = insert (i, c) (R - {(i, c)})" using assms(2) by blast
  moreover have "i \<notin> fst ` (R - {(i, c)})" using assms(3) by force
  ultimately show ?thesis using tally_insert[of "R - {(i, c)}" i c ids f kind] assms(1) by (metis finite_Diff)
qed

lemma unat_count8: "unat n < 256 \<Longrightarrow> unat (ucast (ucast (n :: u32) :: u16) :: u8) = unat n"
proof -
  assume n: "unat n < 256"
  then have "unat (ucast n :: u16) = unat n" by (simp add: unsigned_ucast_eq take_bit_nat_eq_self)
  then show ?thesis using n by (simp only: unsigned_ucast_eq [where 'b = 16]) (simp add: take_bit_nat_eq_self)
qed

lemma unat_count32 [simp]: "unat (ucast (n :: u8) :: u32) = unat n"
  by (simp add: unsigned_ucast_eq take_bit_nat_eq_self unsigned_less[of n, THEN less_le_trans])

lemma removeThing_total:
  assumes ok: "items_ok (types W) s" and i: "i \<in> set (content s c)"
    and m: "stackable (types W (it_id (s i))) \<longrightarrow> m \<le> ucast (it_count (s i))"
  defines "gone \<equiv> if stackable (types W (it_id (s i))) then unat m else unat (it_count (s i))"
  obtains s' where "removeThing W c (Some i) m s = Some s'" "effect (types W) (inside s') (counts s') s s'"
    "inside s' \<subseteq> inside s" "\<And>x d. x \<noteq> i \<Longrightarrow> (x, d) \<in> inside s' \<longleftrightarrow> (x, d) \<in> inside s"
    "\<And>x. x \<noteq> i \<Longrightarrow> it_count (s' x) = it_count (s x)" "it_count (s' i) \<le> it_count (s i)"
    "\<not> stackable (types W (it_id (s i))) \<Longrightarrow> free_item s' i \<and> it_count (s' i) = it_count (s i)"
    "\<And>kind. kind_total s' kind + (if it_id (s i) = kind then gone else 0) = kind_total s kind"
proof -
  have t: "tree_ok s" using ok by (simp add: items_ok_def)
  have fin: "finite (inside s)" using tree_okD(1)[OF t] .
  have ic: "(i, c) \<in> inside s" using i tree_okD(3)[OF t] by simp
  have mem: "i \<in> fst ` inside s" using ic by force
  show ?thesis
  proof (cases "stackable (types W (it_id (s i))) \<and> m < ucast (it_count (s i))")
    case True
    obtain s' where s': "removeThing W c (Some i) m s = Some s'"
      "effect (types W) (inside s) ((counts s)(i := it_count (s i) - ucast m)) s s'"
      using removeThing_partial[OF ok i] True by blast
    note e = effectD[OF s'(2)]
    have lt: "unat m < unat (it_count (s i))" using True by (metis unat_count32 word_less_nat_alt)
    have "unat m < 2 ^ 8" using lt unsigned_less[of "it_count (s i)", where 'a = nat] by simp
    then have um: "unat (ucast m :: u8) = unat m" by (simp add: unsigned_ucast_eq take_bit_nat_eq_self)
    then have le: "ucast m \<le> it_count (s i)" using lt by (simp add: word_le_nat_alt)
    then have u: "unat (it_count (s i) - ucast m) + unat m = unat (it_count (s i))"
      using lt um by (simp add: unat_sub)
    have "it_count (s' i) \<le> it_count (s i)" using e(3)[of i] u by (simp add: word_le_nat_alt)
    moreover have "kind_total s' kind + (if it_id (s i) = kind then gone else 0) = kind_total s kind" for kind
      using tally_change[OF fin mem, of "\<lambda>i. it_id (s i)" "counts s" "it_count (s i) - ucast m" kind] u True
      by (simp add: effect_total[OF s'(2)] kind_total_tally[OF t] gone_def split: if_splits)
    ultimately show ?thesis using s' e(2,3) True by (intro that[of s']) (auto simp: effect_def)
  next
    case False
    then have whole: "stackable (types W (it_id (s i))) \<longrightarrow> m = ucast (it_count (s i))" using m by auto
    obtain s' where s': "removeThing W c (Some i) m s = Some s'"
      "effect (types W) (inside s - {(i, c)}) (counts s) s s'"
      using removeThing_whole[OF ok i whole] by blast
    note e = effectD[OF s'(2)]
    have uniq: "d = c" if "(i, d) \<in> inside s" for d using inside_unique[OF ic that] by simp
    then have "free_item s' i" using e(2) by (auto simp: free_item_inside)
    moreover have "kind_total s' kind + (if it_id (s i) = kind then gone else 0) = kind_total s kind" for kind
      using tally_remove[OF fin ic uniq, of "\<lambda>i. it_id (s i)" "counts s" kind] whole
      by (simp add: effect_total[OF s'(2)] kind_total_tally[OF t] gone_def split: if_splits)
    ultimately show ?thesis using s' e(2,3) by (intro that[of s']) (auto simp: effect_def)
  qed
qed

text \<open>
  The invariant of the moves: the items are sound, addresses from \<open>h_next\<close> on are unused, every
  container has a size, and stacks hold at most 100.
\<close>

definition small_stacks :: "(nat \<Rightarrow> item_type) \<Rightarrow> items \<Rightarrow> bool" where
  "small_stacks ty s \<longleftrightarrow> (\<forall>(i, c) \<in> inside s. stackable (ty (it_id (s i))) \<longrightarrow> it_count (s i) \<le> 100)"

definition unused :: "items \<Rightarrow> nat \<Rightarrow> bool" where
  "unused s a \<longleftrightarrow> it_parent (s a) = None \<and> it_content (s a) = None"

definition sized :: "items \<Rightarrow> bool" where
  "sized s \<longleftrightarrow> (\<forall>c k. it_content (s c) = Some k \<longrightarrow> maxSize k \<noteq> 0)"

definition heap_ok :: "(nat \<Rightarrow> item_type) \<Rightarrow> heap \<Rightarrow> bool" where
  "heap_ok ty h \<longleftrightarrow> items_ok ty (h_items h) \<and> (\<forall>a\<ge>h_next h. unused (h_items h) a)
     \<and> sized (h_items h) \<and> small_stacks ty (h_items h)"

text \<open>A new stack at an unused address goes into a container.\<close>

lemma sized_core: "sized s \<Longrightarrow> (\<And>x. core (s' x) = core (s x)) \<Longrightarrow> sized s'"
  unfolding sized_def by (metis coreD(3) option.map_sel option.discI option.sel map_option_eq_Some)

lemma unused_nowhere:
  assumes "tree_ok s" "unused s a"
  shows "(a, c) \<notin> inside s" "(c, a) \<notin> inside s" "(c, a) \<notin> (inside s)\<^sup>+"
proof -
  show "(a, c) \<notin> inside s" using assms(2) by (simp add: unused_def inside_def)
  have "(x, a) \<notin> inside s" for x
    using assms(2) tree_okD(3)[OF assms(1), of x a] by (simp add: unused_def)
  then show "(c, a) \<notin> inside s" "(c, a) \<notin> (inside s)\<^sup>+" by (auto dest: tranclD2)
qed

lemma new_stack_total:
  fixes kind :: nat and n :: u32
  assumes ok: "items_ok (types W) s" and a: "unused s a" and k: "it_content (s c) = Some k" "index < int (capacity k)"
    and n: "n \<noteq> 0" "unat n < 256"
  defines "s1 \<equiv> s(a := new_stack kind (ucast n))"
  obtains s' where "addThing W c index (Some a) s1 = Some s'" "effect (types W) (inside s') (counts s') s1 s'"
    "inside s' = insert (a, c) (inside s)" "\<And>x. it_count (s' x) = it_count (s1 x)"
    "\<And>K. kind_total s' K = kind_total s K + (if kind = K then unat n else 0)"
proof -
  have t: "tree_ok s" "\<And>x. lack (types W) s x = 0" using ok by (simp_all add: items_ok_def)
  note no = unused_nowhere[OF t(1) a]
  have same: "it_parent (new_stack kind (ucast n)) = it_parent (s a)" "it_content (new_stack kind (ucast n)) = it_content (s a)"
    using a by (simp_all add: new_stack_def unused_def)
  note ch = change_ok[OF t(1) same]
  have ok1: "items_ok (types W) s1" unfolding s1_def items_ok_def using ch no t(2) by simp
  have ins1: "inside s1 = inside s" unfolding s1_def by (rule ch(3))
  have ne: "a \<noteq> c" using a k by (auto simp: unused_def)
  have k1: "it_content (s1 c) = Some k" using ne k by (simp add: s1_def)
  have free: "free_item s1 a" "(c, a) \<notin> (inside s1)\<^sup>+" using no by (auto simp: free_item_inside ins1)
  obtain s' where s': "addThing W c index (Some a) s1 = Some s'"
    "effect (types W) (insert (a, c) (inside s)) (counts s1) s1 s'"
    using addThing_effect[OF ok1 k1 k(2) free(1) ne free(2)] ins1 by auto
  have un: "unat (it_count (s1 a)) = unat n"
  proof -
    have "(ucast n :: u16) \<noteq> 0" using n unat_count8[OF n(2)] by (metis ucast_0 unat_0 unat_eq_zero)
    then show ?thesis by (simp add: s1_def new_stack_def unat_count8[OF n(2)])
  qed
  have out: "a \<notin> fst ` inside s" using no(1) by auto
  then have "tally (inside s) (\<lambda>i. it_id (s1 i)) (counts s1) K = tally (inside s) (\<lambda>i. it_id (s i)) (counts s) K" for K
    unfolding tally_def by (intro sum.cong refl) (auto simp: s1_def)
  moreover have "it_id (s1 a) = kind" by (simp add: s1_def new_stack_def)
  ultimately have "kind_total s' K = kind_total s K + (if kind = K then unat n else 0)" for K
    using tally_insert[OF tree_okD(1)[OF t(1)] out, of c "\<lambda>i. it_id (s1 i)" "counts s1" K] un
    by (simp add: effect_total[OF s'(2)] kind_total_tally[OF t(1)])
  then show ?thesis using s' effectD(2,3)[OF s'(2)] by (intro that[of s']) (auto simp: effect_def)
qed

lemma update_total:
  assumes ok: "items_ok (types W) s" and i: "i \<in> set (content s c)"
    and plain: "\<not> fluid (types W (it_id (s i)))" "\<not> charged (types W (it_id (s i)))"
  obtains s' where "updateThing W c (Some i) (it_id (s i)) n s = Some s'"
    "effect (types W) (inside s) ((counts s)(i := ucast n)) s s'"
    "\<And>kind. kind_total s' kind + (if it_id (s i) = kind then unat (it_count (s i)) else 0)
       = kind_total s kind + (if it_id (s i) = kind then unat (ucast n :: u8) else 0)"
proof -
  have t: "tree_ok s" using ok by (simp add: items_ok_def)
  have mem: "i \<in> fst ` inside s" using i tree_okD(3)[OF t] by force
  obtain s' where s': "updateThing W c (Some i) (it_id (s i)) n s = Some s'"
    "effect (types W) (inside s) ((counts s)(i := ucast n)) s s'"
    using updateThing_effect[OF ok i plain] by blast
  then show ?thesis
    using tally_change[OF tree_okD(1)[OF t] mem, of "\<lambda>i. it_id (s i)" "counts s" "ucast n"]
    by (intro that[of s']) (simp_all add: effect_total[OF s'(2)] kind_total_tally[OF t])
qed

lemma add_total:
  assumes ok: "items_ok (types W) s" and k: "it_content (s c) = Some k" "index < int (capacity k)"
    and i: "free_item s i" "i \<noteq> c" "(c, i) \<notin> (inside s)\<^sup>+"
  obtains s' where "addThing W c index (Some i) s = Some s'"
    "effect (types W) (insert (i, c) (inside s)) (counts s) s s'"
    "\<And>kind. kind_total s' kind = kind_total s kind + (if it_id (s i) = kind then unat (it_count (s i)) else 0)"
proof -
  have t: "tree_ok s" using ok by (simp add: items_ok_def)
  have "i \<notin> fst ` inside s" using i(1) by (auto simp: free_item_inside)
  moreover obtain s' where s': "addThing W c index (Some i) s = Some s'"
    "effect (types W) (insert (i, c) (inside s)) (counts s) s s'"
    using addThing_effect[OF ok k i] by blast
  ultimately show ?thesis
    using tally_insert[OF tree_okD(1)[OF t], of i c "\<lambda>i. it_id (s i)" "counts s"]
    by (intro that[of s']) (simp_all add: effect_total[OF s'(2)] kind_total_tally[OF t])
qed

section \<open>A transfer keeps the totals\<close>

lemma heap_okD:
  assumes "heap_ok ty h"
  shows "items_ok ty (h_items h)" "tree_ok (h_items h)" "a \<ge> h_next h \<Longrightarrow> unused (h_items h) a"
    "sized (h_items h)" "small_stacks ty (h_items h)"
  using assms by (simp_all add: heap_ok_def items_ok_def)

lemma small_stacksD: "small_stacks ty s \<Longrightarrow> (i, c) \<in> inside s \<Longrightarrow> stackable (ty (it_id (s i))) \<Longrightarrow> it_count (s i) \<le> 100"
  by (auto simp: small_stacks_def)

lemma effect_heap:
  assumes ok: "heap_ok ty h" and e: "effect ty R f (h_items h) s"
    and R: "\<And>x c. (x, c) \<in> R \<Longrightarrow> x < h_next h"
    and f: "\<And>x c. (x, c) \<in> R \<Longrightarrow> stackable (ty (it_id (h_items h x))) \<Longrightarrow> f x \<le> 100"
  shows "heap_ok ty (h\<lparr>h_items := s\<rparr>)"
proof -
  note o = heap_okD[OF ok] and d = effectD[OF e]
  have "unused s a" if "a \<ge> h_next h" for a
    using o(3)[OF that] d(5)[of a] R that coreD(2)[OF d(4)[of a]] by (force simp: unused_def)
  moreover have "sized s" using sized_core[OF o(4)] d(4) by blast
  moreover have "small_stacks ty s"
    unfolding small_stacks_def using f d(2,3) coreD(1)[OF d(4)] by auto
  ultimately show ?thesis using d(1) by (simp add: heap_ok_def)
qed

lemma heap_used: "heap_ok ty h \<Longrightarrow> (x, c) \<in> inside (h_items h) \<Longrightarrow> x < h_next h"
  using heap_okD(3)[of ty h x] by (force simp: unused_def inside_def not_less[symmetric])

lemma capacity_core:
  assumes "sized s" "it_content (s c) = Some k" "core (s' c) = core (s c)"
  shows "\<exists>k'. it_content (s' c) = Some k' \<and> capacity k' = capacity k"
proof -
  obtain k' where k': "it_content (s' c) = Some k'" "maxSize k' = maxSize k" using assms(2) coreD(3)[OF assms(3)] by auto
  moreover have "maxSize k \<noteq> 0" using assms(1,2) by (simp add: sized_def)
  ultimately have "capacity k' = capacity k" by (simp add: capacity_def)
  then show ?thesis using k'(1) by blast
qed

text \<open>A new stack of at most 100.\<close>

lemma create_heap:
  fixes kind :: nat
  assumes ok: "heap_ok (types W) h" and k: "it_content (h_items h c) = Some k" "index < int (capacity k)"
    and n: "n \<noteq> 0" "n \<le> 100"
  defines "p \<equiv> create_stack kind n h"
  shows "\<exists>s'. addThing W c index (Some (fst p)) (h_items (snd p)) = Some s'
    \<and> heap_ok (types W) ((snd p)\<lparr>h_items := s'\<rparr>)
    \<and> (\<forall>K. kind_total s' K = kind_total (h_items h) K + (if kind = K then unat n else 0))"
proof -
  let ?a = "h_next h" and ?s = "(h_items h)(h_next h := new_stack kind (ucast n))"
  note o = heap_okD[OF ok]
  have n': "unat n \<le> 100" using n(2) by (simp add: word_le_nat_alt)
  then have "unat n < 256" by simp
  from new_stack_total[OF o(1) o(3)[OF order_refl] k n(1) this, where kind = kind]
  obtain s' where s': "addThing W c index (Some ?a) ?s = Some s'" "effect (types W) (inside s') (counts s') ?s s'"
    "inside s' = insert (?a, c) (inside (h_items h))" "\<And>x. it_count (s' x) = it_count (?s x)"
    "\<And>K. kind_total s' K = kind_total (h_items h) K + (if kind = K then unat n else 0)"
    by metis
  have "unused s' x" if "x \<ge> ?a + 1" for x
    using o(3)[of x] effectD(5)[OF s'(2), of x] that unused_nowhere(1)[OF o(2), of x] coreD(2)[OF effectD(4)[OF s'(2)], of x]
    by (auto simp: unused_def s'(3))
  moreover have "sized ?s" using o(4) by (auto simp: sized_def new_stack_def)
  then have "sized s'" using sized_core effectD(4)[OF s'(2)] by blast
  moreover have "(ucast (ucast n :: u16) :: u8) \<le> 100"
    using n' unat_count8[of n] by (simp add: word_le_nat_alt)
  then have "small_stacks (types W) s'"
    unfolding small_stacks_def using small_stacksD[OF o(5)] unused_nowhere(1)[OF o(2) o(3)[OF order_refl]]
      s'(3,4) coreD(1)[OF effectD(4)[OF s'(2)]] by (auto simp: new_stack_def)
  ultimately show ?thesis
    using s'(1,5) effectD(1)[OF s'(2)] by (simp add: p_def create_stack_def heap_ok_def)
qed

lemma transfer_whole:
  assumes ok: "heap_ok (types W) h" and i: "i \<in> set (content (h_items h) from)"
    and k: "it_content (h_items h to) = Some k" "index < int (capacity k)"
    and ns: "\<not> stackable (types W (it_id (h_items h i)))"
    and safe: "i \<noteq> to" "(to, i) \<notin> (inside (h_items h))\<^sup>+"
  shows "\<exists>h'. transfer_stack W from to index i toItem m h = Some h' \<and> heap_ok (types W) h'
    \<and> (\<forall>kind. kind_total (h_items h') kind = kind_total (h_items h) kind)"
proof -
  let ?s = "h_items h"
  note o = heap_okD[OF ok]
  have m: "stackable (types W (it_id (?s i))) \<longrightarrow> m \<le> ucast (it_count (?s i))" using ns by simp
  obtain s1 where s1: "removeThing W from (Some i) m ?s = Some s1" "effect (types W) (inside s1) (counts s1) ?s s1"
    "inside s1 \<subseteq> inside ?s" "free_item s1 i" "it_count (s1 i) = it_count (?s i)"
    "\<And>x. x \<noteq> i \<Longrightarrow> it_count (s1 x) = it_count (?s x)"
    "\<And>kind. kind_total s1 kind + (if it_id (?s i) = kind then unat (it_count (?s i)) else 0) = kind_total ?s kind"
    using ns by (rule_tac removeThing_total[OF o(1) i m, unfolded if_not_P[OF ns]]) auto
  note e1 = effectD[OF s1(2)]
  obtain k' where k': "it_content (s1 to) = Some k'" "index < int (capacity k')"
    using capacity_core[where s = ?s and s' = s1 and c = to, OF o(4) k(1) e1(4)] k(2) by auto
  have up: "(to, i) \<notin> (inside s1)\<^sup>+" using safe(2) trancl_mono[OF _ s1(3)] by blast
  obtain s2 where s2: "addThing W to index (Some i) s1 = Some s2"
    "effect (types W) (insert (i, to) (inside s1)) (counts s1) s1 s2"
    "\<And>kind. kind_total s2 kind = kind_total s1 kind + (if it_id (s1 i) = kind then unat (it_count (s1 i)) else 0)"
    by (rule add_total[OF e1(1) k' s1(4) safe(1) up]) blast
  have c: "counts s1 = counts ?s" using s1(5,6) by (intro ext) metis
  have iin: "(i, from) \<in> inside ?s" using i tree_okD(3)[OF o(2)] by simp
  have h1: "heap_ok (types W) (h\<lparr>h_items := s1\<rparr>)"
    using effect_heap[OF ok s1(2)] heap_used[OF ok] s1(3) small_stacksD[OF o(5)] c by (metis subsetD)
  then have h2: "heap_ok (types W) ((h\<lparr>h_items := s1\<rparr>)\<lparr>h_items := s2\<rparr>)"
    by (rule effect_heap) (use s2(2) heap_used[OF ok] s1(3,5) iin ns e1(4) heap_okD(5)[OF h1] small_stacksD
        in \<open>auto simp: coreD(1)[OF e1(4)]\<close>)
  have "transfer_stack W from to index i toItem m h = Some (h\<lparr>h_items := s2\<rparr>)"
    using s1(1) s2(1) ns by (simp add: transfer_stack_def coreD(1)[OF e1(4)])
  moreover have "kind_total s2 kind = kind_total ?s kind" for kind
    using s2(3)[of kind] s1(7)[of kind] s1(5) coreD(1)[OF e1(4)[of i]] by metis
  ultimately show ?thesis using h2 by auto
qed

definition plain_stacks :: "(nat \<Rightarrow> item_type) \<Rightarrow> bool" where
  "plain_stacks ty \<longleftrightarrow> (\<forall>kind. stackable (ty kind) \<longrightarrow> \<not> fluid (ty kind) \<and> \<not> charged (ty kind))"

text \<open>The stack at the destination is filled up to 100.\<close>

lemma fill_stack_eq:
  assumes "unat (it_count (s t)) \<le> 100"
  shows "unat (fill_stack s t m) = min (100 - unat (it_count (s t))) (unat m)"
proof -
  have "count32 s t \<le> 100" using assms by (simp add: word_le_nat_alt count32_def)
  then have r: "unat (100 - count32 s t) = 100 - unat (it_count (s t))" by (simp add: unat_sub count32_def)
  then have "unat (min (100 - count32 s t) m) = min (100 - unat (it_count (s t))) (unat m)"
    by (simp add: min_def word_le_nat_alt)
  then show ?thesis by (simp add: fill_stack_def unsigned_ucast_eq take_bit_nat_eq_self)
qed

lemma heap_twice: "h_items (h\<lparr>h_items := s\<rparr>) = s" "h\<lparr>h_items := s, h_items := s'\<rparr> = h\<lparr>h_items := s'\<rparr>"
  by simp_all

lemma fill_heap:
  fixes m :: u32
  assumes ok: "heap_ok (types W) h" and t: "t \<in> set (content (h_items h) to)"
    and ty: "stackable (types W (it_id (h_items h t)))" "plain_stacks (types W)"
  defines "n \<equiv> fill_stack (h_items h) t m"
  obtains s' where "updateThing W to (Some t) (it_id (h_items h t)) (ucast (count32 (h_items h) t + ucast n)) (h_items h) = Some s'"
    "heap_ok (types W) (h\<lparr>h_items := s'\<rparr>)" "\<And>x. core (s' x) = core (h_items h x)"
    "unat n \<le> unat m" "\<And>kind. kind_total s' kind = kind_total (h_items h) kind + (if it_id (h_items h t) = kind then unat n else 0)"
proof -
  let ?s = "h_items h"
  note o = heap_okD[OF ok]
  have tin: "(t, to) \<in> inside ?s" using t tree_okD(3)[OF o(2)] by simp
  then have le: "unat (it_count (?s t)) \<le> 100" using small_stacksD[OF o(5) tin ty(1)] by (simp add: word_le_nat_alt)
  have n: "unat n = min (100 - unat (it_count (?s t))) (unat m)" unfolding n_def by (rule fill_stack_eq[of ?s t, OF le])
  have s32: "unat (count32 ?s t + ucast n) = unat (it_count (?s t)) + unat n"
    using n le by (simp add: unat_word_ariths count32_def)
  define c :: u8 where "c = ucast (ucast (count32 ?s t + ucast n) :: u16)"
  have sum: "unat c = unat (it_count (?s t)) + unat n"
    unfolding c_def using s32 n le by (subst unat_count8) simp_all
  obtain s' where s': "updateThing W to (Some t) (it_id (?s t)) (ucast (count32 ?s t + ucast n)) ?s = Some s'"
    "effect (types W) (inside ?s) ((counts ?s)(t := c)) ?s s'"
    "\<And>kind. kind_total s' kind + (if it_id (?s t) = kind then unat (it_count (?s t)) else 0)
       = kind_total ?s kind + (if it_id (?s t) = kind then unat c else 0)"
    unfolding c_def
    by (rule update_total[OF o(1) t, where n = "ucast (count32 ?s t + ucast n)"]) (use ty in \<open>auto simp: plain_stacks_def\<close>)
  have "c \<le> 100" using sum n le by (simp add: word_le_nat_alt)
  then have "heap_ok (types W) (h\<lparr>h_items := s'\<rparr>)"
    by (intro effect_heap[OF ok s'(2)]) (use heap_used[OF ok] small_stacksD[OF o(5)] in auto)
  moreover have "kind_total s' kind = kind_total ?s kind + (if it_id (?s t) = kind then unat n else 0)" for kind
    using s'(3)[of kind] sum by (simp split: if_splits)
  ultimately show ?thesis using s'(1) effectD(4)[OF s'(2)] n by (intro that[of s']) auto
qed

lemma remove_heap:
  assumes ok: "heap_ok (types W) h" and i: "i \<in> set (content (h_items h) from)"
    and m: "stackable (types W (it_id (h_items h i)))" "m \<le> ucast (it_count (h_items h i))"
  obtains s' where "removeThing W from (Some i) m (h_items h) = Some s'" "heap_ok (types W) (h\<lparr>h_items := s'\<rparr>)"
    "\<And>x. core (s' x) = core (h_items h x)" "\<And>x d. x \<noteq> i \<Longrightarrow> (x, d) \<in> inside s' \<longleftrightarrow> (x, d) \<in> inside (h_items h)"
    "\<And>kind. kind_total s' kind + (if it_id (h_items h i) = kind then unat m else 0) = kind_total (h_items h) kind"
    "\<And>x. x \<noteq> i \<Longrightarrow> it_count (s' x) = it_count (h_items h x)"
proof -
  let ?s = "h_items h"
  note o = heap_okD[OF ok]
  have m': "stackable (types W (it_id (?s i))) \<longrightarrow> m \<le> ucast (it_count (?s i))" using m(2) by simp
  obtain s1 where s1: "removeThing W from (Some i) m ?s = Some s1" "effect (types W) (inside s1) (counts s1) ?s s1"
    "inside s1 \<subseteq> inside ?s" "\<And>x d. x \<noteq> i \<Longrightarrow> (x, d) \<in> inside s1 \<longleftrightarrow> (x, d) \<in> inside ?s"
    "\<And>x. x \<noteq> i \<Longrightarrow> it_count (s1 x) = it_count (?s x)" "it_count (s1 i) \<le> it_count (?s i)"
    "\<And>kind. kind_total s1 kind + (if it_id (?s i) = kind then unat m else 0) = kind_total ?s kind"
    using m(1) by (rule_tac removeThing_total[OF o(1) i m', unfolded if_P[OF m(1)]]) blast
  have "it_count (s1 x) \<le> it_count (?s x)" for x using s1(5)[of x] s1(6) by (cases "x = i") auto
  then have "heap_ok (types W) (h\<lparr>h_items := s1\<rparr>)"
    by (intro effect_heap[OF ok s1(2)]) (use heap_used[OF ok] s1(3) small_stacksD[OF o(5)] in \<open>blast intro: order_trans\<close>)+
  then show ?thesis using s1(1,4,5,7) effectD(4)[OF s1(2)] by (intro that[of s1]) auto
qed

text \<open>Past the last index the new stack goes nowhere.\<close>

lemma create_dropped:
  fixes kind :: nat and n :: u32
  assumes ok: "heap_ok (types W) h" and k: "it_content (h_items h c) = Some k" "\<not> index < int (capacity k)"
  defines "p \<equiv> create_stack kind n h"
  shows "addThing W c index (Some (fst p)) (h_items (snd p)) = Some (h_items (snd p))"
    and "heap_ok (types W) (snd p)" and "kind_total (h_items (snd p)) K = kind_total (h_items h) K"
proof -
  let ?a = "h_next h" and ?s = "(h_items h)(h_next h := new_stack kind (ucast n))"
  note o = heap_okD[OF ok]
  have u: "unused (h_items h) ?a" by (rule o(3)) simp
  note no = unused_nowhere[OF o(2) u]
  have same: "it_parent (new_stack kind (ucast n)) = it_parent (h_items h ?a)"
    "it_content (new_stack kind (ucast n)) = it_content (h_items h ?a)"
    using u by (simp_all add: new_stack_def unused_def)
  note ch = change_ok[OF o(2) same]
  have s: "h_items (snd p) = ?s" "fst p = ?a" "h_next (snd p) = ?a + 1" by (simp_all add: p_def create_stack_def)
  have "c \<noteq> ?a" using u k(1) by (auto simp: unused_def)
  then show "addThing W c index (Some (fst p)) (h_items (snd p)) = Some (h_items (snd p))"
    using k by (simp add: s addThing_def)
  have lk: "\<And>x. lack (types W) (h_items h) x = 0" using o(1) by (simp add: items_ok_def)
  then have "items_ok (types W) ?s" unfolding items_ok_def using ch no by simp
  moreover have "unused ?s x" if "x \<ge> ?a + 1" for x using o(3)[of x] that by (simp add: unused_def)
  moreover have "sized ?s" using o(4) by (auto simp: sized_def new_stack_def)
  moreover have "small_stacks (types W) ?s"
    using o(5) no(1) ch(3) unfolding small_stacks_def by (auto split: if_splits)
  ultimately show "heap_ok (types W) (snd p)" by (simp add: heap_ok_def s)
  show "kind_total (h_items (snd p)) K = kind_total (h_items h) K"
    unfolding s kind_total_tally[OF o(2)] kind_total_tally[OF ch(1)] ch(3) tally_def
    by (intro sum.cong refl) (use no(1) in auto)
qed

lemma create_here:
  fixes kind :: nat and index :: int
  assumes ok: "heap_ok (types W) h" and k: "it_content (h_items h c) = Some k"
    and n: "n \<le> 100"
  defines "r \<equiv> if n > 0 then
      let p = create_stack kind n h in
      Option.bind (addThing W c index (Some (fst p)) (h_items (snd p))) (\<lambda>s. Some ((snd p)\<lparr>h_items := s\<rparr>))
    else Some h"
  shows "\<exists>h'. r = Some h' \<and> heap_ok (types W) h'
    \<and> (\<forall>K. kind_total (h_items h') K = kind_total (h_items h) K
         + (if kind = K \<and> index < int (capacity k) then unat n else 0))"
proof (cases "n = 0")
  case True
  then show ?thesis using ok by (simp add: r_def)
next
  case False
  then have "n > 0" by (simp add: word_neq_0_conv)
  then show ?thesis
    using create_heap[OF ok k _ False n, of index kind] create_dropped[OF ok k, of index kind n]
    by (cases "index < int (capacity k)") (auto simp: r_def Let_def)
qed

lemma transfer_part:
  assumes ok: "heap_ok (types W) h" and i: "i \<in> set (content (h_items h) from)"
    and k: "it_content (h_items h to) = Some k"
    and m: "stackable (types W (it_id (h_items h i)))" "m \<le> ucast (it_count (h_items h i))"
    and ty: "plain_stacks (types W)"
    and t: "\<And>t. toItem = Some t \<Longrightarrow> t \<in> set (content (h_items h) to) \<and> t \<noteq> i"
  shows "\<exists>h'. transfer_stack W from to index i toItem m h = Some h' \<and> heap_ok (types W) h'
    \<and> (\<forall>kind. kind_total (h_items h') kind \<le> kind_total (h_items h) kind)
    \<and> (index < int (capacity k) \<longrightarrow> (\<forall>kind. kind_total (h_items h') kind = kind_total (h_items h) kind))"
proof -
  let ?s = "h_items h"
  note o = heap_okD[OF ok]
  obtain s1 where s1: "removeThing W from (Some i) m ?s = Some s1" "heap_ok (types W) (h\<lparr>h_items := s1\<rparr>)"
    "\<And>x. core (s1 x) = core (?s x)" "\<And>x d. x \<noteq> i \<Longrightarrow> (x, d) \<in> inside s1 \<longleftrightarrow> (x, d) \<in> inside ?s"
    "\<And>kind. kind_total s1 kind + (if it_id (?s i) = kind then unat m else 0) = kind_total ?s kind"
    using remove_heap[OF ok i m] by metis
  define t' where "t' = (case toItem of None \<Rightarrow> None | Some t \<Rightarrow> if it_id (s1 t) = it_id (s1 i) then Some t else None)"
  define n where "n = (case t' of None \<Rightarrow> 0 | Some t \<Rightarrow> fill_stack s1 t m)"
  have id: "it_id (s1 x) = it_id (?s x)" for x using coreD(1)[OF s1(3)] .
  have "\<exists>s2. (case t' of None \<Rightarrow> Some s1
          | Some t \<Rightarrow> updateThing W to (Some t) (it_id (s1 t)) (ucast (count32 s1 t + ucast n)) s1) = Some s2
      \<and> heap_ok (types W) (h\<lparr>h_items := s2\<rparr>) \<and> (\<forall>x. core (s2 x) = core (s1 x)) \<and> unat n \<le> unat m
      \<and> (\<forall>kind. kind_total s2 kind = kind_total s1 kind + (if it_id (?s i) = kind then unat n else 0))"
  proof (cases t')
    case None
    then show ?thesis using s1(2) by (simp add: n_def)
  next
    case (Some x)
    then have x: "toItem = Some x" "it_id (s1 x) = it_id (s1 i)" by (auto simp: t'_def split: option.splits if_splits)
    then have "(x, to) \<in> inside s1" using t s1(4) tree_okD(3)[OF o(2)] by blast
    then have xin: "x \<in> set (content s1 to)" using tree_okD(3)[of s1] heap_okD(2)[OF s1(2)] by simp
    have st: "stackable (types W (it_id (s1 x)))" using m(1) id x(2) by simp
    have n: "n = fill_stack s1 x m" by (simp add: n_def Some)
    obtain s2 where
      "updateThing W to (Some x) (it_id (s1 x)) (ucast (count32 s1 x + ucast n)) s1 = Some s2"
      "heap_ok (types W) (h\<lparr>h_items := s2\<rparr>)" "\<And>x. core (s2 x) = core (s1 x)" "unat n \<le> unat m"
      "\<And>kind. kind_total s2 kind = kind_total s1 kind + (if it_id (s1 x) = kind then unat n else 0)"
      unfolding n
      by (rule fill_heap[of W "h\<lparr>h_items := s1\<rparr>" x to m, unfolded heap_twice, OF s1(2) xin st ty]) blast
    then show ?thesis using x(2) id[of i] by (simp add: Some)
  qed
  then obtain s2 where s2: "(case t' of None \<Rightarrow> Some s1
          | Some t \<Rightarrow> updateThing W to (Some t) (it_id (s1 t)) (ucast (count32 s1 t + ucast n)) s1) = Some s2"
    "heap_ok (types W) (h\<lparr>h_items := s2\<rparr>)" "\<And>x. core (s2 x) = core (s1 x)" "unat n \<le> unat m"
    "\<And>kind. kind_total s2 kind = kind_total s1 kind + (if it_id (?s i) = kind then unat n else 0)" by blast
  obtain k' where k': "it_content (s2 to) = Some k'" "capacity k' = capacity k"
    using capacity_core[where s = ?s and s' = s2 and c = to, OF o(4) k] s1(3) s2(3) by auto
  have n32: "unat (ucast n :: u32) = unat n"
    using unsigned_less[of n, where 'a = nat] by (simp add: unsigned_ucast_eq take_bit_nat_eq_self)
  have left: "unat (m - ucast n) = unat m - unat n" using s2(4) n32 by (simp add: unat_sub word_le_nat_alt)
  have "(i, from) \<in> inside ?s" using i tree_okD(3)[OF o(2)] by simp
  then have "it_count (?s i) \<le> 100" using small_stacksD[OF o(5)] m(1) by blast
  then have "unat m \<le> 100" using m(2) by (simp add: word_le_nat_alt)
  then have "m - ucast n \<le> 100" using left by (simp add: word_le_nat_alt)
  from create_here[of W "h\<lparr>h_items := s2\<rparr>", OF s2(2) _ this, of to k' "it_id (s2 i)" index] k'(1)
  obtain h' where h': "(if m - ucast n > 0 then
      let p = create_stack (it_id (s2 i)) (m - ucast n) (h\<lparr>h_items := s2\<rparr>) in
      Option.bind (addThing W to index (Some (fst p)) (h_items (snd p))) (\<lambda>s. Some ((snd p)\<lparr>h_items := s\<rparr>))
    else Some (h\<lparr>h_items := s2\<rparr>)) = Some h'" "heap_ok (types W) h'"
    "\<And>K. kind_total (h_items h') K = kind_total s2 K + (if it_id (s2 i) = K \<and> index < int (capacity k) then unat (m - ucast n) else 0)"
    by (auto simp: k'(2))
  have st: "\<not> (\<not> stackable (types W (it_id (s1 i))))" using m(1) id by simp
  have unfold: "transfer_stack W from to index i toItem m h =
    Option.bind (case t' of None \<Rightarrow> Some s1
        | Some t \<Rightarrow> updateThing W to (Some t) (it_id (s1 t)) (ucast (count32 s1 t + ucast n)) s1)
      (\<lambda>s. if m - ucast n > 0 then
          let p = create_stack (it_id (s i)) (m - ucast n) (h\<lparr>h_items := s\<rparr>) in
          Option.bind (addThing W to index (Some (fst p)) (h_items (snd p))) (\<lambda>s. Some ((snd p)\<lparr>h_items := s\<rparr>))
        else Some (h\<lparr>h_items := s\<rparr>))"
    unfolding transfer_stack_def s1(1) bind.bind_lunit if_not_P[OF st] t'_def n_def Let_def ..
  have "transfer_stack W from to index i toItem m h = Some h'"
    unfolding unfold s2(1) bind.bind_lunit by (rule h'(1))
  moreover have "kind_total (h_items h') kind = kind_total ?s kind" if "index < int (capacity k)" for kind
    using h'(3)[of kind] s2(5)[of kind] s1(5)[of kind] left s2(4) id coreD(1)[OF s2(3)[of i]] that
    by (auto split: if_splits)
  moreover have "kind_total (h_items h') kind \<le> kind_total ?s kind" for kind
    using h'(3)[of kind] s2(5)[of kind] s1(5)[of kind] left s2(4) id coreD(1)[OF s2(3)[of i]]
    by (auto split: if_splits)
  ultimately show ?thesis using h'(2) by blast
qed

section \<open>Where a move goes\<close>

lemma last_stack_index:
  "last_stack s i (length xs) (rev xs) = Some (x, n) \<Longrightarrow>
    0 < n \<and> n \<le> length xs \<and> xs ! (n - 1) = x
    \<and> (\<forall>j. n \<le> j \<and> j < length xs \<longrightarrow> \<not> (it_id (s (xs ! j)) = it_id (s i) \<and> it_count (s (xs ! j)) < 100))"
proof (induction xs rule: rev_induct)
  case Nil
  then show ?case by simp
next
  case (snoc y xs)
  show ?case
  proof (cases "it_id (s y) = it_id (s i) \<and> it_count (s y) < 100")
    case True
    then show ?thesis using snoc.prems by auto
  next
    case False
    then have "last_stack s i (length xs) (rev xs) = Some (x, n)" using snoc.prems by (auto split: if_splits)
    from snoc.IH[OF this] show ?thesis using False by (auto simp: nth_append less_Suc_eq)
  qed
qed

text \<open>
  The item at the destination is in the container, and the index is one of the container, or it is
  the index of autostacking.
\<close>

definition dest_ok :: "cworld \<Rightarrow> items \<Rightarrow> nat \<Rightarrow> nat \<Rightarrow> int \<Rightarrow> nat option \<Rightarrow> bool" where
  "dest_ok W s i c index t \<longleftrightarrow> (\<forall>x. t = Some x \<longrightarrow> x \<in> set (content s c))
     \<and> (index < int (capacity (the (it_content (s c))))
        \<or> (\<exists>x n. t = Some x \<and> index = int n \<and> stackable (types W (it_id (s i)))
              \<and> last_stack s i (length (content s c)) (rev (content s c)) = Some (x, n)))"

lemma thing_at_in: "thing_at s c index = Some x \<Longrightarrow> x \<in> set (content s c)"
  by (auto simp: thing_at_def getThing_def split: if_splits)

lemma last_stack_in: "last_stack s i n xs = Some (x, m) \<Longrightarrow> x \<in> set xs"
  by (induction s i n xs rule: last_stack.induct) (auto split: if_splits)

lemma queryDestination_here:
  assumes "queryDestination W s c index (Some i) None flags = (c', index', t)"
  shows "c' = c \<and> dest_ok W s i c index' t \<or> c' \<noteq> c \<and> index' = - 1 \<and> t = None \<and> it_content (s c') \<noteq> None"
proof -
  have cap: "- 1 < int (capacity k)" for k by simp
  show ?thesis
  proof (cases "index = 254")
    case True
    then show ?thesis using assms cap[of "the (it_content (s c))"]
      by (auto simp: queryDestination_def INDEX_WHEREEVER_def getParentContainer_def dest_ok_def
          split: option.splits cylinder.splits if_splits)
  next
    case False
    define j where "j = (if index = 255 \<or> index \<ge> int (capacity (the (it_content (s c)))) then - 1 else index)"
    have j: "j < int (capacity (the (it_content (s c))))" by (simp add: j_def)
    define auto where "auto = (if \<not> hasBitSet FLAG_IGNOREAUTOSTACK flags \<and> stackable (types W (it_id (s i)))
                      \<and> it_parent (s i) \<noteq> Some (InItem c)
                   then last_stack s i (length (content s c)) (rev (content s c)) else None)"
    have eq: "queryDestination W s c index (Some i) None flags =
      (case auto of Some (x, n) \<Rightarrow> (c, int n, Some x)
       | None \<Rightarrow> if j \<noteq> - 1 then
           (case thing_at s c j of Some x \<Rightarrow> if it_content (s x) \<noteq> None then (x, - 1, None) else (c, j, Some x)
            | None \<Rightarrow> (c, j, None)) else (c, j, None))"
      using False by (simp add: queryDestination_def j_def auto_def INDEX_WHEREEVER_def split: option.split)
    show ?thesis
    proof (cases auto)
      case None
      then show ?thesis using assms j thing_at_in[of s c j] unfolding eq
        by (auto simp: dest_ok_def split: option.splits if_splits)
    next
      case (Some a)
      then show ?thesis using assms last_stack_in[of s i "length (content s c)" "rev (content s c)"] unfolding eq
        by (cases a) (auto simp: dest_ok_def auto_def split: if_splits)
    qed
  qed
qed

lemma dest_loop_here:
  "dest_loop W s i n c index None flags = (c', index', t, flags') \<Longrightarrow> it_content (s c) \<noteq> None \<Longrightarrow> n \<noteq> 0 \<or> index = - 1 \<Longrightarrow>
    it_content (s c') \<noteq> None \<and> (flags' = flags \<or> flags' = 0) \<and> dest_ok W s i c' index' t"
proof (induction n arbitrary: c index flags)
  case 0
  then show ?case by (auto simp: dest_ok_def)
next
  case (Suc n)
  obtain sub j t' where q: "queryDestination W s c index (Some i) None flags = (sub, j, t')" by (metis surj_pair)
  from queryDestination_here[OF q] show ?case using Suc q by (auto split: if_splits)
qed

section \<open>The queries answer\<close>

lemma depot_full_total:
  assumes "tree_ok s"
  shows "\<exists>b. depot_full W s d limit i n = Some b"
proof -
  obtain r where "climb s i = Some r" using climb_ok[OF assms] by blast
  moreover have "\<exists>n. getItemHoldingCount s c = Some n" for c
    by (rule iter_begin_items[OF assms, of c]) (simp add: getItemHoldingCount_def)
  moreover obtain n m where "getItemHoldingCount s i = Some n" "getItemHoldingCount s d = Some m" using calculation by blast
  ultimately show ?thesis by (auto simp: depot_full_def getTopParent_def)
qed

definition no_exchange :: "cworld \<Rightarrow> bool" where
  "no_exchange W \<longleftrightarrow> (\<forall>k i n flags. other_queryAdd W k i n flags \<noteq> RET_NEEDEXCHANGE)"

lemma child_queryAdd_total:
  assumes "tree_ok s"
  shows "\<exists>r. child_queryAdd W s t i n flags = Some r \<and> r \<noteq> RET_NEEDEXCHANGE"
proof (cases "it_depotLimit (s t)")
  case (Some limit)
  obtain b where "depot_full W s t limit i n = Some b" using depot_full_total[OF assms] by blast
  then show ?thesis using Some by (simp add: child_queryAdd_def)
qed (simp add: child_queryAdd_def)

lemma getTopParent_total:
  assumes "tree_ok s" and "it_content (s c) \<noteq> None"
  shows "\<exists>y. getTopParent p s c = Some (Some y)"
proof -
  obtain r where r: "climb s c = Some r" using climb_ok[OF assms(1)] by blast
  have "top_parent p s c r \<noteq> None"
    using assms(2) by (auto simp: top_parent_def this_cylinder_def split: option.split list.split)
  then show ?thesis using r by (auto simp: getTopParent_def)
qed

lemma container_queryAdd_total:
  assumes ok: "tree_ok s" and c: "it_content (s c) \<noteq> None" and W: "no_exchange W"
  shows "\<exists>r. container_queryAdd W s c index thing n flags = Some r \<and> r \<noteq> RET_NEEDEXCHANGE"
proof -
  obtain r where "climb s c = Some r" using climb_ok[OF ok] by blast
  moreover obtain y where "getTopParent (has_parent W) s c = Some (Some y)" using getTopParent_total[OF ok c] by blast
  ultimately show ?thesis using child_queryAdd_total[OF ok] W
    by (cases thing; cases y) (auto simp: container_queryAdd_def no_exchange_def)
qed

lemma queryAdd_total:
  assumes ok: "tree_ok s" and c: "it_content (s c) \<noteq> None" and W: "no_exchange W"
  shows "\<exists>r. queryAdd W s c index thing n flags = Some r \<and> r \<noteq> RET_NEEDEXCHANGE"
proof (cases "it_depotLimit (s c)")
  case None
  then show ?thesis using container_queryAdd_total[OF assms] by (simp add: queryAdd_def)
next
  case (Some limit)
  show ?thesis
  proof (cases thing)
    case None
    then show ?thesis using Some by (simp add: queryAdd_def depot_queryAdd_def)
  next
    case thing: (Some i)
    obtain b where "depot_full W s c limit i n = Some b" using depot_full_total[OF ok] by blast
    then show ?thesis using Some thing container_queryAdd_total[OF assms, of index thing n flags]
      by (auto simp: queryAdd_def depot_queryAdd_def)
  qed
qed

lemma stack_room_total:
  assumes "tree_ok s" "it_content (s c) \<noteq> None" "no_exchange W"
  shows "\<exists>n. stack_room W s c i flags j xs = Some n"
proof (induction xs arbitrary: j)
  case (Cons x xs)
  obtain r where "queryAdd W s c (int j) (Some i) (100 - unat (it_count (s x))) flags = Some r"
    using queryAdd_total[OF assms] by blast
  then show ?case using Cons[of "Suc j"] by auto
qed simp

lemma queryMaxCount_total:
  assumes "tree_ok s" "it_content (s c) \<noteq> None" "no_exchange W"
  shows "\<exists>r. queryMaxCount W s c index (Some i) n flags = Some r"
proof -
  obtain m where "stack_room W s c i flags 0 (itemlist (the (it_content (s c)))) = Some m"
    using stack_room_total[OF assms] by blast
  moreover have "\<forall>j. \<exists>r. queryAdd W s c index (Some i) j flags = Some r"
    using queryAdd_total[OF assms] by blast
  then obtain q where "\<forall>j. queryAdd W s c index (Some i) j flags = Some (q j)" by (rule choice[THEN exE])
  ultimately show ?thesis by (auto simp: queryMaxCount_def Let_def split: option.split)
qed

text \<open>At the index of autostacking past the list there is no room.\<close>

lemma autostack_no_room:
  assumes d: "dest_ok W s i c index t" "\<not> index < int (capacity (the (it_content (s c))))"
    and k: "it_content (s c) = Some k" and fl: "\<not> hasBitSet FLAG_NOLIMIT flags"
  shows "queryMaxCount W s c index (Some i) n flags = Some (0, if 0 < n then RET_CONTAINERNOTENOUGHROOM else RET_NOERROR)"
proof -
  obtain x m where x: "t = Some x" "index = int m" "stackable (types W (it_id (s i)))"
    "last_stack s i (length (content s c)) (rev (content s c)) = Some (x, m)"
    using d by (auto simp: dest_ok_def)
  have con: "content s c = itemlist k" using k by (simp add: content_def)
  note l = last_stack_index[OF x(4)]
  have "capacity k \<le> length (itemlist k)" using d(2) x(2) l k con by simp
  moreover have "\<not> (it_id (s y) = it_id (s i) \<and> it_count (s y) < 100)" if "thing_at s c index = Some y" for y
    using that l x(2) by (auto simp: thing_at_def getThing_def split: if_splits)
  ultimately show ?thesis using fl x(2,3) k l
    by (auto simp: queryMaxCount_def INDEX_WHEREEVER_def split: option.split)
qed

section \<open>Moves\<close>

lemma move_refused:
  assumes "it_parent (h_items h i) \<noteq> None" and d: "dest_loop W (h_items h) i MAP_MAX_LAYERS to index None flags = (c, j, t, fl)"
    and "t \<noteq> Some i" and q: "queryAdd W (h_items h) c j (Some i) (unat cnt) fl = Some ret" "ret \<noteq> RET_NEEDEXCHANGE"
    and m: "queryMaxCount W (h_items h) c j (Some i) cnt fl = Some (mq, mret)"
    and stop: "ret \<noteq> RET_NOERROR \<or> mret \<noteq> RET_NOERROR \<and> mq = 0
      \<or> queryRemove W (h_items h) from (Some i) (if stackable (types W (it_id (h_items h i))) then min cnt mq else mq) fl \<noteq> RET_NOERROR"
  shows "\<exists>r. internalMoveItem W from to index i cnt flags h = Some (r, h)"
  using assms by (auto simp: internalMoveItem_def Let_def)

lemma move_goes:
  assumes "it_parent (h_items h i) \<noteq> None" and d: "dest_loop W (h_items h) i MAP_MAX_LAYERS to index None flags = (c, j, t, fl)"
    and "t \<noteq> Some i" and q: "queryAdd W (h_items h) c j (Some i) (unat cnt) fl = Some RET_NOERROR"
    and m: "queryMaxCount W (h_items h) c j (Some i) cnt fl = Some (mq, mret)"
    "m = (if stackable (types W (it_id (h_items h i))) then min cnt mq else mq)"
    and go: "\<not> (mret \<noteq> RET_NOERROR \<and> mq = 0)" "queryRemove W (h_items h) from (Some i) m fl = RET_NOERROR"
    and tr: "transfer_stack W from c j i t m h = Some h'"
  shows "\<exists>r. internalMoveItem W from to index i cnt flags h = Some (r, h')"
  using assms by (auto simp: internalMoveItem_def Let_def)

lemma queryRemove_OK:
  assumes "queryRemove W s c (Some i) n fl = RET_NOERROR"
  shows "i \<in> set (content s c)" "n \<noteq> 0" "stackable (types W (it_id (s i))) \<Longrightarrow> n \<le> ucast (it_count (s i))"
  using assms by (auto simp: queryRemove_def split: if_splits)

lemma has_flag_0 [simp]: "\<not> hasBitSet FLAG_NOLIMIT 0" "\<not> hasBitSet FLAG_CHILDISOWNER 0"
  by (simp_all add: hasBitSet_def FLAG_NOLIMIT_def FLAG_CHILDISOWNER_def)

lemma move_item_conserves:
  assumes ok: "heap_ok (types W) h" and W: "plain_stacks (types W)" "no_exchange W"
    and i: "it_parent (h_items h i) = Some (InItem from)" and to: "it_content (h_items h to) \<noteq> None"
    and fl: "\<not> hasBitSet FLAG_CHILDISOWNER flags"
  shows "\<exists>ret h'. internalMoveItem W from to index i cnt flags h = Some (ret, h') \<and> heap_ok (types W) h'
    \<and> (\<forall>kind. kind_total (h_items h') kind \<le> kind_total (h_items h) kind)
    \<and> (\<not> hasBitSet FLAG_NOLIMIT flags \<longrightarrow> (\<forall>kind. kind_total (h_items h') kind = kind_total (h_items h) kind))"
proof -
  let ?s = "h_items h" and ?st = "stackable (types W (it_id (h_items h i)))"
  note o = heap_okD[OF ok]
  have par: "it_parent (?s i) \<noteq> None" using i by simp
  obtain c j t f where d: "dest_loop W ?s i MAP_MAX_LAYERS to index None flags = (c, j, t, f)" by (metis surj_pair)
  have d': "it_content (?s c) \<noteq> None" "dest_ok W ?s i c j t" "hasBitSet FLAG_NOLIMIT f \<Longrightarrow> hasBitSet FLAG_NOLIMIT flags"
    "\<not> hasBitSet FLAG_CHILDISOWNER f"
    using dest_loop_here[OF d to] fl by (auto simp: MAP_MAX_LAYERS_def)
  show ?thesis
  proof (cases "t = Some i")
    case True
    then show ?thesis using d i ok by (simp add: internalMoveItem_def)
  next
    case False
    obtain ret where q: "queryAdd W ?s c j (Some i) (unat cnt) f = Some ret" "ret \<noteq> RET_NEEDEXCHANGE"
      using queryAdd_total[OF o(2) d'(1) W(2)] by blast
    obtain mq mret where mq: "queryMaxCount W ?s c j (Some i) cnt f = Some (mq, mret)"
      using queryMaxCount_total[OF o(2) d'(1) W(2)] by (metis surj_pair)
    define m where "m = (if ?st then min cnt mq else mq)"
    show ?thesis
    proof (cases "ret \<noteq> RET_NOERROR \<or> mret \<noteq> RET_NOERROR \<and> mq = 0 \<or> queryRemove W ?s from (Some i) m f \<noteq> RET_NOERROR")
      case True
      then show ?thesis using move_refused[OF par d False q mq, of "from"] ok unfolding m_def by blast
    next
      case go: False
      note r = queryRemove_OK[of W ?s "from" i m f]
      have r': "i \<in> set (content ?s from)" "m \<noteq> 0" "?st \<Longrightarrow> m \<le> ucast (it_count (?s i))" using go r by auto
      obtain k where k: "it_content (?s c) = Some k" using d'(1) by blast
      have js: "j < int (capacity k)" if "\<not> ?st" using that d'(2) k by (auto simp: dest_ok_def)
      have jk: "j < int (capacity k)" if nl: "\<not> hasBitSet FLAG_NOLIMIT flags"
      proof (rule ccontr)
        assume "\<not> j < int (capacity k)"
        then have "\<not> j < int (capacity (the (it_content (?s c))))" and "?st" using d'(2) k by (auto simp: dest_ok_def)
        then have "mq = 0" using autostack_no_room[OF d'(2) _ k, of f cnt] d'(3) nl mq by auto
        then show False using r'(2) \<open>?st\<close> by (simp add: m_def)
      qed
      have safe: "i \<noteq> c" "(c, i) \<notin> (inside ?s)\<^sup>+" using queryAdd_safe[OF o(2) _ d'(4)] q go by auto
      have tin: "x \<in> set (content ?s c) \<and> x \<noteq> i" if "t = Some x" for x using d'(2) False that by (auto simp: dest_ok_def)
      have "\<exists>h'. transfer_stack W from c j i t m h = Some h' \<and> heap_ok (types W) h'
          \<and> (\<forall>kind. kind_total (h_items h') kind \<le> kind_total ?s kind)
          \<and> (\<not> hasBitSet FLAG_NOLIMIT flags \<longrightarrow> (\<forall>kind. kind_total (h_items h') kind = kind_total ?s kind))"
      proof (cases ?st)
        case True
        then show ?thesis using transfer_part[OF ok r'(1) k True r'(3) W(1) tin] jk by blast
      next
        case False
        then show ?thesis using transfer_whole[OF ok r'(1) k js[OF False] False safe] by (metis order_refl)
      qed
      then obtain h' where h': "transfer_stack W from c j i t m h = Some h'" "heap_ok (types W) h'"
        "\<And>kind. kind_total (h_items h') kind \<le> kind_total ?s kind"
        "\<not> hasBitSet FLAG_NOLIMIT flags \<Longrightarrow> (\<forall>kind. kind_total (h_items h') kind = kind_total ?s kind)" by blast
      have "\<exists>ret. internalMoveItem W from to index i cnt flags h = Some (ret, h')"
        using move_goes[OF par d False _ mq m_def _ _ h'(1)] q go by auto
      then show ?thesis using h'(2-4) by blast
    qed
  qed
qed

text \<open>
  A sequence of moves: each names the container the item is in, a container to move it to, and the
  flags of the call. A request that names another container than the item's, or no container, is none.
\<close>

datatype item_move = Item_Move nat nat int nat u32 (move_flags: u32)

fun move_step :: "cworld \<Rightarrow> item_move \<Rightarrow> heap \<Rightarrow> heap option" where
  "move_step W (Item_Move from to index i cnt flags) h =
     (if it_parent (h_items h i) = Some (InItem from) \<and> it_content (h_items h to) \<noteq> None
      then map_option snd (internalMoveItem W from to index i cnt flags h) else Some h)"

definition move_run :: "cworld \<Rightarrow> item_move list \<Rightarrow> heap \<Rightarrow> heap option" where
  "move_run W ms h = fold (\<lambda>e h. Option.bind h (move_step W e)) ms (Some h)"

lemma move_step_conserves:
  assumes "heap_ok (types W) h" "plain_stacks (types W)" "no_exchange W"
    and "\<not> hasBitSet FLAG_CHILDISOWNER (move_flags e)"
  shows "\<exists>h'. move_step W e h = Some h' \<and> heap_ok (types W) h'
    \<and> (\<forall>kind. kind_total (h_items h') kind \<le> kind_total (h_items h) kind)
    \<and> (\<not> hasBitSet FLAG_NOLIMIT (move_flags e) \<longrightarrow> (\<forall>kind. kind_total (h_items h') kind = kind_total (h_items h) kind))"
proof (cases e)
  case (Item_Move "from" to index i cnt flags)
  show ?thesis
  proof (cases "it_parent (h_items h i) = Some (InItem from) \<and> it_content (h_items h to) \<noteq> None")
    case True
    then show ?thesis
      using assms move_item_conserves[of W h i "from" to flags index cnt] Item_Move by auto
  next
    case False
    then show ?thesis using assms(1) Item_Move by auto
  qed
qed

text \<open>What a stack does not take is dropped past the last index.\<close>

lemma transfer_drops:
  assumes ok: "heap_ok (types W) h" "plain_stacks (types W)"
    and i: "i \<in> set (content (h_items h) src)" "stackable (types W (it_id (h_items h i)))" "x \<noteq> i"
    and to: "it_content (h_items h to) = Some k" "x \<in> set (content (h_items h) to)"
      "it_id (h_items h x) = it_id (h_items h i)" "it_count (h_items h x) < 100"
      "unat (it_count (h_items h x)) + unat (it_count (h_items h i)) > 100"
  shows "\<exists>h'. transfer_stack W src to (int (maxSize k)) i (Some x) (count32 (h_items h) i) h = Some h'
    \<and> kind_total (h_items h) (it_id (h_items h i))
        = kind_total (h_items h') (it_id (h_items h i)) + (unat (it_count (h_items h x)) + unat (it_count (h_items h i)) - 100)"
proof -
  let ?s = "h_items h" and ?m = "count32 (h_items h) i"
  note o = heap_okD[OF ok(1)] and iin = i(1) and xin = to(2) and ne = i(3)
  obtain s1 where s1: "removeThing W src (Some i) ?m ?s = Some s1" "heap_ok (types W) (h\<lparr>h_items := s1\<rparr>)"
    "\<And>y. core (s1 y) = core (?s y)" "\<And>y d. y \<noteq> i \<Longrightarrow> (y, d) \<in> inside s1 \<longleftrightarrow> (y, d) \<in> inside ?s"
    "it_count (s1 x) = it_count (?s x)"
    "\<And>K. kind_total s1 K + (if it_id (?s i) = K then unat ?m else 0) = kind_total ?s K"
    using remove_heap[OF ok(1) iin i(2), of ?m] ne by (metis count32_def order_refl)
  have id: "it_id (s1 y) = it_id (?s y)" for y using coreD(1)[OF s1(3)] .
  have t1: "tree_ok s1" using heap_okD(2)[OF s1(2)] by simp
  have xin1: "x \<in> set (content s1 to)" using xin s1(4)[OF ne] tree_okD(3)[OF o(2)] tree_okD(3)[OF t1] by blast
  have st1: "stackable (types W (it_id (s1 x)))" using id to(3) i(2) by simp
  define n where "n = fill_stack s1 x ?m"
  have le: "unat (it_count (s1 x)) \<le> 100" using s1(5) to(4) by (simp add: word_less_nat_alt)
  have n: "unat n = 100 - unat (it_count (?s x))"
    using fill_stack_eq[of s1 x, OF le, of ?m] to(5) s1(5) by (simp add: n_def count32_def)
  obtain s2 where s2: "updateThing W to (Some x) (it_id (s1 x)) (ucast (count32 s1 x + ucast n)) s1 = Some s2"
    "heap_ok (types W) (h\<lparr>h_items := s2\<rparr>)" "\<And>y. core (s2 y) = core (s1 y)"
    "\<And>K. kind_total s2 K = kind_total s1 K + (if it_id (s1 x) = K then unat n else 0)"
    unfolding n_def
    by (rule fill_heap[of W "h\<lparr>h_items := s1\<rparr>" x to ?m, unfolded heap_twice, OF s1(2) xin1 st1 ok(2)]) blast
  have n32: "unat (ucast n :: u32) = unat n"
    using unsigned_less[of n, where 'a = nat] by (simp add: unsigned_ucast_eq take_bit_nat_eq_self)
  have pos: "?m - ucast n > 0"
  proof -
    have "unat ?m > 100 - unat (it_count (?s x))" using to(5) le s1(5) by (simp add: count32_def)
    then have "unat (ucast n :: u32) < unat ?m" using n n32 by simp
    then show ?thesis by (simp add: word_less_nat_alt word_le_nat_alt unat_sub)
  qed
  obtain k2 where k2: "it_content (s2 to) = Some k2" "capacity k2 = maxSize k"
    using capacity_core[where s = ?s and s' = s2 and c = to, OF o(4) to(1)] s1(3) s2(3) o(4) to(1)
    by (auto simp: capacity_def sized_def)
  let ?p = "create_stack (it_id (s2 i)) (?m - ucast n) (h\<lparr>h_items := s2\<rparr>)"
  have un: "unused s2 (h_next h)" using heap_okD(3)[OF s2(2), of "h_next h"] by simp
  have drop: "addThing W to (int (maxSize k)) (Some (fst ?p)) (h_items (snd ?p)) = Some (h_items (snd ?p))"
    using k2 un by (auto simp: addThing_def create_stack_def unused_def)
  have tr: "transfer_stack W src to (int (maxSize k)) i (Some x) ?m h = Some (snd ?p)"
    unfolding transfer_stack_def s1(1) bind.bind_lunit
    using i(2) id to(3) s2(1) pos drop by (simp add: Let_def n_def)
  have total: "kind_total (h_items (snd ?p)) K = kind_total s2 K" for K
  proof -
    have "{y. (\<exists>c. it_parent (h_items (snd ?p) y) = Some (InItem c)) \<and> it_id (h_items (snd ?p) y) = K}
        = {y. (\<exists>c. it_parent (s2 y) = Some (InItem c)) \<and> it_id (s2 y) = K}"
      using un by (auto simp: create_stack_def new_stack_def unused_def)
    then show ?thesis unfolding kind_total_def
      by (intro sum.cong) (use un in \<open>auto simp: create_stack_def unused_def\<close>)
  qed
  have "unat n \<le> unat ?m" using n to(5) by (simp add: count32_def)
  moreover have "unat (it_count (?s x)) \<le> 100" using le s1(5) by simp
  ultimately show ?thesis
    using tr total s2(4)[of "it_id (?s i)"] s1(6)[of "it_id (?s i)"] id[of x] to(3,5) n
    by (auto simp: count32_def)
qed

section \<open>Properties\<close>

text \<open>
  C9. Every sequence of moves between containers ends and keeps the invariant of the items (the
  tree, the sums of weights, stacks of at most 100). It never makes a piece of any kind, and as long
  as no move lifts the limits it loses none. \<open>FLAG_CHILDISOWNER\<close>, which only a container adds when it
  asks the one it is in, is no flag of a move.
\<close>

theorem moves_conserve:
  assumes "heap_ok (types W) h" "plain_stacks (types W)" "no_exchange W"
    and "\<forall>e\<in>set ms. \<not> hasBitSet FLAG_CHILDISOWNER (move_flags e)"
  shows "\<exists>h'. move_run W ms h = Some h' \<and> heap_ok (types W) h'
    \<and> (\<forall>kind. kind_total (h_items h') kind \<le> kind_total (h_items h) kind)
    \<and> ((\<forall>e\<in>set ms. \<not> hasBitSet FLAG_NOLIMIT (move_flags e))
        \<longrightarrow> (\<forall>kind. kind_total (h_items h') kind = kind_total (h_items h) kind))"
  using assms(1,4)
proof (induction ms arbitrary: h)
  case Nil
  then show ?case by (simp add: move_run_def)
next
  case (Cons e ms)
  obtain h1 where h1: "move_step W e h = Some h1" "heap_ok (types W) h1"
    "\<And>kind. kind_total (h_items h1) kind \<le> kind_total (h_items h) kind"
    "\<not> hasBitSet FLAG_NOLIMIT (move_flags e) \<Longrightarrow> \<forall>kind. kind_total (h_items h1) kind = kind_total (h_items h) kind"
    using move_step_conserves[OF Cons.prems(1) assms(2,3), of e] Cons.prems(2) by auto
  obtain h2 where h2: "move_run W ms h1 = Some h2" "heap_ok (types W) h2"
    "\<And>kind. kind_total (h_items h2) kind \<le> kind_total (h_items h1) kind"
    "(\<forall>e\<in>set ms. \<not> hasBitSet FLAG_NOLIMIT (move_flags e)) \<Longrightarrow>
       \<forall>kind. kind_total (h_items h2) kind = kind_total (h_items h1) kind"
    using Cons.IH[OF h1(2)] Cons.prems(2) by auto
  have "move_run W (e # ms) h = Some h2" using h1(1) h2(1) by (simp add: move_run_def)
  moreover have "kind_total (h_items h2) kind \<le> kind_total (h_items h) kind" for kind
    using h1(3) h2(3) order_trans by blast
  ultimately show ?case using h1(4) h2(2,4) by auto
qed

text \<open>Two containers, the second one of a given size, with 60 and 50 coins.\<close>

definition purse_items :: "nat \<Rightarrow> items" where
  "purse_items size2 = (\<lambda>_. coin 1 1 None None)
     (0 := coin 2 1 None (Some \<lparr>maxSize = 2, totalWeight = 600, itemlist = [2]\<rparr>),
      1 := coin 2 1 None (Some \<lparr>maxSize = size2, totalWeight = 500, itemlist = [3]\<rparr>),
      2 := coin 1 60 (Some (InItem 0)) None,
      3 := coin 1 50 (Some (InItem 1)) None)"

definition purse_heap :: "nat \<Rightarrow> heap" where
  "purse_heap size2 = \<lparr>h_items = purse_items size2, h_next = 4\<rparr>"

lemma purse_heap_ok:
  assumes "m \<noteq> 0"
  shows "heap_ok (types coin_world) (purse_heap m)"
proof -
  have ins: "inside (purse_items m) = {(2, 0), (3, 1)}"
    by (auto simp: inside_def purse_items_def coin_def split: if_splits)
  have con: "content (purse_items m) c = (if c = 0 then [2] else if c = 1 then [3] else [])" for c
    by (simp add: content_def purse_items_def coin_def)
  have "acyclic {(2::nat, 0), (3::nat, 1::nat)}" by (rule acyclicI_order[where f = id]) auto
  then have "tree_ok (purse_items m)" by (auto simp: tree_ok_def ins con split: if_splits)
  moreover have "lack (types coin_world) (purse_items m) c = 0" for c
    by (simp add: lack_def purse_items_def coin_def getWeight_def own_weight_def coin_world_def)
  ultimately show ?thesis using assms
    by (auto simp: heap_ok_def items_ok_def purse_heap_def unused_def sized_def small_stacks_def ins)
      (auto simp: purse_items_def coin_def split: if_splits)
qed

lemma purse_move:
  "map_option (\<lambda>h. (it_count (h_items h 3), it_count (h_items h 4), content (h_items h) 0, content (h_items h) 1))
     (move_run coin_world [Item_Move 0 1 255 2 60 0] (purse_heap 2)) = Some (100, 10, [], [4, 3])"
  by code_simp

theorem moves_conserve_witness:
  "\<exists>h'. move_run coin_world [Item_Move 0 1 255 2 60 0] (purse_heap 2) = Some h'
    \<and> content (h_items h') 1 = [4, 3] \<and> it_count (h_items h' 3) = 100 \<and> it_count (h_items h' 4) = 10
    \<and> kind_total (h_items h') 1 = kind_total (purse_items 2) 1"
proof -
  have "plain_stacks (types coin_world)" "no_exchange coin_world"
    by (simp_all add: plain_stacks_def no_exchange_def coin_world_def)
  from moves_conserve[of coin_world "purse_heap 2" "[Item_Move 0 1 255 2 60 0]", OF purse_heap_ok this]
  show ?thesis using purse_move by (auto simp: purse_heap_def)
qed

text \<open>
  A move with the limits lifted into a full container: what the last stack does not take is
  gone, although the move reports success.
\<close>

theorem nolimit_move_loses:
  assumes ok: "heap_ok (types W) h" "plain_stacks (types W)"
    and i: "it_parent (h_items h i) = Some (InItem src)" "stackable (types W (it_id (h_items h i)))"
      "movable (types W (it_id (h_items h i)))" "it_count (h_items h i) \<noteq> 0" "src \<noteq> to"
    and to: "it_content (h_items h to) = Some k" "itemlist k = xs @ [x]" "length (itemlist k) = maxSize k"
      "it_id (h_items h x) = it_id (h_items h i)" "it_count (h_items h x) < 100"
      "unat (it_count (h_items h x)) + unat (it_count (h_items h i)) > 100"
    and fl: "hasBitSet FLAG_NOLIMIT flags" "\<not> hasBitSet FLAG_IGNOREAUTOSTACK flags"
    and q: "queryAdd W (h_items h) to (int (maxSize k)) (Some i) (unat (it_count (h_items h i))) flags = Some RET_NOERROR"
  shows "\<exists>h'. internalMoveItem W src to INDEX_WHEREEVER i (count32 (h_items h) i) flags h = Some (RET_NOERROR, h')
    \<and> kind_total (h_items h) (it_id (h_items h i))
        = kind_total (h_items h') (it_id (h_items h i)) + (unat (it_count (h_items h x)) + unat (it_count (h_items h i)) - 100)"
proof -
  let ?s = "h_items h" and ?m = "count32 (h_items h) i"
  note o = heap_okD[OF ok(1)]
  have iin: "i \<in> set (content ?s src)" using i(1) tree_okD(3)[OF o(2)] by (simp add: inside_def)
  have xin: "x \<in> set (content ?s to)" using to(1,2) by (simp add: content_def)
  have ne: "x \<noteq> i" using iin xin i(5) tree_okD(3)[OF o(2)] inside_unique by metis
  have m0: "?m \<noteq> 0" using i(4) unat_count32[of "it_count (?s i)"] by (metis count32_def unat_0 unat_eq_zero)
  have d: "dest_loop W ?s i MAP_MAX_LAYERS to INDEX_WHEREEVER None flags = (to, int (maxSize k), Some x, flags)"
    using autostack_destination[OF to(1,2,4,5) i(2), of INDEX_WHEREEVER flags None] i(1,5) to(3) fl
    by (simp add: MAP_MAX_LAYERS_def INDEX_WHEREEVER_def eval_nat_numeral)
  have mx: "max 1 ?m = ?m" using m0 by (simp add: max_def word_le_nat_alt Suc_le_eq word_neq_0_conv word_less_nat_alt)
  have mq: "queryMaxCount W ?s to (int (maxSize k)) (Some i) ?m flags = Some (?m, RET_NOERROR)"
    using fl(1) mx by (simp add: queryMaxCount_def)
  have r: "queryRemove W ?s src (Some i) ?m flags = RET_NOERROR"
    using iin m0 i(3) by (simp add: queryRemove_def count32_def)
  obtain h' where h': "transfer_stack W src to (int (maxSize k)) i (Some x) ?m h = Some h'"
    "kind_total ?s (it_id (?s i)) = kind_total (h_items h') (it_id (?s i))
       + (unat (it_count (?s x)) + unat (it_count (?s i)) - 100)"
    using transfer_drops[OF ok iin i(2) ne to(1) xin to(4-6)] by blast
  have "internalMoveItem W src to INDEX_WHEREEVER i ?m flags h = Some (RET_NOERROR, h')"
    using i(1) d ne q mq r h'(1) by (simp add: internalMoveItem_def Let_def count32_def)
  then show ?thesis using h'(2) by blast
qed

lemma purse_full:
  "queryAdd coin_world (purse_items 1) 1 1 (Some 2) 60 FLAG_NOLIMIT = Some RET_NOERROR"
  by code_simp

theorem nolimit_move_loses_witness:
  "\<exists>h'. internalMoveItem coin_world 0 1 INDEX_WHEREEVER 2 60 FLAG_NOLIMIT (purse_heap 1) = Some (RET_NOERROR, h')
    \<and> kind_total (purse_items 1) 1 = kind_total (h_items h') 1 + 10"
proof -
  have k: "it_content (h_items (purse_heap 1) 1) = Some \<lparr>maxSize = 1, totalWeight = 500, itemlist = [] @ [3]\<rparr>"
    by (simp add: purse_heap_def purse_items_def coin_def)
  have ty: "plain_stacks (types coin_world)" by (simp add: plain_stacks_def coin_world_def)
  show ?thesis
    using nolimit_move_loses[where h = "purse_heap 1" and i = 2 and src = 0 and to = 1 and xs = "[]" and x = 3
        and W = coin_world and flags = FLAG_NOLIMIT, OF purse_heap_ok ty _ _ _ _ _ k] purse_full
    by (simp add: purse_heap_def purse_items_def coin_def coin_world_def count32_def hasBitSet_def
        FLAG_IGNOREAUTOSTACK_def FLAG_NOLIMIT_def)
qed

text \<open>
  When the source refuses to give the item away, for example because it must not be moved, the
  move changes nothing and still reports success: the refusal is tested but the old answer returned.
\<close>

theorem move_refusal_unreported:
  assumes "it_parent (h_items h i) \<noteq> None" "\<not> movable (types W (it_id (h_items h i)))"
    and d: "dest_loop W (h_items h) i MAP_MAX_LAYERS to index None flags = (c, j, t, fl)"
    and "t \<noteq> Some i" "\<not> hasBitSet FLAG_IGNORENOTMOVABLE fl"
    and q: "queryAdd W (h_items h) c j (Some i) (unat cnt) fl = Some RET_NOERROR"
    and m: "queryMaxCount W (h_items h) c j (Some i) cnt fl = Some (mq, mret)" "mq \<noteq> 0"
  shows "internalMoveItem W src to index i cnt flags h = Some (RET_NOERROR, h)"
proof -
  have "queryRemove W (h_items h) src (Some i) n fl \<noteq> RET_NOERROR" for n
    using assms by (simp add: queryRemove_def)
  then show ?thesis using assms by (auto simp: internalMoveItem_def Let_def)
qed

definition fixed_world :: cworld where
  "fixed_world = coin_world\<lparr>types := (\<lambda>kind. (types coin_world kind)\<lparr>movable := False\<rparr>)\<rparr>"

lemma purse_fixed:
  "dest_loop fixed_world (purse_items 2) 2 MAP_MAX_LAYERS 1 0 None 0 = (1, 1, Some 3, 0)"
  "queryAdd fixed_world (purse_items 2) 1 1 (Some 2) 60 0 = Some RET_NOERROR"
  "queryMaxCount fixed_world (purse_items 2) 1 1 (Some 2) 60 0 = Some (100, RET_NOERROR)"
  by code_simp+

theorem move_refusal_unreported_witness:
  "internalMoveItem fixed_world 0 1 0 2 60 0 (purse_heap 2) = Some (RET_NOERROR, purse_heap 2)"
proof (rule move_refusal_unreported)
  show "it_parent (h_items (purse_heap 2) 2) \<noteq> None" by (simp add: purse_heap_def purse_items_def coin_def)
  show "\<not> movable (types fixed_world (it_id (h_items (purse_heap 2) 2)))" by (simp add: fixed_world_def)
qed (use purse_fixed in \<open>auto simp: purse_heap_def hasBitSet_def FLAG_IGNORENOTMOVABLE_def\<close>)

end
