(* ===== verification/Trading.thy ===== *)
theory Trading
  imports Containers Positions
begin

text \<open>
  Trades between players: the requests of \<^verbatim>\<open>game.cpp\<close> and the calls of \<^verbatim>\<open>player.cpp\<close> that end a trade
  when its item moves. The items themselves are those of the containers; which items a player could
  take or give away, what a move of an item answers and the answers of the scripts are parameters. \<open>td_log\<close> keeps what happens to
  the items; the texts sent to the clients are left out.
\<close>

section \<open>State\<close>

datatype tradestate = TRADE_NONE | TRADE_INITIATED | TRADE_ACCEPT | TRADE_ACKNOWLEDGE | TRADE_TRANSFER

record trader =
  tr_removed :: bool
  tr_state :: tradestate
  tr_partner :: "nat option"
  tr_item :: "nat option"

datatype trade_log =
    TradeMove nat nat nat return_value
  | OnTradeTransfer nat nat nat
  | OnTradeCancel nat nat

text \<open>
  \<open>td_items\<close> is the map from the items of trades to their players, \<open>td_refs\<close> the references the
  trades hold on items, \<open>td_release\<close> the list of things to be released at the next cleanup.
\<close>

record trade_world =
  td_player :: "nat \<Rightarrow> trader"
  td_items :: "(nat, nat) omap"
  td_refs :: "nat \<Rightarrow> int"
  td_release :: "nat list"
  td_log :: "trade_log list"

definition no_trader :: trader where
  "no_trader = \<lparr>tr_removed = True, tr_state = TRADE_NONE, tr_partner = None, tr_item = None\<rparr>"

definition no_trades :: trade_world where
  "no_trades = \<lparr>td_player = (\<lambda>_. no_trader), td_items = [], td_refs = (\<lambda>_. 0), td_release = [], td_log = []\<rparr>"

text \<open>What a request finds: the items and where they are, the scripts' answers, the configuration.\<close>

record trade_env =
  te_items :: items
  te_types :: "nat \<Rightarrow> item_type"
  te_pos :: "nat \<Rightarrow> position"
  te_itemPos :: "nat \<Rightarrow> position"
  te_canThrow :: "nat \<Rightarrow> nat \<Rightarrow> bool"
  te_throwAnywhere :: "nat \<Rightarrow> bool"
  te_found :: "nat option"
  te_clientId :: "nat \<Rightarrow> nat"
  te_fromMap :: "nat \<Rightarrow> bool"
  te_uniqueId :: "nat \<Rightarrow> nat"
  te_actionId :: "nat \<Rightarrow> nat"
  te_path :: bool
  te_limit :: nat
  te_requestEvents :: "bool list"
  te_acceptEvents :: "bool list"
  te_canAdd :: "nat \<Rightarrow> nat \<Rightarrow> bool"
  te_canRemove :: "nat \<Rightarrow> bool"
  te_moveItem :: "nat \<Rightarrow> nat \<Rightarrow> return_value"

definition upd_trader :: "nat \<Rightarrow> (trader \<Rightarrow> trader) \<Rightarrow> trade_world \<Rightarrow> trade_world" where
  "upd_trader x f w = w\<lparr>td_player := (td_player w)(x := f (td_player w x))\<rparr>"

definition log_trade :: "trade_log list \<Rightarrow> trade_world \<Rightarrow> trade_world" where
  "log_trade es w = w\<lparr>td_log := td_log w @ es\<rparr>"

definition freeThing :: "nat \<Rightarrow> trade_world \<Rightarrow> trade_world" where
  "freeThing i w = w\<lparr>td_release := td_release w @ [i]\<rparr>"

text \<open>\<open>cleanup\<close>, as far as the trades are concerned.\<close>

definition cleanup_things :: "trade_world \<Rightarrow> trade_world" where
  "cleanup_things w =
     (let w' = fold (\<lambda>i w. w\<lparr>td_refs := (td_refs w)(i := td_refs w i - 1)\<rparr>) (td_release w) w
      in w'\<lparr>td_release := []\<rparr>)"

text \<open>The item of a trade is looked up and taken off the map, if it is there.\<close>

definition forget_item :: "nat option \<Rightarrow> trade_world \<Rightarrow> trade_world" where
  "forget_item i w =
     (case i of
        None \<Rightarrow> w
      | Some i \<Rightarrow>
          if om_lookup (td_items w) i = None then w
          else (freeThing i w)\<lparr>td_items := om_erase i (td_items w)\<rparr>)"

section \<open>Starting a trade\<close>

definition internalStartTrade :: "nat \<Rightarrow> nat \<Rightarrow> nat \<Rightarrow> trade_world \<Rightarrow> bool \<times> trade_world" where
  "internalStartTrade x y i w =
     (if tr_state (td_player w x) \<noteq> TRADE_NONE
         \<and> \<not> (tr_state (td_player w x) = TRADE_ACKNOWLEDGE \<and> tr_partner (td_player w x) = Some y)
      then (False, w)
      else if tr_state (td_player w y) \<noteq> TRADE_NONE \<and> tr_partner (td_player w y) \<noteq> Some x
      then (False, w)
      else
        let w = upd_trader x (\<lambda>t. t\<lparr>tr_partner := Some y, tr_item := Some i, tr_state := TRADE_INITIATED\<rparr>) w;
            w = w\<lparr>td_refs := (td_refs w)(i := td_refs w i + 1), td_items := om_assign i x (td_items w)\<rparr>;
            w = (if tr_state (td_player w y) = TRADE_NONE
                 then upd_trader y (\<lambda>t. t\<lparr>tr_state := TRADE_ACKNOWLEDGE, tr_partner := Some x\<rparr>) w
                 else w)
        in (True, w))"

fun being_traded :: "items \<Rightarrow> nat \<Rightarrow> nat list \<Rightarrow> bool option" where
  "being_traded s i [] = Some False"
| "being_traded s i (j # js) =
     Option.bind
       (if i = j then Some True
        else Option.bind (if it_content (s i) \<noteq> None then isHoldingItem s i j else Some False)
          (\<lambda>b. if b then Some True else if it_content (s j) \<noteq> None then isHoldingItem s j i else Some False))
       (\<lambda>b. if b then Some True else being_traded s i js)"

definition playerRequestTrade ::
    "trade_env \<Rightarrow> nat \<Rightarrow> nat \<Rightarrow> nat \<Rightarrow> trade_world \<Rightarrow> (bool \<times> trade_world) option" where
  "playerRequestTrade env x y spriteId w =
     (if tr_removed (td_player w x) then Some (False, w)
      else if tr_removed (td_player w y) \<or> y = x then Some (False, w)
      else if \<not> areInRange3 2 2 0 (te_pos env y) (te_pos env x) then Some (False, w)
      else if \<not> te_canThrow env y x \<and> \<not> te_throwAnywhere env x then Some (False, w)
      else case te_found env of
        None \<Rightarrow> Some (False, w)
      | Some i \<Rightarrow>
          let s = te_items env in
          if te_clientId env i \<noteq> spriteId \<or> \<not> pickupable (te_types env (it_id (s i)))
             \<or> te_fromMap env i \<and> (te_uniqueId env i \<noteq> 0 \<or> te_actionId env i \<noteq> 0 \<and> it_content (s i) \<noteq> None)
          then Some (False, w)
          else if pz (te_pos env x) > pz (te_itemPos env i) then Some (False, w)
          else if pz (te_pos env x) < pz (te_itemPos env i) then Some (False, w)
          else if \<not> areInRange3 1 1 0 (te_itemPos env i) (te_pos env x) then Some (te_path env, w)
          else Option.bind (being_traded s i (List.map fst (td_items w))) (\<lambda>traded.
            if traded then Some (False, w)
            else Option.bind (if it_content (s i) \<noteq> None
                              then map_option (\<lambda>n. n + 1 > te_limit env) (getItemHoldingCount s i)
                              else Some False) (\<lambda>many.
              if many then Some (False, w)
              else if \<not> list_all (\<lambda>b. b) (te_requestEvents env) then Some (False, w)
              else Some (internalStartTrade x y i w))))"

section \<open>Accepting and closing\<close>

definition can_add :: "trade_env \<Rightarrow> nat \<Rightarrow> nat option \<Rightarrow> bool" where
  "can_add env y i = (case i of None \<Rightarrow> False | Some i \<Rightarrow> te_canAdd env y i)"

text \<open>
  The two moves, first the item of \<open>x\<close> to \<open>y\<close>, then the other, and the events of the items. The
  moves are logged with what \<open>internalMoveItem\<close> answers: the code does not look at the answers.
\<close>

definition transfer_log :: "trade_env \<Rightarrow> nat \<Rightarrow> nat \<Rightarrow> nat \<Rightarrow> nat \<Rightarrow> trade_log list" where
  "transfer_log env i j x y =
     [TradeMove i x y (te_moveItem env i y), TradeMove j y x (te_moveItem env j x),
      OnTradeTransfer i y x, OnTradeTransfer j x y]"

text \<open>Both have accepted: the items are tested and moved, or the trade ends without that.\<close>

definition transfer_items :: "trade_env \<Rightarrow> nat \<Rightarrow> nat \<Rightarrow> trade_world \<Rightarrow> bool \<times> trade_world" where
  "transfer_items env x y w =
     (let item1 = tr_item (td_player w x);
          item2 = tr_item (td_player w y);
          w = upd_trader x (\<lambda>t. t\<lparr>tr_state := TRADE_TRANSFER\<rparr>) w;
          w = upd_trader y (\<lambda>t. t\<lparr>tr_state := TRADE_TRANSFER\<rparr>) w;
          w = forget_item item2 (forget_item item1 w);
          (success, w) =
            (case (item1, item2) of
               (Some i, Some j) \<Rightarrow>
                 if can_add env y item1 \<and> can_add env x item2 \<and> te_canRemove env i \<and> te_canRemove env j
                 then (True, log_trade (transfer_log env i j x y) w)
                 else (False, log_trade [OnTradeCancel j y, OnTradeCancel i x] w)
             | (Some i, None) \<Rightarrow> (False, log_trade [OnTradeCancel i x] w)
             | (None, Some j) \<Rightarrow> (False, log_trade [OnTradeCancel j y] w)
             | (None, None) \<Rightarrow> (False, w));
          w = upd_trader x (\<lambda>t. t\<lparr>tr_state := TRADE_NONE, tr_item := None, tr_partner := None\<rparr>) w;
          w = upd_trader y (\<lambda>t. t\<lparr>tr_state := TRADE_NONE, tr_item := None, tr_partner := None\<rparr>) w
      in (success, w))"

definition playerAcceptTrade :: "trade_env \<Rightarrow> nat \<Rightarrow> trade_world \<Rightarrow> bool \<times> trade_world" where
  "playerAcceptTrade env x w =
     (if tr_removed (td_player w x)
         \<or> tr_state (td_player w x) \<noteq> TRADE_ACKNOWLEDGE \<and> tr_state (td_player w x) \<noteq> TRADE_INITIATED
      then (False, w)
      else case tr_partner (td_player w x) of
        None \<Rightarrow> (False, w)
      | Some y \<Rightarrow>
          if \<not> te_canThrow env y x \<and> \<not> te_throwAnywhere env x then (False, w)
          else
            let w = upd_trader x (\<lambda>t. t\<lparr>tr_state := TRADE_ACCEPT\<rparr>) w in
            if tr_state (td_player w y) \<noteq> TRADE_ACCEPT then (False, w)
            else if \<not> list_all (\<lambda>b. b) (te_acceptEvents env) then (False, w)
            else transfer_items env x y w)"

definition close_side :: "nat \<Rightarrow> trade_world \<Rightarrow> trade_world" where
  "close_side x w =
     (let w = (case tr_item (td_player w x) of
                 None \<Rightarrow> w
               | Some i \<Rightarrow> upd_trader x (\<lambda>t. t\<lparr>tr_item := None\<rparr>)
                   (log_trade [OnTradeCancel i x] (forget_item (Some i) w)))
      in upd_trader x (\<lambda>t. t\<lparr>tr_state := TRADE_NONE, tr_partner := None\<rparr>) w)"

definition internalCloseTrade :: "nat \<Rightarrow> trade_world \<Rightarrow> trade_world" where
  "internalCloseTrade x w =
     (let partner = tr_partner (td_player w x) in
      if (case partner of None \<Rightarrow> False | Some y \<Rightarrow> tr_state (td_player w y) = TRADE_TRANSFER)
         \<or> tr_state (td_player w x) = TRADE_TRANSFER
      then w
      else case partner of
        None \<Rightarrow> close_side x w
      | Some y \<Rightarrow> close_side y (close_side x w))"

definition playerCloseTrade :: "nat \<Rightarrow> trade_world \<Rightarrow> bool \<times> trade_world" where
  "playerCloseTrade x w =
     (if tr_removed (td_player w x) then (False, w) else (True, internalCloseTrade x w))"

section \<open>What ends a trade\<close>

text \<open>\<open>checkTradeState\<close>: the item of the trade, or something that is inside it, was touched.\<close>

definition checkTradeState :: "items \<Rightarrow> nat \<Rightarrow> nat \<Rightarrow> trade_world \<Rightarrow> trade_world option" where
  "checkTradeState s x item w =
     (case tr_item (td_player w x) of
        None \<Rightarrow> Some w
      | Some i \<Rightarrow>
          if tr_state (td_player w x) = TRADE_TRANSFER then Some w
          else if i \<noteq> item then
            map_option (\<lambda>r. if i \<in> set (fst r) then internalCloseTrade x w else w) (climb s item)
          else Some (internalCloseTrade x w))"

text \<open>An item around the item of the trade was taken: from a tile, or from the inventory.\<close>

definition onRemoveItem :: "items \<Rightarrow> nat \<Rightarrow> nat \<Rightarrow> trade_world \<Rightarrow> trade_world option" where
  "onRemoveItem s x item w =
     (if tr_state (td_player w x) = TRADE_TRANSFER then Some w
      else Option.bind (checkTradeState s x item w) (\<lambda>w.
        case tr_item (td_player w x) of
          None \<Rightarrow> Some w
        | Some i \<Rightarrow>
            if it_content (s item) \<noteq> None
            then map_option (\<lambda>b. if b then internalCloseTrade x w else w) (isHoldingItem s item i)
            else Some w))"

definition onRemoveContainerItem :: "items \<Rightarrow> nat \<Rightarrow> nat \<Rightarrow> nat \<Rightarrow> trade_world \<Rightarrow> trade_world option" where
  "onRemoveContainerItem s x c item w =
     (if tr_state (td_player w x) = TRADE_TRANSFER then Some w
      else Option.bind (checkTradeState s x item w) (\<lambda>w.
        case tr_item (td_player w x) of
          None \<Rightarrow> Some w
        | Some i \<Rightarrow>
            if it_parent (s i) \<noteq> Some (InItem c)
            then map_option (\<lambda>b. if b then internalCloseTrade x w else w) (isHoldingItem s c i)
            else Some w))"

definition onUpdateContainerItem ::
    "items \<Rightarrow> nat \<Rightarrow> nat \<Rightarrow> nat \<Rightarrow> nat \<Rightarrow> trade_world \<Rightarrow> trade_world option" where
  "onUpdateContainerItem s x c oldItem newItem w =
     Option.bind (if oldItem \<noteq> newItem then onRemoveContainerItem s x c oldItem w else Some w)
       (\<lambda>w. if tr_state (td_player w x) \<noteq> TRADE_TRANSFER then checkTradeState s x oldItem w else Some w)"

definition onUpdateInventoryItem ::
    "items \<Rightarrow> nat \<Rightarrow> nat \<Rightarrow> nat \<Rightarrow> trade_world \<Rightarrow> trade_world option" where
  "onUpdateInventoryItem s x oldItem newItem w =
     Option.bind (if oldItem \<noteq> newItem then onRemoveItem s x oldItem w else Some w)
       (\<lambda>w. if tr_state (td_player w x) \<noteq> TRADE_TRANSFER then checkTradeState s x oldItem w else Some w)"

definition onUpdateTileItem :: "items \<Rightarrow> nat \<Rightarrow> nat \<Rightarrow> nat \<Rightarrow> trade_world \<Rightarrow> trade_world option" where
  "onUpdateTileItem s x oldItem newItem w =
     Option.bind (if oldItem \<noteq> newItem then onRemoveItem s x oldItem w else Some w)
       (\<lambda>w. Some (if tr_state (td_player w x) \<noteq> TRADE_TRANSFER \<and> tr_item (td_player w x) = Some oldItem
                  then internalCloseTrade x w else w))"

definition trade_move :: "trade_env \<Rightarrow> nat \<Rightarrow> trade_world \<Rightarrow> trade_world" where
  "trade_move env x w =
     (let t = td_player w x in
      if tr_state t \<noteq> TRADE_TRANSFER
         \<and> ((case tr_item t of None \<Rightarrow> False | Some i \<Rightarrow> \<not> areInRange3 1 1 0 (te_itemPos env i) (te_pos env x))
            \<or> (case tr_partner t of None \<Rightarrow> False | Some y \<Rightarrow> \<not> areInRange3 2 2 0 (te_pos env y) (te_pos env x)))
      then internalCloseTrade x w else w)"

definition trader_disappears :: "nat \<Rightarrow> trade_world \<Rightarrow> trade_world" where
  "trader_disappears x w =
     (if tr_removed (td_player w x) then w
      else upd_trader x (\<lambda>t. t\<lparr>tr_removed := True\<rparr>)
        (if tr_partner (td_player w x) \<noteq> None then internalCloseTrade x w else w))"

definition trader_enters :: "nat \<Rightarrow> trade_world \<Rightarrow> trade_world" where
  "trader_enters x w =
     (if tr_removed (td_player w x) then upd_trader x (\<lambda>_. no_trader\<lparr>tr_removed := False\<rparr>) w else w)"

section \<open>The invariant\<close>

text \<open>References balance: one for an item of a trade, one for each release that is still to come.\<close>

definition refs_ok :: "trade_world \<Rightarrow> bool" where
  "refs_ok w \<longleftrightarrow> om_valid (td_items w)
     \<and> (\<forall>i. td_refs w i = (if om_lookup (td_items w) i = None then 0 else 1) + int (count_list (td_release w) i))"

text \<open>
  Trades are between two players who know each other. Each stage of a trade fixes who has offered an
  item, and the map from items to players holds exactly the items offered.
\<close>

definition trader_ok :: "trader \<Rightarrow> bool" where
  "trader_ok t \<longleftrightarrow> (tr_state t = TRADE_NONE \<longleftrightarrow> tr_partner t = None) \<and> tr_state t \<noteq> TRADE_TRANSFER
     \<and> (tr_state t = TRADE_INITIATED \<longrightarrow> tr_item t \<noteq> None)
     \<and> (tr_state t = TRADE_NONE \<or> tr_state t = TRADE_ACKNOWLEDGE \<longrightarrow> tr_item t = None)
     \<and> (tr_removed t \<longrightarrow> tr_partner t = None)"

definition trade_ok :: "trade_world \<Rightarrow> bool" where
  "trade_ok w \<longleftrightarrow> refs_ok w \<and> (\<forall>x. trader_ok (td_player w x))
     \<and> (\<forall>x y. tr_partner (td_player w x) = Some y \<longrightarrow> x \<noteq> y \<and> tr_partner (td_player w y) = Some x
          \<and> (tr_item (td_player w x) \<noteq> None \<or> tr_item (td_player w y) \<noteq> None))
     \<and> (\<forall>i x. om_lookup (td_items w) i = Some x \<longleftrightarrow> tr_item (td_player w x) = Some i)"

lemma trade_okD:
  assumes "trade_ok w"
  shows "refs_ok w" "trader_ok (td_player w x)"
    "tr_partner (td_player w x) = Some y \<Longrightarrow> x \<noteq> y \<and> tr_partner (td_player w y) = Some x
       \<and> (tr_item (td_player w x) \<noteq> None \<or> tr_item (td_player w y) \<noteq> None)"
    "om_lookup (td_items w) i = Some x \<longleftrightarrow> tr_item (td_player w x) = Some i"
  using assms unfolding trade_ok_def by blast+

lemma upd_trader_sel [simp]:
  "td_player (upd_trader x f w) = (td_player w)(x := f (td_player w x))"
  "td_items (upd_trader x f w) = td_items w" "td_refs (upd_trader x f w) = td_refs w"
  "td_release (upd_trader x f w) = td_release w" "td_log (upd_trader x f w) = td_log w"
  by (simp_all add: upd_trader_def)

lemma log_trade_sel [simp]:
  "td_player (log_trade es w) = td_player w" "td_items (log_trade es w) = td_items w"
  "td_refs (log_trade es w) = td_refs w" "td_release (log_trade es w) = td_release w"
  "td_log (log_trade es w) = td_log w @ es"
  by (simp_all add: log_trade_def)

lemma refs_ok_cong:
  "td_items w' = td_items w \<Longrightarrow> td_refs w' = td_refs w \<Longrightarrow> td_release w' = td_release w \<Longrightarrow> refs_ok w' = refs_ok w"
  by (simp add: refs_ok_def)

lemma refs_ok_upd [simp]: "refs_ok (upd_trader x f w) = refs_ok w" "refs_ok (log_trade es w) = refs_ok w"
  by (rule refs_ok_cong; simp)+

lemma forget_item_ok:
  assumes "refs_ok w"
  shows "refs_ok (forget_item i w)"
    and "om_lookup (td_items (forget_item i w)) =
           (\<lambda>j. if i = Some j then None else om_lookup (td_items w) j)"
    and "td_player (forget_item i w) = td_player w" and "td_log (forget_item i w) = td_log w"
  using assms by (auto simp: forget_item_def refs_ok_def freeThing_def fun_eq_iff
      simp del: om_lookup_None split: option.split)

text \<open>A trade that ends: both players and their items are taken out.\<close>

lemma trade_end_ok:
  assumes ok: "trade_ok w" and y: "tr_partner (td_player w x) = Some y" and refs: "refs_ok w'"
    and pl: "td_player w' = (td_player w)(x := (td_player w x)\<lparr>tr_state := TRADE_NONE, tr_item := None, tr_partner := None\<rparr>,
               y := (td_player w y)\<lparr>tr_state := TRADE_NONE, tr_item := None, tr_partner := None\<rparr>)"
    and it: "om_lookup (td_items w') = (\<lambda>j. if tr_item (td_player w x) = Some j \<or> tr_item (td_player w y) = Some j
               then None else om_lookup (td_items w) j)"
  shows "trade_ok w'"
  unfolding trade_ok_def
proof (intro conjI allI impI)
  note yx = trade_okD(3)[OF ok y]
  show "refs_ok w'" by (rule refs)
  show "trader_ok (td_player w' z)" for z
    using trade_okD(2)[OF ok, of z] by (auto simp: pl trader_ok_def)
  show "om_lookup (td_items w') i = Some z \<longleftrightarrow> tr_item (td_player w' z) = Some i" for i z
  proof -
    have "tr_item (td_player w a) = Some i \<Longrightarrow> tr_item (td_player w b) = Some i \<Longrightarrow> a = b" for a b
      using trade_okD(4)[OF ok, of i a] trade_okD(4)[OF ok, of i b] by simp
    then show ?thesis using trade_okD(4)[OF ok, of i z] by (auto simp: it pl)
  qed
  fix a b assume "tr_partner (td_player w' a) = Some b"
  then have ab: "a \<noteq> x" "a \<noteq> y" "tr_partner (td_player w a) = Some b" by (auto simp: pl split: if_splits)
  have "b \<noteq> x" "b \<noteq> y" using trade_okD(3)[OF ok ab(3)] y yx ab(1,2) by auto
  then show "a \<noteq> b" "tr_partner (td_player w' b) = Some a"
    "tr_item (td_player w' a) \<noteq> None \<or> tr_item (td_player w' b) \<noteq> None"
    using trade_okD(3)[OF ok ab(3)] ab(1,2) by (auto simp: pl)
qed

lemma close_side_sel:
  assumes "refs_ok w"
  shows "refs_ok (close_side x w)"
    and "td_player (close_side x w) =
      (td_player w)(x := (td_player w x)\<lparr>tr_state := TRADE_NONE, tr_item := None, tr_partner := None\<rparr>)"
    and "om_lookup (td_items (close_side x w)) =
      (\<lambda>j. if tr_item (td_player w x) = Some j then None else om_lookup (td_items w) j)"
  using forget_item_ok[OF assms, of "tr_item (td_player w x)"] assms
  by (cases "tr_item (td_player w x)"; auto simp: close_side_def Let_def fun_eq_iff intro!: trader.equality)+

lemma internalCloseTrade_ok:
  assumes ok: "trade_ok w"
  shows "trade_ok (internalCloseTrade x w)"
    and "td_player (internalCloseTrade x w) x = (td_player w x)\<lparr>tr_state := TRADE_NONE, tr_item := None, tr_partner := None\<rparr>"
proof -
  note r = trade_okD(1)[OF ok]
  note t = trade_okD(2)[OF ok]
  have noTransfer: "tr_state (td_player w z) \<noteq> TRADE_TRANSFER" for z using t[of z] by (simp add: trader_ok_def)
  have goal: "trade_ok (internalCloseTrade x w) \<and>
    td_player (internalCloseTrade x w) x = (td_player w x)\<lparr>tr_state := TRADE_NONE, tr_item := None, tr_partner := None\<rparr>"
  proof (cases "tr_partner (td_player w x)")
    case None
    then have st: "tr_state (td_player w x) = TRADE_NONE" "tr_item (td_player w x) = None"
      using t[of x] by (auto simp: trader_ok_def)
    have "(td_player w x)\<lparr>tr_state := TRADE_NONE, tr_item := None, tr_partner := None\<rparr> = td_player w x"
      using None st by (intro trader.equality) simp_all
    moreover have "(td_player w x)\<lparr>tr_state := TRADE_NONE, tr_partner := None\<rparr> = td_player w x"
      using None st by (intro trader.equality) simp_all
    then have "close_side x w = w" using st by (simp add: close_side_def upd_trader_def)
    ultimately show ?thesis using None noTransfer ok by (simp add: internalCloseTrade_def)
  next
    case (Some y)
    note c1 = close_side_sel[OF r, of x]
    note c2 = close_side_sel[OF c1(1), of y]
    have ne: "x \<noteq> y" using trade_okD(3)[OF ok Some] by simp
    have eq: "internalCloseTrade x w = close_side y (close_side x w)"
      using Some noTransfer by (simp add: internalCloseTrade_def)
    have "trade_ok (close_side y (close_side x w))"
      by (rule trade_end_ok[OF ok Some c2(1)]) (use ne in \<open>auto simp: c2(2,3) c1(2,3) fun_eq_iff\<close>)
    then show ?thesis using ne by (simp add: eq c2(2) c1(2))
  qed
  then show "trade_ok (internalCloseTrade x w)"
    "td_player (internalCloseTrade x w) x = (td_player w x)\<lparr>tr_state := TRADE_NONE, tr_item := None, tr_partner := None\<rparr>"
    by blast+
qed

lemma being_traded_notin:
  assumes "tree_ok s"
  shows "\<exists>b. being_traded s i js = Some b \<and> (\<not> b \<longrightarrow> i \<notin> set js)"
proof (induction js)
  case (Cons j js)
  have hold: "\<exists>b. isHoldingItem s a c = Some b" for a c
    by (rule iter_begin_items[OF assms, of a]) (simp add: isHoldingItem_def)
  obtain b1 b2 where "isHoldingItem s i j = Some b1" "isHoldingItem s j i = Some b2" using hold by metis
  with Cons show ?case by auto
qed simp

lemma internalStartTrade_ok:
  assumes ok: "trade_ok w" and x: "\<not> tr_removed (td_player w x)" "\<not> tr_removed (td_player w y)" "x \<noteq> y"
    and i: "om_lookup (td_items w) i = None"
  shows "trade_ok (snd (internalStartTrade x y i w))"
proof -
  let ?tx = "td_player w x" and ?ty = "td_player w y"
  show ?thesis
  proof (cases "(tr_state ?tx = TRADE_NONE \<or> tr_state ?tx = TRADE_ACKNOWLEDGE \<and> tr_partner ?tx = Some y)
      \<and> (tr_state ?ty = TRADE_NONE \<or> tr_partner ?ty = Some x)")
    case False
    then show ?thesis using ok by (auto simp: internalStartTrade_def)
  next
    case True
    let ?w = "snd (internalStartTrade x y i w)"
    have txi: "tr_item ?tx = None" using True trade_okD(2)[OF ok, of x] by (auto simp: trader_ok_def)
    have both: "tr_partner ?tx = Some y \<longleftrightarrow> tr_partner ?ty = Some x"
      using trade_okD(3)[OF ok] by blast
    have others: "tr_partner (td_player w z) \<noteq> Some x" "tr_partner (td_player w z) \<noteq> Some y"
      if z: "z \<noteq> x" "z \<noteq> y" for z
    proof -
      have "tr_partner ?tx = None \<or> tr_partner ?tx = Some y" "tr_partner ?ty = None \<or> tr_partner ?ty = Some x"
        using True trade_okD(2)[OF ok, of x] trade_okD(2)[OF ok, of y] by (auto simp: trader_ok_def)
      then show "tr_partner (td_player w z) \<noteq> Some x" "tr_partner (td_player w z) \<noteq> Some y"
        using z trade_okD(3)[OF ok, of z x] trade_okD(3)[OF ok, of z y] by auto
    qed
    have pl: "td_player ?w = (td_player w)(x := ?tx\<lparr>tr_partner := Some y, tr_item := Some i, tr_state := TRADE_INITIATED\<rparr>,
        y := (if tr_state ?ty = TRADE_NONE then ?ty\<lparr>tr_state := TRADE_ACKNOWLEDGE, tr_partner := Some x\<rparr> else ?ty))"
      and rest: "td_items ?w = om_assign i x (td_items w)" "td_refs ?w = (td_refs w)(i := td_refs w i + 1)"
        "td_release ?w = td_release w"
      using True x(3) by (auto simp: internalStartTrade_def Let_def fun_eq_iff)
    have val: "om_valid (td_items w)" using trade_okD(1)[OF ok] by (simp add: refs_ok_def)
    show ?thesis unfolding trade_ok_def
    proof (intro conjI allI impI)
      show "refs_ok ?w" using trade_okD(1)[OF ok] i val
        by (auto simp: refs_ok_def rest simp del: om_lookup_None)
      show "trader_ok (td_player ?w z)" for z
        using trade_okD(2)[OF ok, of z] x True by (auto simp: pl trader_ok_def)
      show "om_lookup (td_items ?w) j = Some z \<longleftrightarrow> tr_item (td_player ?w z) = Some j" for j z
        using trade_okD(4)[OF ok, of j z] txi val i x(3) trade_okD(4)[OF ok, of i z] trade_okD(4)[OF ok, of i y]
        by (auto simp: rest pl simp del: om_lookup_None)
      fix a b assume "tr_partner (td_player ?w a) = Some b"
      then show "a \<noteq> b" "tr_partner (td_player ?w b) = Some a"
        "tr_item (td_player ?w a) \<noteq> None \<or> tr_item (td_player ?w b) \<noteq> None"
        using x(3) True others[of a] trade_okD(3)[OF ok, of a b] both
        by (auto simp: pl split: if_splits)
    qed
  qed
qed

lemma playerRequestTrade_ok:
  assumes ok: "trade_ok w" and tree: "tree_ok (te_items env)"
  shows "\<exists>r. playerRequestTrade env x y spriteId w = Some r \<and> trade_ok (snd r)"
proof (cases "te_found env")
  case None
  then show ?thesis using ok by (simp add: playerRequestTrade_def)
next
  case (Some i)
  let ?s = "te_items env"
  obtain b where b: "being_traded ?s i (List.map fst (td_items w)) = Some b"
    "\<not> b \<longrightarrow> i \<notin> set (List.map fst (td_items w))" using being_traded_notin[OF tree] by blast
  obtain n where n: "getItemHoldingCount ?s i = Some n"
    by (rule iter_begin_items[OF tree, of i]) (simp add: getItemHoldingCount_def)
  show ?thesis
  proof (cases "tr_removed (td_player w x) \<or> tr_removed (td_player w y) \<or> y = x \<or> b")
    case True
    then show ?thesis using ok Some b n by (auto simp: playerRequestTrade_def Let_def)
  next
    case False
    then have "om_lookup (td_items w) i = None" using b(2) by simp
    from internalStartTrade_ok[OF ok _ _ _ this, of x y] False
    have st: "trade_ok (snd (internalStartTrade x y i w))" by auto
    obtain b2 w2 where "internalStartTrade x y i w = (b2, w2)" by (cases "internalStartTrade x y i w")
    then show ?thesis using ok st Some b(1) n by (simp add: playerRequestTrade_def Let_def del: split_paired_Ex)
  qed
qed

text \<open>The transfer ends the trade; it changes hands only when both have an item.\<close>

lemma transfer_items_shape:
  assumes r: "refs_ok w" and ne: "x \<noteq> y"
  obtains es where
    "refs_ok (snd (transfer_items env x y w))"
    "td_player (snd (transfer_items env x y w)) =
      (td_player w)(x := (td_player w x)\<lparr>tr_state := TRADE_NONE, tr_item := None, tr_partner := None\<rparr>,
                    y := (td_player w y)\<lparr>tr_state := TRADE_NONE, tr_item := None, tr_partner := None\<rparr>)"
    "om_lookup (td_items (snd (transfer_items env x y w))) =
      (\<lambda>j. if tr_item (td_player w x) = Some j \<or> tr_item (td_player w y) = Some j then None else om_lookup (td_items w) j)"
    "td_log (snd (transfer_items env x y w)) = td_log w @ es"
    "if fst (transfer_items env x y w)
     then \<exists>i j. tr_item (td_player w x) = Some i \<and> tr_item (td_player w y) = Some j
            \<and> es = transfer_log env i j x y
     else list_all (\<lambda>e. \<exists>i z. e = OnTradeCancel i z) es"
proof -
  let ?b = "upd_trader y (\<lambda>t. t\<lparr>tr_state := TRADE_TRANSFER\<rparr>) (upd_trader x (\<lambda>t. t\<lparr>tr_state := TRADE_TRANSFER\<rparr>) w)"
  let ?i = "tr_item (td_player w x)" and ?j = "tr_item (td_player w y)"
  have rb: "refs_ok ?b" using r by simp
  note f1 = forget_item_ok[OF rb, of ?i]
  note f2 = forget_item_ok[OF f1(1), of ?j]
  let ?over = "\<lambda>es. upd_trader y (\<lambda>t. t\<lparr>tr_state := TRADE_NONE, tr_item := None, tr_partner := None\<rparr>)
      (upd_trader x (\<lambda>t. t\<lparr>tr_state := TRADE_NONE, tr_item := None, tr_partner := None\<rparr>)
        (log_trade es (forget_item ?j (forget_item ?i ?b))))"
  have nil: "log_trade [] v = v" for v by (simp add: log_trade_def)
  have "\<exists>succ es. transfer_items env x y w = (succ, ?over es)
     \<and> (if succ then \<exists>i j. ?i = Some i \<and> ?j = Some j
            \<and> es = transfer_log env i j x y
         else list_all (\<lambda>e. \<exists>i z. e = OnTradeCancel i z) es)"
  proof (cases ?i)
    case None
    show ?thesis
    proof (cases ?j)
      case None
      show ?thesis by (rule exI[of _ False], rule exI[of _ "[]"])
        (simp add: transfer_items_def Let_def \<open>?i = None\<close> None nil)
    next
      case (Some j)
      show ?thesis by (rule exI[of _ False], rule exI[of _ "[OnTradeCancel j y]"])
        (simp add: transfer_items_def Let_def \<open>?i = None\<close> Some)
    qed
  next
    case i: (Some i)
    show ?thesis
    proof (cases ?j)
      case None
      show ?thesis by (rule exI[of _ False], rule exI[of _ "[OnTradeCancel i x]"])
        (simp add: transfer_items_def Let_def i None)
    next
      case (Some j)
      show ?thesis
      proof (cases "can_add env y ?i \<and> can_add env x ?j \<and> te_canRemove env i \<and> te_canRemove env j")
        case True
        show ?thesis by (rule exI[of _ True],
            rule exI[of _ "transfer_log env i j x y"])
          (use True in \<open>simp add: transfer_items_def Let_def i Some\<close>)
      next
        case False
        then show ?thesis by (intro exI[of _ False], intro exI[of _ "[OnTradeCancel j y, OnTradeCancel i x]"])
          (simp add: transfer_items_def Let_def i Some)
      qed
    qed
  qed
  then obtain succ es where e: "transfer_items env x y w = (succ, ?over es)"
    "if succ then \<exists>i j. ?i = Some i \<and> ?j = Some j
            \<and> es = transfer_log env i j x y
         else list_all (\<lambda>e. \<exists>i z. e = OnTradeCancel i z) es" by blast
  have lk: "om_lookup (td_items (forget_item ?j (forget_item ?i ?b))) =
      (\<lambda>j. if ?i = Some j \<or> ?j = Some j then None else om_lookup (td_items w) j)"
    unfolding f2(2) f1(2) by (auto simp: fun_eq_iff simp del: om_lookup_None)
  have pl: "td_player (snd (transfer_items env x y w)) =
      (td_player w)(x := (td_player w x)\<lparr>tr_state := TRADE_NONE, tr_item := None, tr_partner := None\<rparr>,
                    y := (td_player w y)\<lparr>tr_state := TRADE_NONE, tr_item := None, tr_partner := None\<rparr>)"
    using ne by (simp add: e(1) f2(3) f1(3) fun_eq_iff)
  show thesis
    by (rule that[of es]) (use e(2) f2(1) pl in \<open>simp_all add: e(1) lk f2(4) f1(4)\<close>)
qed

lemma accept_state_ok:
  assumes ok: "trade_ok w" and y: "tr_partner (td_player w x) = Some y"
  shows "trade_ok (upd_trader x (\<lambda>t. t\<lparr>tr_state := TRADE_ACCEPT\<rparr>) w)" (is "trade_ok ?a")
  unfolding trade_ok_def
proof (intro conjI allI impI)
  show "refs_ok ?a" using trade_okD(1)[OF ok] by simp
  show "trader_ok (td_player ?a z)" for z using trade_okD(2)[OF ok, of z] y by (auto simp: trader_ok_def)
  show "om_lookup (td_items ?a) i = Some z \<longleftrightarrow> tr_item (td_player ?a z) = Some i" for i z
    using trade_okD(4)[OF ok, of i z] by simp
  fix a b assume "tr_partner (td_player ?a a) = Some b"
  then have "tr_partner (td_player w a) = Some b" by (auto split: if_splits)
  from trade_okD(3)[OF ok this] show "a \<noteq> b" "tr_partner (td_player ?a b) = Some a"
    "tr_item (td_player ?a a) \<noteq> None \<or> tr_item (td_player ?a b) \<noteq> None" by auto
qed

lemma playerAcceptTrade_cases:
  assumes ok: "trade_ok w"
  obtains (refused) "playerAcceptTrade env x w = (False, w)"
  | (accepted) y where "tr_partner (td_player w x) = Some y"
      "playerAcceptTrade env x w = (False, upd_trader x (\<lambda>t. t\<lparr>tr_state := TRADE_ACCEPT\<rparr>) w)"
  | (transfer) y where "tr_partner (td_player w x) = Some y" "tr_state (td_player w y) = TRADE_ACCEPT"
      "tr_state (td_player w x) = TRADE_ACKNOWLEDGE \<or> tr_state (td_player w x) = TRADE_INITIATED"
      "te_canThrow env y x \<or> te_throwAnywhere env x" "list_all (\<lambda>b. b) (te_acceptEvents env)"
      "playerAcceptTrade env x w = transfer_items env x y (upd_trader x (\<lambda>t. t\<lparr>tr_state := TRADE_ACCEPT\<rparr>) w)"
proof (cases "tr_removed (td_player w x)
         \<or> tr_state (td_player w x) \<noteq> TRADE_ACKNOWLEDGE \<and> tr_state (td_player w x) \<noteq> TRADE_INITIATED")
  case True
  then show thesis using refused by (simp add: playerAcceptTrade_def)
next
  case False
  then obtain y where y: "tr_partner (td_player w x) = Some y"
    using trade_okD(2)[OF ok, of x] by (auto simp: trader_ok_def)
  have ne: "x \<noteq> y" using trade_okD(3)[OF ok y] by simp
  let ?a = "upd_trader x (\<lambda>t. t\<lparr>tr_state := TRADE_ACCEPT\<rparr>) w"
  have eq: "playerAcceptTrade env x w =
      (if \<not> te_canThrow env y x \<and> \<not> te_throwAnywhere env x then (False, w)
       else if tr_state (td_player w y) \<noteq> TRADE_ACCEPT \<or> \<not> list_all (\<lambda>b. b) (te_acceptEvents env) then (False, ?a)
       else transfer_items env x y ?a)"
    unfolding playerAcceptTrade_def if_not_P[OF False] y using ne by (simp add: Let_def)
  have st: "tr_state (td_player w x) = TRADE_ACKNOWLEDGE \<or> tr_state (td_player w x) = TRADE_INITIATED"
    using False by blast
  show thesis
  proof (cases "\<not> te_canThrow env y x \<and> \<not> te_throwAnywhere env x")
    case True
    show thesis by (rule refused) (simp only: eq if_P[OF True])
  next
    case can: False
    show thesis
    proof (cases "tr_state (td_player w y) \<noteq> TRADE_ACCEPT \<or> \<not> list_all (\<lambda>b. b) (te_acceptEvents env)")
      case True
      show thesis by (rule accepted[OF y]) (simp only: eq if_not_P[OF can] if_P[OF True])
    next
      case False
      then have yes: "tr_state (td_player w y) = TRADE_ACCEPT" "list_all (\<lambda>b. b) (te_acceptEvents env)" by blast+
      have thr: "te_canThrow env y x \<or> te_throwAnywhere env x" using can by blast
      show thesis by (rule transfer[OF y yes(1) st thr yes(2)]) (simp only: eq if_not_P[OF can] if_not_P[OF False])
    qed
  qed
qed

lemma playerAcceptTrade_ok:
  assumes ok: "trade_ok w"
  shows "trade_ok (snd (playerAcceptTrade env x w))"
proof (cases rule: playerAcceptTrade_cases[OF ok, of env x, case_names refused accepted transfer])
  case refused
  then show ?thesis using ok by simp
next
  case (accepted y)
  then show ?thesis using accept_state_ok[OF ok] by simp
next
  case (transfer y)
  let ?a = "upd_trader x (\<lambda>t. t\<lparr>tr_state := TRADE_ACCEPT\<rparr>) w"
  have a: "trade_ok ?a" by (rule accept_state_ok[OF ok transfer(1)])
  have ay: "tr_partner (td_player ?a x) = Some y" "x \<noteq> y" using transfer(1) trade_okD(3)[OF ok transfer(1)] by auto
  show ?thesis unfolding transfer(6)
    by (rule transfer_items_shape[OF trade_okD(1)[OF a] ay(2), of env]) (rule trade_end_ok[OF a ay(1)])
qed

section \<open>Sequences of requests\<close>

datatype trade_request =
    RequestTrade nat nat nat
  | AcceptTrade nat
  | CloseTrade nat
  | RemoveItem nat nat
  | RemoveContainerItem nat nat nat
  | AddContainerItem nat nat
  | UpdateContainerItem nat nat nat nat
  | UpdateInventoryItem nat nat nat
  | UpdateTileItem nat nat nat
  | MovePlayer nat
  | GoneTrader nat
  | NewTrader nat
  | Cleanup

fun trade_step :: "trade_env \<times> trade_request \<Rightarrow> trade_world \<Rightarrow> trade_world option" where
  "trade_step (env, RequestTrade x y spriteId) w = map_option snd (playerRequestTrade env x y spriteId w)"
| "trade_step (env, AcceptTrade x) w = Some (snd (playerAcceptTrade env x w))"
| "trade_step (env, CloseTrade x) w = Some (snd (playerCloseTrade x w))"
| "trade_step (env, RemoveItem x item) w = onRemoveItem (te_items env) x item w"
| "trade_step (env, RemoveContainerItem x c item) w = onRemoveContainerItem (te_items env) x c item w"
| "trade_step (env, AddContainerItem x item) w = checkTradeState (te_items env) x item w"
| "trade_step (env, UpdateContainerItem x c item item') w = onUpdateContainerItem (te_items env) x c item item' w"
| "trade_step (env, UpdateInventoryItem x item item') w = onUpdateInventoryItem (te_items env) x item item' w"
| "trade_step (env, UpdateTileItem x item item') w = onUpdateTileItem (te_items env) x item item' w"
| "trade_step (env, MovePlayer x) w = Some (trade_move env x w)"
| "trade_step (env, GoneTrader x) w = Some (trader_disappears x w)"
| "trade_step (env, NewTrader x) w = Some (trader_enters x w)"
| "trade_step (env, Cleanup) w = Some (cleanup_things w)"

definition trade_run :: "(trade_env \<times> trade_request) list \<Rightarrow> trade_world option" where
  "trade_run rs = fold (\<lambda>r w. Option.bind w (trade_step r)) rs (Some no_trades)"

fun fair :: "trade_world option \<Rightarrow> bool" where
  "fair None = False"
| "fair (Some w) = trade_ok w"

lemma hold_defined:
  assumes "tree_ok s"
  obtains b where "isHoldingItem s a c = Some b"
  by (rule iter_begin_items[OF assms, of a]) (simp add: isHoldingItem_def)

lemma checkTradeState_fair:
  assumes ok: "trade_ok w" and tree: "tree_ok s"
  shows "fair (checkTradeState s x item w)"
proof -
  obtain r where "climb s item = Some r" using climb_ok[OF tree, of item] by blast
  then show ?thesis using ok internalCloseTrade_ok(1)[OF ok]
    by (simp add: checkTradeState_def split: option.split)
qed

lemma fair_bind:
  "fair r \<Longrightarrow> (\<And>w. r = Some w \<Longrightarrow> trade_ok w \<Longrightarrow> fair (f w)) \<Longrightarrow> fair (Option.bind r f)"
  by (cases r) simp_all

lemma hold_fair:
  assumes ok: "trade_ok w" and tree: "tree_ok s"
  shows "fair (map_option (\<lambda>b. if b then internalCloseTrade x w else w) (isHoldingItem s c i))"
  by (rule hold_defined[OF tree, of c i]) (simp add: ok internalCloseTrade_ok(1)[OF ok])

lemma onRemove_fair:
  assumes ok: "trade_ok w" and tree: "tree_ok s"
  shows "fair (onRemoveItem s x item w)" "fair (onRemoveContainerItem s x c item w)"
  using ok checkTradeState_fair[OF ok tree] unfolding onRemoveItem_def onRemoveContainerItem_def
  by (auto intro!: fair_bind hold_fair tree split: option.split)

lemma onUpdate_fair:
  assumes ok: "trade_ok w" and tree: "tree_ok s"
  shows "fair (onUpdateContainerItem s x c item item' w)" "fair (onUpdateInventoryItem s x item item' w)"
    "fair (onUpdateTileItem s x item item' w)"
  using ok unfolding onUpdateContainerItem_def onUpdateInventoryItem_def onUpdateTileItem_def
  by (auto intro!: fair_bind checkTradeState_fair onRemove_fair tree simp: internalCloseTrade_ok(1))

lemma no_partner_ok:
  assumes ok: "trade_ok w" and x: "tr_partner (td_player w x) = None"
    and t: "trader_ok t" "tr_partner t = None" "tr_item t = None"
  shows "trade_ok (upd_trader x (\<lambda>_. t) w)"
  unfolding trade_ok_def
proof (intro conjI allI impI)
  have xi: "tr_item (td_player w x) = None" using trade_okD(2)[OF ok, of x] x by (auto simp: trader_ok_def)
  show "refs_ok (upd_trader x (\<lambda>_. t) w)" using trade_okD(1)[OF ok] by simp
  show "trader_ok (td_player (upd_trader x (\<lambda>_. t) w) z)" for z using trade_okD(2)[OF ok] t(1) by simp
  show "om_lookup (td_items (upd_trader x (\<lambda>_. t) w)) i = Some z \<longleftrightarrow> tr_item (td_player (upd_trader x (\<lambda>_. t) w) z) = Some i" for i z
    using trade_okD(4)[OF ok, of i z] xi t(3) by simp
  fix a b assume "tr_partner (td_player (upd_trader x (\<lambda>_. t) w) a) = Some b"
  then have ab: "a \<noteq> x" "tr_partner (td_player w a) = Some b" using t(2) by (auto split: if_splits)
  then have "b \<noteq> x" using trade_okD(3)[OF ok ab(2)] x by auto
  then show "a \<noteq> b" "tr_partner (td_player (upd_trader x (\<lambda>_. t) w) b) = Some a"
    "tr_item (td_player (upd_trader x (\<lambda>_. t) w) a) \<noteq> None \<or> tr_item (td_player (upd_trader x (\<lambda>_. t) w) b) \<noteq> None"
    using trade_okD(3)[OF ok ab(2)] ab(1) by auto
qed

lemma trader_disappears_ok:
  assumes ok: "trade_ok w"
  shows "trade_ok (trader_disappears x w)"
proof (cases "tr_removed (td_player w x)")
  case True
  then show ?thesis using ok by (simp add: trader_disappears_def)
next
  case False
  define v where "v = (if tr_partner (td_player w x) \<noteq> None then internalCloseTrade x w else w)"
  have v: "trade_ok v" "tr_partner (td_player v x) = None"
    using ok internalCloseTrade_ok[OF ok, of x] by (auto simp: v_def)
  have st: "tr_state (td_player v x) = TRADE_NONE" "tr_item (td_player v x) = None"
    using trade_okD(2)[OF v(1), of x] v(2) by (auto simp: trader_ok_def)
  have "trade_ok (upd_trader x (\<lambda>_. (td_player v x)\<lparr>tr_removed := True\<rparr>) v)"
    by (rule no_partner_ok[OF v]) (use st v(2) in \<open>simp_all add: trader_ok_def\<close>)
  then show ?thesis using False by (simp add: trader_disappears_def v_def upd_trader_def)
qed

lemma trader_enters_ok:
  assumes ok: "trade_ok w"
  shows "trade_ok (trader_enters x w)"
proof (cases "tr_removed (td_player w x)")
  case True
  then have "tr_partner (td_player w x) = None" using trade_okD(2)[OF ok, of x] by (simp add: trader_ok_def)
  from no_partner_ok[OF ok this, of "no_trader\<lparr>tr_removed := False\<rparr>"] show ?thesis
    using True by (simp add: trader_enters_def no_trader_def trader_ok_def)
qed (use ok in \<open>simp add: trader_enters_def\<close>)

lemma cleanup_ok:
  assumes ok: "trade_ok w"
  shows "trade_ok (cleanup_things w)"
proof -
  define dec where "dec = fold (\<lambda>i (w :: trade_world). w\<lparr>td_refs := (td_refs w)(i := td_refs w i - 1)\<rparr>)"
  have d: "td_refs (dec is v) i = td_refs v i - int (count_list is i)" "td_items (dec is v) = td_items v"
    "td_player (dec is v) = td_player v" for "is" v i
    by (induction "is" arbitrary: v) (auto simp: dec_def)
  have eq: "td_items (cleanup_things w) = td_items w" "td_player (cleanup_things w) = td_player w"
    "td_release (cleanup_things w) = []" "td_refs (cleanup_things w) i = td_refs w i - int (count_list (td_release w) i)" for i
    by (simp_all add: cleanup_things_def Let_def d[unfolded dec_def])
  have refs: "refs_ok (cleanup_things w)" using trade_okD(1)[OF ok] by (simp add: refs_ok_def eq)
  show ?thesis using ok refs unfolding trade_ok_def eq(1,2) by blast
qed

lemma trade_step_fair:
  assumes ok: "trade_ok w" and tree: "tree_ok (te_items env)"
  shows "fair (trade_step (env, r) w)"
proof (cases r)
  case (RequestTrade x y spriteId)
  then show ?thesis using playerRequestTrade_ok[OF ok tree, of x y spriteId] by auto
next
  case (CloseTrade x)
  then show ?thesis using ok internalCloseTrade_ok(1)[OF ok] by (simp add: playerCloseTrade_def)
next
  case (MovePlayer x)
  then show ?thesis using ok internalCloseTrade_ok(1)[OF ok] by (simp add: trade_move_def Let_def)
qed (simp_all add: playerAcceptTrade_ok[OF ok] onRemove_fair[OF ok tree] checkTradeState_fair[OF ok tree]
    onUpdate_fair[OF ok tree] trader_disappears_ok[OF ok] trader_enters_ok[OF ok] cleanup_ok[OF ok])

text \<open>The items a request sees form a tree, as they do after any run of container operations.\<close>

interpretation trades: guarded_machine
  "\<lambda>r w. if tree_ok (te_items (fst r)) then Option.bind w (trade_step r) else w" fair
proof
  fix s and r :: "trade_env \<times> trade_request"
  assume "fair s"
  then obtain w where "s = Some w" "trade_ok w" by (cases s) auto
  then show "fair (if tree_ok (te_items (fst r)) then Option.bind s (trade_step r) else s)"
    using trade_step_fair[of w "fst r" "snd r"] by simp
qed

lemma no_trades_ok: "trade_ok no_trades"
  by (simp add: trade_ok_def no_trades_def no_trader_def refs_ok_def trader_ok_def)

lemma trade_run_fair:
  assumes "\<forall>r\<in>set rs. tree_ok (te_items (fst r))"
  shows "fair (trade_run rs)"
proof -
  have "fold (\<lambda>r w. Option.bind w (trade_step r)) rs s
      = fold (\<lambda>r w. if tree_ok (te_items (fst r)) then Option.bind w (trade_step r) else w) rs s" for s
    using assms by (intro fold_cong) auto
  then show ?thesis unfolding trade_run_def by (simp only:) (rule trades.run_inv, simp add: no_trades_ok)
qed

section \<open>Properties\<close>

text \<open>
  C11. After every sequence of trade requests, moves of items and players, logins and logouts, trades
  are between two players who name each other, each stage has the items it promises, the map of
  traded items holds exactly the items offered, no item twice, and every reference taken on an item is
  matched by one release.
\<close>

theorem trades_consistent:
  assumes "\<forall>r\<in>set rs. tree_ok (te_items (fst r))"
  shows "\<exists>w. trade_run rs = Some w \<and> trade_ok w"
  using trade_run_fair[OF assms] by (cases "trade_run rs") simp_all

definition demo_trade_env :: "nat \<Rightarrow> trade_env" where
  "demo_trade_env i = \<lparr>te_items = new_items (\<lambda>_. coin 1 5 None None), te_types = types coin_world,
     te_pos = (\<lambda>_. Position 100 100 7), te_itemPos = (\<lambda>_. Position 100 100 7),
     te_canThrow = (\<lambda>_ _. True), te_throwAnywhere = (\<lambda>_. False), te_found = Some i, te_clientId = (\<lambda>_. 5),
     te_fromMap = (\<lambda>_. False), te_uniqueId = (\<lambda>_. 0), te_actionId = (\<lambda>_. 0), te_path = True,
     te_limit = 100, te_requestEvents = [], te_acceptEvents = [], te_canAdd = (\<lambda>_ _. True),
     te_canRemove = (\<lambda>_. True), te_moveItem = (\<lambda>i _. if i = 20 then RET_CONTAINERNOTENOUGHROOM else RET_NOERROR)\<rparr>"

definition demo_trades :: "(trade_env \<times> trade_request) list" where
  "demo_trades = [(demo_trade_env 0, NewTrader 1), (demo_trade_env 0, NewTrader 2),
     (demo_trade_env 10, RequestTrade 1 2 5), (demo_trade_env 20, RequestTrade 2 1 5),
     (demo_trade_env 0, AcceptTrade 2)]"

lemma demo_trades_tree: "\<forall>r\<in>set demo_trades. tree_ok (te_items (fst r))"
proof -
  have "te_items (demo_trade_env i) = new_items (\<lambda>_. coin 1 5 None None)" for i
    by (simp add: demo_trade_env_def)
  then have "tree_ok (te_items (demo_trade_env i))" for i
    using new_items_ok[of "\<lambda>_. undefined" "\<lambda>_. coin 1 5 None None"] by (simp add: items_ok_def)
  then show ?thesis by (simp add: demo_trades_def)
qed

theorem trades_consistent_witness:
  "\<exists>w. trade_run demo_trades = Some w \<and> trade_ok w"
  by (rule trades_consistent[OF demo_trades_tree])

text \<open>When the items are moved.\<close>

definition trade_fits :: "trade_env \<Rightarrow> nat \<Rightarrow> nat \<Rightarrow> nat \<Rightarrow> nat \<Rightarrow> bool" where
  "trade_fits env i j x y \<longleftrightarrow> te_canAdd env y i \<and> te_canAdd env x j \<and> te_canRemove env i \<and> te_canRemove env j"

lemma transfer_items_success:
  assumes "x \<noteq> y"
  shows "fst (transfer_items env x y w) \<longleftrightarrow>
    (\<exists>i j. tr_item (td_player w x) = Some i \<and> tr_item (td_player w y) = Some j \<and> trade_fits env i j x y)"
  using assms by (simp add: transfer_items_def can_add_def trade_fits_def Let_def split: option.split)

lemma accept_transfer_iff:
  assumes "trade_ok w" and "tr_partner (td_player w x) = Some y" and "tr_state (td_player w x) = TRADE_INITIATED"
    and "tr_state (td_player w y) = TRADE_ACCEPT"
    and "te_canThrow env y x \<or> te_throwAnywhere env x" "list_all (\<lambda>b. b) (te_acceptEvents env)"
  shows "playerAcceptTrade env x w = transfer_items env x y (upd_trader x (\<lambda>t. t\<lparr>tr_state := TRADE_ACCEPT\<rparr>) w)"
proof -
  have "\<not> tr_removed (td_player w x)" "x \<noteq> y"
    using trade_okD(2)[OF assms(1), of x] trade_okD(3)[OF assms(1,2)] assms(2) by (auto simp: trader_ok_def)
  then show ?thesis using assms by (auto simp: playerAcceptTrade_def Let_def)
qed

text \<open>
  C10. A trade is carried out exactly when the player has offered an item, his partner has offered
  another one and accepted before, they are within reach, no script denies it, each of the two can
  take the item of the other and both items can be removed. Then both items are moved, one after the
  other and whatever the moves answer, and both leave the map of traded items; in every other case no
  item is moved.
\<close>

theorem trade_success_iff:
  assumes "\<forall>r\<in>set rs. tree_ok (te_items (fst r))" and "trade_run rs = Some w"
  shows "(fst (playerAcceptTrade env x w) \<longleftrightarrow>
      (\<exists>y i j. tr_partner (td_player w x) = Some y \<and> tr_state (td_player w x) = TRADE_INITIATED
         \<and> tr_state (td_player w y) = TRADE_ACCEPT \<and> (te_canThrow env y x \<or> te_throwAnywhere env x)
         \<and> list_all (\<lambda>b. b) (te_acceptEvents env)
         \<and> tr_item (td_player w x) = Some i \<and> tr_item (td_player w y) = Some j
         \<and> te_canAdd env y i \<and> te_canAdd env x j \<and> te_canRemove env i \<and> te_canRemove env j))
    \<and> (case playerAcceptTrade env x w of
     (True, w') \<Rightarrow> \<exists>y i j. tr_partner (td_player w x) = Some y \<and> tr_partner (td_player w y) = Some x
       \<and> tr_item (td_player w x) = Some i \<and> tr_item (td_player w y) = Some j \<and> i \<noteq> j
       \<and> td_log w' = td_log w @ [TradeMove i x y (te_moveItem env i y), TradeMove j y x (te_moveItem env j x),
           OnTradeTransfer i y x, OnTradeTransfer j x y]
       \<and> om_lookup (td_items w') i = None \<and> om_lookup (td_items w') j = None
       \<and> tr_partner (td_player w' x) = None \<and> tr_partner (td_player w' y) = None
   | (False, w') \<Rightarrow> \<exists>es. td_log w' = td_log w @ es \<and> list_all (\<lambda>e. \<exists>i z. e = OnTradeCancel i z) es)"
    (is "(_ \<longleftrightarrow> ?all) \<and> _")
proof -
  have ok: "trade_ok w" using trade_run_fair[OF assms(1)] assms(2) by simp
  have success: "fst (playerAcceptTrade env x w)" if every: "?all"
  proof -
    obtain y i j where y: "tr_partner (td_player w x) = Some y" "tr_state (td_player w x) = TRADE_INITIATED"
      "tr_state (td_player w y) = TRADE_ACCEPT" "te_canThrow env y x \<or> te_throwAnywhere env x"
      "list_all (\<lambda>b. b) (te_acceptEvents env)" and ij: "tr_item (td_player w x) = Some i"
      "tr_item (td_player w y) = Some j" "trade_fits env i j x y"
      using every unfolding trade_fits_def by blast
    have ne: "x \<noteq> y" using trade_okD(3)[OF ok y(1)] by simp
    show ?thesis unfolding accept_transfer_iff[OF ok y] transfer_items_success[OF ne]
      using ij ne by simp
  qed
  show ?thesis
  proof (cases rule: playerAcceptTrade_cases[OF ok, of env x, case_names refused accepted transfer])
    case refused
    then show ?thesis using success by auto
  next
    case (accepted y)
    then show ?thesis using success by auto
  next
    case (transfer y)
    let ?a = "upd_trader x (\<lambda>t. t\<lparr>tr_state := TRADE_ACCEPT\<rparr>) w"
    note yx = trade_okD(3)[OF ok transfer(1)]
    have ne: "x \<noteq> y" using yx by simp
    have r: "refs_ok ?a" using trade_okD(1)[OF ok] by simp
    show ?thesis
    proof (rule transfer_items_shape[OF r ne, of env])
      fix es
      let ?r = "transfer_items env x y ?a"
      assume sh: "td_player (snd ?r) =
          (td_player ?a)(x := (td_player ?a x)\<lparr>tr_state := TRADE_NONE, tr_item := None, tr_partner := None\<rparr>,
                        y := (td_player ?a y)\<lparr>tr_state := TRADE_NONE, tr_item := None, tr_partner := None\<rparr>)"
        "om_lookup (td_items (snd ?r)) = (\<lambda>j. if tr_item (td_player ?a x) = Some j \<or> tr_item (td_player ?a y) = Some j
           then None else om_lookup (td_items ?a) j)"
        "td_log (snd ?r) = td_log ?a @ es"
        "if fst ?r then \<exists>i j. tr_item (td_player ?a x) = Some i \<and> tr_item (td_player ?a y) = Some j
            \<and> es = transfer_log env i j x y
         else list_all (\<lambda>e. \<exists>i z. e = OnTradeCancel i z) es"
      show ?thesis
      proof (cases "fst ?r")
        case False
        then have "\<not> ?all" using success transfer(6) by auto
        then show ?thesis using sh(3,4) False unfolding transfer(6) by (cases ?r) auto
      next
        case True
        then obtain i j where ij: "tr_item (td_player w x) = Some i" "tr_item (td_player w y) = Some j"
          "es = transfer_log env i j x y"
          using sh(4) ne by auto
        have fits: "trade_fits env i j x y"
          using True ij unfolding transfer_items_success[OF ne] by (simp add: ne[symmetric])
        have "i \<noteq> j"
          using ij ne trade_okD(4)[OF ok, of i x] trade_okD(4)[OF ok, of i y] by auto
        moreover have st: "tr_state (td_player w x) = TRADE_INITIATED"
          using transfer(3) ij(1) trade_okD(2)[OF ok, of x] by (auto simp: trader_ok_def)
        moreover have "?all" using transfer(1-5) st ij(1,2) fits unfolding trade_fits_def by blast
        ultimately show ?thesis using True sh(1-3) ij yx transfer(1,2) ne unfolding transfer(6)
          by (cases ?r) (simp add: transfer_log_def del: om_lookup_None)
      qed
    qed
  qed
qed

theorem trade_success_iff_witness:
  "case trade_run demo_trades of None \<Rightarrow> False | Some w \<Rightarrow>
     \<exists>w'. playerAcceptTrade (demo_trade_env 0) 1 w = (True, w')
       \<and> td_log w' = td_log w @ [TradeMove 10 1 2 RET_NOERROR, TradeMove 20 2 1 RET_CONTAINERNOTENOUGHROOM,
           OnTradeTransfer 10 2 1, OnTradeTransfer 20 1 2]"
proof -
  have run: "map_option (\<lambda>w. (tr_partner (td_player w 1), tr_item (td_player w 1), tr_item (td_player w 2),
      fst (playerAcceptTrade (demo_trade_env 0) 1 w))) (trade_run demo_trades) = Some (Some 2, Some 10, Some 20, True)"
    by code_simp
  then obtain w where w: "trade_run demo_trades = Some w" "tr_partner (td_player w 1) = Some 2"
    "tr_item (td_player w 1) = Some 10" "tr_item (td_player w 2) = Some 20" "fst (playerAcceptTrade (demo_trade_env 0) 1 w)"
    by auto
  obtain w' where w': "playerAcceptTrade (demo_trade_env 0) 1 w = (True, w')"
    using w(5) by (cases "playerAcceptTrade (demo_trade_env 0) 1 w") auto
  have m: "te_moveItem (demo_trade_env 0) i y = (if i = 20 then RET_CONTAINERNOTENOUGHROOM else RET_NOERROR)" for i y
    by (simp add: demo_trade_env_def)
  show ?thesis
    using trade_success_iff[OF demo_trades_tree w(1), where env = "demo_trade_env 0" and x = 1] w(2-4)
    unfolding w(1) w' option.case prod.case bool.case m by auto
qed

end
