(* ===== verification/CombatAreas.thy ===== *)
theory CombatAreas
  imports Positions
begin

text \<open>
  The areas of combat spells of \<^verbatim>\<open>combat.h\<close> / \<^verbatim>\<open>combat.cpp\<close>: a matrix of hit fields with a centre for
  each direction, the ones to the other directions made from one by rotating and mirroring. A write
  outside a matrix is \<^const>\<open>None\<close>. The code rotates by a floating-point quarter turn and rounds; on
  matrices of the sizes considered that is the exact quarter turn, which is what is modelled.
\<close>

section \<open>Matrices\<close>

record matrix_area =
  mat_rows :: nat
  mat_cols :: nat
  mat_data :: "nat \<Rightarrow> nat \<Rightarrow> bool"
  mat_centerX :: u16
  mat_centerY :: u16

datatype matrix_operation = MATRIXOPERATION_COPY | MATRIXOPERATION_MIRROR | MATRIXOPERATION_FLIP
  | MATRIXOPERATION_ROTATE90 | MATRIXOPERATION_ROTATE180 | MATRIXOPERATION_ROTATE270

definition new_matrix :: "nat \<Rightarrow> nat \<Rightarrow> matrix_area" where
  "new_matrix rows cols = \<lparr>mat_rows = rows, mat_cols = cols, mat_data = (\<lambda>_ _. False),
     mat_centerX = 0, mat_centerY = 0\<rparr>"

definition setValue :: "int \<Rightarrow> int \<Rightarrow> bool \<Rightarrow> matrix_area \<Rightarrow> matrix_area option" where
  "setValue row col v M =
     (if 0 \<le> row \<and> row < int (mat_rows M) \<and> 0 \<le> col \<and> col < int (mat_cols M)
      then Some (M\<lparr>mat_data := (mat_data M)(nat row := (mat_data M (nat row))(nat col := v))\<rparr>)
      else None)"

definition setCenter :: "u16 \<Rightarrow> u16 \<Rightarrow> matrix_area \<Rightarrow> matrix_area" where
  "setCenter y x M = M\<lparr>mat_centerX := x, mat_centerY := y\<rparr>"

text \<open>The loops of \<open>copyArea\<close>: the fields of the input in the order of the loop, each written to its place.\<close>

fun write_cells :: "(nat \<times> nat \<Rightarrow> int \<times> int) \<Rightarrow> (nat \<times> nat) list \<Rightarrow> matrix_area \<Rightarrow> matrix_area \<Rightarrow> matrix_area option" where
  "write_cells place [] input output = Some output"
| "write_cells place (p # ps) input output =
     Option.bind (setValue (snd (place p)) (fst (place p)) (mat_data input (snd p) (fst p)) output)
       (write_cells place ps input)"

definition rotated :: "matrix_operation \<Rightarrow> int \<Rightarrow> int \<Rightarrow> int \<times> int" where
  "rotated op newX newY =
     (case op of
        MATRIXOPERATION_ROTATE90 \<Rightarrow> (- newY, newX)
      | MATRIXOPERATION_ROTATE180 \<Rightarrow> (- newX, - newY)
      | MATRIXOPERATION_ROTATE270 \<Rightarrow> (newY, - newX)
      | _ \<Rightarrow> (newX, newY))"

definition copyArea :: "matrix_area \<Rightarrow> matrix_area \<Rightarrow> matrix_operation \<Rightarrow> matrix_area option" where
  "copyArea input output op =
     (let centerX = mat_centerX input; centerY = mat_centerY input;
          rows = mat_rows input; cols = mat_cols input in
      case op of
        MATRIXOPERATION_COPY \<Rightarrow>
          map_option (setCenter centerY centerX)
            (write_cells (\<lambda>(x, y). (int x, int y)) [(x, y). y \<leftarrow> [0..<rows], x \<leftarrow> [0..<cols]] input output)
      | MATRIXOPERATION_MIRROR \<Rightarrow>
          map_option (setCenter centerY (of_nat rows - 1 - centerX))
            (write_cells (\<lambda>(x, y). (int cols - 1 - int x, int y))
              [(x, y). y \<leftarrow> [0..<rows], x \<leftarrow> rev [0..<cols]] input output)
      | MATRIXOPERATION_FLIP \<Rightarrow>
          map_option (setCenter (of_nat cols - 1 - centerY) centerX)
            (write_cells (\<lambda>(x, y). (int x, int rows - 1 - int y))
              [(x, y). x \<leftarrow> [0..<cols], y \<leftarrow> rev [0..<rows]] input output)
      | _ \<Rightarrow>
          let rotateCenterX = int (mat_cols output div 2) - 1; rotateCenterY = int (mat_rows output div 2) - 1 in
          map_option (setCenter (of_int rotateCenterY) (of_int rotateCenterX))
            (write_cells (\<lambda>(x, y). case rotated op (int x - uint centerX) (int y - uint centerY) of
                (rx, ry) \<Rightarrow> (rx + rotateCenterX, ry + rotateCenterY))
              [(x, y). x \<leftarrow> [0..<cols], y \<leftarrow> [0..<rows]] input output))"

section \<open>Areas\<close>

text \<open>The list of an area: 1 and 3 are hit, 2 and 3 are the centre, row after row.\<close>

fun fill_area :: "nat \<Rightarrow> nat list \<Rightarrow> nat \<Rightarrow> nat \<Rightarrow> matrix_area \<Rightarrow> matrix_area option" where
  "fill_area cols [] x y M = Some M"
| "fill_area cols (n # ns) x y M =
     Option.bind (if n = 1 \<or> n = 3 then setValue (int y) (int x) True M else Some M) (\<lambda>M.
       let M = (if n = 2 \<or> n = 3 then setCenter (of_nat y) (of_nat x) M else M) in
       if cols \<noteq> x + 1 then fill_area cols ns (x + 1) y M else fill_area cols ns 0 (y + 1) M)"

text \<open>No rows are a division by zero.\<close>

definition createArea :: "nat list \<Rightarrow> nat \<Rightarrow> matrix_area option" where
  "createArea xs rows =
     (if rows = 0 then None
      else let cols = length xs div rows in fill_area cols xs 0 0 (new_matrix rows cols))"

type_synonym combat_areas = "direction \<rightharpoonup> matrix_area"

definition setupArea :: "nat list \<Rightarrow> nat \<Rightarrow> combat_areas \<Rightarrow> combat_areas option" where
  "setupArea xs rows areas =
     Option.bind (createArea xs rows) (\<lambda>area.
       let m = max (mat_cols area) (mat_rows area) * 2 in
       Option.bind (copyArea area (new_matrix m m) MATRIXOPERATION_ROTATE180) (\<lambda>south.
       Option.bind (copyArea area (new_matrix m m) MATRIXOPERATION_ROTATE90) (\<lambda>east.
       Option.bind (copyArea area (new_matrix m m) MATRIXOPERATION_ROTATE270) (\<lambda>west.
         Some (areas(NORTH \<mapsto> area, SOUTH \<mapsto> south, EAST \<mapsto> east, WEST \<mapsto> west))))))"

definition setupExtArea :: "nat list \<Rightarrow> nat \<Rightarrow> combat_areas \<times> bool \<Rightarrow> (combat_areas \<times> bool) option" where
  "setupExtArea xs rows A =
     (if xs = [] then Some A
      else Option.bind (createArea xs rows) (\<lambda>area.
        let m = max (mat_cols area) (mat_rows area) * 2 in
        Option.bind (copyArea area (new_matrix m m) MATRIXOPERATION_MIRROR) (\<lambda>ne.
        Option.bind (copyArea area (new_matrix m m) MATRIXOPERATION_FLIP) (\<lambda>sw.
        Option.bind (copyArea sw (new_matrix m m) MATRIXOPERATION_MIRROR) (\<lambda>se.
          Some ((fst A)(NORTHWEST \<mapsto> area, NORTHEAST \<mapsto> ne, SOUTHWEST \<mapsto> sw, SOUTHEAST \<mapsto> se), True))))))"

text \<open>A wave: \<open>len\<close> rows, one field narrower on each side after \<open>spread\<close> rows.\<close>

definition spread_cols :: "nat \<Rightarrow> nat \<Rightarrow> nat" where
  "spread_cols len spread = (if spread \<noteq> 0 then ((len - len mod spread) div spread) * 2 + 1 else 1)"

definition spread_field :: "nat \<Rightarrow> nat \<Rightarrow> int \<Rightarrow> nat \<Rightarrow> nat \<Rightarrow> nat" where
  "spread_field rows cols colSpread y x =
     (let mincol = int cols - colSpread + 1; maxcol = int cols - (int cols - colSpread) in
      if y = rows \<and> x = ((cols - cols mod 2) div 2) + 1 then 3
      else if int x \<ge> mincol \<and> int x \<le> maxcol then 1 else 0)"

fun spread_rows :: "nat \<Rightarrow> nat \<Rightarrow> nat \<Rightarrow> nat list \<Rightarrow> int \<Rightarrow> nat list" where
  "spread_rows rows cols spread [] colSpread = []"
| "spread_rows rows cols spread (y # ys) colSpread =
     List.map (spread_field rows cols colSpread y) [1..<cols + 1]
     @ spread_rows rows cols spread ys (if spread > 0 \<and> y mod spread = 0 then colSpread - 1 else colSpread)"

definition setupArea_wave :: "nat \<Rightarrow> nat \<Rightarrow> combat_areas \<Rightarrow> combat_areas option" where
  "setupArea_wave len spread areas =
     (let cols = spread_cols len spread in
      setupArea (spread_rows len cols spread [1..<len + 1] (int cols)) len areas)"

definition circle_table :: "int list list" where
  "circle_table =
    [[0, 0, 0, 0, 0, 0, 8, 0, 0, 0, 0, 0, 0],
     [0, 0, 0, 0, 8, 8, 7, 8, 8, 0, 0, 0, 0],
     [0, 0, 0, 8, 7, 6, 6, 6, 7, 8, 0, 0, 0],
     [0, 0, 8, 7, 6, 5, 5, 5, 6, 7, 8, 0, 0],
     [0, 8, 7, 6, 5, 4, 4, 4, 5, 6, 7, 8, 0],
     [0, 8, 6, 5, 4, 3, 2, 3, 4, 5, 6, 8, 0],
     [8, 7, 6, 5, 4, 2, 1, 2, 4, 5, 6, 7, 8],
     [0, 8, 6, 5, 4, 3, 2, 3, 4, 5, 6, 8, 0],
     [0, 8, 7, 6, 5, 4, 4, 4, 5, 6, 7, 8, 0],
     [0, 0, 8, 7, 6, 5, 5, 5, 6, 7, 8, 0, 0],
     [0, 0, 0, 8, 7, 6, 6, 6, 7, 8, 0, 0, 0],
     [0, 0, 0, 0, 8, 8, 7, 8, 8, 0, 0, 0, 0],
     [0, 0, 0, 0, 0, 0, 8, 0, 0, 0, 0, 0, 0]]"

definition setupArea_circle :: "int \<Rightarrow> combat_areas \<Rightarrow> combat_areas option" where
  "setupArea_circle radius areas =
     setupArea (List.map (\<lambda>n. if n = 1 then 3 else if n > 0 \<and> n \<le> radius then 1 else 0) (concat circle_table)) 13 areas"

definition getArea :: "combat_areas \<Rightarrow> bool \<Rightarrow> position \<Rightarrow> position \<Rightarrow> matrix_area option" where
  "getArea areas hasExtArea centerPos targetPos =
     (let dx = uint (px targetPos) - uint (px centerPos); dy = uint (py targetPos) - uint (py centerPos);
          dir = (if dx < 0 then WEST else if dx > 0 then EAST else if dy < 0 then NORTH else SOUTH);
          dir = (if hasExtArea then
                   (if dx < 0 \<and> dy < 0 then NORTHWEST else if dx > 0 \<and> dy < 0 then NORTHEAST
                    else if dx < 0 \<and> dy > 0 then SOUTHWEST else if dx > 0 \<and> dy > 0 then SOUTHEAST else dir)
                 else dir)
      in areas dir)"

text \<open>
  The positions a spell hits. The loop moves a 16-bit position over the matrix: a column to the right
  after each field, back and a row down after each row.
\<close>

fun list_row :: "(position \<Rightarrow> bool) \<Rightarrow> u16 \<Rightarrow> matrix_area \<Rightarrow> nat \<Rightarrow> nat list \<Rightarrow> u16 \<Rightarrow> u16 \<Rightarrow> position list \<times> u16" where
  "list_row clear z M y [] tmpX tmpY = ([], tmpX)"
| "list_row clear z M y (x # xs) tmpX tmpY =
     (let (ps, tmpX') = list_row clear z M y xs (tmpX + 1) tmpY in
      (if mat_data M y x \<and> z < 16 \<and> clear (Position tmpX tmpY z) then Position tmpX tmpY z # ps else ps, tmpX'))"

fun list_rows :: "(position \<Rightarrow> bool) \<Rightarrow> u16 \<Rightarrow> matrix_area \<Rightarrow> nat list \<Rightarrow> u16 \<Rightarrow> u16 \<Rightarrow> position list" where
  "list_rows clear z M [] tmpX tmpY = []"
| "list_rows clear z M (y # ys) tmpX tmpY =
     (let (ps, tmpX') = list_row clear z M y [0..<mat_cols M] tmpX tmpY in
      ps @ list_rows clear z M ys (tmpX' - of_nat (mat_cols M)) (tmpY + 1))"

definition getList ::
    "(position \<Rightarrow> position \<Rightarrow> bool) \<Rightarrow> combat_areas \<Rightarrow> bool \<Rightarrow> position \<Rightarrow> position \<Rightarrow> position list option" where
  "getList isSightClear areas hasExtArea centerPos targetPos =
     (case getArea areas hasExtArea centerPos targetPos of
        None \<Rightarrow> None
      | Some M \<Rightarrow> Some (list_rows (isSightClear targetPos) (pz targetPos) M [0..<mat_rows M]
          (px targetPos - mat_centerX M) (py targetPos - mat_centerY M)))"

section \<open>What an area hits\<close>

definition hits :: "matrix_area \<Rightarrow> int \<Rightarrow> int \<Rightarrow> bool" where
  "hits M dx dy \<longleftrightarrow> (\<exists>x<mat_cols M. \<exists>y<mat_rows M. mat_data M y x
     \<and> dx = int x - uint (mat_centerX M) \<and> dy = int y - uint (mat_centerY M))"

text \<open>Cells written to different places inside the output end up there, and nothing else changes.\<close>

lemma write_cells_ok:
  assumes "inj_on pl (set ps)"
    and "\<And>p. p \<in> set ps \<Longrightarrow> 0 \<le> fst (pl p) \<and> fst (pl p) < int (mat_cols out) \<and> 0 \<le> snd (pl p) \<and> snd (pl p) < int (mat_rows out)"
  shows "\<exists>out'. write_cells pl ps inp out = Some out'
    \<and> mat_rows out' = mat_rows out \<and> mat_cols out' = mat_cols out
    \<and> (\<forall>p\<in>set ps. mat_data out' (nat (snd (pl p))) (nat (fst (pl p))) = mat_data inp (snd p) (fst p))
    \<and> (\<forall>x y. (int x, int y) \<notin> pl ` set ps \<longrightarrow> mat_data out' y x = mat_data out y x)"
  using assms
proof (induction ps arbitrary: out)
  case (Cons p ps)
  have b: "0 \<le> fst (pl p)" "fst (pl p) < int (mat_cols out)" "0 \<le> snd (pl p)" "snd (pl p) < int (mat_rows out)"
    using Cons.prems(2)[of p] by simp_all
  define out1 where "out1 = out\<lparr>mat_data := (mat_data out)(nat (snd (pl p)) :=
      (mat_data out (nat (snd (pl p))))(nat (fst (pl p)) := mat_data inp (snd p) (fst p)))\<rparr>"
  have w: "setValue (snd (pl p)) (fst (pl p)) (mat_data inp (snd p) (fst p)) out = Some out1"
    using b by (simp add: setValue_def out1_def)
  have dims: "mat_rows out1 = mat_rows out" "mat_cols out1 = mat_cols out" by (simp_all add: out1_def)
  obtain out' where o: "write_cells pl ps inp out1 = Some out'" "mat_rows out' = mat_rows out" "mat_cols out' = mat_cols out"
    "\<forall>p\<in>set ps. mat_data out' (nat (snd (pl p))) (nat (fst (pl p))) = mat_data inp (snd p) (fst p)"
    "\<forall>x y. (int x, int y) \<notin> pl ` set ps \<longrightarrow> mat_data out' y x = mat_data out1 y x"
    using Cons.IH[of out1] Cons.prems dims by (auto simp: inj_on_insert)
  have pp: "(int (nat (fst (pl p))), int (nat (snd (pl p)))) = pl p" using b by simp
  have first: "mat_data out' (nat (snd (pl p))) (nat (fst (pl p))) = mat_data inp (snd p) (fst p)"
  proof (cases "p \<in> set ps")
    case False
    then have "pl p \<notin> pl ` set ps" using Cons.prems(1) by (auto simp: inj_on_def)
    then have "mat_data out' (nat (snd (pl p))) (nat (fst (pl p))) = mat_data out1 (nat (snd (pl p))) (nat (fst (pl p)))"
      using o(5) pp by metis
    then show ?thesis by (simp add: out1_def)
  qed (use o(4) in blast)
  have rest: "mat_data out' y x = mat_data out y x" if nin: "(int x, int y) \<notin> pl ` set (p # ps)" for x y
  proof -
    have "\<not> (y = nat (snd (pl p)) \<and> x = nat (fst (pl p)))" using nin pp by auto
    then have "mat_data out1 y x = mat_data out y x" by (auto simp: out1_def)
    moreover have "mat_data out' y x = mat_data out1 y x" using o(5) nin by simp
    ultimately show ?thesis by simp
  qed
  show ?case using w o(1-4) first rest by auto
qed simp

text \<open>A copy that puts each field at an injective place and the centre at \<open>c\<close>: what it hits is moved the same way.\<close>

lemma hits_copy:
  assumes ps: "set ps = {..<mat_cols inp} \<times> {..<mat_rows inp}" and inj: "inj_on pl (set ps)"
    and bnd: "\<And>p. p \<in> set ps \<Longrightarrow> 0 \<le> fst (pl p) \<and> fst (pl p) < int m \<and> 0 \<le> snd (pl p) \<and> snd (pl p) < int m"
    and tr: "\<And>x y. (x, y) \<in> set ps \<Longrightarrow> fst (pl (x, y)) - uint cx = fx (int x - uint (mat_centerX inp)) (int y - uint (mat_centerY inp))
               \<and> snd (pl (x, y)) - uint cy = fy (int x - uint (mat_centerX inp)) (int y - uint (mat_centerY inp))"
    and invs: "\<And>a b. fx (gx a b) (gy a b) = a \<and> fy (gx a b) (gy a b) = b \<and> gx (fx a b) (fy a b) = a \<and> gy (fx a b) (fy a b) = b"
  shows "\<exists>M. map_option (setCenter cy cx) (write_cells pl ps inp (new_matrix m m)) = Some M
    \<and> mat_rows M = m \<and> mat_cols M = m \<and> mat_centerX M = cx \<and> mat_centerY M = cy
    \<and> (\<forall>dx dy. hits M dx dy = hits inp (gx dx dy) (gy dx dy))"
proof -
  obtain out where o: "write_cells pl ps inp (new_matrix m m) = Some out" "mat_rows out = m" "mat_cols out = m"
    "\<forall>p\<in>set ps. mat_data out (nat (snd (pl p))) (nat (fst (pl p))) = mat_data inp (snd p) (fst p)"
    "\<forall>x y. (int x, int y) \<notin> pl ` set ps \<longrightarrow> \<not> mat_data out y x"
    using write_cells_ok[OF inj, of "new_matrix m m" inp] bnd by (auto simp: new_matrix_def)
  have "hits (setCenter cy cx out) dx dy = hits inp (gx dx dy) (gy dx dy)" for dx dy
  proof
    assume "hits (setCenter cy cx out) dx dy"
    then obtain x' y' where xy: "mat_data out y' x'" "dx = int x' - uint cx" "dy = int y' - uint cy"
      by (auto simp: hits_def setCenter_def)
    then obtain x y where p: "(x, y) \<in> set ps" "pl (x, y) = (int x', int y')" using o(5) by force
    have "mat_data inp y x" using o(4) p xy(1) by force
    moreover have "dx = fx (int x - uint (mat_centerX inp)) (int y - uint (mat_centerY inp))"
      "dy = fy (int x - uint (mat_centerX inp)) (int y - uint (mat_centerY inp))"
      using tr[OF p(1)] p(2) xy(2,3) by simp_all
    ultimately show "hits inp (gx dx dy) (gy dx dy)"
      using p(1) ps invs unfolding hits_def by auto
  next
    assume "hits inp (gx dx dy) (gy dx dy)"
    then obtain x y where xy: "x < mat_cols inp" "y < mat_rows inp" "mat_data inp y x"
      "gx dx dy = int x - uint (mat_centerX inp)" "gy dx dy = int y - uint (mat_centerY inp)"
      unfolding hits_def by blast
    have p: "(x, y) \<in> set ps" using xy(1,2) ps by simp
    have d: "fst (pl (x, y)) - uint cx = dx" "snd (pl (x, y)) - uint cy = dy"
      using tr[OF p] invs[of dx dy] unfolding xy(4,5)[symmetric] by simp_all
    have b: "0 \<le> fst (pl (x, y))" "fst (pl (x, y)) < int m" "0 \<le> snd (pl (x, y))" "snd (pl (x, y)) < int m"
      using bnd[OF p] by simp_all
    have "mat_data out (nat (snd (pl (x, y)))) (nat (fst (pl (x, y))))" using o(4) p xy(3) by fastforce
    then show "hits (setCenter cy cx out) dx dy" unfolding hits_def
      using b d o(2,3) by (intro exI[of _ "nat (fst (pl (x, y)))"] conjI exI[of _ "nat (snd (pl (x, y)))"])
        (auto simp: setCenter_def)
  qed
  then show ?thesis using o(1-3) by (simp add: setCenter_def)
qed

definition centred :: "matrix_area \<Rightarrow> bool" where
  "centred M \<longleftrightarrow> uint (mat_centerX M) < int (mat_cols M) \<and> uint (mat_centerY M) < int (mat_rows M)"

lemma uint_of_int_u16: "0 \<le> k \<Longrightarrow> k < 65536 \<Longrightarrow> uint (of_int k :: u16) = k"
  by (simp add: uint_word_of_int take_bit_int_eq_self)

lemma copyArea_rotate:
  assumes op: "op \<in> {MATRIXOPERATION_ROTATE90, MATRIXOPERATION_ROTATE180, MATRIXOPERATION_ROTATE270}"
    and c: "centred inp" and m: "m = max (mat_cols inp) (mat_rows inp) * 2" "m \<le> 60000"
  shows "\<exists>M. copyArea inp (new_matrix m m) op = Some M \<and> (\<forall>dx dy. hits M dx dy = (case op of
      MATRIXOPERATION_ROTATE90 \<Rightarrow> hits inp dy (- dx)
    | MATRIXOPERATION_ROTATE180 \<Rightarrow> hits inp (- dx) (- dy)
    | _ \<Rightarrow> hits inp (- dy) dx))"
proof -
  define k where "k = max (mat_cols inp) (mat_rows inp)"
  have k: "m div 2 = k" "mat_cols inp \<le> k" "mat_rows inp \<le> k" "m = 2 * k" "k > 0"
  proof -
    have "0 < mat_cols inp" using c uint_ge_0[of "mat_centerX inp"] unfolding centred_def by linarith
    then show "k > 0" by (simp add: k_def)
  qed (use m in \<open>auto simp: k_def\<close>)
  obtain cx cy where cc: "uint (mat_centerX inp) = int cx" "uint (mat_centerY inp) = int cy"
    by (metis nonneg_int_cases uint_ge_0)
  define cw :: u16 where "cw = of_int (int k - 1)"
  have uc: "uint cw = int k - 1" unfolding cw_def by (rule uint_of_int_u16) (use k m in simp_all)
  let ?pl = "\<lambda>(x, y). case rotated op (int x - uint (mat_centerX inp)) (int y - uint (mat_centerY inp)) of
                (rx, ry) \<Rightarrow> (rx + (int k - 1), ry + (int k - 1))"
  let ?ps = "[(x, y). x \<leftarrow> [0..<mat_cols inp], y \<leftarrow> [0..<mat_rows inp]]"
  let ?gx = "\<lambda>(a :: int) (b :: int). case op of MATRIXOPERATION_ROTATE90 \<Rightarrow> b | MATRIXOPERATION_ROTATE180 \<Rightarrow> - a | _ \<Rightarrow> - b"
  let ?gy = "\<lambda>(a :: int) (b :: int). case op of MATRIXOPERATION_ROTATE90 \<Rightarrow> - a | MATRIXOPERATION_ROTATE180 \<Rightarrow> - b | _ \<Rightarrow> a"
  have "\<exists>M. map_option (setCenter cw cw) (write_cells ?pl ?ps inp (new_matrix m m)) = Some M
    \<and> mat_rows M = m \<and> mat_cols M = m \<and> mat_centerX M = cw \<and> mat_centerY M = cw
    \<and> (\<forall>dx dy. hits M dx dy = hits inp (?gx dx dy) (?gy dx dy))"
  proof (rule hits_copy[where fx = "\<lambda>a b. fst (rotated op a b)" and fy = "\<lambda>a b. snd (rotated op a b)"])
    show "set ?ps = {..<mat_cols inp} \<times> {..<mat_rows inp}" by auto
    show "inj_on ?pl (set ?ps)" using op by (auto simp: inj_on_def rotated_def)
    show "0 \<le> fst (?pl p) \<and> fst (?pl p) < int m \<and> 0 \<le> snd (?pl p) \<and> snd (?pl p) < int m" if "p \<in> set ?ps" for p
      using op that k c cc by (auto simp: rotated_def centred_def)
  qed (use op in \<open>auto simp: rotated_def uc\<close>)
  moreover have "copyArea inp (new_matrix m m) op = map_option (setCenter cw cw) (write_cells ?pl ?ps inp (new_matrix m m))"
    using op by (auto simp: copyArea_def Let_def new_matrix_def k(1) cw_def)
  ultimately show ?thesis using op by auto
qed

lemma fill_area_ok:
  assumes "x < cols" "y * cols + x + length ns = rows * cols" "mat_rows M = rows" "mat_cols M = cols"
    "centred M" "rows \<le> 30000" "cols \<le> 30000"
  shows "\<exists>M'. fill_area cols ns x y M = Some M' \<and> mat_rows M' = rows \<and> mat_cols M' = cols \<and> centred M'"
  using assms
proof (induction ns arbitrary: x y M)
  case (Cons n ns)
  have y: "y < rows"
  proof (rule ccontr)
    assume "\<not> y < rows"
    then have "rows * cols \<le> y * cols" by (simp add: mult_le_mono1)
    moreover have "y * cols + x + Suc (length ns) = rows * cols" using Cons.prems(2) by simp
    ultimately show False by linarith
  qed
  define M1 where "M1 = (if n = 1 \<or> n = 3 then M\<lparr>mat_data := (mat_data M)(y := (mat_data M y)(x := True))\<rparr> else M)"
  have s: "(if n = 1 \<or> n = 3 then setValue (int y) (int x) True M else Some M) = Some M1"
    using y Cons.prems by (auto simp: setValue_def M1_def)
  define M2 where "M2 = (if n = 2 \<or> n = 3 then setCenter (of_nat y) (of_nat x) M1 else M1)"
  have "uint (of_nat x :: u16) = int x" "uint (of_nat y :: u16) = int y"
    using uint_of_int_u16[of "int x"] uint_of_int_u16[of "int y"] y Cons.prems by simp_all
  then have m2: "mat_rows M2 = rows" "mat_cols M2 = cols" "centred M2"
    using Cons.prems y by (auto simp: M2_def M1_def setCenter_def centred_def)
  have step: "fill_area cols (n # ns) x y M =
      (if cols \<noteq> x + 1 then fill_area cols ns (x + 1) y M2 else fill_area cols ns 0 (y + 1) M2)"
    by (simp only: fill_area.simps(2) s Let_def M2_def Option.bind.simps)
  show ?case
  proof (cases "cols = x + 1")
    case True
    have "(y + 1) * cols + 0 + length ns = rows * cols" using Cons.prems(2) True by simp
    then show ?thesis unfolding step using Cons.IH[of 0 "y + 1" M2] True m2 Cons.prems by auto
  next
    case False
    then show ?thesis unfolding step using Cons.IH[of "x + 1" y M2] m2 Cons.prems by auto
  qed
qed simp

lemma createArea_ok:
  assumes "0 < rows" "0 < cols" "length xs = rows * cols" "rows \<le> 30000" "cols \<le> 30000"
  shows "\<exists>M. createArea xs rows = Some M \<and> mat_rows M = rows \<and> mat_cols M = cols \<and> centred M"
  using fill_area_ok[of 0 cols 0 xs rows "new_matrix rows cols"] assms
  by (simp add: createArea_def Let_def new_matrix_def centred_def)

lemma copyArea_mirror:
  assumes c: "centred inp" "uint (mat_centerX inp) < int (mat_rows inp)"
    and m: "mat_rows inp \<le> m" "mat_cols inp \<le> m" "m \<le> 60000"
  shows "\<exists>M. copyArea inp (new_matrix m m) MATRIXOPERATION_MIRROR = Some M
    \<and> (\<forall>dx dy. hits M dx dy = hits inp (int (mat_cols inp) - int (mat_rows inp) - dx) dy)"
proof -
  let ?cx = "of_nat (mat_rows inp) - 1 - mat_centerX inp :: u16" and ?cy = "mat_centerY inp"
  let ?d = "int (mat_cols inp) - int (mat_rows inp)"
  let ?pl = "\<lambda>(x, y). (int (mat_cols inp) - 1 - int x, int y)"
  let ?ps = "[(x, y). y \<leftarrow> [0..<mat_rows inp], x \<leftarrow> rev [0..<mat_cols inp]]"
  have ucx: "uint ?cx = int (mat_rows inp) - 1 - uint (mat_centerX inp)"
  proof -
    have "?cx = of_int (int (mat_rows inp) - 1 - uint (mat_centerX inp))" by simp
    moreover have "0 \<le> int (mat_rows inp) - 1 - uint (mat_centerX inp)"
      "int (mat_rows inp) - 1 - uint (mat_centerX inp) < 65536"
      using c m uint_ge_0[of "mat_centerX inp"] by linarith+
    ultimately show ?thesis by (simp only: uint_of_int_u16)
  qed
  have "\<exists>M. map_option (setCenter ?cy ?cx) (write_cells ?pl ?ps inp (new_matrix m m)) = Some M
    \<and> mat_rows M = m \<and> mat_cols M = m \<and> mat_centerX M = ?cx \<and> mat_centerY M = ?cy
    \<and> (\<forall>dx dy. hits M dx dy = hits inp (?d - dx) dy)"
  proof (rule hits_copy[where fx = "\<lambda>a b. ?d - a" and fy = "\<lambda>a b. b"])
    show "set ?ps = {..<mat_cols inp} \<times> {..<mat_rows inp}" by auto
    show "inj_on ?pl (set ?ps)" by (auto simp: inj_on_def)
    show "0 \<le> fst (?pl p) \<and> fst (?pl p) < int m \<and> 0 \<le> snd (?pl p) \<and> snd (?pl p) < int m" if "p \<in> set ?ps" for p
      using that m by auto
  qed (auto simp: ucx)
  then show ?thesis by (auto simp: copyArea_def Let_def)
qed

lemma copyArea_flip:
  assumes c: "centred inp" "uint (mat_centerY inp) < int (mat_cols inp)"
    and m: "mat_rows inp \<le> m" "mat_cols inp \<le> m" "m \<le> 60000"
  shows "\<exists>M. copyArea inp (new_matrix m m) MATRIXOPERATION_FLIP = Some M \<and> mat_rows M = m \<and> mat_cols M = m
    \<and> mat_centerX M = mat_centerX inp \<and> uint (mat_centerY M) < int m
    \<and> (\<forall>dx dy. hits M dx dy = hits inp dx (int (mat_rows inp) - int (mat_cols inp) - dy))"
proof -
  let ?cy = "of_nat (mat_cols inp) - 1 - mat_centerY inp :: u16" and ?cx = "mat_centerX inp"
  let ?d = "int (mat_rows inp) - int (mat_cols inp)"
  let ?pl = "\<lambda>(x, y). (int x, int (mat_rows inp) - 1 - int y)"
  let ?ps = "[(x, y). x \<leftarrow> [0..<mat_cols inp], y \<leftarrow> rev [0..<mat_rows inp]]"
  have ucy: "uint ?cy = int (mat_cols inp) - 1 - uint (mat_centerY inp)"
  proof -
    have "?cy = of_int (int (mat_cols inp) - 1 - uint (mat_centerY inp))" by simp
    moreover have "0 \<le> int (mat_cols inp) - 1 - uint (mat_centerY inp)"
      "int (mat_cols inp) - 1 - uint (mat_centerY inp) < 65536"
      using c m uint_ge_0[of "mat_centerY inp"] by linarith+
    ultimately show ?thesis by (simp only: uint_of_int_u16)
  qed
  have "\<exists>M. map_option (setCenter ?cy ?cx) (write_cells ?pl ?ps inp (new_matrix m m)) = Some M
    \<and> mat_rows M = m \<and> mat_cols M = m \<and> mat_centerX M = ?cx \<and> mat_centerY M = ?cy
    \<and> (\<forall>dx dy. hits M dx dy = hits inp dx (?d - dy))"
  proof (rule hits_copy[where fx = "\<lambda>a b. a" and fy = "\<lambda>a b. ?d - b"])
    show "set ?ps = {..<mat_cols inp} \<times> {..<mat_rows inp}" by auto
    show "inj_on ?pl (set ?ps)" by (auto simp: inj_on_def)
    show "0 \<le> fst (?pl p) \<and> fst (?pl p) < int m \<and> 0 \<le> snd (?pl p) \<and> snd (?pl p) < int m" if "p \<in> set ?ps" for p
      using that m by auto
  qed (auto simp: ucy)
  moreover have "uint ?cy < int m" using ucy m uint_ge_0[of "mat_centerY inp"] by linarith
  ultimately show ?thesis by (auto simp: copyArea_def Let_def)
qed

section \<open>Properties\<close>

text \<open>
  C37. An area list of full rows, with any centre, gives an area for each direction without a write
  outside a matrix, and the areas to the east, south and west hit exactly what the one to the north
  hits, turned by a quarter, a half and three quarters.
\<close>

theorem areas_are_rotations:
  assumes "0 < rows" "0 < cols" "length xs = rows * cols" "rows \<le> 30000" "cols \<le> 30000"
  shows "\<exists>n s e w. createArea xs rows = Some n
    \<and> setupArea xs rows Map.empty = Some [NORTH \<mapsto> n, SOUTH \<mapsto> s, EAST \<mapsto> e, WEST \<mapsto> w]
    \<and> (\<forall>dx dy. hits e dx dy = hits n dy (- dx) \<and> hits s dx dy = hits n (- dx) (- dy)
         \<and> hits w dx dy = hits n (- dy) dx)"
proof -
  obtain n where n: "createArea xs rows = Some n" "mat_rows n = rows" "mat_cols n = cols" "centred n"
    using createArea_ok[OF assms] by blast
  define m where "m = max (mat_cols n) (mat_rows n) * 2"
  have m: "m \<le> 60000" using assms(4,5) n(2,3) by (simp add: m_def)
  note rot = copyArea_rotate[OF _ n(4) m_def m]
  obtain s where s: "copyArea n (new_matrix m m) MATRIXOPERATION_ROTATE180 = Some s"
    "\<forall>dx dy. hits s dx dy = hits n (- dx) (- dy)" using rot[of MATRIXOPERATION_ROTATE180] by auto
  obtain e where e: "copyArea n (new_matrix m m) MATRIXOPERATION_ROTATE90 = Some e"
    "\<forall>dx dy. hits e dx dy = hits n dy (- dx)" using rot[of MATRIXOPERATION_ROTATE90] by auto
  obtain w where w: "copyArea n (new_matrix m m) MATRIXOPERATION_ROTATE270 = Some w"
    "\<forall>dx dy. hits w dx dy = hits n (- dy) dx" using rot[of MATRIXOPERATION_ROTATE270] by auto
  have "setupArea xs rows Map.empty = Some [NORTH \<mapsto> n, SOUTH \<mapsto> s, EAST \<mapsto> e, WEST \<mapsto> w]"
    using n(1) s(1) e(1) w(1) by (simp add: setupArea_def flip: m_def)
  then show ?thesis using n(1) s(2) e(2) w(2) by blast
qed

theorem areas_are_rotations_witness:
  "\<exists>n s e w. createArea [0, 1, 0, 1, 1, 1, 0, 2, 0] 3 = Some n
    \<and> setupArea [0, 1, 0, 1, 1, 1, 0, 2, 0] 3 Map.empty = Some [NORTH \<mapsto> n, SOUTH \<mapsto> s, EAST \<mapsto> e, WEST \<mapsto> w]
    \<and> (\<forall>dx dy. hits e dx dy = hits n dy (- dx) \<and> hits s dx dy = hits n (- dx) (- dy)
         \<and> hits w dx dy = hits n (- dy) dx)"
  by (rule areas_are_rotations[where rows = 3 and cols = 3]) simp_all

text \<open>
  The areas to the diagonals are mirror images of the one to the north-west only when the matrix is
  square: the code takes the number of rows where it needs the columns and the other way round, so a
  mirrored area is off by their difference.
\<close>

theorem ext_areas_mirror_off:
  assumes "0 < rows" "0 < cols" "length xs = rows * cols" "rows \<le> 30000" "cols \<le> 30000"
    and nw: "createArea xs rows = Some nw" "uint (mat_centerX nw) < int rows" "uint (mat_centerY nw) < int cols"
  shows "\<exists>ne sw se. setupExtArea xs rows (Map.empty, False)
        = Some ([NORTHWEST \<mapsto> nw, NORTHEAST \<mapsto> ne, SOUTHWEST \<mapsto> sw, SOUTHEAST \<mapsto> se], True)
    \<and> (\<forall>dx dy. hits ne dx dy = hits nw (int cols - int rows - dx) dy
         \<and> hits sw dx dy = hits nw dx (int rows - int cols - dy)
         \<and> hits se dx dy = hits sw (- dx) dy)"
proof -
  have n: "mat_rows nw = rows" "mat_cols nw = cols" "centred nw"
    using createArea_ok[OF assms(1-5)] nw(1) by auto
  define m where "m = max (mat_cols nw) (mat_rows nw) * 2"
  have m: "m \<le> 60000" "mat_rows nw \<le> m" "mat_cols nw \<le> m" using assms(4,5) n by (simp_all add: m_def)
  obtain ne where ne: "copyArea nw (new_matrix m m) MATRIXOPERATION_MIRROR = Some ne"
    "\<forall>dx dy. hits ne dx dy = hits nw (int cols - int rows - dx) dy"
    using copyArea_mirror[OF n(3) _ m(2,3,1)] nw(2) n by auto
  obtain sw where sw: "copyArea nw (new_matrix m m) MATRIXOPERATION_FLIP = Some sw"
    "mat_rows sw = m" "mat_cols sw = m" "mat_centerX sw = mat_centerX nw" "uint (mat_centerY sw) < int m"
    "\<forall>dx dy. hits sw dx dy = hits nw dx (int rows - int cols - dy)"
    using copyArea_flip[OF n(3) _ m(2,3,1)] nw(3) n by auto
  have "uint (mat_centerX sw) < int m" using n(3) m(3) sw(4) unfolding centred_def by simp
  then obtain se where se: "copyArea sw (new_matrix m m) MATRIXOPERATION_MIRROR = Some se"
    "\<forall>dx dy. hits se dx dy = hits sw (- dx) dy"
    using copyArea_mirror[of sw m] sw(2-5) m(1) by (auto simp: centred_def)
  have "xs \<noteq> []" using assms(1-3) by auto
  then have "setupExtArea xs rows (Map.empty, False)
      = Some ([NORTHWEST \<mapsto> nw, NORTHEAST \<mapsto> ne, SOUTHWEST \<mapsto> sw, SOUTHEAST \<mapsto> se], True)"
    using nw(1) ne(1) sw(1) se(1) by (simp add: setupExtArea_def flip: m_def)
  then show ?thesis using ne(2) sw(6) se(2) by blast
qed

theorem ext_areas_mirror_off_witness:
  "\<exists>nw ne sw se. setupExtArea [1, 1, 1, 1, 3, 1] 2 (Map.empty, False)
        = Some ([NORTHWEST \<mapsto> nw, NORTHEAST \<mapsto> ne, SOUTHWEST \<mapsto> sw, SOUTHEAST \<mapsto> se], True)
    \<and> (\<forall>dx dy. hits ne dx dy = hits nw (1 - dx) dy)"
proof -
  have "map_option (\<lambda>M. (mat_centerX M, mat_centerY M)) (createArea [1, 1, 1, 1, 3, 1] 2) = Some (1, 1)"
    by code_simp
  then obtain nw where nw: "createArea [1, 1, 1, 1, 3, 1] 2 = Some nw" "mat_centerX nw = 1" "mat_centerY nw = 1"
    by auto
  show ?thesis
    using ext_areas_mirror_off[where rows = 2 and cols = 3, OF _ _ _ _ _ nw(1)] nw(2,3) by fastforce
qed

end
