(* ===== verification/MapTree.thy ===== *)
theory MapTree
  imports Positions
begin

text \<open>
  The map of \<^verbatim>\<open>map.h\<close> / \<^verbatim>\<open>map.cpp\<close>: a tree with four children per node over the bits of the
  coordinates, whose leaves are blocks of 8 by 8 tiles on 16 floors, linked to their southern and
  eastern neighbours; and the search for the creatures around a position. Leaves, tiles and creatures
  are addresses. What a tile does when a creature steps on it is not part of this theory, and the
  list of items a new tile is refreshed with is left out.
\<close>

section \<open>The tree\<close>

definition MAP_MAX_LAYERS :: nat where "MAP_MAX_LAYERS = 16"
definition FLOOR_BITS :: nat where "FLOOR_BITS = 3"
definition FLOOR_SIZE :: nat where "FLOOR_SIZE = 8"
definition FLOOR_MASK :: u16 where "FLOOR_MASK = 7"

datatype qtree = QNull | QNode qtree qtree qtree qtree | QLeaf nat

type_synonym tile_floor = "u16 \<times> u16 \<Rightarrow> nat option"

record leaf =
  m_leafS :: "nat option"
  m_leafE :: "nat option"
  m_array :: "nat \<Rightarrow> tile_floor option"
  creatureList :: "nat list"

definition new_leaf :: leaf where
  "new_leaf = \<lparr>m_leafS = None, m_leafE = None, m_array = (\<lambda>_. None), creatureList = []\<rparr>"

definition child_index :: "u16 \<Rightarrow> u16 \<Rightarrow> nat" where
  "child_index x y = unat (drop_bit 15 (x AND 0x8000) OR drop_bit 14 (y AND 0x8000))"

definition child_index32 :: "u32 \<Rightarrow> u32 \<Rightarrow> nat" where
  "child_index32 x y = unat (drop_bit 15 (x AND 0x8000) OR drop_bit 14 (y AND 0x8000))"

definition floor_index :: "u16 \<Rightarrow> u16 \<Rightarrow> u16 \<times> u16" where
  "floor_index x y = (x AND FLOOR_MASK, y AND FLOOR_MASK)"

fun child :: "nat \<Rightarrow> qtree \<times> qtree \<times> qtree \<times> qtree \<Rightarrow> qtree" where
  "child i (a, b, c, d) = (if i = 0 then a else if i = 1 then b else if i = 2 then c else d)"

fun set_child :: "nat \<Rightarrow> qtree \<Rightarrow> qtree \<times> qtree \<times> qtree \<times> qtree \<Rightarrow> qtree" where
  "set_child i c (c0, c1, c2, c3) =
     (if i = 0 then QNode c c1 c2 c3 else if i = 1 then QNode c0 c c2 c3
      else if i = 2 then QNode c0 c1 c c3 else QNode c0 c1 c2 c)"

fun getLeaf :: "qtree \<Rightarrow> u16 \<Rightarrow> u16 \<Rightarrow> nat option" where
  "getLeaf QNull x y = None"
| "getLeaf (QLeaf a) x y = Some a"
| "getLeaf (QNode c0 c1 c2 c3) x y =
     (let i = child_index x y in
      if i = 0 then getLeaf c0 (x * 2) (y * 2) else if i = 1 then getLeaf c1 (x * 2) (y * 2)
      else if i = 2 then getLeaf c2 (x * 2) (y * 2) else getLeaf c3 (x * 2) (y * 2))"

text \<open>\<open>getLeafStatic\<close>, the loop on 32-bit coordinates.\<close>

fun getLeafStatic :: "qtree \<Rightarrow> u32 \<Rightarrow> u32 \<Rightarrow> nat option" where
  "getLeafStatic QNull x y = None"
| "getLeafStatic (QLeaf a) x y = Some a"
| "getLeafStatic (QNode c0 c1 c2 c3) x y =
     (let i = child_index32 x y in
      if i = 0 then getLeafStatic c0 (x * 2) (y * 2) else if i = 1 then getLeafStatic c1 (x * 2) (y * 2)
      else if i = 2 then getLeafStatic c2 (x * 2) (y * 2) else getLeafStatic c3 (x * 2) (y * 2))"

text \<open>
  \<open>createLeaf\<close> on the node at a level: the tree afterwards and whether the leaf is new; a new leaf gets
  the address \<open>a\<close>. A missing child becomes a leaf at level 3 and a node above it.
\<close>

fun createLeaf :: "nat \<Rightarrow> nat \<Rightarrow> u16 \<Rightarrow> u16 \<Rightarrow> qtree \<Rightarrow> qtree \<times> bool" where
  "createLeaf level a x y QNull = (QNull, False)"
| "createLeaf level a x y (QLeaf b) = (QLeaf b, False)"
| "createLeaf 0 a x y (QNode c0 c1 c2 c3) = (QNode c0 c1 c2 c3, False)"
| "createLeaf (Suc l) a x y (QNode c0 c1 c2 c3) =
     (let i = child_index x y; c = child i (c0, c1, c2, c3);
          r = (case c of
              QNull \<Rightarrow> if Suc l \<noteq> FLOOR_BITS then createLeaf l a (x * 2) (y * 2) (QNode QNull QNull QNull QNull)
                       else (QLeaf a, True)
            | _ \<Rightarrow> createLeaf l a (x * 2) (y * 2) c)
      in (set_child i (fst r) (c0, c1, c2, c3), snd r))"

section \<open>The map\<close>

text \<open>
  The state: the tree, its leaves, where each tile is (its position and its leaf), which tile each
  creature is on, and the cache of spectators.
\<close>

record map_state =
  root :: qtree
  leafs :: "nat \<Rightarrow> leaf"
  n_leafs :: nat
  tile_pos :: "nat \<Rightarrow> position"
  qt_node :: "nat \<Rightarrow> nat option"
  creature_tile :: "nat \<Rightarrow> nat option"
  spectatorCache :: "position \<Rightarrow> nat list option"

definition empty_map :: map_state where
  "empty_map = \<lparr>root = QNode QNull QNull QNull QNull, leafs = (\<lambda>_. new_leaf), n_leafs = 0,
     tile_pos = (\<lambda>_. position_zero), qt_node = (\<lambda>_. None), creature_tile = (\<lambda>_. None), spectatorCache = (\<lambda>_. None)\<rparr>"

definition upd_leaf :: "nat \<Rightarrow> (leaf \<Rightarrow> leaf) \<Rightarrow> map_state \<Rightarrow> map_state" where
  "upd_leaf a f m = m\<lparr>leafs := (leafs m)(a := f (leafs m a))\<rparr>"

definition upd_leaf_opt :: "nat option \<Rightarrow> (leaf \<Rightarrow> leaf) \<Rightarrow> map_state \<Rightarrow> map_state" where
  "upd_leaf_opt a f m = (case a of None \<Rightarrow> m | Some a \<Rightarrow> upd_leaf a f m)"

definition getTile :: "map_state \<Rightarrow> int \<Rightarrow> int \<Rightarrow> int \<Rightarrow> nat option" where
  "getTile m x y z =
     (if x < 0 \<or> x > 0xFFFF \<or> y < 0 \<or> y > 0xFFFF \<or> z < 0 \<or> z \<ge> int MAP_MAX_LAYERS then None
      else case getLeafStatic (root m) (of_int x) (of_int y) of
        None \<Rightarrow> None
      | Some a \<Rightarrow>
          (case m_array (leafs m a) (nat z) of
             None \<Rightarrow> None
           | Some f \<Rightarrow> f (floor_index (of_int x) (of_int y))))"

definition createFloor :: "nat \<Rightarrow> leaf \<Rightarrow> leaf" where
  "createFloor z l = (if m_array l z = None then l\<lparr>m_array := (m_array l)(z := Some (\<lambda>_. None))\<rparr> else l)"

text \<open>
  \<open>setTile\<close>: a new leaf is linked with the leaves around it, whose coordinates wrap around at the
  borders of the map. A tile that is already there stays.
\<close>

definition link_leaf :: "u16 \<Rightarrow> u16 \<Rightarrow> nat \<Rightarrow> map_state \<Rightarrow> map_state" where
  "link_leaf x y a m =
     (let m = upd_leaf_opt (getLeaf (root m) x (y - of_nat FLOOR_SIZE)) (\<lambda>l. l\<lparr>m_leafS := Some a\<rparr>) m;
          m = upd_leaf_opt (getLeaf (root m) (x - of_nat FLOOR_SIZE) y) (\<lambda>l. l\<lparr>m_leafE := Some a\<rparr>) m;
          south = getLeaf (root m) x (y + of_nat FLOOR_SIZE);
          m = (if south \<noteq> None then upd_leaf a (\<lambda>l. l\<lparr>m_leafS := south\<rparr>) m else m);
          east = getLeaf (root m) (x + of_nat FLOOR_SIZE) y
      in if east \<noteq> None then upd_leaf a (\<lambda>l. l\<lparr>m_leafE := east\<rparr>) m else m)"

definition make_leaf :: "u16 \<Rightarrow> u16 \<Rightarrow> map_state \<Rightarrow> map_state" where
  "make_leaf x y m =
     (case createLeaf 15 (n_leafs m) x y (root m) of
        (t, isnew) \<Rightarrow>
          if isnew then link_leaf x y (n_leafs m)
            (m\<lparr>root := t, leafs := (leafs m)(n_leafs m := new_leaf), n_leafs := n_leafs m + 1\<rparr>)
          else m\<lparr>root := t\<rparr>)"

definition setTile :: "u16 \<Rightarrow> u16 \<Rightarrow> u16 \<Rightarrow> nat \<Rightarrow> map_state \<Rightarrow> map_state" where
  "setTile x y z t m =
     (if unat z \<ge> MAP_MAX_LAYERS then m
      else
        let m = make_leaf x y m in
        case getLeaf (root m) x y of
          None \<Rightarrow> m
        | Some a \<Rightarrow>
            let m = upd_leaf a (createFloor (unat z)) m;
                f = the (m_array (leafs m a) (unat z)) in
            if f (floor_index x y) = None
            then (upd_leaf a (\<lambda>l. l\<lparr>m_array := (m_array l)(unat z := Some (f(floor_index x y := Some t)))\<rparr>) m)
                   \<lparr>qt_node := (qt_node m)(t := Some a)\<rparr>
            else m)"

section \<open>Creatures on the map\<close>

definition addCreature :: "nat \<Rightarrow> leaf \<Rightarrow> leaf" where
  "addCreature c l = l\<lparr>creatureList := creatureList l @ [c]\<rparr>"

definition removeCreature_leaf :: "nat \<Rightarrow> leaf \<Rightarrow> leaf" where
  "removeCreature_leaf c l = l\<lparr>creatureList := remove1 c (creatureList l)\<rparr>"

definition clearSpectatorCache :: "map_state \<Rightarrow> map_state" where
  "clearSpectatorCache m = m\<lparr>spectatorCache := (\<lambda>_. None)\<rparr>"

text \<open>A creature comes onto a tile (the end of \<open>placeCreature\<close>), moves to another, and leaves.\<close>

definition placeCreature_on :: "nat \<Rightarrow> nat \<Rightarrow> map_state \<Rightarrow> map_state" where
  "placeCreature_on c t m =
     (let m = clearSpectatorCache (m\<lparr>creature_tile := (creature_tile m)(c := Some t)\<rparr>)
      in upd_leaf_opt (qt_node m t) (addCreature c) m)"

definition moveCreature :: "nat \<Rightarrow> nat \<Rightarrow> map_state \<Rightarrow> map_state" where
  "moveCreature c t' m =
     (case creature_tile m c of
        None \<Rightarrow> m
      | Some t \<Rightarrow>
          let m = clearSpectatorCache m;
              m = (if qt_node m t \<noteq> qt_node m t'
                   then upd_leaf_opt (qt_node m t') (addCreature c) (upd_leaf_opt (qt_node m t) (removeCreature_leaf c) m)
                   else m)
          in clearSpectatorCache (m\<lparr>creature_tile := (creature_tile m)(c := Some t')\<rparr>))"

definition removeCreature :: "nat \<Rightarrow> map_state \<Rightarrow> map_state" where
  "removeCreature c m =
     (case creature_tile m c of
        None \<Rightarrow> m
      | Some t \<Rightarrow>
          let m = clearSpectatorCache (upd_leaf_opt (qt_node m t) (removeCreature_leaf c) m)
          in m\<lparr>creature_tile := (creature_tile m)(c := None)\<rparr>)"

section \<open>Spectators\<close>

definition getPosition :: "map_state \<Rightarrow> nat \<Rightarrow> position" where
  "getPosition m c = (case creature_tile m c of None \<Rightarrow> position_zero | Some t \<Rightarrow> tile_pos m t)"

record view_range =
  minRangeX :: int
  maxRangeX :: int
  minRangeY :: int
  maxRangeY :: int
  minRangeZ :: int
  maxRangeZ :: int

definition in_view :: "position \<Rightarrow> view_range \<Rightarrow> position \<Rightarrow> bool" where
  "in_view centerPos r pos =
     (let offsetZ = uint (pz centerPos) - uint (pz pos) in
      \<not> (uint (pz pos) < minRangeZ r \<or> uint (pz pos) > maxRangeZ r)
      \<and> \<not> (uint (py pos) < uint (py centerPos) + minRangeY r + offsetZ \<or> uint (py pos) > uint (py centerPos) + maxRangeY r + offsetZ)
      \<and> \<not> (uint (px pos) < uint (px centerPos) + minRangeX r + offsetZ \<or> uint (px pos) > uint (px centerPos) + maxRangeX r + offsetZ))"

definition scan_creatures :: "map_state \<Rightarrow> position \<Rightarrow> view_range \<Rightarrow> bool \<Rightarrow> nat list \<Rightarrow> nat list \<Rightarrow> nat list" where
  "scan_creatures m centerPos r checkForDuplicate cs l =
     foldl (\<lambda>l c. if in_view centerPos r (getPosition m c) \<and> (\<not> checkForDuplicate \<or> c \<notin> set l) then l @ [c] else l) l cs"

function scan_row ::
    "map_state \<Rightarrow> position \<Rightarrow> view_range \<Rightarrow> bool \<Rightarrow> int \<Rightarrow> int \<Rightarrow> int \<Rightarrow> nat option \<Rightarrow> nat list \<Rightarrow> nat list" where
  "scan_row m centerPos r chk endx2 ny nx leafE l =
     (if nx \<le> endx2 then
        (case leafE of
           Some a \<Rightarrow> scan_row m centerPos r chk endx2 ny (nx + int FLOOR_SIZE) (m_leafE (leafs m a))
                       (scan_creatures m centerPos r chk (creatureList (leafs m a)) l)
         | None \<Rightarrow> scan_row m centerPos r chk endx2 ny (nx + int FLOOR_SIZE)
                       (getLeaf (root m) (of_int (nx + int FLOOR_SIZE)) (of_int ny)) l)
      else l)"
  by auto
termination
  by (relation "measure (\<lambda>(m, cp, r, chk, endx2, ny, nx, a, l). nat (endx2 + 1 - nx))") (auto simp: FLOOR_SIZE_def)

function scan_rows ::
    "map_state \<Rightarrow> position \<Rightarrow> view_range \<Rightarrow> bool \<Rightarrow> int \<Rightarrow> int \<Rightarrow> int \<Rightarrow> int \<Rightarrow> nat option \<Rightarrow> nat list \<Rightarrow> nat list" where
  "scan_rows m centerPos r chk startx1 endx2 endy2 ny leafS l =
     (if ny \<le> endy2 then
        scan_rows m centerPos r chk startx1 endx2 endy2 (ny + int FLOOR_SIZE)
          (case leafS of
             Some a \<Rightarrow> m_leafS (leafs m a)
           | None \<Rightarrow> getLeaf (root m) (of_int startx1) (of_int (ny + int FLOOR_SIZE)))
          (scan_row m centerPos r chk endx2 ny startx1 leafS l)
      else l)"
  by auto
termination
  by (relation "measure (\<lambda>(m, cp, r, chk, startx1, endx2, endy2, ny, a, l). nat (endy2 + 1 - ny))") (auto simp: FLOOR_SIZE_def)

definition clamp16 :: "int \<Rightarrow> int" where
  "clamp16 n = min 0xFFFF (max 0 n)"

text \<open>
  The ranges, \<^verbatim>\<open>int32_t\<close> in the code, are exact numbers here: the same as long as none comes near
  \<open>2 ^ 31\<close>, which only a script could pass.
\<close>

definition getSpectatorsInternal ::
    "map_state \<Rightarrow> nat list \<Rightarrow> position \<Rightarrow> bool \<Rightarrow> view_range \<Rightarrow> nat list" where
  "getSpectatorsInternal m l centerPos chk r =
     (let minoffset = uint (pz centerPos) - maxRangeZ r; maxoffset = uint (pz centerPos) - minRangeZ r;
          x1 = clamp16 (uint (px centerPos) + minRangeX r + minoffset);
          y1 = clamp16 (uint (py centerPos) + minRangeY r + minoffset);
          x2 = clamp16 (uint (px centerPos) + maxRangeX r + maxoffset);
          y2 = clamp16 (uint (py centerPos) + maxRangeY r + maxoffset);
          startx1 = x1 - x1 mod int FLOOR_SIZE; starty1 = y1 - y1 mod int FLOOR_SIZE;
          endx2 = x2 - x2 mod int FLOOR_SIZE; endy2 = y2 - y2 mod int FLOOR_SIZE
      in scan_rows m centerPos r chk startx1 endx2 endy2 starty1 (getLeaf (root m) (of_int startx1) (of_int starty1)) l)"

definition maxViewportX :: int where "maxViewportX = 11"
definition maxViewportY :: int where "maxViewportY = 11"

definition floors_seen :: "position \<Rightarrow> int \<times> int" where
  "floors_seen centerPos =
     (let z = uint (pz centerPos) in
      if z > 7 then (max (z - 2) 0, min (z + 2) (int MAP_MAX_LAYERS - 1))
      else if z = 6 then (0, 8)
      else if z = 7 then (0, 9)
      else (0, 7))"

text \<open>The two forms of \<open>getSpectators\<close>: into a given list, and the cached one.\<close>

definition getSpectators_list ::
    "nat list \<Rightarrow> position \<Rightarrow> bool \<Rightarrow> bool \<Rightarrow> int \<Rightarrow> int \<Rightarrow> int \<Rightarrow> int \<Rightarrow> map_state \<Rightarrow> nat list \<times> map_state" where
  "getSpectators_list l centerPos chk multifloor minX maxX minY maxY m =
     (if unat (pz centerPos) \<ge> MAP_MAX_LAYERS then (l, m)
      else
        let cacheable = (minX = 0 \<and> maxX = 0 \<and> minY = 0 \<and> maxY = 0 \<and> multifloor \<and> \<not> chk) in
        case (if cacheable then spectatorCache m centerPos else None) of
          Some l' \<Rightarrow> (l', m)
        | None \<Rightarrow>
            let (minZ, maxZ) = (if multifloor then floors_seen centerPos else (uint (pz centerPos), uint (pz centerPos)));
                r = \<lparr>minRangeX = (if minX = 0 then - maxViewportX else - minX),
                     maxRangeX = (if maxX = 0 then maxViewportX else maxX),
                     minRangeY = (if minY = 0 then - maxViewportY else - minY),
                     maxRangeY = (if maxY = 0 then maxViewportY else maxY),
                     minRangeZ = minZ, maxRangeZ = maxZ\<rparr>;
                l = getSpectatorsInternal m l centerPos True r
            in (l, if cacheable then m\<lparr>spectatorCache := (spectatorCache m)(centerPos := Some l)\<rparr> else m))"

definition view_around :: "position \<Rightarrow> view_range" where
  "view_around centerPos =
     \<lparr>minRangeX = - maxViewportX, maxRangeX = maxViewportX, minRangeY = - maxViewportY, maxRangeY = maxViewportY,
      minRangeZ = fst (floors_seen centerPos), maxRangeZ = snd (floors_seen centerPos)\<rparr>"

definition getSpectators :: "position \<Rightarrow> map_state \<Rightarrow> nat list \<times> map_state" where
  "getSpectators centerPos m =
     (if unat (pz centerPos) \<ge> MAP_MAX_LAYERS then ([], m)
      else case spectatorCache m centerPos of
        Some l \<Rightarrow> (l, m)
      | None \<Rightarrow>
          let l = getSpectatorsInternal m [] centerPos False (view_around centerPos)
          in (l, m\<lparr>spectatorCache := (spectatorCache m)(centerPos := Some l)\<rparr>))"

section \<open>The tree is a map\<close>

lemma bit_15: "(0x8000 :: u16) = push_bit 15 1" "(0x8000 :: u32) = push_bit 15 1"
  by simp_all

lemma child_index_bits: "child_index x y = (if bit x 15 then 1 else 0) + (if bit y 15 then 2 else 0)"
proof -
  have "drop_bit 15 (x AND 0x8000) = (if bit x 15 then 1 else 0)"
    unfolding bit_15 by (intro bit_word_eqI) (auto simp: bit_simps intro!: gr0I)
  moreover have "drop_bit 14 (y AND 0x8000) = (if bit y 15 then 2 else 0)"
  proof (intro bit_word_eqI)
    fix n assume "n < LENGTH(16)"
    have "(2 :: u16) = push_bit 1 1" by simp
    then show "bit (drop_bit 14 (y AND 0x8000)) n = bit (if bit y 15 then 2 else 0 :: u16) n"
      unfolding bit_15 by (auto simp: bit_simps)
  qed
  ultimately show ?thesis by (simp add: child_index_def)
qed

text \<open>Coordinates agree on their first bits.\<close>

definition agree :: "nat \<Rightarrow> u16 \<Rightarrow> u16 \<Rightarrow> bool" where
  "agree n x x' \<longleftrightarrow> (\<forall>i<n. bit x (15 - i) = bit x' (15 - i))"

lemma agree_Suc: "n \<le> 14 \<Longrightarrow> agree (Suc n) x x' \<longleftrightarrow> bit x 15 = bit x' 15 \<and> agree n (x * 2) (x' * 2)"
proof -
  assume n: "n \<le> 14"
  have dbl: "bit (w * 2) (15 - i) = bit w (15 - Suc i)" if "i < n" for w :: u16 and i
  proof -
    have "w * 2 = push_bit 1 w" by (simp add: push_bit_eq_mult mult.commute)
    moreover have "bit (push_bit 1 w) (15 - i) = bit w (15 - Suc i)" using that n unfolding bit_push_bit_iff by auto
    ultimately show ?thesis by (simp only:)
  qed
  have "(\<forall>i<Suc n. bit x (15 - i) = bit x' (15 - i)) \<longleftrightarrow>
      bit x 15 = bit x' 15 \<and> (\<forall>i<n. bit x (15 - Suc i) = bit x' (15 - Suc i))"
    by (auto simp: less_Suc_eq_0_disj)
  then show ?thesis by (simp add: agree_def dbl)
qed

lemma agree_0 [simp]: "agree 0 x x'" by (simp add: agree_def)

lemma agree_refl [simp]: "agree n x x" by (simp add: agree_def)

definition same_block :: "u16 \<Rightarrow> u16 \<Rightarrow> bool" where
  "same_block x x' \<longleftrightarrow> drop_bit 3 x = drop_bit 3 x'"

lemma agree_block: "agree 13 x x' \<longleftrightarrow> same_block x x'"
proof -
  have "(\<forall>i<13. bit x (15 - i) = bit x' (15 - i)) \<longleftrightarrow> (\<forall>j<16. bit x (3 + j) = bit x' (3 + j))"
  proof (rule iffI; intro allI impI)
    fix j :: nat assume a: "\<forall>i<13. bit x (15 - i) = bit x' (15 - i)" "j < 16"
    show "bit x (3 + j) = bit x' (3 + j)"
    proof (cases "j < 13")
      case True
      then have "15 - (12 - j) = 3 + j" by simp
      then show ?thesis using a(1)[rule_format, of "12 - j"] by simp
    next
      case False
      then show ?thesis by (auto dest!: bit_imp_le_length)
    qed
  next
    fix i :: nat assume a: "\<forall>j<16. bit x (3 + j) = bit x' (3 + j)" "i < 13"
    then have "3 + (12 - i) = 15 - i" by simp
    then show "bit x (15 - i) = bit x' (15 - i)" using a(1)[rule_format, of "12 - i"] by simp
  qed
  also have "\<dots> \<longleftrightarrow> same_block x x'"
    unfolding same_block_def by (auto simp: bit_eq_iff bit_simps)
  finally show ?thesis by (simp add: agree_def)
qed

text \<open>The shape of the tree: leaves hang below nodes of level 3 only.\<close>

fun tree_wf :: "nat \<Rightarrow> qtree \<Rightarrow> bool" where
  "tree_wf l QNull = True"
| "tree_wf l (QLeaf a) = (l = 2)"
| "tree_wf l (QNode c0 c1 c2 c3) = (3 \<le> l \<and> (\<forall>c\<in>{c0, c1, c2, c3}. tree_wf (l - 1) c))"

lemma getLeaf_node:
  "getLeaf (QNode c0 c1 c2 c3) x y = getLeaf (child (child_index x y) (c0, c1, c2, c3)) (x * 2) (y * 2)"
  by (simp add: Let_def)

lemma child_index_eq: "child_index x y = child_index x' y' \<longleftrightarrow> bit x 15 = bit x' 15 \<and> bit y 15 = bit y' 15"
  by (simp add: child_index_bits)

lemma child_index_less: "child_index x y < 4"
  by (simp add: child_index_bits)

text \<open>\<open>createLeaf\<close> adds at most one leaf, at the given coordinates, and changes no other.\<close>

lemma createLeaf_getLeaf:
  assumes "tree_wf l (QNode c0 c1 c2 c3)" "l \<le> 15" "createLeaf l a x y (QNode c0 c1 c2 c3) = (t, isnew)"
  shows "tree_wf l t \<and> (\<exists>d0 d1 d2 d3. t = QNode d0 d1 d2 d3)
    \<and> isnew = (getLeaf (QNode c0 c1 c2 c3) x y = None)
    \<and> getLeaf t x' y' = (if isnew \<and> agree (l - 2) x x' \<and> agree (l - 2) y y' then Some a
                         else getLeaf (QNode c0 c1 c2 c3) x' y')
    \<and> getLeaf t x y \<noteq> None"
  using assms
proof (induction l arbitrary: c0 c1 c2 c3 x y x' y' t isnew)
  case 0
  then show ?case by simp
next
  case (Suc l)
  define i where "i = child_index x y"
  define c where "c = child i (c0, c1, c2, c3)"
  define r where "r = (case c of
              QNull \<Rightarrow> if Suc l \<noteq> FLOOR_BITS then createLeaf l a (x * 2) (y * 2) (QNode QNull QNull QNull QNull)
                       else (QLeaf a, True)
            | _ \<Rightarrow> createLeaf l a (x * 2) (y * 2) c)"
  have l: "2 \<le> l" "l \<le> 15" using Suc.prems by simp_all
  have cwf: "tree_wf l c" using Suc.prems(1) by (simp add: c_def)
  have r: "tree_wf l (fst r) \<and> snd r = (getLeaf c (x * 2) (y * 2) = None)
    \<and> getLeaf (fst r) u v = (if snd r \<and> agree (l - 2) (x * 2) u \<and> agree (l - 2) (y * 2) v then Some a else getLeaf c u v)
    \<and> getLeaf (fst r) (x * 2) (y * 2) \<noteq> None" for u v
  proof (cases c)
    case QNull
    show ?thesis
    proof (cases "l = 2")
      case True
      then show ?thesis using QNull by (simp add: r_def FLOOR_BITS_def)
    next
      case False
      then have "tree_wf l (QNode QNull QNull QNull QNull)" using l by simp
      moreover have "getLeaf (QNode QNull QNull QNull QNull) u v = None" for u v by (simp add: Let_def)
      ultimately show ?thesis using Suc.IH[of QNull QNull QNull QNull "x * 2" "y * 2" "fst r" "snd r" u v] False l(2) QNull
        by (simp add: r_def FLOOR_BITS_def)
    qed
  next
    case (QLeaf b)
    then show ?thesis using cwf by (simp add: r_def)
  next
    case (QNode d0 d1 d2 d3)
    then show ?thesis using Suc.IH[of d0 d1 d2 d3 "x * 2" "y * 2" "fst r" "snd r" u v] cwf l(2) by (simp add: r_def)
  qed
  have "createLeaf (Suc l) a x y (QNode c0 c1 c2 c3) = (set_child i (fst r) (c0, c1, c2, c3), snd r)"
    by (simp only: createLeaf.simps Let_def r_def c_def i_def)
  then have t: "isnew = snd r \<and> t = (if i = 0 then QNode (fst r) c1 c2 c3 else if i = 1 then QNode c0 (fst r) c2 c3
      else if i = 2 then QNode c0 c1 (fst r) c3 else QNode c0 c1 c2 (fst r))"
    using Suc.prems(3) by auto
  have i: "child_index x' y' = i \<longleftrightarrow> bit x 15 = bit x' 15 \<and> bit y 15 = bit y' 15"
    unfolding i_def child_index_eq by blast
  have lt: "getLeaf t x' y' = (if child_index x' y' = i then getLeaf (fst r) (x' * 2) (y' * 2)
      else getLeaf (QNode c0 c1 c2 c3) x' y')" for x' y'
    using t child_index_less[of x y] child_index_less[of x' y'] by (auto simp: Let_def i_def)
  have old: "getLeaf (QNode c0 c1 c2 c3) x' y' = getLeaf c (x' * 2) (y' * 2)" if "child_index x' y' = i" for x' y'
    using that by (simp add: getLeaf_node c_def del: getLeaf.simps)
  have "Suc l - 2 = Suc (l - 2)" "l - 2 \<le> 14" using l by simp_all
  then have ag: "agree (Suc l - 2) x x' \<and> agree (Suc l - 2) y y'
      \<longleftrightarrow> child_index x' y' = i \<and> agree (l - 2) (x * 2) (x' * 2) \<and> agree (l - 2) (y * 2) (y' * 2)"
    unfolding i by (auto simp: agree_Suc)
  have "tree_wf (Suc l) t" using Suc.prems(1) r t by auto
  moreover have "isnew = (getLeaf (QNode c0 c1 c2 c3) x y = None)" using r t old[of x y] i_def by simp
  moreover have "getLeaf t x y \<noteq> None" using lt[of x y] r i_def by simp
  moreover have "getLeaf t x' y' = (if isnew \<and> agree (Suc l - 2) x x' \<and> agree (Suc l - 2) y y' then Some a
                         else getLeaf (QNode c0 c1 c2 c3) x' y')"
    unfolding ag lt using r[of "x' * 2" "y' * 2"] t old[of x' y'] by auto
  ultimately show ?case using t by (auto split: if_splits)
qed

lemma createLeaf_root:
  assumes "tree_wf 15 t" "t = QNode c0 c1 c2 c3" "createLeaf 15 a x y t = (t', isnew)"
  shows "tree_wf 15 t'" "\<exists>d0 d1 d2 d3. t' = QNode d0 d1 d2 d3" "isnew = (getLeaf t x y = None)"
    "getLeaf t' x' y' = (if isnew \<and> same_block x x' \<and> same_block y y' then Some a else getLeaf t x' y')"
    "getLeaf t' x y \<noteq> None"
  using createLeaf_getLeaf[of 15 c0 c1 c2 c3 a x y t' isnew x' y'] assms by (simp_all add: agree_block)

lemma getLeaf_agree:
  "tree_wf l t \<Longrightarrow> l \<le> 15 \<Longrightarrow> agree (l - 2) x x' \<Longrightarrow> agree (l - 2) y y' \<Longrightarrow> getLeaf t x y = getLeaf t x' y'"
proof (induction t arbitrary: l x y x' y')
  case (QNode c0 c1 c2 c3)
  have l: "3 \<le> l" "l - 3 \<le> 14" "l - 2 = Suc (l - 3)" "l - 1 - 2 = l - 3" using QNode.prems by auto
  have a: "bit x 15 = bit x' 15" "bit y 15 = bit y' 15"
    "agree (l - 1 - 2) (x * 2) (x' * 2)" "agree (l - 1 - 2) (y * 2) (y' * 2)"
    using QNode.prems(3,4) l(2) unfolding l(3,4) by (simp_all add: agree_Suc)
  have "child_index x y = child_index x' y'" using a by (simp add: child_index_eq)
  then show ?case
    using QNode.IH[of "l - 1" "x * 2" "x' * 2" "y * 2" "y' * 2"] QNode.prems(1,2) a by (simp add: Let_def)
qed simp_all

lemma same_block_refl [simp]: "same_block x x" by (simp add: same_block_def)

lemma same_block_sym: "same_block x y \<longleftrightarrow> same_block y x" by (auto simp: same_block_def)

lemma getLeaf_block: "tree_wf 15 t \<Longrightarrow> same_block x x' \<Longrightarrow> same_block y y' \<Longrightarrow> getLeaf t x y = getLeaf t x' y'"
  using getLeaf_agree[of 15 t x x' y y'] by (simp add: agree_block)

text \<open>The loop on 32-bit coordinates finds the same leaf.\<close>

lemma getLeafStatic_eq: "getLeafStatic t X Y = getLeaf t (ucast X) (ucast Y)"
proof (induction t arbitrary: X Y)
  case (QNode c0 c1 c2 c3)
  have b: "(drop_bit 15 (X AND 0x8000) OR drop_bit 14 (Y AND 0x8000)) =
      (ucast (drop_bit 15 (ucast X AND 0x8000) OR drop_bit 14 (ucast Y AND 0x8000) :: u16) :: u32)" for X Y :: u32
    unfolding bit_15 by (intro bit_word_eqI) (auto simp: bit_simps)
  have "child_index32 X Y = child_index (ucast X) (ucast Y)"
    unfolding child_index32_def child_index_def b by (simp add: unsigned_ucast_eq take_bit_nat_eq_self unsigned_less[THEN less_le_trans])
  moreover have "(ucast (Z * 2) :: u16) = ucast Z * 2" for Z :: u32
  proof -
    have "(ucast (push_bit 1 Z) :: u16) = push_bit 1 (ucast Z)"
      by (rule bit_word_eqI) (unfold bit_ucast_iff bit_push_bit_iff, auto simp: bit_simps)
    then show ?thesis by (simp add: push_bit_eq_mult mult.commute)
  qed
  ultimately show ?case using QNode.IH by (simp add: Let_def)
qed simp_all

section \<open>Blocks\<close>

definition block :: "u16 \<Rightarrow> nat" where
  "block x = unat x div 8"

lemma same_block_iff: "same_block x x' \<longleftrightarrow> block x = block x'"
proof -
  have "unat (drop_bit 3 x) = block x" for x :: u16
    unfolding unsigned_drop_bit_eq block_def using unsigned_less[of x, where 'a = nat]
    by (simp add: drop_bit_eq_div take_bit_nat_eq_self)
  then show ?thesis unfolding same_block_def by (metis unsigned_word_eqI)
qed

lemma block_less: "block x < 8192"
  using unsigned_less[of x, where 'a = nat] by (simp add: block_def less_mult_imp_div_less)

lemma block_plus: "block (x + 8) = (block x + 1) mod 8192"
proof -
  have "unat (x + 8) = (unat x + 8) mod 65536" by (simp add: unat_word_ariths)
  then have "block (x + 8) = (unat x + 8) mod (8 * 8192) div 8" by (simp add: block_def)
  also have "\<dots> = (unat x + 8) div 8 mod 8192" unfolding mod_mult2_eq by simp
  also have "(unat x + 8) div 8 = unat x div 8 + 1" by simp
  finally show ?thesis by (simp only: block_def)
qed

lemma block_minus: "block (x - 8) = block y \<longleftrightarrow> block x = block (y + 8)"
proof -
  have "block x = (block (x - 8) + 1) mod 8192" using block_plus[of "x - 8"] by simp
  moreover have "block (y + 8) = (block y + 1) mod 8192" by (rule block_plus)
  moreover have "(a + 1) mod 8192 = (b + 1) mod 8192 \<longleftrightarrow> a = b" if "a < 8192" "b < 8192" for a b :: nat
    using that by (auto simp: mod_Suc)
  ultimately show ?thesis using block_less[of "x - 8"] block_less[of y] by simp
qed

lemma block_plus_neq: "block (x + 8) \<noteq> block x"
  using block_less[of x] by (auto simp: block_plus mod_Suc)

lemma block_minus_neq: "block (x - 8) \<noteq> block x"
  using block_plus_neq[of "x - 8"] by simp

section \<open>The invariant\<close>

definition links_ok :: "map_state \<Rightarrow> bool" where
  "links_ok m \<longleftrightarrow> (\<forall>x y a. getLeaf (root m) x y = Some a \<longrightarrow>
     m_leafE (leafs m a) = getLeaf (root m) (x + 8) y \<and> m_leafS (leafs m a) = getLeaf (root m) x (y + 8))"

definition leaves_ok :: "map_state \<Rightarrow> bool" where
  "leaves_ok m \<longleftrightarrow> tree_wf 15 (root m) \<and> (\<exists>c0 c1 c2 c3. root m = QNode c0 c1 c2 c3)
     \<and> (\<forall>x y a. getLeaf (root m) x y = Some a \<longrightarrow> a < n_leafs m)
     \<and> (\<forall>x y x' y' a. getLeaf (root m) x y = Some a \<longrightarrow> getLeaf (root m) x' y' = Some a \<longrightarrow> block x = block x' \<and> block y = block y')
     \<and> (\<forall>a\<ge>n_leafs m. leafs m a = new_leaf)"

definition creatures_ok :: "map_state \<Rightarrow> bool" where
  "creatures_ok m \<longleftrightarrow>
     (\<forall>t a. qt_node m t = Some a \<longrightarrow> getLeaf (root m) (px (tile_pos m t)) (py (tile_pos m t)) = Some a)
     \<and> (\<forall>a c. c \<in> set (creatureList (leafs m a)) \<longleftrightarrow> (\<exists>t. creature_tile m c = Some t \<and> qt_node m t = Some a))
     \<and> (\<forall>c t. creature_tile m c = Some t \<longrightarrow> qt_node m t \<noteq> None)
     \<and> (\<forall>a. distinct (creatureList (leafs m a)))"

definition map_ok :: "map_state \<Rightarrow> bool" where
  "map_ok m \<longleftrightarrow> leaves_ok m \<and> links_ok m \<and> creatures_ok m"

lemma leaves_okD:
  assumes "leaves_ok m"
  shows "tree_wf 15 (root m)" "\<exists>c0 c1 c2 c3. root m = QNode c0 c1 c2 c3"
    "getLeaf (root m) x y = Some a \<Longrightarrow> a < n_leafs m"
    "getLeaf (root m) x y = Some a \<Longrightarrow> getLeaf (root m) x' y' = Some a \<Longrightarrow> block x = block x' \<and> block y = block y'"
    "a \<ge> n_leafs m \<Longrightarrow> leafs m a = new_leaf"
proof -
  note l1 = assms[unfolded leaves_ok_def, THEN conjunct2, THEN conjunct2]
  show "tree_wf 15 (root m)" "\<exists>c0 c1 c2 c3. root m = QNode c0 c1 c2 c3" using assms by (simp_all add: leaves_ok_def)
  show "a < n_leafs m" if "getLeaf (root m) x y = Some a" using l1[THEN conjunct1] that by metis
  show "block x = block x' \<and> block y = block y'"
    if "getLeaf (root m) x y = Some a" "getLeaf (root m) x' y' = Some a"
    using l1[THEN conjunct2, THEN conjunct1, rule_format, OF that] .
  show "leafs m a = new_leaf" if "a \<ge> n_leafs m" using l1[THEN conjunct2, THEN conjunct2] that by metis
qed

lemma getLeaf_blocks:
  assumes "leaves_ok m" "block x = block x'" "block y = block y'"
  shows "getLeaf (root m) x y = getLeaf (root m) x' y'"
  by (rule getLeaf_block[OF leaves_okD(1)[OF assms(1)]]) (use assms(2,3) in \<open>simp_all add: same_block_iff\<close>)

lemma upd_leaf_simps [simp]:
  "root (upd_leaf a f m) = root m" "n_leafs (upd_leaf a f m) = n_leafs m" "tile_pos (upd_leaf a f m) = tile_pos m"
  "qt_node (upd_leaf a f m) = qt_node m" "creature_tile (upd_leaf a f m) = creature_tile m"
  "spectatorCache (upd_leaf a f m) = spectatorCache m" "leafs (upd_leaf a f m) = (leafs m)(a := f (leafs m a))"
  by (simp_all add: upd_leaf_def)

lemma upd_leaf_opt_simps [simp]:
  "root (upd_leaf_opt a f m) = root m" "n_leafs (upd_leaf_opt a f m) = n_leafs m" "tile_pos (upd_leaf_opt a f m) = tile_pos m"
  "qt_node (upd_leaf_opt a f m) = qt_node m" "creature_tile (upd_leaf_opt a f m) = creature_tile m"
  "spectatorCache (upd_leaf_opt a f m) = spectatorCache m"
  "leafs (upd_leaf_opt a f m) b = (if a = Some b then f (leafs m b) else leafs m b)"
  by (auto simp: upd_leaf_opt_def split: option.split)

lemma link_leaf_simps [simp]:
  "root (link_leaf x y a m) = root m" "n_leafs (link_leaf x y a m) = n_leafs m" "tile_pos (link_leaf x y a m) = tile_pos m"
  "qt_node (link_leaf x y a m) = qt_node m" "creature_tile (link_leaf x y a m) = creature_tile m"
  "spectatorCache (link_leaf x y a m) = spectatorCache m"
  by (simp_all add: link_leaf_def Let_def)

lemma link_leaf_links:
  "m_array (leafs (link_leaf x y a m) b) = m_array (leafs m b)"
  "creatureList (leafs (link_leaf x y a m) b) = creatureList (leafs m b)"
  "m_leafS (leafs (link_leaf x y a m) b) =
     (if b = a \<and> getLeaf (root m) x (y + 8) \<noteq> None then getLeaf (root m) x (y + 8)
      else if getLeaf (root m) x (y - 8) = Some b then Some a else m_leafS (leafs m b))"
  "m_leafE (leafs (link_leaf x y a m) b) =
     (if b = a \<and> getLeaf (root m) (x + 8) y \<noteq> None then getLeaf (root m) (x + 8) y
      else if getLeaf (root m) (x - 8) y = Some b then Some a else m_leafE (leafs m b))"
  by (auto simp: link_leaf_def Let_def FLOOR_SIZE_def)

lemma link_leaf_other:
  assumes "b \<noteq> a" "getLeaf (root m) x (y - 8) \<noteq> Some b" "getLeaf (root m) (x - 8) y \<noteq> Some b"
  shows "leafs (link_leaf x y a m) b = leafs m b"
  using assms by (simp add: link_leaf_def Let_def FLOOR_SIZE_def)

lemma make_leaf_frame [simp]:
  "tile_pos (make_leaf x y m) = tile_pos m" "qt_node (make_leaf x y m) = qt_node m"
  "creature_tile (make_leaf x y m) = creature_tile m" "spectatorCache (make_leaf x y m) = spectatorCache m"
  by (simp_all add: make_leaf_def split: prod.split)

lemma make_leaf_leaves:
  assumes ok: "leaves_ok m"
  shows "leaves_ok (make_leaf x y m)" "getLeaf (root (make_leaf x y m)) x y \<noteq> None"
    "getLeaf (root (make_leaf x y m)) x' y' =
       (if getLeaf (root m) x y = None \<and> block x = block x' \<and> block y = block y' then Some (n_leafs m)
        else getLeaf (root m) x' y')"
    "m_array (leafs (make_leaf x y m) b) = m_array (leafs m b)"
    "creatureList (leafs (make_leaf x y m) b) = creatureList (leafs m b)"
proof -
  note d = leaves_okD[OF ok]
  obtain t isnew where c: "createLeaf 15 (n_leafs m) x y (root m) = (t, isnew)" by (metis surj_pair)
  obtain c0 c1 c2 c3 where rt: "root m = QNode c0 c1 c2 c3" using d(2) by blast
  note r = createLeaf_root[OF d(1) rt c]
  have root': "root (make_leaf x y m) = t" by (simp add: make_leaf_def c)
  show leaf': "getLeaf (root (make_leaf x y m)) x' y' =
       (if getLeaf (root m) x y = None \<and> block x = block x' \<and> block y = block y' then Some (n_leafs m)
        else getLeaf (root m) x' y')" for x' y'
    using r(3,4) by (simp add: root' same_block_iff)
  show "getLeaf (root (make_leaf x y m)) x y \<noteq> None" using r(5) by (simp add: root')
  show arr: "m_array (leafs (make_leaf x y m) b) = m_array (leafs m b)"
    and cre: "creatureList (leafs (make_leaf x y m) b) = creatureList (leafs m b)"
    using d(5)[of "n_leafs m"] by (auto simp: make_leaf_def c link_leaf_links)
  have n': "n_leafs (make_leaf x y m) = n_leafs m + (if isnew then 1 else 0)" by (simp add: make_leaf_def c)
  have lt: "a < n_leafs (make_leaf x y m)" if "getLeaf (root (make_leaf x y m)) x' y' = Some a" for x' y' a
    using that d(3)[of x' y' a] r(3) by (auto simp: leaf' n' split: if_splits)
  have inj: "block x1 = block x2 \<and> block y1 = block y2"
    if "getLeaf (root (make_leaf x y m)) x1 y1 = Some a" "getLeaf (root (make_leaf x y m)) x2 y2 = Some a" for x1 y1 x2 y2 a
    using that d(3)[of x1 y1 a] d(3)[of x2 y2 a] d(4)[of x1 y1 a x2 y2] by (auto simp: leaf' split: if_splits)
  have new: "leafs (make_leaf x y m) a = new_leaf" if "a \<ge> n_leafs (make_leaf x y m)" for a
  proof -
    have a: "a \<ge> n_leafs m" using that by (simp add: n' split: if_splits)
    have no: "getLeaf (root (make_leaf x y m)) x' y' \<noteq> Some a" for x' y' using lt[of x' y' a] that by auto
    show ?thesis
    proof (cases isnew)
      case True
      then have "a \<noteq> n_leafs m" using that by (simp add: n')
      then show ?thesis using True no d(5)[OF a] by (simp add: make_leaf_def c root' link_leaf_other)
    next
      case False
      then show ?thesis using d(5)[OF a] by (simp add: make_leaf_def c)
    qed
  qed
  show "leaves_ok (make_leaf x y m)"
    unfolding leaves_ok_def using r(1,2) lt inj new root' by metis
qed

lemma make_leaf_links:
  assumes ok: "leaves_ok m" and li: "links_ok m"
  shows "links_ok (make_leaf x y m)"
proof (cases "getLeaf (root m) x y = None")
  case False
  obtain t where c: "createLeaf 15 (n_leafs m) x y (root m) = (t, False)"
    using createLeaf_root(3)[OF leaves_okD(1)[OF ok]] leaves_okD(2)[OF ok] False by (metis surj_pair)
  have "getLeaf t x' y' = getLeaf (root m) x' y'" for x' y'
    using make_leaf_leaves(3)[OF ok, of x y x' y'] False by (simp add: make_leaf_def c)
  then show ?thesis using li by (simp add: make_leaf_def c links_ok_def)
next
  case True
  let ?m = "make_leaf x y m" and ?a = "n_leafs m"
  note l = make_leaf_leaves[OF ok] and d = leaves_okD[OF ok]
  obtain t where c: "createLeaf 15 ?a x y (root m) = (t, True)"
    using createLeaf_root(3)[OF d(1)] d(2) True by (metis surj_pair)
  have m': "?m = link_leaf x y ?a (m\<lparr>root := t, leafs := (leafs m)(?a := new_leaf), n_leafs := ?a + 1\<rparr>)"
    by (simp add: make_leaf_def c)
  have rt: "root ?m = t" by (simp add: m')
  have g: "getLeaf t x' y' = (if block x = block x' \<and> block y = block y' then Some ?a else getLeaf (root m) x' y')" for x' y'
    using l(3)[of x y x' y'] True by (simp add: rt)
  note cong = getLeaf_blocks[OF l(1)[of x y], unfolded rt]
  have lE: "m_leafE (leafs ?m b) =
      (if b = ?a \<and> getLeaf t (x + 8) y \<noteq> None then getLeaf t (x + 8) y
       else if getLeaf t (x - 8) y = Some b then Some ?a else if b = ?a then None else m_leafE (leafs m b))"
    and lS: "m_leafS (leafs ?m b) =
      (if b = ?a \<and> getLeaf t x (y + 8) \<noteq> None then getLeaf t x (y + 8)
       else if getLeaf t x (y - 8) = Some b then Some ?a else if b = ?a then None else m_leafS (leafs m b))" for b
    by (simp_all add: m' link_leaf_links new_leaf_def)
  show ?thesis unfolding links_ok_def rt
  proof (intro allI impI)
    fix x' y' b assume b: "getLeaf t x' y' = Some b"
    show "m_leafE (leafs ?m b) = getLeaf t (x' + 8) y' \<and> m_leafS (leafs ?m b) = getLeaf t x' (y' + 8)"
    proof (cases "block x = block x' \<and> block y = block y'")
      case True
      then have a: "b = ?a" using b g by simp
      have "getLeaf t (x - 8) y \<noteq> Some ?a" using d(3) block_minus_neq[of x] by (force simp: g)
      moreover have "getLeaf t x (y - 8) \<noteq> Some ?a" using d(3) block_minus_neq[of y] by (force simp: g)
      moreover have "getLeaf t (x' + 8) y' = getLeaf t (x + 8) y" "getLeaf t x' (y' + 8) = getLeaf t x (y + 8)"
        using cong True by (metis block_plus)+
      ultimately show ?thesis using a by (auto simp: lE lS)
    next
      case False
      then have b': "getLeaf (root m) x' y' = Some b" using b g by auto
      have ne: "b \<noteq> ?a" using d(3)[OF b'] by simp
      have old: "m_leafE (leafs m b) = getLeaf (root m) (x' + 8) y'" "m_leafS (leafs m b) = getLeaf (root m) x' (y' + 8)"
        using li b' by (auto simp: links_ok_def)
      have sb: "getLeaf t u v = Some b \<longleftrightarrow> block u = block x' \<and> block v = block y'" for u v
        using b cong[of u x' v y'] leaves_okD(4)[OF l(1)[of x y], unfolded rt, of u v b x' y'] by auto
      have W: "getLeaf t (x - 8) y = Some b \<longleftrightarrow> block x = block (x' + 8) \<and> block y = block y'"
        unfolding sb block_minus by blast
      have N: "getLeaf t x (y - 8) = Some b \<longleftrightarrow> block x = block x' \<and> block y = block (y' + 8)"
        unfolding sb block_minus by blast
      show ?thesis unfolding lE lS W N using ne old block_plus_neq[of x'] block_plus_neq[of y'] by (auto simp: g)
    qed
  qed
qed

text \<open>Looking a tile up, on the wrapped coordinates.\<close>

definition tile_at :: "map_state \<Rightarrow> u16 \<Rightarrow> u16 \<Rightarrow> nat \<Rightarrow> nat option" where
  "tile_at m x y z =
     (case getLeaf (root m) x y of None \<Rightarrow> None
      | Some a \<Rightarrow> (case m_array (leafs m a) z of None \<Rightarrow> None | Some f \<Rightarrow> f (floor_index x y)))"

lemma getTile_at:
  "getTile m (uint x) (uint y) (uint z) = (if unat z < MAP_MAX_LAYERS then tile_at m x y (unat z) else None)"
proof -
  have r: "\<not> uint w < 0" "\<not> uint w > 0xFFFF" for w :: u16
    using uint_lt2p[of w] by auto
  have "uint z \<ge> int MAP_MAX_LAYERS \<longleftrightarrow> \<not> unat z < MAP_MAX_LAYERS" by (simp add: uint_less_iff_unat flip: not_less)
  moreover have "nat (uint z) = unat z" by simp
  moreover have "(ucast (word_of_int (uint w) :: u32) :: u16) = w" for w :: u16
    unfolding ucast_eq[symmetric] by (rule bit_word_eqI) (simp add: bit_simps)
  ultimately show ?thesis
    using r by (simp add: getTile_def tile_at_def getLeafStatic_eq split: option.split)
qed

lemma floor_index_block:
  "floor_index x y = floor_index x' y' \<and> block x = block x' \<and> block y = block y' \<longleftrightarrow> x = x' \<and> y = y'"
proof -
  have split: "x = x'" if "x AND 7 = x' AND 7" "drop_bit 3 x = drop_bit 3 x'" for x x' :: u16
  proof -
    have "take_bit 3 w = w AND 7" for w :: u16 by (simp add: take_bit_eq_mask mask_numeral)
    then show ?thesis using that by (metis bits_ident)
  qed
  show ?thesis
    using split[of x x'] split[of y y'] unfolding same_block_iff[symmetric] same_block_def
    by (auto simp: floor_index_def FLOOR_MASK_def)
qed

lemma tile_at_make_leaf [simp]:
  assumes "leaves_ok m"
  shows "tile_at (make_leaf x y m) x' y' z = tile_at m x' y' z"
proof (cases "getLeaf (root m) x y = None \<and> block x = block x' \<and> block y = block y'")
  case True
  then have "getLeaf (root m) x' y' = None" using getLeaf_blocks[OF assms] by metis
  moreover have "m_array (leafs m (n_leafs m)) z = None" using leaves_okD(5)[OF assms] by (simp add: new_leaf_def)
  ultimately show ?thesis using True by (simp add: tile_at_def make_leaf_leaves(3,4)[OF assms])
next
  case False
  then have "getLeaf (root (make_leaf x y m)) x' y' = getLeaf (root m) x' y'"
    by (simp only: make_leaf_leaves(3)[OF assms] if_False)
  then show ?thesis
    by (cases "getLeaf (root m) x' y'") (simp_all add: tile_at_def make_leaf_leaves(4)[OF assms])
qed

lemma setTile_at:
  assumes ok: "leaves_ok m" and z: "unat z < MAP_MAX_LAYERS"
  shows "tile_at (setTile x y z t m) x' y' z' =
    (if x' = x \<and> y' = y \<and> z' = unat z \<and> tile_at m x y (unat z) = None then Some t else tile_at m x' y' z')"
proof -
  let ?m = "make_leaf x y m"
  note l = make_leaf_leaves[OF ok]
  obtain a where a: "getLeaf (root ?m) x y = Some a" using l(2)[of x y] by blast
  have same: "getLeaf (root ?m) x' y' = Some a \<longleftrightarrow> block x = block x' \<and> block y = block y'" for x' y'
    using a leaves_okD(4)[OF l(1)] getLeaf_blocks[OF l(1)] by metis
  let ?fl = "case m_array (leafs ?m a) (unat z) of None \<Rightarrow> (\<lambda>_. None) | Some f \<Rightarrow> f"
  have fl: "the (m_array (createFloor (unat z) (leafs ?m a)) (unat z)) = ?fl"
    by (auto simp: createFloor_def split: option.split)
  define A where "A = tile_at m x y (unat z)"
  have here: "?fl (floor_index x y) = A"
  proof -
    have "tile_at ?m x y (unat z) = ?fl (floor_index x y)" by (simp add: tile_at_def a split: option.split)
    then show ?thesis using tile_at_make_leaf[OF ok, of x y x y "unat z"] by (simp add: A_def)
  qed
  have arr: "m_array (createFloor (unat z) (leafs ?m a)) = (m_array (leafs ?m a))(unat z := Some ?fl)"
    by (auto simp: createFloor_def fun_eq_iff split: option.split)
  have old: "tile_at m x' y' z' = tile_at ?m x' y' z'" using tile_at_make_leaf[OF ok] by simp
  show ?thesis
  proof (cases "A = None")
    case True
    then have "tile_at (setTile x y z t m) x' y' z' =
        (case getLeaf (root ?m) x' y' of None \<Rightarrow> None
         | Some b \<Rightarrow> (case (if b = a then (m_array (leafs ?m a))(unat z := Some (?fl(floor_index x y := Some t)))
                             else m_array (leafs ?m b)) z' of None \<Rightarrow> None | Some f \<Rightarrow> f (floor_index x' y')))"
      using z a by (cases "getLeaf (root ?m) x' y'") (simp_all add: setTile_def Let_def fl here arr tile_at_def)
    also have "\<dots> = (if x' = x \<and> y' = y \<and> z' = unat z then Some t else tile_at ?m x' y' z')"
      using same[of x' y'] floor_index_block[of x y x' y'] a
      by (cases "getLeaf (root ?m) x' y'"; cases "m_array (leafs ?m a) (unat z)") (auto simp: tile_at_def)
    finally show ?thesis using True old by (simp add: A_def)
  next
    case False
    then have "tile_at (setTile x y z t m) x' y' z' =
        (case getLeaf (root ?m) x' y' of None \<Rightarrow> None
         | Some b \<Rightarrow> (case (if b = a then (m_array (leafs ?m a))(unat z := Some ?fl)
                             else m_array (leafs ?m b)) z' of None \<Rightarrow> None | Some f \<Rightarrow> f (floor_index x' y')))"
      using z a by (cases "getLeaf (root ?m) x' y'") (auto simp: setTile_def Let_def fl here arr tile_at_def)
    also have "\<dots> = tile_at ?m x' y' z'"
      by (cases "getLeaf (root ?m) x' y'"; cases "m_array (leafs ?m a) (unat z)") (auto simp: tile_at_def)
    finally show ?thesis using False old by (auto simp: A_def)
  qed
qed

text \<open>\<open>setTile\<close> keeps the invariant; the tile it places is new.\<close>

lemma links_creatures_frame:
  assumes "root m' = root m" "\<And>a. m_leafE (leafs m' a) = m_leafE (leafs m a) \<and> m_leafS (leafs m' a) = m_leafS (leafs m a)"
  shows "links_ok m' = links_ok m"
  using assms by (simp add: links_ok_def)

lemma make_leaf_ok:
  assumes "map_ok m"
  shows "map_ok (make_leaf x y m)"
proof -
  have ok: "leaves_ok m" "links_ok m" "creatures_ok m" using assms by (simp_all add: map_ok_def)
  have "getLeaf (root (make_leaf x y m)) x' y' = Some a" if "getLeaf (root m) x' y' = Some a" for x' y' a
    using that getLeaf_blocks[OF ok(1), of x x' y y'] by (auto simp: make_leaf_leaves(3)[OF ok(1)])
  then have "creatures_ok (make_leaf x y m)"
    using ok(3) by (simp add: creatures_ok_def make_leaf_leaves(5)[OF ok(1)])
  then show ?thesis using make_leaf_leaves(1)[OF ok(1)] make_leaf_links[OF ok(1,2)] by (simp add: map_ok_def)
qed

lemma creatureList_createFloor [simp]:
  "creatureList (createFloor z l) = creatureList l" "m_leafS (createFloor z l) = m_leafS l" "m_leafE (createFloor z l) = m_leafE l"
  by (simp_all add: createFloor_def)

lemma setTile_ok:
  assumes ok: "map_ok m" and pos: "tile_pos m t = Position x y z" and new: "qt_node m t = None"
  shows "map_ok (setTile x y z t m)"
proof (cases "unat z < MAP_MAX_LAYERS")
  case False
  then show ?thesis using ok by (simp add: setTile_def)
next
  case True
  let ?m = "make_leaf x y m"
  have ok': "map_ok ?m" by (rule make_leaf_ok[OF ok])
  have lv: "leaves_ok m" using ok by (simp add: map_ok_def)
  obtain a where a: "getLeaf (root ?m) x y = Some a" using make_leaf_leaves(2)[OF lv, of x y] by blast
  have lt: "a < n_leafs ?m" using leaves_okD(3) ok' a by (simp add: map_ok_def)
  have used: "creature_tile m c \<noteq> Some t" for c using ok new unfolding map_ok_def creatures_ok_def by fastforce
  define m' where "m' = setTile x y z t m"
  have fr: "root m' = root ?m" "n_leafs m' = n_leafs ?m" "tile_pos m' = tile_pos m" "creature_tile m' = creature_tile m"
    and lf: "\<And>b. creatureList (leafs m' b) = creatureList (leafs ?m b) \<and> m_leafE (leafs m' b) = m_leafE (leafs ?m b)
       \<and> m_leafS (leafs m' b) = m_leafS (leafs ?m b)" "\<And>b. b \<noteq> a \<Longrightarrow> leafs m' b = leafs ?m b"
    and q: "qt_node m' = qt_node m \<or> qt_node m' = (qt_node m)(t := Some a)"
    using True a unfolding m'_def by (auto simp: setTile_def Let_def)
  have "leaves_ok m'" using ok' lf(2) lt unfolding map_ok_def leaves_ok_def fr by (metis not_le)
  moreover have "links_ok m'" using ok' links_creatures_frame[of m' ?m] lf(1) fr(1) by (simp add: map_ok_def)
  moreover have "creatures_ok m'"
    using q
  proof
    assume "qt_node m' = qt_node m"
    then show ?thesis using ok' lf(1) fr by (simp add: map_ok_def creatures_ok_def)
  next
    assume "qt_node m' = (qt_node m)(t := Some a)"
    then show ?thesis using ok' lf(1) fr used a pos by (auto simp: map_ok_def creatures_ok_def) metis
  qed
  ultimately show ?thesis by (simp add: map_ok_def m'_def)
qed

text \<open>Creatures come, move and go.\<close>

definition on_map :: "map_state \<Rightarrow> nat \<Rightarrow> bool" where
  "on_map m c \<longleftrightarrow> creature_tile m c \<noteq> None"

lemma map_ok_cache [simp]: "map_ok (m\<lparr>spectatorCache := f\<rparr>) = map_ok m"
  by (simp add: map_ok_def leaves_ok_def links_ok_def creatures_ok_def)

lemma creature_leafs_ok:
  assumes ok: "map_ok m" and r: "root m' = root m" "n_leafs m' = n_leafs m" "tile_pos m' = tile_pos m" "qt_node m' = qt_node m"
    and l: "\<And>a. m_leafE (leafs m' a) = m_leafE (leafs m a) \<and> m_leafS (leafs m' a) = m_leafS (leafs m a)"
    and new: "\<And>a. a \<ge> n_leafs m \<Longrightarrow> leafs m' a = leafs m a"
    and c: "\<And>a c. c \<in> set (creatureList (leafs m' a)) \<longleftrightarrow> (\<exists>t. creature_tile m' c = Some t \<and> qt_node m t = Some a)"
    and d: "\<And>a. distinct (creatureList (leafs m' a))" and t: "\<And>c t. creature_tile m' c = Some t \<Longrightarrow> qt_node m t \<noteq> None"
  shows "map_ok m'"
proof -
  have "leaves_ok m'" using ok new unfolding map_ok_def leaves_ok_def r by metis
  moreover have "links_ok m'" using ok links_creatures_frame[of m' m] l r(1) by (simp add: map_ok_def)
  moreover have "creatures_ok m'" using ok c d t unfolding map_ok_def creatures_ok_def r by blast
  ultimately show ?thesis by (simp add: map_ok_def)
qed

lemma map_okD:
  assumes "map_ok m"
  shows "leaves_ok m" "links_ok m"
    "c \<in> set (creatureList (leafs m a)) \<longleftrightarrow> (\<exists>t. creature_tile m c = Some t \<and> qt_node m t = Some a)"
    "creature_tile m c = Some t \<Longrightarrow> qt_node m t \<noteq> None" "distinct (creatureList (leafs m a))"
    "qt_node m t = Some a \<Longrightarrow> getLeaf (root m) (px (tile_pos m t)) (py (tile_pos m t)) = Some a"
  using assms unfolding map_ok_def creatures_ok_def by blast+

lemma node_used: "map_ok m \<Longrightarrow> qt_node m t = Some a \<Longrightarrow> a < n_leafs m"
  using map_okD(1,6) leaves_okD(3) by metis

lemma placeCreature_ok:
  assumes ok: "map_ok m" and c: "creature_tile m c = None" and t: "qt_node m t \<noteq> None"
  shows "map_ok (placeCreature_on c t m)"
proof -
  obtain a where a: "qt_node m t = Some a" using t by blast
  note d = map_okD[OF ok]
  show ?thesis
    by (rule creature_leafs_ok[OF ok])
      (use c a d(3,4,5) node_used[OF ok a] in \<open>auto simp: placeCreature_on_def clearSpectatorCache_def addCreature_def Let_def split: if_splits\<close>)
qed

lemma removeCreature_ok:
  assumes ok: "map_ok m"
  shows "map_ok (removeCreature c m)"
proof (cases "creature_tile m c")
  case None
  then show ?thesis using ok by (simp add: removeCreature_def)
next
  case (Some t)
  note d = map_okD[OF ok]
  obtain a where a: "qt_node m t = Some a" using d(4)[OF Some] by blast
  show ?thesis
    by (rule creature_leafs_ok[OF ok])
      (use Some a d(3,4,5) node_used[OF ok a]
        in \<open>auto simp: removeCreature_def clearSpectatorCache_def removeCreature_leaf_def Let_def split: if_splits\<close>)
qed

lemma moveCreature_ok:
  assumes ok: "map_ok m" and t': "qt_node m t' \<noteq> None"
  shows "map_ok (moveCreature c t' m)"
proof (cases "creature_tile m c")
  case None
  then show ?thesis using ok by (simp add: moveCreature_def)
next
  case (Some t)
  note d = map_okD[OF ok]
  obtain a where a: "qt_node m t = Some a" using d(4)[OF Some] by blast
  obtain b where b: "qt_node m t' = Some b" using t' by blast
  show ?thesis
    by (rule creature_leafs_ok[OF ok])
      (use Some a b d(3,4,5) node_used[OF ok a] node_used[OF ok b]
        in \<open>auto simp: moveCreature_def clearSpectatorCache_def removeCreature_leaf_def addCreature_def Let_def split: if_splits\<close>)
qed

section \<open>The search goes through the blocks of a rectangle\<close>

function steps :: "int \<Rightarrow> int \<Rightarrow> int list" where
  "steps lo hi = (if lo \<le> hi then lo # steps (lo + 8) hi else [])"
  by auto
termination
  by (relation "measure (\<lambda>(lo, hi). nat (hi + 1 - lo))") auto

declare steps.simps [simp del]

lemma steps_set: "x \<in> set (steps lo hi) \<longleftrightarrow> lo \<le> x \<and> x \<le> hi \<and> (x - lo) mod 8 = 0"
proof (induction lo hi rule: steps.induct)
  case (1 lo hi)
  show ?case
  proof (cases "lo \<le> hi")
    case True
    have "(x - (lo + 8)) mod 8 = (x - lo) mod 8" by (simp add: mod_diff_right_eq flip: diff_diff_eq)
    moreover have "lo + 8 \<le> x" if "lo \<le> x" "x \<noteq> lo" "(x - lo) mod 8 = 0"
      using that by presburger
    ultimately show ?thesis using 1[OF True] True by (subst steps.simps) auto
  next
    case False
    then show ?thesis by (subst steps.simps) auto
  qed
qed

lemma steps_distinct: "distinct (steps lo hi)"
proof (induction lo hi rule: steps.induct)
  case (1 lo hi)
  then show ?case by (subst steps.simps) (auto simp: steps_set)
qed

definition creatures_at :: "map_state \<Rightarrow> int \<Rightarrow> int \<Rightarrow> nat list" where
  "creatures_at m x y =
     (case getLeaf (root m) (of_int x) (of_int y) of None \<Rightarrow> [] | Some a \<Rightarrow> creatureList (leafs m a))"

definition creatures_in :: "map_state \<Rightarrow> int \<Rightarrow> int \<Rightarrow> int \<Rightarrow> int \<Rightarrow> nat list" where
  "creatures_in m sx ex sy ey = concat (List.map (\<lambda>y. concat (List.map (\<lambda>x. creatures_at m x y) (steps sx ex))) (steps sy ey))"

lemma scan_append: "scan_creatures m cp r chk (xs @ ys) l = scan_creatures m cp r chk ys (scan_creatures m cp r chk xs l)"
  by (simp add: scan_creatures_def)

lemma scan_Nil [simp]: "scan_creatures m cp r chk [] l = l"
  by (simp add: scan_creatures_def)

declare scan_row.simps [simp del] scan_rows.simps [simp del]

lemma of_int_8: "(of_int (x + 8) :: u16) = of_int x + 8"
  by simp

lemma scan_row_eq:
  assumes li: "links_ok m"
  shows "a = getLeaf (root m) (of_int nx) (of_int ny) \<Longrightarrow>
    scan_row m cp r chk e ny nx a l = scan_creatures m cp r chk (concat (List.map (\<lambda>x. creatures_at m x ny) (steps nx e))) l"
proof (induction nx e arbitrary: a l rule: steps.induct)
  case (1 nx e)
  show ?case
  proof (cases "nx \<le> e")
    case False
    then show ?thesis by (simp add: scan_row.simps[of m] steps.simps[of nx])
  next
    case True
    note IH = 1(1)[OF True] and a = 1(2)[symmetric]
    show ?thesis
    proof (cases a)
      case None
      then have "creatures_at m nx ny = []" using 1(2) by (simp add: creatures_at_def)
      then show ?thesis using True None IH[OF refl]
        by (simp add: scan_row.simps[of m] steps.simps[of nx] FLOOR_SIZE_def)
    next
      case (Some b)
      then have "m_leafE (leafs m b) = getLeaf (root m) (of_int (nx + 8)) (of_int ny)"
        using li 1(2) unfolding of_int_8 by (simp add: links_ok_def)
      moreover have "creatures_at m nx ny = creatureList (leafs m b)" by (simp add: creatures_at_def a Some)
      ultimately show ?thesis using True Some IH
        by (simp add: scan_row.simps[of m] steps.simps[of nx] FLOOR_SIZE_def scan_append)
    qed
  qed
qed

lemma scan_rows_eq:
  assumes li: "links_ok m"
  shows "a = getLeaf (root m) (of_int sx) (of_int ny) \<Longrightarrow>
    scan_rows m cp r chk sx ex ey ny a l = scan_creatures m cp r chk (creatures_in m sx ex ny ey) l"
proof (induction ny ey arbitrary: a l rule: steps.induct)
  case (1 ny ey)
  show ?case
  proof (cases "ny \<le> ey")
    case False
    then show ?thesis by (simp add: scan_rows.simps[of m] creatures_in_def steps.simps[of ny])
  next
    case True
    note IH = 1(1)[OF True]
    have south: "(case a of Some b \<Rightarrow> m_leafS (leafs m b) | None \<Rightarrow> getLeaf (root m) (of_int sx) (of_int (ny + 8)))
        = getLeaf (root m) (of_int sx) (of_int (ny + 8))"
      using li 1(2)[symmetric] unfolding of_int_8 by (cases a) (simp_all add: links_ok_def)
    have eight: "int FLOOR_SIZE = 8" by (simp add: FLOOR_SIZE_def)
    have "scan_rows m cp r chk sx ex ey ny a l =
        scan_rows m cp r chk sx ex ey (ny + 8) (getLeaf (root m) (of_int sx) (of_int (ny + 8))) (scan_row m cp r chk ex ny sx a l)"
      using True south by (subst scan_rows.simps) (simp only: eight if_True)
    also have "\<dots> = scan_creatures m cp r chk (creatures_in m sx ex (ny + 8) ey) (scan_row m cp r chk ex ny sx a l)"
      by (rule IH[OF refl])
    also have "\<dots> = scan_creatures m cp r chk (creatures_in m sx ex ny ey) l"
      using True by (simp add: scan_row_eq[OF li 1(2)] creatures_in_def steps.simps[of ny] scan_append)
    finally show ?thesis .
  qed
qed

lemma scan_filter:
  assumes "distinct (l @ cs)"
  shows "scan_creatures m cp r chk cs l = l @ filter (\<lambda>c. in_view cp r (getPosition m c)) cs"
  using assms
proof (induction cs arbitrary: l)
  case (Cons c cs)
  have "scan_creatures m cp r chk (c # cs) l =
      scan_creatures m cp r chk cs (if in_view cp r (getPosition m c) then l @ [c] else l)"
    using Cons.prems by (simp add: scan_creatures_def)
  then show ?case using Cons.IH[of "l @ [c]"] Cons.IH[of l] Cons.prems by simp
qed simp

section \<open>Who is found\<close>

lemma distinct_concat_map:
  "distinct xs \<Longrightarrow> (\<And>x. x \<in> set xs \<Longrightarrow> distinct (f x)) \<Longrightarrow>
    (\<And>x y. x \<in> set xs \<Longrightarrow> y \<in> set xs \<Longrightarrow> x \<noteq> y \<Longrightarrow> set (f x) \<inter> set (f y) = {}) \<Longrightarrow> distinct (concat (List.map f xs))"
  by (induction xs) fastforce+

lemma creatures_at_block:
  assumes ok: "map_ok m" and c: "c \<in> set (creatures_at m x y)"
  shows "on_map m c" "block (px (getPosition m c)) = block (of_int x)" "block (py (getPosition m c)) = block (of_int y)"
proof -
  note d = map_okD[OF ok]
  obtain a where a: "getLeaf (root m) (of_int x) (of_int y) = Some a" "c \<in> set (creatureList (leafs m a))"
    using c by (cases "getLeaf (root m) (of_int x) (of_int y)") (simp_all add: creatures_at_def)
  then obtain t where t: "creature_tile m c = Some t" "qt_node m t = Some a" using d(3) by blast
  show "on_map m c" by (simp add: on_map_def t)
  show "block (px (getPosition m c)) = block (of_int x)" "block (py (getPosition m c)) = block (of_int y)"
    using leaves_okD(4)[OF d(1) d(6)[OF t(2)] a(1)] t(1) by (simp_all add: getPosition_def)
qed

lemma creatures_at_iff:
  assumes ok: "map_ok m"
  shows "c \<in> set (creatures_at m x y) \<longleftrightarrow> on_map m c \<and> block (px (getPosition m c)) = block (of_int x)
    \<and> block (py (getPosition m c)) = block (of_int y)"
proof
  assume r: "on_map m c \<and> block (px (getPosition m c)) = block (of_int x) \<and> block (py (getPosition m c)) = block (of_int y)"
  note d = map_okD[OF ok]
  obtain t where t: "creature_tile m c = Some t" using r by (auto simp: on_map_def)
  obtain a where a: "qt_node m t = Some a" using d(4)[OF t] by blast
  have "getLeaf (root m) (of_int x) (of_int y) = Some a"
    using getLeaf_blocks[OF d(1), of "px (tile_pos m t)" "of_int x" "py (tile_pos m t)" "of_int y"] d(6)[OF a] r t
    by (simp add: getPosition_def)
  then show "c \<in> set (creatures_at m x y)" using d(3) t a by (simp add: creatures_at_def)
qed (use creatures_at_block[OF ok] in blast)

lemma creatures_at_distinct: "map_ok m \<Longrightarrow> distinct (creatures_at m x y)"
  by (simp add: creatures_at_def map_okD(5) split: option.split)

lemma block_of_int: "0 \<le> x \<Longrightarrow> x \<le> 65535 \<Longrightarrow> int (block (of_int x)) = x div 8"
  by (simp add: block_def unsigned_of_int take_bit_int_eq_self zdiv_int)

text \<open>A rectangle whose sides are multiples of the size of a block.\<close>

lemma step_block_inj:
  assumes "x \<in> set (steps lo hi)" "x' \<in> set (steps lo hi)" "0 \<le> lo" "lo mod 8 = 0" "hi \<le> 65535"
    and "block (of_int x) = block (of_int x')"
  shows "x = x'"
proof -
  have r: "0 \<le> x" "x \<le> 65535" "0 \<le> x'" "x' \<le> 65535" "x mod 8 = 0" "x' mod 8 = 0"
    using assms(1-5) unfolding steps_set by presburger+
  have "x div 8 = x' div 8"
    using block_of_int[OF r(1,2)] block_of_int[OF r(3,4)] assms(6) by simp
  then show ?thesis using r(5,6) by (metis mult_div_mod_eq)
qed

lemma creatures_in_distinct:
  assumes ok: "map_ok m" and s: "0 \<le> sx" "sx mod 8 = 0" "ex \<le> 65535" "0 \<le> sy" "sy mod 8 = 0" "ey \<le> 65535"
  shows "distinct (creatures_in m sx ex sy ey)"
proof -
  have col: "set (creatures_at m x y) \<inter> set (creatures_at m x' y) = {}"
    if "x \<in> set (steps sx ex)" "x' \<in> set (steps sx ex)" "x \<noteq> x'" for x x' y
    using step_block_inj[OF that(1,2) s(1-3)] that(3) by (auto simp: disjoint_iff dest!: creatures_at_block(2)[OF ok])
  have row: "set (concat (List.map (\<lambda>x. creatures_at m x y) xs)) \<inter> set (concat (List.map (\<lambda>x. creatures_at m x y') xs)) = {}"
    if "y \<in> set (steps sy ey)" "y' \<in> set (steps sy ey)" "y \<noteq> y'" for xs y y'
    using step_block_inj[OF that(1,2) s(4-6)] that(3) by (auto simp: disjoint_iff dest!: creatures_at_block(3)[OF ok])
  show ?thesis unfolding creatures_in_def
    by (intro distinct_concat_map steps_distinct creatures_at_distinct[OF ok] col row)
qed

lemma creatures_in_iff:
  assumes ok: "map_ok m" and s: "0 \<le> sx" "sx mod 8 = 0" "ex \<le> 65535" "0 \<le> sy" "sy mod 8 = 0" "ey \<le> 65535"
  shows "c \<in> set (creatures_in m sx ex sy ey) \<longleftrightarrow> on_map m c
    \<and> (let x = uint (px (getPosition m c)); y = uint (py (getPosition m c)) in
        sx \<le> x - x mod 8 \<and> x - x mod 8 \<le> ex \<and> sy \<le> y - y mod 8 \<and> y - y mod 8 \<le> ey)"
proof -
  have one: "(\<exists>z\<in>set (steps lo hi). block w = block (of_int z)) \<longleftrightarrow> lo \<le> uint w - uint w mod 8 \<and> uint w - uint w mod 8 \<le> hi"
    if "0 \<le> lo" "lo mod 8 = 0" "hi \<le> 65535" for lo hi w
  proof -
    define v where "v = uint w"
    have v: "0 \<le> v" "v \<le> 65535" using uint_lt2p[of w] by (simp_all add: v_def)
    have b: "int (block w) = v div 8" by (simp add: block_def zdiv_int v_def)
    have eq: "block w = block (of_int z) \<longleftrightarrow> v div 8 = z div 8" if "z \<in> set (steps lo hi)" for z
    proof -
      have "0 \<le> z" "z \<le> 65535" using that \<open>0 \<le> lo\<close> \<open>hi \<le> 65535\<close> by (simp_all add: steps_set)
      then show ?thesis using block_of_int[of z] b by linarith
    qed
    have "(\<exists>z\<in>set (steps lo hi). v div 8 = z div 8) \<longleftrightarrow> lo \<le> v - v mod 8 \<and> v - v mod 8 \<le> hi"
      unfolding Bex_def steps_set using \<open>lo mod 8 = 0\<close>
      by (rule_tac iffI, presburger, intro exI[of _ "v - v mod 8"], presburger)
    then show ?thesis using eq by (simp add: v_def)
  qed
  show ?thesis
    unfolding creatures_in_def using one[OF s(1-3), of "px (getPosition m c)"] one[OF s(4-6), of "py (getPosition m c)"]
    by (auto simp: creatures_at_iff[OF ok] Let_def)
qed

definition all_in_view :: "map_state \<Rightarrow> position \<Rightarrow> view_range \<Rightarrow> nat set" where
  "all_in_view m cp r = {c. on_map m c \<and> in_view cp r (getPosition m c)}"

lemma clamp16_range: "0 \<le> clamp16 n" "clamp16 n \<le> 65535"
  by (simp_all add: clamp16_def)

lemma in_view_rectangle:
  assumes "in_view cp r p"
  defines "minoffset \<equiv> uint (pz cp) - maxRangeZ r" and "maxoffset \<equiv> uint (pz cp) - minRangeZ r"
  shows "clamp16 (uint (px cp) + minRangeX r + minoffset) \<le> uint (px p)"
    "uint (px p) \<le> clamp16 (uint (px cp) + maxRangeX r + maxoffset)"
    "clamp16 (uint (py cp) + minRangeY r + minoffset) \<le> uint (py p)"
    "uint (py p) \<le> clamp16 (uint (py cp) + maxRangeY r + maxoffset)"
proof -
  have "uint (px p) \<le> 65535" "uint (py p) \<le> 65535"
    using uint_lt2p[of "px p"] uint_lt2p[of "py p"] by simp_all
  then show "clamp16 (uint (px cp) + minRangeX r + minoffset) \<le> uint (px p)"
    "uint (px p) \<le> clamp16 (uint (px cp) + maxRangeX r + maxoffset)"
    "clamp16 (uint (py cp) + minRangeY r + minoffset) \<le> uint (py p)"
    "uint (py p) \<le> clamp16 (uint (py cp) + maxRangeY r + maxoffset)"
    using assms(1) by (auto simp: in_view_def Let_def clamp16_def minoffset_def maxoffset_def)
qed

lemma getSpectatorsInternal_filter:
  assumes ok: "map_ok m"
  obtains cs where "distinct cs" "set cs \<subseteq> {c. on_map m c}" "all_in_view m cp r \<subseteq> set cs"
    "\<And>l chk. getSpectatorsInternal m l cp chk r = scan_creatures m cp r chk cs l"
proof -
  define x1 y1 x2 y2 where
    "x1 = clamp16 (uint (px cp) + minRangeX r + (uint (pz cp) - maxRangeZ r))"
    "y1 = clamp16 (uint (py cp) + minRangeY r + (uint (pz cp) - maxRangeZ r))"
    "x2 = clamp16 (uint (px cp) + maxRangeX r + (uint (pz cp) - minRangeZ r))"
    "y2 = clamp16 (uint (py cp) + maxRangeY r + (uint (pz cp) - minRangeZ r))"
  note def = this
  have b: "0 \<le> x1" "x1 \<le> 65535" "0 \<le> y1" "y1 \<le> 65535" "x2 \<le> 65535" "y2 \<le> 65535"
    using clamp16_range by (simp_all add: def)
  let ?cs = "creatures_in m (x1 - x1 mod 8) (x2 - x2 mod 8) (y1 - y1 mod 8) (y2 - y2 mod 8)"
  have s: "0 \<le> x1 - x1 mod 8" "(x1 - x1 mod 8) mod 8 = 0" "x2 - x2 mod 8 \<le> 65535"
    "0 \<le> y1 - y1 mod 8" "(y1 - y1 mod 8) mod 8 = 0" "y2 - y2 mod 8 \<le> 65535"
    using b by presburger+
  have eight: "int FLOOR_SIZE = 8" by (simp add: FLOOR_SIZE_def)
  have li: "links_ok m" using ok by (simp add: map_ok_def)
  have "getSpectatorsInternal m l cp chk r = scan_creatures m cp r chk ?cs l" for l chk
    unfolding getSpectatorsInternal_def Let_def eight def[symmetric] by (rule scan_rows_eq[OF li refl])
  moreover have "all_in_view m cp r \<subseteq> set ?cs"
  proof
    fix c assume c: "c \<in> all_in_view m cp r"
    then have v: "in_view cp r (getPosition m c)" and on: "on_map m c" by (simp_all add: all_in_view_def)
    note rect = in_view_rectangle[OF v, folded def]
    have mono: "a - a mod 8 \<le> b - b mod 8" if "a \<le> b" for a b :: int using that by presburger
    show "c \<in> set ?cs" unfolding creatures_in_iff[OF ok s] Let_def using on mono rect by simp
  qed
  moreover have "set ?cs \<subseteq> {c. on_map m c}" using creatures_in_iff[OF ok s] by blast
  ultimately show ?thesis using that[of ?cs] creatures_in_distinct[OF ok s] by blast
qed

lemma getSpectatorsInternal_exact:
  assumes "map_ok m"
  shows "distinct (getSpectatorsInternal m [] cp chk r)" "set (getSpectatorsInternal m [] cp chk r) = all_in_view m cp r"
    "getSpectatorsInternal m [] cp chk r = getSpectatorsInternal m [] cp False r"
proof -
  obtain cs where cs: "distinct cs" "set cs \<subseteq> {c. on_map m c}" "all_in_view m cp r \<subseteq> set cs"
    "\<And>l chk. getSpectatorsInternal m l cp chk r = scan_creatures m cp r chk cs l"
    by (rule getSpectatorsInternal_filter[OF assms, of cp r]) blast
  have f: "getSpectatorsInternal m [] cp chk r = filter (\<lambda>c. in_view cp r (getPosition m c)) cs" for chk
    using scan_filter[of "[]" cs] cs(1) by (simp add: cs(4))
  show "distinct (getSpectatorsInternal m [] cp chk r)" "getSpectatorsInternal m [] cp chk r = getSpectatorsInternal m [] cp False r"
    using cs(1) by (simp_all add: f)
  show "set (getSpectatorsInternal m [] cp chk r) = all_in_view m cp r"
    using cs(2,3) by (auto simp: f all_in_view_def)
qed

section \<open>The cache\<close>

definition fresh_spectators :: "map_state \<Rightarrow> position \<Rightarrow> nat list" where
  "fresh_spectators m cp = getSpectatorsInternal m [] cp False (view_around cp)"

definition cache_ok :: "map_state \<Rightarrow> bool" where
  "cache_ok m \<longleftrightarrow> (\<forall>cp l. spectatorCache m cp = Some l \<longrightarrow> l = fresh_spectators m cp)"

text \<open>A new tile changes no answer.\<close>

lemma fresh_same:
  assumes ok: "map_ok m" "map_ok m'" and at: "\<And>x y. creatures_at m' x y = creatures_at m x y"
    and pos: "\<And>c. on_map m c \<Longrightarrow> getPosition m' c = getPosition m c"
  shows "fresh_spectators m' cp = fresh_spectators m cp"
proof -
  have eight: "int FLOOR_SIZE = 8" by (simp add: FLOOR_SIZE_def)
  have li: "links_ok m" "links_ok m'" using ok by (simp_all add: map_ok_def)
  have cin: "creatures_in m' = creatures_in m" by (simp add: creatures_in_def at fun_eq_iff)
  have scan: "scan_creatures m' cp r chk cs l = scan_creatures m cp r chk cs l"
    if "\<forall>c\<in>set cs. on_map m c" for cs l r chk
    using that by (induction cs arbitrary: l) (simp_all add: scan_creatures_def pos)
  have on: "\<forall>c\<in>set (creatures_in m sx ex sy ey). on_map m c" for sx ex sy ey
    using creatures_at_block(1)[OF ok(1)] by (auto simp: creatures_in_def)
  show ?thesis
    unfolding fresh_spectators_def getSpectatorsInternal_def Let_def eight
    by (simp only: scan_rows_eq[OF li(1) refl] scan_rows_eq[OF li(2) refl] cin scan[OF on])
qed

lemma creatures_at_setTile:
  assumes ok: "map_ok m"
  shows "creatures_at (setTile x y z t m) = creatures_at m"
proof -
  have lv: "leaves_ok m" using ok by (simp add: map_ok_def)
  have empty: "creatureList (leafs m (n_leafs m)) = []" using leaves_okD(5)[OF lv] by (simp add: new_leaf_def)
  have mk: "creatures_at (make_leaf x y m) x' y' = creatures_at m x' y'" for x' y'
  proof (cases "getLeaf (root m) x y = None \<and> block x = block (of_int x') \<and> block y = block (of_int y')")
    case True
    then have "getLeaf (root m) (of_int x') (of_int y') = None" using getLeaf_blocks[OF lv] by metis
    then show ?thesis using True by (simp add: creatures_at_def make_leaf_leaves(3,5)[OF lv] empty)
  next
    case False
    then have "getLeaf (root (make_leaf x y m)) (of_int x') (of_int y') = getLeaf (root m) (of_int x') (of_int y')"
      by (simp only: make_leaf_leaves(3)[OF lv] if_False)
    then show ?thesis
      by (cases "getLeaf (root m) (of_int x') (of_int y')") (simp_all add: creatures_at_def make_leaf_leaves(5)[OF lv])
  qed
  show ?thesis
  proof (cases "unat z < MAP_MAX_LAYERS")
    case False
    then show ?thesis by (simp add: setTile_def)
  next
    case True
    obtain a where a: "getLeaf (root (make_leaf x y m)) x y = Some a" using make_leaf_leaves(2)[OF lv, of x y] by blast
    have "root (setTile x y z t m) = root (make_leaf x y m)"
      "creatureList (leafs (setTile x y z t m) b) = creatureList (leafs (make_leaf x y m) b)" for b
      using True a by (auto simp: setTile_def Let_def)
    then have "creatures_at (setTile x y z t m) x' y' = creatures_at (make_leaf x y m) x' y'" for x' y'
      by (simp add: creatures_at_def split: option.split)
    then show ?thesis using mk by (simp add: fun_eq_iff)
  qed
qed

text \<open>The operations as they happen: a new tile, creatures that come, move and go, and questions.\<close>

datatype map_op =
    NewTile nat u16 u16 u16
  | PlaceCreature nat nat
  | MoveCreature nat nat
  | RemoveCreature nat
  | Spectators position
  | SpectatorsList position bool bool int int int int
  | ClearCache

fun map_step :: "map_op \<Rightarrow> map_state \<Rightarrow> map_state" where
  "map_step (NewTile t x y z) m =
     (if qt_node m t = None then setTile x y z t (m\<lparr>tile_pos := (tile_pos m)(t := Position x y z)\<rparr>) else m)"
| "map_step (PlaceCreature c t) m =
     (if creature_tile m c = None \<and> qt_node m t \<noteq> None then placeCreature_on c t m else m)"
| "map_step (MoveCreature c t) m = (if qt_node m t \<noteq> None then moveCreature c t m else m)"
| "map_step (RemoveCreature c) m = removeCreature c m"
| "map_step (Spectators cp) m = snd (getSpectators cp m)"
| "map_step (SpectatorsList cp chk multifloor minX maxX minY maxY) m =
     snd (getSpectators_list [] cp chk multifloor minX maxX minY maxY m)"
| "map_step ClearCache m = clearSpectatorCache m"

definition map_run :: "map_op list \<Rightarrow> map_state" where
  "map_run ops = fold map_step ops empty_map"

definition map_inv :: "map_state \<Rightarrow> bool" where
  "map_inv m \<longleftrightarrow> map_ok m \<and> cache_ok m"

lemma creatures_at_cache [simp]: "creatures_at (m\<lparr>spectatorCache := f\<rparr>) = creatures_at m"
  by (simp add: creatures_at_def fun_eq_iff split: option.split)

lemma getPosition_cache [simp]: "getPosition (m\<lparr>spectatorCache := f\<rparr>) = getPosition m"
  by (simp add: getPosition_def fun_eq_iff split: option.split)

lemma fresh_cache: "map_ok m \<Longrightarrow> fresh_spectators (m\<lparr>spectatorCache := f\<rparr>) cp = fresh_spectators m cp"
  by (rule fresh_same) simp_all

lemma cache_empty [simp]: "spectatorCache m = (\<lambda>_. None) \<Longrightarrow> cache_ok m"
  by (simp add: cache_ok_def)

lemma newTile_inv:
  assumes inv: "map_inv m" and new: "qt_node m t = None"
  shows "map_inv (setTile x y z t (m\<lparr>tile_pos := (tile_pos m)(t := Position x y z)\<rparr>))"
proof -
  let ?m = "m\<lparr>tile_pos := (tile_pos m)(t := Position x y z)\<rparr>"
  have ok: "map_ok m" "cache_ok m" using inv by (simp_all add: map_inv_def)
  have ok1: "map_ok ?m"
  proof -
    have "leaves_ok ?m = leaves_ok m" "links_ok ?m = links_ok m" by (simp_all add: leaves_ok_def links_ok_def)
    moreover have "creatures_ok m" "leaves_ok m" "links_ok m" using ok(1) by (simp_all add: map_ok_def)
    moreover from this(1) have "creatures_ok ?m" using new by (auto simp: creatures_ok_def)
    ultimately show ?thesis by (simp add: map_ok_def)
  qed
  have ok2: "map_ok (setTile x y z t ?m)" by (rule setTile_ok[OF ok1]) (simp_all add: new)
  have fr: "creature_tile (setTile x y z t m') = creature_tile m'" "tile_pos (setTile x y z t m') = tile_pos m'"
    "spectatorCache (setTile x y z t m') = spectatorCache m'" for m'
    by (simp_all add: setTile_def Let_def split: option.split)
  have at: "creatures_at ?m = creatures_at m" by (simp add: creatures_at_def fun_eq_iff split: option.split)
  have "getPosition (setTile x y z t ?m) c = getPosition m c" if "on_map m c" for c
  proof -
    obtain u where u: "creature_tile m c = Some u" using \<open>on_map m c\<close> by (auto simp: on_map_def)
    then have "u \<noteq> t" using map_okD(4)[OF ok(1) u] new by auto
    then show ?thesis by (simp add: getPosition_def fr u)
  qed
  then have "fresh_spectators (setTile x y z t ?m) cp = fresh_spectators m cp" for cp
    by (intro fresh_same[OF ok(1) ok2]) (simp_all add: creatures_at_setTile[OF ok1] at)
  then show ?thesis using ok2 ok(2) by (simp add: map_inv_def cache_ok_def fr)
qed

lemma getSpectators_inv:
  assumes inv: "map_inv m"
  shows "map_inv (snd (getSpectators cp m))"
    "unat (pz cp) < MAP_MAX_LAYERS \<Longrightarrow> fst (getSpectators cp m) = fresh_spectators m cp"
  using inv
  by (auto simp: getSpectators_def map_inv_def cache_ok_def Let_def fresh_cache fresh_spectators_def[symmetric]
      split: option.split)

lemma getSpectators_list_fresh:
  assumes inv: "map_inv m"
  shows "map_inv (snd (getSpectators_list [] cp chk multifloor minX maxX minY maxY m))"
proof -
  have ok: "map_ok m" "cache_ok m" using inv by (simp_all add: map_inv_def)
  define cacheable where "cacheable = (minX = 0 \<and> maxX = 0 \<and> minY = 0 \<and> maxY = 0 \<and> multifloor \<and> \<not> chk)"
  have "getSpectatorsInternal m [] cp True (view_around cp) = fresh_spectators m cp"
    using getSpectatorsInternal_exact(3)[OF ok(1), of cp True] by (simp add: fresh_spectators_def)
  then have "snd (getSpectators_list [] cp chk multifloor minX maxX minY maxY m) = m
      \<or> snd (getSpectators_list [] cp chk multifloor minX maxX minY maxY m)
        = m\<lparr>spectatorCache := (spectatorCache m)(cp := Some (fresh_spectators m cp))\<rparr>"
    by (auto simp: getSpectators_list_def Let_def cacheable_def[symmetric] view_around_def[symmetric]
        split: option.split prod.split)
      (auto simp: cacheable_def view_around_def)
  then show ?thesis
  proof
    assume "snd (getSpectators_list [] cp chk multifloor minX maxX minY maxY m) = m"
    then show ?thesis using inv by simp
  next
    assume "snd (getSpectators_list [] cp chk multifloor minX maxX minY maxY m)
        = m\<lparr>spectatorCache := (spectatorCache m)(cp := Some (fresh_spectators m cp))\<rparr>"
    then show ?thesis using ok by (simp add: map_inv_def cache_ok_def fresh_cache)
  qed
qed

lemma map_step_inv: "map_inv m \<Longrightarrow> map_inv (map_step e m)"
proof (cases e)
  case (NewTile t x y z)
  then show "map_inv m \<Longrightarrow> ?thesis" using newTile_inv by simp
next
  case (PlaceCreature c t)
  have "spectatorCache (placeCreature_on c t m) = (\<lambda>_. None)"
    by (simp add: placeCreature_on_def clearSpectatorCache_def Let_def)
  then show "map_inv m \<Longrightarrow> ?thesis" using PlaceCreature placeCreature_ok by (simp add: map_inv_def)
next
  case (MoveCreature c t)
  have "creature_tile m c \<noteq> None \<Longrightarrow> spectatorCache (moveCreature c t m) = (\<lambda>_. None)"
    "creature_tile m c = None \<Longrightarrow> moveCreature c t m = m"
    by (auto simp: moveCreature_def clearSpectatorCache_def Let_def)
  then show "map_inv m \<Longrightarrow> ?thesis" using MoveCreature moveCreature_ok
    by (cases "creature_tile m c = None") (simp_all add: map_inv_def)
next
  case (RemoveCreature c)
  have "creature_tile m c \<noteq> None \<Longrightarrow> spectatorCache (removeCreature c m) = (\<lambda>_. None)"
    "creature_tile m c = None \<Longrightarrow> removeCreature c m = m"
    by (auto simp: removeCreature_def clearSpectatorCache_def Let_def)
  then show "map_inv m \<Longrightarrow> ?thesis" using RemoveCreature removeCreature_ok
    by (cases "creature_tile m c = None") (simp_all add: map_inv_def)
next
  case (Spectators cp)
  then show "map_inv m \<Longrightarrow> ?thesis" using getSpectators_inv(1) by simp
next
  case (SpectatorsList cp chk multifloor minX maxX minY maxY)
  then show "map_inv m \<Longrightarrow> ?thesis" using getSpectators_list_fresh by simp
qed (simp add: clearSpectatorCache_def map_inv_def)

interpretation map_runs: guarded_machine map_step map_inv
  by unfold_locales (rule map_step_inv)

lemma empty_map_inv: "map_inv empty_map"
proof -
  have no: "getLeaf (root empty_map) x y = None" for x y by (simp add: empty_map_def Let_def)
  have "map_ok empty_map"
    unfolding map_ok_def leaves_ok_def links_ok_def creatures_ok_def no by (simp add: empty_map_def new_leaf_def)
  then show ?thesis by (simp add: map_inv_def empty_map_def)
qed

lemma map_run_inv: "map_inv (map_run ops)"
  unfolding map_run_def by (rule map_runs.run_inv[OF empty_map_inv])

section \<open>Properties\<close>

text \<open>The tiles as a map from coordinates.\<close>

definition tile_map :: "map_state \<Rightarrow> u16 \<times> u16 \<times> u16 \<Rightarrow> nat option" where
  "tile_map m = (\<lambda>(x, y, z). getTile m (uint x) (uint y) (uint z))"

lemma tile_map_eq: "tile_map m (x, y, z) = (if unat z < MAP_MAX_LAYERS then tile_at m x y (unat z) else None)"
  by (simp add: tile_map_def getTile_at)

lemma tile_map_frame:
  assumes "root m' = root m" "\<And>a. m_array (leafs m' a) = m_array (leafs m a)"
  shows "tile_map m' = tile_map m"
  using assms by (auto simp: fun_eq_iff tile_map_eq tile_at_def split: option.split)

lemma tile_map_setTile:
  assumes "leaves_ok m"
  shows "tile_map (setTile x y z t m) =
    (if unat z < MAP_MAX_LAYERS \<and> tile_map m (x, y, z) = None then (tile_map m)((x, y, z) := Some t) else tile_map m)"
proof (cases "unat z < MAP_MAX_LAYERS")
  case True
  have "tile_map (setTile x y z t m) (x', y', z') =
      (if tile_map m (x, y, z) = None then (tile_map m)((x, y, z) := Some t) else tile_map m) (x', y', z')" for x' y' z'
    using True by (auto simp: tile_map_eq setTile_at[OF assms] unsigned_word_eqI)
  then show ?thesis using True by (simp add: fun_eq_iff split_paired_all)
next
  case False
  then show ?thesis by (simp add: setTile_def)
qed

lemma tile_frame:
  "tile_map (placeCreature_on c t m) = tile_map m" "tile_map (moveCreature c t m) = tile_map m"
  "tile_map (removeCreature c m) = tile_map m" "tile_map (clearSpectatorCache m) = tile_map m"
  "tile_map (snd (getSpectators cp m)) = tile_map m"
  "tile_map (snd (getSpectators_list l cp chk multifloor minX maxX minY maxY m)) = tile_map m"
  by (rule tile_map_frame; auto simp: placeCreature_on_def moveCreature_def removeCreature_def clearSpectatorCache_def
      addCreature_def removeCreature_leaf_def getSpectators_def getSpectators_list_def Let_def
      split: option.split prod.split)+

text \<open>
  C16. The tree of tiles is a map from coordinates: after any history, a new tile appears at its
  coordinates and nowhere else, unless a tile is already there or the floor does not exist, and
  no other operation (creatures that come, move or go, questions for spectators) changes a tile.
\<close>

theorem tiles_are_a_map:
  "tile_map (map_run []) = (\<lambda>_. None) \<and> tile_map (map_run (ops @ [e])) =
    (case e of
       NewTile t x y z \<Rightarrow>
         if qt_node (map_run ops) t = None \<and> unat z < MAP_MAX_LAYERS \<and> tile_map (map_run ops) (x, y, z) = None
         then (tile_map (map_run ops))((x, y, z) := Some t) else tile_map (map_run ops)
     | _ \<Rightarrow> tile_map (map_run ops))"
proof
  show "tile_map (map_run []) = (\<lambda>_. None)"
    by (simp add: fun_eq_iff tile_map_eq tile_at_def map_run_def empty_map_def Let_def)
  let ?m = "map_run ops"
  have ok: "leaves_ok ?m" using map_run_inv[of ops] by (simp add: map_inv_def map_ok_def)
  have run: "map_run (ops @ [e]) = map_step e ?m" by (simp add: map_run_def)
  show "tile_map (map_run (ops @ [e])) =
    (case e of
       NewTile t x y z \<Rightarrow>
         if qt_node ?m t = None \<and> unat z < MAP_MAX_LAYERS \<and> tile_map ?m (x, y, z) = None
         then (tile_map ?m)((x, y, z) := Some t) else tile_map ?m
     | _ \<Rightarrow> tile_map ?m)"
  proof (cases e)
    case (NewTile t x y z)
    let ?m1 = "?m\<lparr>tile_pos := (tile_pos ?m)(t := Position x y z)\<rparr>"
    have "tile_map ?m1 = tile_map ?m" "leaves_ok ?m1 = leaves_ok ?m"
      by (rule tile_map_frame) (simp_all add: leaves_ok_def)
    then show ?thesis unfolding run using NewTile tile_map_setTile[of ?m1] ok by simp
  qed (unfold run, auto simp: tile_frame)
qed

text \<open>
  C14. The search for spectators, which walks over the linked blocks of the tree, finds each creature on
  the map that is in view, once, and nobody else: for every history, position and range.
\<close>

theorem spectators_exact:
  "distinct (getSpectatorsInternal (map_run ops) [] cp chk r)
    \<and> set (getSpectatorsInternal (map_run ops) [] cp chk r)
      = {c. creature_tile (map_run ops) c \<noteq> None \<and> in_view cp r (getPosition (map_run ops) c)}"
  using getSpectatorsInternal_exact(1,2) map_run_inv[of ops] by (simp add: map_inv_def all_in_view_def on_map_def)

text \<open>
  C15. The cache of spectators is never stale: the cached answer is the set of the creatures in view now,
  whatever was asked and moved before.
\<close>

theorem spectators_cache_fresh:
  "distinct (fst (getSpectators cp (map_run ops)))
    \<and> set (fst (getSpectators cp (map_run ops)))
      = (if unat (pz cp) < MAP_MAX_LAYERS
         then {c. creature_tile (map_run ops) c \<noteq> None \<and> in_view cp (view_around cp) (getPosition (map_run ops) c)} else {})"
proof (cases "unat (pz cp) < MAP_MAX_LAYERS")
  case True
  have inv: "map_inv (map_run ops)" by (rule map_run_inv)
  then have "map_ok (map_run ops)" by (simp add: map_inv_def)
  then show ?thesis
    using getSpectators_inv(2)[OF inv True] getSpectatorsInternal_exact(1,2) True
    by (simp add: fresh_spectators_def all_in_view_def on_map_def)
next
  case False
  then show ?thesis by (simp add: getSpectators_def)
qed

end
