(* ===== verification/SightLines.thy ===== *)
theory SightLines
  imports MapTree
begin

text \<open>
  Lines of sight of \<^verbatim>\<open>map.cpp\<close>: whether an object can be thrown to a position, and the ray between two
  positions, which is followed along its longest axis with an integer error for each of the other
  two. Which tiles stop a projectile is a parameter.
\<close>

section \<open>The ray\<close>

datatype axis = Axis_X | Axis_Y | Axis_Z

type_synonym point = "int \<times> int \<times> int"

definition point_of :: "position \<Rightarrow> point" where
  "point_of p = (uint (px p), uint (py p), uint (pz p))"

text \<open>The longest axis, and the exchange of the axes that makes it the first one.\<close>

definition long_axis :: "point \<Rightarrow> point \<Rightarrow> axis" where
  "long_axis a b =
     (case (a, b) of ((ax, ay, az), (bx, by', bz)) \<Rightarrow>
        let dx = \<bar>ax - bx\<bar>; dy = \<bar>ay - by'\<bar>; dz = \<bar>az - bz\<bar>; (m, d) = (dx, Axis_X);
            (m, d) = (if dy > m then (dy, Axis_Y) else (m, d))
        in if dz > m then Axis_Z else d)"

fun swap_axes :: "axis \<Rightarrow> point \<Rightarrow> point" where
  "swap_axes Axis_X (x, y, z) = (x, y, z)"
| "swap_axes Axis_Y (x, y, z) = (y, x, z)"
| "swap_axes Axis_Z (x, y, z) = (z, y, x)"

definition at_point :: "map_state \<Rightarrow> point \<Rightarrow> nat option" where
  "at_point m p = (case p of (x, y, z) \<Rightarrow> getTile m x y z)"

text \<open>
  One point of the ray: what was the last point, and whether the ray passes. The last point counts as
  unset while it is the origin of the coordinates.
\<close>

definition ray_check ::
    "map_state \<Rightarrow> (nat \<Rightarrow> bool) \<Rightarrow> point \<Rightarrow> point \<Rightarrow> point \<Rightarrow> point \<Rightarrow> point option" where
  "ray_check m blocks from to r lastp =
     (let lastp = (if lastp = (0, 0, 0) then r else lastp);
          changed = (snd (snd lastp) \<noteq> snd (snd r))
      in if changed \<or> (to \<noteq> r \<and> from \<noteq> r)
         then if changed \<and> at_point m (fst lastp, fst (snd lastp), min (snd (snd lastp)) (snd (snd r))) \<noteq> None then None
              else case at_point m r of
                Some t \<Rightarrow> if blocks t then None else Some r
              | None \<Rightarrow> Some r
         else Some lastp)"

record ray =
  ray_dir :: axis
  ray_end :: int
  ray_step :: point
  ray_delta :: point

partial_function (option) ray_loop ::
    "map_state \<Rightarrow> (nat \<Rightarrow> bool) \<Rightarrow> point \<Rightarrow> point \<Rightarrow> ray \<Rightarrow> point \<Rightarrow> int \<Rightarrow> int \<Rightarrow> point \<Rightarrow> bool option" where
  "ray_loop m blocks from to R p ey ez lastp =
     (let x = fst p; y = fst (snd p); z = snd (snd p);
          sx = fst (ray_step R); sy = fst (snd (ray_step R)); sz = snd (snd (ray_step R));
          dx = fst (ray_delta R); dy = fst (snd (ray_delta R)); dz = snd (snd (ray_delta R))
      in if x = ray_end R + sx then Some True
         else case ray_check m blocks from to (swap_axes (ray_dir R) p) lastp of
           None \<Rightarrow> Some False
         | Some lastp \<Rightarrow>
             let ey = ey + dy; ez = ez + dz;
                 y' = (if 2 * ey \<ge> dx then y + sy else y); ey = (if 2 * ey \<ge> dx then ey - dx else ey);
                 z' = (if 2 * ez \<ge> dx then z + sz else z); ez = (if 2 * ez \<ge> dx then ez - dx else ez)
             in ray_loop m blocks from to R (x + sx, y', z') ey ez lastp)"

declare ray_loop.simps [code]

definition ray_between :: "point \<Rightarrow> point \<Rightarrow> ray \<times> point" where
  "ray_between from to =
     (let dir = long_axis from to; s = swap_axes dir from; e = swap_axes dir to
      in (\<lparr>ray_dir = dir, ray_end = fst e,
           ray_step = (if fst s < fst e then 1 else - 1, if fst (snd s) < fst (snd e) then 1 else - 1,
                       if snd (snd s) < snd (snd e) then 1 else - 1),
           ray_delta = (\<bar>fst s - fst e\<bar>, \<bar>fst (snd s) - fst (snd e)\<bar>, \<bar>snd (snd s) - snd (snd e)\<bar>)\<rparr>, s))"

definition checkSightLine :: "map_state \<Rightarrow> (nat \<Rightarrow> bool) \<Rightarrow> position \<Rightarrow> position \<Rightarrow> bool option" where
  "checkSightLine m blocks fromPos toPos =
     (let r = ray_between (point_of fromPos) (point_of toPos)
      in ray_loop m blocks (point_of fromPos) (point_of toPos) (fst r) (snd r) 0 0 (0, 0, 0))"

definition isSightClear :: "map_state \<Rightarrow> (nat \<Rightarrow> bool) \<Rightarrow> position \<Rightarrow> position \<Rightarrow> bool \<Rightarrow> bool option" where
  "isSightClear m blocks fromPos toPos floorCheck =
     (if floorCheck \<and> pz fromPos \<noteq> pz toPos then Some False
      else Option.bind (checkSightLine m blocks fromPos toPos) (\<lambda>b.
        if b then Some True else checkSightLine m blocks toPos fromPos))"

definition canThrowObjectTo ::
    "map_state \<Rightarrow> (nat \<Rightarrow> bool) \<Rightarrow> position \<Rightarrow> position \<Rightarrow> bool \<Rightarrow> int \<Rightarrow> int \<Rightarrow> bool option" where
  "canThrowObjectTo m blocks fromPos toPos checkLineOfSight rangex rangey =
     (if pz fromPos \<ge> 8 \<and> pz toPos < 8 \<or> pz toPos \<ge> 8 \<and> pz fromPos < 8
         \<or> uint (pz fromPos) - uint (pz fromPos) > 2 then Some False
      else
        let deltax = \<bar>uint (px fromPos) - uint (px toPos)\<bar>; deltay = \<bar>uint (py fromPos) - uint (py toPos)\<bar>;
            deltaz = \<bar>uint (pz fromPos) - uint (pz toPos)\<bar>
        in if deltax - deltaz > rangex \<or> deltay - deltaz > rangey then Some False
           else if \<not> checkLineOfSight then Some True
           else isSightClear m blocks fromPos toPos False)"

section \<open>The ray in closed form\<close>

text \<open>
  How far the ray has gone along one of the other axes after \<open>k\<close> steps: the nearest whole number to
  \<open>k * dy / dx\<close>, halves rounded up.
\<close>

definition offset :: "int \<Rightarrow> int \<Rightarrow> int \<Rightarrow> int" where
  "offset dx dy k = (2 * k * dy + dx) div (2 * dx)"

definition ray_point :: "ray \<Rightarrow> point \<Rightarrow> int \<Rightarrow> point" where
  "ray_point R s k = swap_axes (ray_dir R)
     (fst s + k * fst (ray_step R),
      fst (snd s) + offset (fst (ray_delta R)) (fst (snd (ray_delta R))) k * fst (snd (ray_step R)),
      snd (snd s) + offset (fst (ray_delta R)) (snd (snd (ray_delta R))) k * snd (snd (ray_step R)))"

fun ray_walk :: "map_state \<Rightarrow> (nat \<Rightarrow> bool) \<Rightarrow> point \<Rightarrow> point \<Rightarrow> point list \<Rightarrow> point \<Rightarrow> bool" where
  "ray_walk m blocks from to [] lastp = True"
| "ray_walk m blocks from to (r # rs) lastp =
     (case ray_check m blocks from to r lastp of None \<Rightarrow> False | Some lastp \<Rightarrow> ray_walk m blocks from to rs lastp)"

text \<open>One step of the error.\<close>

lemma offset_step:
  assumes "0 < dx" "0 \<le> dy" "dy \<le> dx"
  defines "e \<equiv> \<lambda>k. k * dy - dx * offset dx dy k"
  shows "offset dx dy (k + 1) = (if 2 * (e k + dy) \<ge> dx then offset dx dy k + 1 else offset dx dy k)"
    and "e (k + 1) = (if 2 * (e k + dy) \<ge> dx then e k + dy - dx else e k + dy)"
proof -
  define q where "q = offset dx dy k"
  have d: "D * (N div D) \<le> N" "N < D * (N div D) + D" if "0 < D" for N D :: int
    using that pos_mod_bound[OF that, of N] pos_mod_sign[OF that, of N] mult_div_mod_eq[of D N] by linarith+
  have r: "2 * dx * q \<le> 2 * k * dy + dx" "2 * k * dy + dx < 2 * dx * q + 2 * dx"
    using assms(1) d[of "2 * dx" "2 * k * dy + dx"] unfolding q_def offset_def by simp_all
  have u: "offset dx dy (k + 1) = q'" if "2 * dx * q' \<le> 2 * (k + 1) * dy + dx" "2 * (k + 1) * dy + dx < 2 * dx * q' + 2 * dx" for q'
    unfolding offset_def using that assms(1)
    by (intro int_div_pos_eq[where r = "2 * (k + 1) * dy + dx - 2 * dx * q'"]) auto
  show "offset dx dy (k + 1) = (if 2 * (e k + dy) \<ge> dx then offset dx dy k + 1 else offset dx dy k)"
    using r assms(2,3) unfolding e_def q_def[symmetric]
    by (intro u; simp add: algebra_simps split: if_split)
  then show "e (k + 1) = (if 2 * (e k + dy) \<ge> dx then e k + dy - dx else e k + dy)"
    unfolding e_def by (simp add: algebra_simps)
qed

definition ray_ok :: "ray \<Rightarrow> point \<Rightarrow> bool" where
  "ray_ok R s \<longleftrightarrow> (fst (ray_step R) = 1 \<or> fst (ray_step R) = - 1)
     \<and> 0 \<le> fst (snd (ray_delta R)) \<and> fst (snd (ray_delta R)) \<le> fst (ray_delta R)
     \<and> 0 \<le> snd (snd (ray_delta R)) \<and> snd (snd (ray_delta R)) \<le> fst (ray_delta R)
     \<and> ray_end R = fst s + fst (ray_delta R) * fst (ray_step R)"

lemma ray_loop_closed:
  assumes ok: "ray_ok R s" and k: "0 \<le> k" "k \<le> fst (ray_delta R) + 1"
  defines "dx \<equiv> fst (ray_delta R)" and "dy \<equiv> fst (snd (ray_delta R))" and "dz \<equiv> snd (snd (ray_delta R))"
  shows "p = (fst s + k * fst (ray_step R), y, z) \<Longrightarrow>
    (0 < dx \<longrightarrow> y = fst (snd s) + offset dx dy k * fst (snd (ray_step R)) \<and> ey = k * dy - dx * offset dx dy k
       \<and> z = snd (snd s) + offset dx dz k * snd (snd (ray_step R)) \<and> ez = k * dz - dx * offset dx dz k) \<Longrightarrow>
    (dx = 0 \<longrightarrow> k = 0 \<longrightarrow> y = fst (snd s) \<and> z = snd (snd s)) \<Longrightarrow>
    ray_loop m blocks from to R p ey ez lastp = Some (ray_walk m blocks from to (List.map (ray_point R s) [k..dx]) lastp)"
  using k
proof (induction "nat (dx + 1 - k)" arbitrary: k p y z ey ez lastp)
  case 0
  then have "k = dx + 1" using assms(3) by (simp add: dx_def)
  then have "fst p = ray_end R + fst (ray_step R)"
    using ok 0(2) by (simp add: ray_ok_def dx_def algebra_simps)
  then show ?case using \<open>k = dx + 1\<close> by (simp add: ray_loop.simps[of m])
next
  case (Suc n)
  obtain sx sy sz where st: "ray_step R = (sx, sy, sz)" by (metis surj_pair)
  obtain d where dl: "ray_delta R = (dx, dy, dz)" by (simp add: dx_def dy_def dz_def)
  have sx: "sx = 1 \<or> sx = - 1" and d: "0 \<le> dy" "dy \<le> dx" "0 \<le> dz" "dz \<le> dx" and e: "ray_end R = fst s + dx * sx"
    using ok by (simp_all add: ray_ok_def st dl)
  have k: "0 \<le> k" "k \<le> dx" "n = nat (dx + 1 - (k + 1))" using Suc.hyps(2) Suc.prems(4) by auto
  have here: "swap_axes (ray_dir R) p = ray_point R s k"
    using Suc.prems(1-3) k d by (cases "dx = 0") (auto simp: ray_point_def st dl offset_def)
  have go: "fst p \<noteq> ray_end R + sx" using Suc.prems(1) sx k by (auto simp: st e algebra_simps)
  have upt: "[k..dx] = k # [k + 1..dx]" using k by (simp add: upto.simps)
  show ?case
  proof (cases "ray_check m blocks from to (ray_point R s k) lastp")
    case None
    then show ?thesis using go by (subst ray_loop.simps) (simp add: st dl here upt)
  next
    case (Some l)
    have chk: "ray_check m blocks from to (swap_axes (ray_dir R) p) lastp = Some l" using Some here by simp
    have py: "fst (snd p) = y" "snd (snd p) = z" using Suc.prems(1) by simp_all
    define y' where "y' = (if 2 * (ey + dy) \<ge> dx then y + sy else y)"
    define z' where "z' = (if 2 * (ez + dz) \<ge> dx then z + sz else z)"
    define ey' where "ey' = (if 2 * (ey + dy) \<ge> dx then ey + dy - dx else ey + dy)"
    define ez' where "ez' = (if 2 * (ez + dz) \<ge> dx then ez + dz - dx else ez + dz)"
    have "ray_loop m blocks from to R p ey ez lastp = ray_loop m blocks from to R (fst p + sx, y', z') ey' ez' l"
      using go chk by (subst ray_loop.simps) (simp add: st dl py y'_def z'_def ey'_def ez'_def Let_def)
    also have "\<dots> = Some (ray_walk m blocks from to (List.map (ray_point R s) [k + 1..dx]) l)"
    proof (rule Suc.hyps(1)[OF k(3)])
      show "(fst p + sx, y', z') = (fst s + (k + 1) * fst (ray_step R), y', z')"
        using Suc.prems(1) by (simp add: st algebra_simps)
      show "0 < dx \<longrightarrow> y' = fst (snd s) + offset dx dy (k + 1) * fst (snd (ray_step R)) \<and> ey' = (k + 1) * dy - dx * offset dx dy (k + 1)
          \<and> z' = snd (snd s) + offset dx dz (k + 1) * snd (snd (ray_step R)) \<and> ez' = (k + 1) * dz - dx * offset dx dz (k + 1)"
      proof
        assume pos: "0 < dx"
        show "y' = fst (snd s) + offset dx dy (k + 1) * fst (snd (ray_step R)) \<and> ey' = (k + 1) * dy - dx * offset dx dy (k + 1)
          \<and> z' = snd (snd s) + offset dx dz (k + 1) * snd (snd (ray_step R)) \<and> ez' = (k + 1) * dz - dx * offset dx dz (k + 1)"
        proof -
          have Y: "y = fst (snd s) + offset dx dy k * sy" "z = snd (snd s) + offset dx dz k * sz"
            and E: "k * dy - dx * offset dx dy k = ey" "k * dz - dx * offset dx dz k = ez"
            using Suc.prems(2) pos by (simp_all add: st)
          note oy = offset_step[OF pos d(1,2), of k, unfolded E] and oz = offset_step[OF pos d(3,4), of k, unfolded E]
          have "y' = fst (snd s) + offset dx dy (k + 1) * sy" "z' = snd (snd s) + offset dx dz (k + 1) * sz"
            unfolding oy(1) oz(1) y'_def z'_def by (simp_all add: Y distrib_right)
          then show ?thesis unfolding oy(2) oz(2) ey'_def ez'_def st by simp
        qed
      qed
    qed (use k in \<open>auto simp: dx_def\<close>)
    finally show ?thesis using Some by (simp add: upt)
  qed
qed

definition ray_points :: "point \<Rightarrow> point \<Rightarrow> point list" where
  "ray_points a b = (let r = ray_between a b in List.map (ray_point (fst r) (snd r)) [0..fst (ray_delta (fst r))])"

definition max_dist :: "point \<Rightarrow> point \<Rightarrow> int" where
  "max_dist a b = max \<bar>fst a - fst b\<bar> (max \<bar>fst (snd a) - fst (snd b)\<bar> \<bar>snd (snd a) - snd (snd b)\<bar>)"

lemma swap_axes_swap [simp]: "swap_axes d (swap_axes d p) = p"
  by (cases d; cases p) simp_all

lemma swap_axes_dist [simp]: "max_dist (swap_axes d p) (swap_axes d q) = max_dist p q"
  by (cases d; cases p; cases q) (simp_all add: max_dist_def max.commute max.left_commute)

lemma ray_between_ok:
  assumes "ray_between a b = (R, s)"
  shows "ray_ok R s" "s = swap_axes (ray_dir R) a" "fst (ray_delta R) = max_dist a b"
    "swap_axes (ray_dir R) b = (fst s + fst (ray_delta R) * fst (ray_step R),
       fst (snd s) + fst (snd (ray_delta R)) * fst (snd (ray_step R)),
       snd (snd s) + snd (snd (ray_delta R)) * snd (snd (ray_step R)))"
    "\<bar>fst (snd (ray_step R))\<bar> = 1" "\<bar>snd (snd (ray_step R))\<bar> = 1"
proof -
  obtain ax ay az bx by' bz where ab: "a = (ax, ay, az)" "b = (bx, by', bz)" by (metis surj_pair)
  obtain d where d: "long_axis a b = d" by simp
  have R: "ray_dir R = d" "s = swap_axes d a" and R': "R = fst (ray_between a b)"
    using assms d by (auto simp: ray_between_def Let_def)
  show "s = swap_axes (ray_dir R) a" by (simp add: R)
  show "ray_ok R s" "fst (ray_delta R) = max_dist a b"
    "swap_axes (ray_dir R) b = (fst s + fst (ray_delta R) * fst (ray_step R),
       fst (snd s) + fst (snd (ray_delta R)) * fst (snd (ray_step R)),
       snd (snd s) + snd (snd (ray_delta R)) * snd (snd (ray_step R)))"
    "\<bar>fst (snd (ray_step R))\<bar> = 1" "\<bar>snd (snd (ray_step R))\<bar> = 1"
    using d unfolding R R' ab long_axis_def
    by (cases d; auto simp: ray_between_def ray_ok_def max_dist_def Let_def long_axis_def split: if_splits)+
qed

lemma offset_ends: "0 \<le> dx \<Longrightarrow> offset dx dy 0 = 0" "0 < dx \<Longrightarrow> offset dx dy dx = dy"
proof -
  show "offset dx dy 0 = 0" if "0 \<le> dx" using that by (cases "dx = 0") (simp_all add: offset_def)
  show "offset dx dy dx = dy" if "0 < dx"
    unfolding offset_def using that
    by (intro int_div_pos_eq[where r = dx]) (auto simp: algebra_simps)
qed

lemma ray_ends:
  assumes r: "ray_between a b = (R, s)"
  shows "ray_point R s 0 = a" "ray_point R s (max_dist a b) = b"
proof -
  note o = ray_between_ok[OF r]
  have n: "0 \<le> max_dist a b" by (simp add: max_dist_def)
  show "ray_point R s 0 = a" using o(2,3) n by (simp add: ray_point_def offset_ends)
  have "ray_point R s (max_dist a b) = swap_axes (ray_dir R) (swap_axes (ray_dir R) b)"
  proof (cases "max_dist a b = 0")
    case True
    then have "fst (snd (ray_delta R)) = 0" "snd (snd (ray_delta R)) = 0"
      using o(1,3) by (auto simp: ray_ok_def)
    then show ?thesis using True o(3,4) by (simp add: ray_point_def offset_ends)
  next
    case False
    then show ?thesis using n o(3,4) by (simp add: ray_point_def offset_ends)
  qed
  then show "ray_point R s (max_dist a b) = b" by simp
qed

lemma ray_adjacent:
  assumes r: "ray_between a b = (R, s)" and k: "0 \<le> k" "k < max_dist a b"
  shows "max_dist (ray_point R s k) (ray_point R s (k + 1)) = 1"
proof -
  note o = ray_between_ok[OF r]
  obtain sx sy sz dx dy dz where st: "ray_step R = (sx, sy, sz)" "ray_delta R = (dx, dy, dz)" by (metis surj_pair)
  have d: "0 < dx" "0 \<le> dy" "dy \<le> dx" "0 \<le> dz" "dz \<le> dx" "\<bar>sx\<bar> = 1" "\<bar>sy\<bar> = 1" "\<bar>sz\<bar> = 1"
    using o k by (auto simp: ray_ok_def st)
  have off: "\<bar>offset dx e k - offset dx e (k + 1)\<bar> \<le> 1" if "0 \<le> e" "e \<le> dx" for e
    using offset_step(1)[OF d(1) that, of k] by (simp split: if_splits)
  have step: "\<bar>(x + y * u) - (x + z * u)\<bar> = \<bar>y - z\<bar>" if "\<bar>u\<bar> = 1" for x y z u :: int
    using that by (auto simp: abs_mult simp flip: left_diff_distrib)
  have "max_dist (ray_point R s k) (ray_point R s (k + 1)) =
      max \<bar>k - (k + 1)\<bar> (max \<bar>offset dx dy k - offset dx dy (k + 1)\<bar> \<bar>offset dx dz k - offset dx dz (k + 1)\<bar>)"
    unfolding ray_point_def swap_axes_dist by (simp only: max_dist_def fst_conv snd_conv st step[OF d(6)] step[OF d(7)] step[OF d(8)])
  then show ?thesis using off[OF d(2,3)] off[OF d(4,5)] by (simp add: max_def)
qed

lemma max_dist_nonneg: "0 \<le> max_dist a b"
  by (simp add: max_dist_def le_max_iff_disj)

lemma checkSightLine_walk:
  "checkSightLine m blocks fromPos toPos =
    Some (ray_walk m blocks (point_of fromPos) (point_of toPos) (ray_points (point_of fromPos) (point_of toPos)) (0, 0, 0))"
proof -
  obtain R s where r: "ray_between (point_of fromPos) (point_of toPos) = (R, s)" by (metis surj_pair)
  let ?n = "max_dist (point_of fromPos) (point_of toPos)"
  have n: "fst (ray_delta R) = ?n" using ray_between_ok(3)[OF r] by simp
  have "ray_loop m blocks (point_of fromPos) (point_of toPos) R s 0 0 (0, 0, 0) =
      Some (ray_walk m blocks (point_of fromPos) (point_of toPos) (List.map (ray_point R s) [0..fst (ray_delta R)]) (0, 0, 0))"
    using max_dist_nonneg n by (intro ray_loop_closed[OF ray_between_ok(1)[OF r]]) (auto simp: offset_ends)
  then show ?thesis by (simp add: checkSightLine_def ray_points_def r)
qed

section \<open>Properties\<close>

text \<open>
  C29. The loop that follows a ray ends, and what it looks at is a digital line: from the one position
  to the other, each point next to the one before, as many as the longest axis has, at the nearest
  whole numbers to the exact line.
\<close>

theorem sight_line_is_digital_line:
  "checkSightLine m blocks fromPos toPos =
      Some (ray_walk m blocks (point_of fromPos) (point_of toPos) (ray_points (point_of fromPos) (point_of toPos)) (0, 0, 0))
    \<and> hd (ray_points (point_of fromPos) (point_of toPos)) = point_of fromPos
    \<and> last (ray_points (point_of fromPos) (point_of toPos)) = point_of toPos
    \<and> int (length (ray_points (point_of fromPos) (point_of toPos))) = max_dist (point_of fromPos) (point_of toPos) + 1
    \<and> successively (\<lambda>p q. max_dist p q = 1) (ray_points (point_of fromPos) (point_of toPos))"
proof -
  obtain R s where r: "ray_between (point_of fromPos) (point_of toPos) = (R, s)" by (metis surj_pair)
  let ?n = "max_dist (point_of fromPos) (point_of toPos)"
  have n: "fst (ray_delta R) = ?n" "0 \<le> ?n" using ray_between_ok(3)[OF r] max_dist_nonneg by simp_all
  have pts: "ray_points (point_of fromPos) (point_of toPos) = List.map (ray_point R s) [0..?n]"
    by (simp add: ray_points_def r n(1))
  have upt: "[0..?n] \<noteq> []" "hd [0..?n] = 0" using upto_rec1[OF n(2)] by simp_all
  have upt2: "last [0..?n] = ?n" unfolding upto_rec2[OF n(2)] by simp
  have "successively (\<lambda>p q. max_dist p q = 1) (List.map (ray_point R s) [0..?n])"
    unfolding successively_conv_nth
  proof (intro allI impI)
    fix i assume "Suc i < length (List.map (ray_point R s) [0..?n])"
    then show "max_dist (List.map (ray_point R s) [0..?n] ! i) (List.map (ray_point R s) [0..?n] ! Suc i) = 1"
      using ray_adjacent[OF r, of "int i"] by (simp add: nth_upto add.commute)
  qed
  then show ?thesis
    using upt upt2 ray_ends[OF r] n checkSightLine_walk[of m blocks fromPos toPos] by (simp add: pts hd_map last_map)
qed

lemma isSightClear_total: "\<exists>b. isSightClear m blocks fromPos toPos floorCheck = Some b"
  by (auto simp: isSightClear_def checkSightLine_walk ex_bool_eq)

text \<open>Whether the sight between two positions is clear does not depend on which one looks.\<close>

theorem isSightClear_symmetric:
  "isSightClear m blocks fromPos toPos floorCheck = isSightClear m blocks toPos fromPos floorCheck
    \<and> isSightClear m blocks fromPos toPos floorCheck \<noteq> None"
proof -
  obtain b b' where "checkSightLine m blocks fromPos toPos = Some b" "checkSightLine m blocks toPos fromPos = Some b'"
    using checkSightLine_walk by blast
  then show ?thesis by (auto simp: isSightClear_def)
qed

text \<open>
  The limit of two floors on throwing has no effect: the code subtracts the floor from itself. Without
  the line of sight only the side of the ground counts, and each floor between widens the range by one.
\<close>

theorem throw_ignores_floors:
  "canThrowObjectTo m blocks fromPos toPos False rangex rangey =
    Some ((pz fromPos \<ge> 8 \<longleftrightarrow> pz toPos \<ge> 8)
      \<and> \<bar>uint (px fromPos) - uint (px toPos)\<bar> \<le> rangex + \<bar>uint (pz fromPos) - uint (pz toPos)\<bar>
      \<and> \<bar>uint (py fromPos) - uint (py toPos)\<bar> \<le> rangey + \<bar>uint (pz fromPos) - uint (pz toPos)\<bar>)"
  by (auto simp: canThrowObjectTo_def Let_def not_less)

end
