(* ===== verification/PathFinding.thy ===== *)
theory PathFinding
  imports SightLines
begin

text \<open>
  The search for paths of \<^verbatim>\<open>map.cpp\<close> (\<open>AStarNodes\<close>, \<open>getPathTo\<close>, \<open>getPathMatching\<close>) and the condition on
  its goal of \<^verbatim>\<open>creature.cpp\<close>. What a creature may step on is a parameter: its walk cache, its own
  tile, the answers of tiles. A loop is a \<^theory_text>\<open>partial_function\<close>: \<^const>\<open>None\<close> means that it does not end.
\<close>

section \<open>Nodes\<close>

definition MAX_NODES :: nat where "MAX_NODES = 512"
definition MAP_NORMALWALKCOST :: int where "MAP_NORMALWALKCOST = 10"
definition MAP_DIAGONALWALKCOST :: int where "MAP_DIAGONALWALKCOST = 25"

record astar_node =
  n_x :: u16
  n_y :: u16
  n_parent :: "nat option"
  n_f :: int
  n_g :: int
  n_h :: int

text \<open>The first \<open>curNode\<close> of the nodes, each with its bit of \<open>openNodes\<close>.\<close>

record astar_nodes =
  nodes :: "astar_node list"
  openNodes :: "bool list"

definition no_nodes :: astar_nodes where
  "no_nodes = \<lparr>nodes = [], openNodes = []\<rparr>"

definition blank_node :: astar_node where
  "blank_node = \<lparr>n_x = 0, n_y = 0, n_parent = None, n_f = 0, n_g = 0, n_h = 0\<rparr>"

definition createOpenNode :: "astar_nodes \<Rightarrow> (nat \<times> astar_nodes) option" where
  "createOpenNode N =
     (if length (nodes N) \<ge> MAX_NODES then None
      else Some (length (nodes N), \<lparr>nodes = nodes N @ [blank_node], openNodes = openNodes N @ [True]\<rparr>))"

text \<open>The first open node with the least \<open>f\<close> below 100,000.\<close>

fun best_loop :: "nat \<Rightarrow> (astar_node \<times> bool) list \<Rightarrow> int \<Rightarrow> nat option \<Rightarrow> nat option" where
  "best_loop i [] bestF best = best"
| "best_loop i ((v, b) # vs) bestF best =
     (if n_f v < bestF \<and> b then best_loop (Suc i) vs (n_f v) (Some i) else best_loop (Suc i) vs bestF best)"

definition getBestNode :: "astar_nodes \<Rightarrow> nat option" where
  "getBestNode N = best_loop 0 (zip (nodes N) (openNodes N)) 100000 None"

definition closeNode :: "nat \<Rightarrow> astar_nodes \<Rightarrow> astar_nodes" where
  "closeNode i N = N\<lparr>openNodes := (openNodes N)[i := False]\<rparr>"

definition openNode :: "nat \<Rightarrow> astar_nodes \<Rightarrow> astar_nodes" where
  "openNode i N = N\<lparr>openNodes := (openNodes N)[i := True]\<rparr>"

definition countClosedNodes :: "astar_nodes \<Rightarrow> nat" where
  "countClosedNodes N = length (filter Not (openNodes N))"

fun find_node :: "nat \<Rightarrow> u16 \<Rightarrow> u16 \<Rightarrow> astar_node list \<Rightarrow> nat option" where
  "find_node i x y [] = None"
| "find_node i x y (v # vs) = (if n_x v = x \<and> n_y v = y then Some i else find_node (Suc i) x y vs)"

definition getNodeInList :: "u16 \<Rightarrow> u16 \<Rightarrow> astar_nodes \<Rightarrow> nat option" where
  "getNodeInList x y N = find_node 0 x y (nodes N)"

definition set_node :: "nat \<Rightarrow> astar_node \<Rightarrow> astar_nodes \<Rightarrow> astar_nodes" where
  "set_node i v N = N\<lparr>nodes := (nodes N)[i := v]\<rparr>"

definition getMapWalkCost :: "astar_node \<Rightarrow> position \<Rightarrow> int" where
  "getMapWalkCost v pos =
     (if \<bar>uint (n_x v) - uint (px pos)\<bar> = \<bar>uint (n_y v) - uint (py pos)\<bar> then MAP_DIAGONALWALKCOST
      else MAP_NORMALWALKCOST)"

definition getEstimatedDistance :: "u16 \<Rightarrow> u16 \<Rightarrow> u16 \<Rightarrow> u16 \<Rightarrow> int" where
  "getEstimatedDistance x y xGoal yGoal =
     (let dx = \<bar>uint x - uint xGoal\<bar>; dy = \<bar>uint y - uint yGoal\<bar>; diagonal = min dx dy
      in MAP_DIAGONALWALKCOST * diagonal + MAP_NORMALWALKCOST * ((dx + dy) - 2 * diagonal))"

section \<open>Where a creature may go\<close>

record walker =
  walk_cache :: "position \<Rightarrow> nat"
  own_tile :: "nat option"
  can_enter :: "nat \<Rightarrow> bool"
  visible_creature :: "nat \<Rightarrow> bool"
  harmful_field :: "nat \<Rightarrow> bool"

definition canWalkTo :: "map_state \<Rightarrow> walker \<Rightarrow> position \<Rightarrow> nat option" where
  "canWalkTo m W pos =
     (let tile = getTile m (uint (px pos)) (uint (py pos)) (uint (pz pos)) in
      if walk_cache W pos = 0 then None
      else if walk_cache W pos = 1 then tile
      else if own_tile W \<noteq> tile \<and> (case tile of None \<Rightarrow> True | Some t \<Rightarrow> \<not> can_enter W t) then None
      else tile)"

definition getTileWalkCost :: "walker \<Rightarrow> nat \<Rightarrow> int" where
  "getTileWalkCost W t =
     (if visible_creature W t then MAP_NORMALWALKCOST * 3 else 0)
     + (if harmful_field W t then MAP_NORMALWALKCOST * 3 else 0)"

definition neighbourOrderList :: "(int \<times> int) list" where
  "neighbourOrderList = [(- 1, 0), (0, 1), (1, 0), (0, - 1), (- 1, - 1), (1, - 1), (1, 1), (- 1, 1)]"

definition neighbour :: "astar_node \<Rightarrow> u16 \<Rightarrow> int \<times> int \<Rightarrow> position" where
  "neighbour v z d = Position (n_x v + of_int (fst d)) (n_y v + of_int (snd d)) z"

section \<open>A path to a position\<close>

text \<open>
  \<open>getPathTo\<close> searches from the destination to the creature. One neighbour: \<^const>\<open>None\<close> when the nodes
  ran out.
\<close>

definition relax_to ::
    "map_state \<Rightarrow> walker \<Rightarrow> position \<Rightarrow> int \<Rightarrow> nat \<Rightarrow> int \<times> int \<Rightarrow> astar_nodes \<Rightarrow> astar_nodes option" where
  "relax_to m W endPos maxSearchDist n d N =
     (let v = nodes N ! n; pos = neighbour v (pz endPos) d;
          outOfRange = (maxSearchDist \<noteq> - 1 \<and> (\<bar>uint (px endPos) - uint (px pos)\<bar> > maxSearchDist
                          \<or> \<bar>uint (py endPos) - uint (py pos)\<bar> > maxSearchDist))
      in if outOfRange then Some N
         else case canWalkTo m W pos of
           None \<Rightarrow> Some N
         | Some tile \<Rightarrow>
             let newg = n_g v + getMapWalkCost v pos + getTileWalkCost W tile;
                 h = getEstimatedDistance (px pos) (py pos) (px endPos) (py endPos);
                 v' = \<lparr>n_x = px pos, n_y = py pos, n_parent = Some n, n_f = newg + h, n_g = newg, n_h = h\<rparr>
             in case getNodeInList (px pos) (py pos) N of
                  Some j \<Rightarrow> if n_g (nodes N ! j) \<le> newg then Some N else Some (set_node j v' (openNode j N))
                | None \<Rightarrow> map_option (\<lambda>(j, N). set_node j v' N) (createOpenNode N))"

fun relax_all :: "(int \<times> int \<Rightarrow> astar_nodes \<Rightarrow> astar_nodes option) \<Rightarrow> (int \<times> int) list \<Rightarrow> astar_nodes \<Rightarrow> astar_nodes option" where
  "relax_all f [] N = Some N"
| "relax_all f (d # ds) N = (case f d N of None \<Rightarrow> None | Some N \<Rightarrow> relax_all f ds N)"

partial_function (option) search_to ::
    "map_state \<Rightarrow> walker \<Rightarrow> position \<Rightarrow> int \<Rightarrow> astar_nodes \<Rightarrow> (astar_nodes \<times> nat) option option" where
  "search_to m W endPos maxSearchDist N =
     (if maxSearchDist \<noteq> - 1 \<or> countClosedNodes N < 100 then
        (case getBestNode N of
           None \<Rightarrow> Some None
         | Some n \<Rightarrow>
             if n_x (nodes N ! n) = px endPos \<and> n_y (nodes N ! n) = py endPos then Some (Some (N, n))
             else case relax_all (relax_to m W endPos maxSearchDist n) neighbourOrderList N of
               None \<Rightarrow> Some None
             | Some N \<Rightarrow> search_to m W endPos maxSearchDist (closeNode n N))
      else Some None)"

declare search_to.simps [code]

definition step_dir :: "int \<Rightarrow> int \<Rightarrow> direction option" where
  "step_dir dx dy =
     (if dx = - 1 \<and> dy = - 1 then Some NORTHWEST
      else if dx = 1 \<and> dy = - 1 then Some NORTHEAST
      else if dx = - 1 \<and> dy = 1 then Some SOUTHWEST
      else if dx = 1 \<and> dy = 1 then Some SOUTHEAST
      else if dx = - 1 then Some WEST
      else if dx = 1 then Some EAST
      else if dy = - 1 then Some NORTH
      else if dy = 1 then Some SOUTH
      else None)"

partial_function (option) read_path ::
    "astar_nodes \<Rightarrow> nat option \<Rightarrow> int \<Rightarrow> int \<Rightarrow> direction list option" where
  "read_path N found prevx prevy =
     (case found of
        None \<Rightarrow> Some []
      | Some i \<Rightarrow>
          let v = nodes N ! i; x = uint (n_x v); y = uint (n_y v) in
          Option.bind (read_path N (n_parent v) x y) (\<lambda>ds.
            Some (case step_dir (x - prevx) (y - prevy) of None \<Rightarrow> ds | Some d \<Rightarrow> d # ds)))"

declare read_path.simps [code]

text \<open>
  The list of the caller is only cleared when the destination can be walked to.
\<close>

definition getPathTo ::
    "map_state \<Rightarrow> walker \<Rightarrow> position \<Rightarrow> position \<Rightarrow> direction list \<Rightarrow> int \<Rightarrow> (bool \<times> direction list) option" where
  "getPathTo m W creaturePos destPos listDir maxSearchDist =
     (if canWalkTo m W destPos = None then Some (False, listDir)
      else if pz destPos \<noteq> pz creaturePos then Some (False, [])
      else
        let h = getEstimatedDistance (px destPos) (py destPos) (px creaturePos) (py creaturePos);
            start = \<lparr>n_x = px destPos, n_y = py destPos, n_parent = None, n_f = h, n_g = 0, n_h = h\<rparr>
        in Option.bind (search_to m W creaturePos maxSearchDist \<lparr>nodes = [start], openNodes = [True]\<rparr>) (\<lambda>r.
             case r of
               None \<Rightarrow> Some (False, [])
             | Some (N, found) \<Rightarrow>
                 Option.bind (read_path N (Some found) (uint (px creaturePos)) (uint (py creaturePos))) (\<lambda>ds.
                   Some (ds \<noteq> [], ds))))"

section \<open>A path to where a condition holds\<close>

record find_path_params =
  fullPathSearch :: bool
  clearSight :: bool
  allowDiagonal :: bool
  keepDistance :: bool
  maxSearchDist :: int
  minTargetDist :: int
  maxTargetDist :: int

definition isInRange :: "position \<Rightarrow> find_path_params \<Rightarrow> position \<Rightarrow> position \<Rightarrow> bool" where
  "isInRange targetPos fpp startPos testPos =
     (let sx = uint (px startPos); sy = uint (py startPos); tx = uint (px targetPos); ty = uint (py targetPos);
          dxMin = (if fullPathSearch fpp \<or> sx - tx \<le> 0 then maxTargetDist fpp else 0);
          dxMax = (if fullPathSearch fpp \<or> sx - tx \<ge> 0 then maxTargetDist fpp else 0);
          dyMin = (if fullPathSearch fpp \<or> sy - ty \<le> 0 then maxTargetDist fpp else 0);
          dyMax = (if fullPathSearch fpp \<or> sy - ty \<ge> 0 then maxTargetDist fpp else 0)
      in \<not> (uint (px testPos) > tx + dxMax \<or> uint (px testPos) < tx - dxMin)
         \<and> \<not> (uint (py testPos) > ty + dyMax \<or> uint (py testPos) < ty - dyMin))"

text \<open>The condition answers whether the position will do, and the best distance so far.\<close>

definition pathCondition ::
    "map_state \<Rightarrow> (nat \<Rightarrow> bool) \<Rightarrow> position \<Rightarrow> find_path_params \<Rightarrow> position \<Rightarrow> position \<Rightarrow> int \<Rightarrow> (bool \<times> int) option" where
  "pathCondition m blocks targetPos fpp startPos testPos bestMatchDist =
     (if \<not> isInRange targetPos fpp startPos testPos then Some (False, bestMatchDist)
      else Option.bind (if clearSight fpp then isSightClear m blocks testPos targetPos True else Some True) (\<lambda>sight.
        if \<not> sight then Some (False, bestMatchDist)
        else
          let testDist = max \<bar>uint (px targetPos) - uint (px testPos)\<bar> \<bar>uint (py targetPos) - uint (py testPos)\<bar> in
          if maxTargetDist fpp = 1
          then Some (testDist \<ge> minTargetDist fpp \<and> testDist \<le> maxTargetDist fpp, bestMatchDist)
          else if testDist \<le> maxTargetDist fpp then
            if testDist < minTargetDist fpp then Some (False, bestMatchDist)
            else if testDist = maxTargetDist fpp then Some (True, 0)
            else if testDist > bestMatchDist then Some (True, testDist)
            else Some (False, bestMatchDist)
          else Some (False, bestMatchDist)))"

record path_query =
  q_map :: map_state
  q_blocks :: "nat \<Rightarrow> bool"
  q_walker :: walker
  q_start :: position
  q_target :: position
  q_params :: find_path_params

text \<open>
  One neighbour. The outcome tells whether the nodes ran out; the caller gives up, or goes on with
  what was found when something was.
\<close>

definition relax_match :: "path_query \<Rightarrow> nat \<Rightarrow> int \<times> int \<Rightarrow> astar_nodes \<Rightarrow> astar_nodes option" where
  "relax_match Q n d N =
     (let v = nodes N ! n; startPos = q_start Q; fpp = q_params Q; pos = neighbour v (pz startPos) d;
          inRange = (\<not> (maxSearchDist fpp \<noteq> - 1 \<and> (\<bar>uint (px startPos) - uint (px pos)\<bar> > maxSearchDist fpp
                          \<or> \<bar>uint (py startPos) - uint (py pos)\<bar> > maxSearchDist fpp))
                     \<and> \<not> (keepDistance fpp \<and> \<not> isInRange (q_target Q) fpp startPos pos))
      in if \<not> inRange then Some N
         else case canWalkTo (q_map Q) (q_walker Q) pos of
           None \<Rightarrow> Some N
         | Some tile \<Rightarrow>
             let newf = n_f v + getMapWalkCost v pos + getTileWalkCost (q_walker Q) tile;
                 put = (\<lambda>j N. set_node j ((nodes N ! j)\<lparr>n_x := px pos, n_y := py pos, n_parent := Some n, n_f := newf\<rparr>) N)
             in case getNodeInList (px pos) (py pos) N of
                  Some j \<Rightarrow> if n_f (nodes N ! j) \<le> newf then Some N else Some (put j (openNode j N))
                | None \<Rightarrow> map_option (\<lambda>(j, N). put j N) (createOpenNode N))"

fun relax_found :: "(int \<times> int \<Rightarrow> astar_nodes \<Rightarrow> astar_nodes option) \<Rightarrow> (int \<times> int) list \<Rightarrow> astar_nodes \<Rightarrow> astar_nodes" where
  "relax_found f [] N = N"
| "relax_found f (d # ds) N = (case f d N of None \<Rightarrow> N | Some N \<Rightarrow> relax_found f ds N)"

partial_function (option) search_match ::
    "path_query \<Rightarrow> astar_nodes \<Rightarrow> nat option \<Rightarrow> int \<Rightarrow> (astar_nodes \<times> nat) option option" where
  "search_match Q N found bestMatch =
     (if maxSearchDist (q_params Q) \<noteq> - 1 \<or> countClosedNodes N < 100 then
        (case getBestNode N of
           None \<Rightarrow> Some (map_option (\<lambda>n. (N, n)) found)
         | Some n \<Rightarrow>
             Option.bind (pathCondition (q_map Q) (q_blocks Q) (q_target Q) (q_params Q) (q_start Q)
                 (Position (n_x (nodes N ! n)) (n_y (nodes N ! n)) (pz (q_start Q))) bestMatch) (\<lambda>c.
               let found = (if fst c then Some n else found); bestMatch = snd c in
               if fst c \<and> bestMatch = 0 then Some (Some (N, n))
               else
                 let dirs = take (if allowDiagonal (q_params Q) then 8 else 4) neighbourOrderList in
                 if found \<noteq> None
                 then search_match Q (closeNode n (relax_found (relax_match Q n) dirs N)) found bestMatch
                 else case relax_all (relax_match Q n) dirs N of
                   None \<Rightarrow> Some None
                 | Some N \<Rightarrow> search_match Q (closeNode n N) found bestMatch))
      else Some (map_option (\<lambda>n. (N, n)) found))"

declare search_match.simps [code]

text \<open>The directions are read from the goal back to the start, each one put in front.\<close>

definition back_dir :: "int \<Rightarrow> int \<Rightarrow> direction option" where
  "back_dir dx dy =
     (if dx = 1 \<and> dy = 1 then Some NORTHWEST
      else if dx = - 1 \<and> dy = 1 then Some NORTHEAST
      else if dx = 1 \<and> dy = - 1 then Some SOUTHWEST
      else if dx = - 1 \<and> dy = - 1 then Some SOUTHEAST
      else if dx = 1 then Some WEST
      else if dx = - 1 then Some EAST
      else if dy = 1 then Some NORTH
      else if dy = - 1 then Some SOUTH
      else None)"

partial_function (option) read_back ::
    "astar_nodes \<Rightarrow> nat option \<Rightarrow> int \<Rightarrow> int \<Rightarrow> direction list \<Rightarrow> direction list option" where
  "read_back N found prevx prevy ds =
     (case found of
        None \<Rightarrow> Some ds
      | Some i \<Rightarrow>
          let v = nodes N ! i; x = uint (n_x v); y = uint (n_y v) in
          read_back N (n_parent v) x y (case back_dir (x - prevx) (y - prevy) of None \<Rightarrow> ds | Some d \<Rightarrow> d # ds))"

declare read_back.simps [code]

definition getPathMatching :: "path_query \<Rightarrow> (bool \<times> direction list) option" where
  "getPathMatching Q =
     (let start = \<lparr>n_x = px (q_start Q), n_y = py (q_start Q), n_parent = None, n_f = 0, n_g = 0, n_h = 0\<rparr>
      in Option.bind (search_match Q \<lparr>nodes = [start], openNodes = [True]\<rparr> None 0) (\<lambda>r.
           case r of
             None \<Rightarrow> Some (False, [])
           | Some (N, found) \<Rightarrow>
               let v = nodes N ! found in
               map_option (\<lambda>ds. (True, ds)) (read_back N (n_parent v) (uint (n_x v)) (uint (n_y v)) [])))"

section \<open>The tree of parents\<close>

text \<open>
  What both searches keep: every node but the first has a parent it is next to, costs at least ten
  more than its parent, and is a place the creature may go to. \<open>key\<close> reads the cost of a node.
\<close>

definition next_to :: "astar_node \<Rightarrow> astar_node \<Rightarrow> bool" where
  "next_to v w \<longleftrightarrow> (\<exists>d\<in>set neighbourOrderList. n_x w = n_x v + of_int (fst d) \<and> n_y w = n_y v + of_int (snd d))"

definition path_inv :: "(astar_node \<Rightarrow> int) \<Rightarrow> u16 \<times> u16 \<Rightarrow> (u16 \<Rightarrow> u16 \<Rightarrow> bool) \<Rightarrow> astar_nodes \<Rightarrow> bool" where
  "path_inv key start walk N \<longleftrightarrow>
     length (openNodes N) = length (nodes N) \<and> 0 < length (nodes N) \<and> length (nodes N) \<le> MAX_NODES
     \<and> n_parent (nodes N ! 0) = None \<and> key (nodes N ! 0) = 0
     \<and> (n_x (nodes N ! 0), n_y (nodes N ! 0)) = start
     \<and> (\<forall>i<length (nodes N). 0 \<le> key (nodes N ! i) \<and> (0 < i \<longrightarrow>
          (\<exists>p<length (nodes N). n_parent (nodes N ! i) = Some p \<and> key (nodes N ! p) + 10 \<le> key (nodes N ! i)
             \<and> next_to (nodes N ! p) (nodes N ! i) \<and> walk (n_x (nodes N ! i)) (n_y (nodes N ! i)))))"

definition key_sum :: "(astar_node \<Rightarrow> int) \<Rightarrow> astar_nodes \<Rightarrow> nat" where
  "key_sum key N = sum_list (List.map (\<lambda>v. nat (key v)) (nodes N))"

definition place :: "astar_nodes \<Rightarrow> nat \<Rightarrow> u16 \<times> u16" where
  "place N i = (n_x (nodes N ! i), n_y (nodes N ! i))"

text \<open>Nodes stay where they are, and there are more of them, or one got cheaper.\<close>

definition progress :: "(astar_node \<Rightarrow> int) \<Rightarrow> astar_nodes \<Rightarrow> astar_nodes \<Rightarrow> bool" where
  "progress key N N' \<longleftrightarrow> (\<forall>i<length (nodes N). place N' i = place N i)
     \<and> (N' = N \<or> length (nodes N) < length (nodes N')
        \<or> length (nodes N') = length (nodes N) \<and> key_sum key N' < key_sum key N)"

definition open_count :: "astar_nodes \<Rightarrow> nat" where
  "open_count N = length (filter id (openNodes N))"

definition rank_rel :: "(astar_node \<Rightarrow> int) \<Rightarrow> (astar_nodes \<times> astar_nodes) set" where
  "rank_rel key = inv_image (less_than <*lex*> less_than <*lex*> less_than)
     (\<lambda>N. (MAX_NODES - length (nodes N), key_sum key N, open_count N))"

lemma rank_wf: "wf (rank_rel key)"
  by (simp add: rank_rel_def wf_lex_prod)

lemma path_invD:
  assumes "path_inv key start walk N"
  shows "length (openNodes N) = length (nodes N)" "0 < length (nodes N)" "length (nodes N) \<le> MAX_NODES"
    "n_parent (nodes N ! 0) = None" "key (nodes N ! 0) = 0" "(n_x (nodes N ! 0), n_y (nodes N ! 0)) = start"
    "i < length (nodes N) \<Longrightarrow> 0 \<le> key (nodes N ! i)"
    "i < length (nodes N) \<Longrightarrow> 0 < i \<Longrightarrow> \<exists>p<length (nodes N). n_parent (nodes N ! i) = Some p
       \<and> key (nodes N ! p) + 10 \<le> key (nodes N ! i) \<and> next_to (nodes N ! p) (nodes N ! i)
       \<and> walk (n_x (nodes N ! i)) (n_y (nodes N ! i))"
  using assms by (auto simp: path_inv_def)

lemma progress_trans: "progress key N1 N2 \<Longrightarrow> progress key N2 N3 \<Longrightarrow> progress key N1 N3"
  unfolding progress_def by (smt (verit) less_trans order.strict_trans)

lemma progress_refl [simp]: "progress key N N"
  by (simp add: progress_def)

lemma sum_list_update_less:
  "j < length xs \<Longrightarrow> (f v :: nat) < f (xs ! j) \<Longrightarrow> sum_list (List.map f (xs[j := v])) < sum_list (List.map f xs)"
  by (induction xs arbitrary: j) (auto simp: less_Suc_eq_0_disj nth_Cons split: nat.splits)

text \<open>A cheaper way to a node, and a new node.\<close>

lemma reopen_inv:
  assumes inv: "path_inv key start walk N" and n: "n < length (nodes N)" and j: "j < length (nodes N)"
    and v: "n_parent v = Some n" "key (nodes N ! n) + 10 \<le> key v" "key v < key (nodes N ! j)"
      "next_to (nodes N ! n) v" "walk (n_x v) (n_y v)" "n_x v = n_x (nodes N ! j)" "n_y v = n_y (nodes N ! j)"
  shows "path_inv key start walk (set_node j v (openNode j N)) \<and> progress key N (set_node j v (openNode j N))"
proof
  note d = path_invD[OF inv]
  let ?N = "set_node j v (openNode j N)"
  have nodes': "nodes ?N = (nodes N)[j := v]" and open': "length (openNodes ?N) = length (openNodes N)"
    by (simp_all add: set_node_def openNode_def)
  have j0: "j \<noteq> 0" "j \<noteq> n" using d(5) d(7)[OF n] v(2,3) by (auto intro!: gr0I)
  have nth: "nodes ?N ! i = (if i = j then v else nodes N ! i)" for i using j by (simp add: nodes')
  have len': "length (nodes ?N) = length (nodes N)" by (simp add: nodes')
  have next': "next_to (nodes ?N ! i) w = next_to (nodes N ! i) w" "next_to w (nodes ?N ! i) = next_to w (nodes N ! i)" for i w
    using v(6,7) by (auto simp: nth next_to_def)
  have xy: "n_x (nodes ?N ! i) = n_x (nodes N ! i)" "n_y (nodes ?N ! i) = n_y (nodes N ! i)" for i
    using v(6,7) by (auto simp: nth)
  have "\<exists>p<length (nodes ?N). n_parent (nodes ?N ! i) = Some p \<and> key (nodes ?N ! p) + 10 \<le> key (nodes ?N ! i)
       \<and> next_to (nodes ?N ! p) (nodes ?N ! i) \<and> walk (n_x (nodes ?N ! i)) (n_y (nodes ?N ! i))"
    if i: "i < length (nodes ?N)" "0 < i" for i
  proof (cases "i = j")
    case True
    then show ?thesis using v n j0 by (intro exI[of _ n]) (auto simp: nth len')
  next
    case False
    obtain p where p: "p < length (nodes N)" "n_parent (nodes N ! i) = Some p" "key (nodes N ! p) + 10 \<le> key (nodes N ! i)"
      "next_to (nodes N ! p) (nodes N ! i)" "walk (n_x (nodes N ! i)) (n_y (nodes N ! i))"
      using d(8)[of i] i by (auto simp: len')
    then show ?thesis using False v(3) unfolding next' xy
      by (intro exI[of _ p]) (auto simp: nth len')
  qed
  moreover have "0 \<le> key (nodes ?N ! i)" if "i < length (nodes ?N)" for i
    using d(7)[of i] d(7)[OF n] that v(2) by (auto simp: nth len')
  moreover have "nodes ?N ! 0 = nodes N ! 0" using j0 by (simp add: nth)
  ultimately show "path_inv key start walk ?N"
    using d(1-6) by (simp add: path_inv_def open' len')
  have "nat (key v) < nat (key (nodes N ! j))" using d(7)[OF n] v(2,3) by simp
  then show "progress key N ?N"
    using sum_list_update_less[OF j, of "\<lambda>v. nat (key v)" v] xy
    by (simp add: progress_def key_sum_def place_def, simp add: nodes')
qed

lemma create_inv:
  assumes inv: "path_inv key start walk N" and n: "n < length (nodes N)" and c: "createOpenNode N = Some (j, N1)"
    and v: "n_parent v = Some n" "key (nodes N ! n) + 10 \<le> key v" "next_to (nodes N ! n) v" "walk (n_x v) (n_y v)"
  shows "path_inv key start walk (set_node j v N1) \<and> progress key N (set_node j v N1)"
proof
  note d = path_invD[OF inv]
  let ?N = "set_node j v N1"
  have c': "length (nodes N) < MAX_NODES" "nodes ?N = nodes N @ [v]" "openNodes ?N = openNodes N @ [True]"
    using c by (auto simp: createOpenNode_def set_node_def split: if_splits)
  have "\<exists>p<length (nodes ?N). n_parent (nodes ?N ! i) = Some p \<and> key (nodes ?N ! p) + 10 \<le> key (nodes ?N ! i)
       \<and> next_to (nodes ?N ! p) (nodes ?N ! i) \<and> walk (n_x (nodes ?N ! i)) (n_y (nodes ?N ! i))"
    if i: "i < length (nodes ?N)" "0 < i" for i
  proof (cases "i < length (nodes N)")
    case True
    then obtain p where "p < length (nodes N)" "n_parent (nodes N ! i) = Some p" "key (nodes N ! p) + 10 \<le> key (nodes N ! i)"
      "next_to (nodes N ! p) (nodes N ! i)" "walk (n_x (nodes N ! i)) (n_y (nodes N ! i))"
      using d(8)[of i] i(2) by blast
    then show ?thesis using True by (intro exI[of _ p]) (simp add: c' nth_append)
  next
    case False
    then have "i = length (nodes N)" using i by (simp add: c')
    then show ?thesis using v n by (intro exI[of _ n]) (simp add: c' nth_append)
  qed
  moreover have "0 \<le> key (nodes ?N ! i)" if "i < length (nodes ?N)" for i
    using d(7)[of i] d(7)[OF n] that v(2) by (auto simp: c' nth_append less_Suc_eq)
  ultimately show "path_inv key start walk ?N"
    unfolding path_inv_def using d(1-6) c'(1) by (simp add: c'(2,3) nth_append)
  show "progress key N ?N" by (simp add: progress_def place_def c' nth_append)
qed

section \<open>The loops of a search\<close>

lemma best_loop_found:
  "best_loop i vs b best = Some n \<Longrightarrow> best = Some n \<or> (\<exists>k<length vs. n = i + k \<and> snd (vs ! k))"
proof (induction vs arbitrary: i b best)
  case (Cons a vs)
  obtain v o' where a: "a = (v, o')" by force
  consider "best = Some n" | "n = i" "o'" | k where "k < length vs" "n = Suc i + k" "snd (vs ! k)"
    using Cons.prems Cons.IH[of "Suc i" "n_f v" "Some i"] Cons.IH[of "Suc i" b best] by (auto simp: a split: if_splits)
  then show ?case
  proof cases
    case 2
    then show ?thesis by (intro disjI2 exI[of _ 0]) (simp add: a)
  next
    case (3 k)
    then show ?thesis by (intro disjI2 exI[of _ "Suc k"]) simp
  qed simp
qed simp

lemma getBestNode_open: "getBestNode N = Some n \<Longrightarrow> n < length (nodes N) \<and> n < length (openNodes N) \<and> openNodes N ! n"
  using best_loop_found[of 0 "zip (nodes N) (openNodes N)" 100000 None n] by (auto simp: getBestNode_def)

lemma open_count_close: "n < length bs \<Longrightarrow> bs ! n \<Longrightarrow> length (filter id bs) = Suc (length (filter id (bs[n := False])))"
  by (induction bs arbitrary: n) (auto simp: nth_Cons split: nat.splits)

lemma close_rank:
  assumes "progress key N N'" "getBestNode N = Some n" "path_inv key start walk N'"
  shows "(closeNode n N', N) \<in> rank_rel key"
proof -
  have "length (nodes N') \<le> MAX_NODES" using path_invD(3)[OF assms(3)] .
  then show ?thesis
    using assms(1) getBestNode_open[OF assms(2)] open_count_close[of n "openNodes N"]
    by (auto simp: progress_def rank_rel_def closeNode_def key_sum_def open_count_def)
qed

lemma closeNode_inv: "path_inv key start walk N \<Longrightarrow> path_inv key start walk (closeNode n N)"
  by (simp add: path_inv_def closeNode_def)

text \<open>
  The interface of a search: looking at one neighbour of a node keeps the tree and makes progress. With it
  the loop over the neighbours does, and every round of the search comes down in rank.
\<close>

locale path_search =
  fixes key :: "astar_node \<Rightarrow> int" and start :: "u16 \<times> u16" and walk :: "u16 \<Rightarrow> u16 \<Rightarrow> bool"
    and relax :: "nat \<Rightarrow> int \<times> int \<Rightarrow> astar_nodes \<Rightarrow> astar_nodes option"
  assumes relax_step: "path_inv key start walk N \<Longrightarrow> n < length (nodes N) \<Longrightarrow> d \<in> set neighbourOrderList \<Longrightarrow>
    relax n d N = Some N' \<Longrightarrow> path_inv key start walk N' \<and> progress key N N'"
begin

lemma progress_length: "progress key N N' \<Longrightarrow> n < length (nodes N) \<Longrightarrow> n < length (nodes N')"
  by (auto simp: progress_def)

lemma relax_all_step:
  "path_inv key start walk N \<Longrightarrow> n < length (nodes N) \<Longrightarrow> set ds \<subseteq> set neighbourOrderList \<Longrightarrow>
    relax_all (relax n) ds N = Some N' \<Longrightarrow> path_inv key start walk N' \<and> progress key N N'"
proof (induction ds arbitrary: N)
  case Nil
  then show ?case by (simp add: progress_def)
next
  case (Cons d ds)
  obtain N1 where N1: "relax n d N = Some N1" "relax_all (relax n) ds N1 = Some N'"
    using Cons.prems(4) by (auto split: option.splits)
  have s: "path_inv key start walk N1" "progress key N N1" using relax_step[OF Cons.prems(1,2) _ N1(1)] Cons.prems(3) by auto
  then show ?case
    using Cons.IH[OF s(1) progress_length[OF s(2) Cons.prems(2)] _ N1(2)] Cons.prems(3) progress_trans[OF s(2)] by auto
qed

lemma relax_found_step:
  "path_inv key start walk N \<Longrightarrow> n < length (nodes N) \<Longrightarrow> set ds \<subseteq> set neighbourOrderList \<Longrightarrow>
    path_inv key start walk (relax_found (relax n) ds N) \<and> progress key N (relax_found (relax n) ds N)"
proof (induction ds arbitrary: N)
  case Nil
  then show ?case by (simp add: progress_def)
next
  case (Cons d ds)
  show ?case
  proof (cases "relax n d N")
    case None
    then show ?thesis using Cons.prems(1) by (simp add: progress_def)
  next
    case (Some N1)
    have s: "path_inv key start walk N1" "progress key N N1" using relax_step[OF Cons.prems(1,2) _ Some] Cons.prems(3) by auto
    then show ?thesis
      using Cons.IH[OF s(1) progress_length[OF s(2) Cons.prems(2)]] Cons.prems(3) progress_trans[OF s(2)] Some by auto
  qed
qed

text \<open>One round: the best node is expanded and closed.\<close>

lemma round_all:
  assumes "path_inv key start walk N" "getBestNode N = Some n" "set ds \<subseteq> set neighbourOrderList"
    and "relax_all (relax n) ds N = Some N'"
  shows "path_inv key start walk (closeNode n N') \<and> (closeNode n N', N) \<in> rank_rel key"
  using relax_all_step[OF assms(1) _ assms(3,4)] getBestNode_open[OF assms(2)] closeNode_inv close_rank[OF _ assms(2)] by blast

lemma round_found:
  assumes "path_inv key start walk N" "getBestNode N = Some n" "set ds \<subseteq> set neighbourOrderList"
  shows "path_inv key start walk (closeNode n (relax_found (relax n) ds N))
    \<and> (closeNode n (relax_found (relax n) ds N), N) \<in> rank_rel key
    \<and> length (nodes N) \<le> length (nodes (closeNode n (relax_found (relax n) ds N)))"
proof -
  have n: "n < length (nodes N)" using getBestNode_open[OF assms(2)] by simp
  have s: "path_inv key start walk (relax_found (relax n) ds N)" "progress key N (relax_found (relax n) ds N)"
    using relax_found_step[OF assms(1) n assms(3)] by simp_all
  then show ?thesis
    using closeNode_inv close_rank[OF s(2) assms(2) s(1)] by (auto simp: progress_def closeNode_def)
qed

end

lemma costs: "10 \<le> getMapWalkCost v pos" "0 \<le> getTileWalkCost W t"
  by (simp_all add: getMapWalkCost_def getTileWalkCost_def MAP_NORMALWALKCOST_def MAP_DIAGONALWALKCOST_def)

lemma find_node_Some: "find_node i x y vs = Some j \<Longrightarrow> \<exists>k<length vs. j = i + k \<and> n_x (vs ! k) = x \<and> n_y (vs ! k) = y"
proof (induction vs arbitrary: i)
  case (Cons v vs)
  show ?case
  proof (cases "n_x v = x \<and> n_y v = y")
    case True
    then show ?thesis using Cons.prems by (intro exI[of _ 0]) simp
  next
    case False
    then obtain k where "k < length vs" "j = Suc i + k" "n_x (vs ! k) = x" "n_y (vs ! k) = y"
      using Cons.IH[of "Suc i"] Cons.prems by auto
    then show ?thesis by (intro exI[of _ "Suc k"]) simp
  qed
qed simp

lemma getNodeInList_Some: "getNodeInList x y N = Some j \<Longrightarrow> j < length (nodes N) \<and> n_x (nodes N ! j) = x \<and> n_y (nodes N ! j) = y"
  using find_node_Some[of 0 x y "nodes N" j] by (auto simp: getNodeInList_def)

lemma next_to_neighbour:
  "d \<in> set neighbourOrderList \<Longrightarrow> n_x v' = px (neighbour v z d) \<Longrightarrow> n_y v' = py (neighbour v z d) \<Longrightarrow> next_to v v'"
  by (auto simp: next_to_def neighbour_def)

definition can_walk :: "map_state \<Rightarrow> walker \<Rightarrow> u16 \<Rightarrow> u16 \<Rightarrow> u16 \<Rightarrow> bool" where
  "can_walk m W z x y \<longleftrightarrow> canWalkTo m W (Position x y z) \<noteq> None"

interpretation to: path_search n_g start "can_walk m W (pz endPos)" "relax_to m W endPos maxDist"
  for start m W endPos maxDist
proof
  fix N n d N'
  assume inv: "path_inv n_g start (can_walk m W (pz endPos)) N" and n: "n < length (nodes N)"
    and d: "d \<in> set neighbourOrderList" and r: "relax_to m W endPos maxDist n d N = Some N'"
  define pos where "pos = neighbour (nodes N ! n) (pz endPos) d"
  have z: "Position (px pos) (py pos) (pz endPos) = pos" by (simp add: pos_def neighbour_def)
  show "path_inv n_g start (can_walk m W (pz endPos)) N' \<and> progress n_g N N'"
  proof (cases "N' = N")
    case True
    then show ?thesis using inv by (simp add: progress_def)
  next
    case False
    then obtain tile where t: "canWalkTo m W pos = Some tile"
      using r by (auto simp: relax_to_def Let_def pos_def[symmetric] split: if_splits option.splits)
    define newg where "newg = n_g (nodes N ! n) + getMapWalkCost (nodes N ! n) pos + getTileWalkCost W tile"
    define h where "h = getEstimatedDistance (px pos) (py pos) (px endPos) (py endPos)"
    define v' where "v' = \<lparr>n_x = px pos, n_y = py pos, n_parent = Some n, n_f = newg + h, n_g = newg, n_h = h\<rparr>"
    have v': "n_parent v' = Some n" "n_g (nodes N ! n) + 10 \<le> n_g v'" "next_to (nodes N ! n) v'"
      "can_walk m W (pz endPos) (n_x v') (n_y v')" "n_x v' = px pos" "n_y v' = py pos"
      using costs(1)[of "nodes N ! n" pos] costs(2)[of W tile] next_to_neighbour[OF d, of v' "nodes N ! n" "pz endPos"]
      by (simp_all add: v'_def newg_def pos_def[symmetric] can_walk_def z t)
    show ?thesis
    proof (cases "getNodeInList (px pos) (py pos) N")
      case None
      then obtain j N1 where "createOpenNode N = Some (j, N1)" "N' = set_node j v' N1"
        using r False by (auto simp: relax_to_def Let_def pos_def[symmetric] t newg_def h_def v'_def split: if_splits)
      then show ?thesis using create_inv[OF inv n _ v'(1-4)] by simp
    next
      case (Some j)
      then have "N' = set_node j v' (openNode j N)" "n_g v' < n_g (nodes N ! j)"
        using r False by (auto simp: relax_to_def Let_def pos_def[symmetric] t newg_def h_def v'_def split: if_splits)
      then show ?thesis
        using reopen_inv[OF inv n _ v'(1,2) _ v'(3,4), of j] getNodeInList_Some[OF Some] v'(5,6) by simp
    qed
  qed
qed

interpretation match: path_search n_f start "can_walk (q_map Q) (q_walker Q) (pz (q_start Q))" "relax_match Q"
  for start Q
proof
  let ?walk = "can_walk (q_map Q) (q_walker Q) (pz (q_start Q))"
  fix N n d N'
  assume inv: "path_inv n_f start ?walk N" and n: "n < length (nodes N)"
    and d: "d \<in> set neighbourOrderList" and r: "relax_match Q n d N = Some N'"
  define pos where "pos = neighbour (nodes N ! n) (pz (q_start Q)) d"
  have z: "Position (px pos) (py pos) (pz (q_start Q)) = pos" by (simp add: pos_def neighbour_def)
  show "path_inv n_f start ?walk N' \<and> progress n_f N N'"
  proof (cases "N' = N")
    case True
    then show ?thesis using inv by simp
  next
    case False
    then obtain tile where t: "canWalkTo (q_map Q) (q_walker Q) pos = Some tile"
      using r by (auto simp: relax_match_def Let_def pos_def[symmetric] split: if_splits option.splits)
    define newf where "newf = n_f (nodes N ! n) + getMapWalkCost (nodes N ! n) pos + getTileWalkCost (q_walker Q) tile"
    define put where "put = (\<lambda>w :: astar_node. w\<lparr>n_x := px pos, n_y := py pos, n_parent := Some n, n_f := newf\<rparr>)"
    have v': "n_parent (put w) = Some n" "n_f (nodes N ! n) + 10 \<le> n_f (put w)" "next_to (nodes N ! n) (put w)"
      "?walk (n_x (put w)) (n_y (put w))" "n_x (put w) = px pos" "n_y (put w) = py pos" for w
      using costs(1)[of "nodes N ! n" pos] costs(2)[of "q_walker Q" tile]
        next_to_neighbour[OF d, of "put w" "nodes N ! n" "pz (q_start Q)"]
      by (simp_all add: put_def newf_def pos_def[symmetric] can_walk_def z t)
    show ?thesis
    proof (cases "getNodeInList (px pos) (py pos) N")
      case None
      then obtain j N1 where "createOpenNode N = Some (j, N1)" "N' = set_node j (put (nodes N1 ! j)) N1"
        using r False by (auto simp: relax_match_def Let_def pos_def[symmetric] t newf_def put_def split: if_splits)
      then show ?thesis using create_inv[OF inv n _ v'(1-4)] by simp
    next
      case (Some j)
      then have "N' = set_node j (put (nodes N ! j)) (openNode j N)" "n_f (put (nodes N ! j)) < n_f (nodes N ! j)"
        using r False by (auto simp: relax_match_def Let_def pos_def[symmetric] t newf_def put_def openNode_def split: if_splits)
      then show ?thesis
        using reopen_inv[OF inv n _ v'(1,2) _ v'(3,4), of j] getNodeInList_Some[OF Some] v'(5,6) by simp
    qed
  qed
qed

section \<open>The searches end\<close>

lemma search_to_ends:
  "path_inv n_g start (can_walk m W (pz endPos)) N \<Longrightarrow>
    \<exists>r. search_to m W endPos maxDist N = Some r
      \<and> (case r of None \<Rightarrow> True
         | Some (N', n) \<Rightarrow> path_inv n_g start (can_walk m W (pz endPos)) N' \<and> n < length (nodes N')
             \<and> place N' n = (px endPos, py endPos))"
proof (induction N rule: wf_induct_rule[OF rank_wf[of n_g]])
  case (1 N)
  show ?case
  proof (cases "(maxDist \<noteq> - 1 \<or> countClosedNodes N < 100) \<and> getBestNode N \<noteq> None")
    case False
    then show ?thesis by (subst search_to.simps) (auto split: option.split)
  next
    case True
    then obtain n where n: "getBestNode N = Some n" by blast
    have c: "maxDist \<noteq> - 1 \<or> countClosedNodes N < 100" using True by simp
    show ?thesis
    proof (cases "n_x (nodes N ! n) = px endPos \<and> n_y (nodes N ! n) = py endPos")
      case True
      then show ?thesis using 1(2) getBestNode_open[OF n] by (subst search_to.simps) (simp add: c n place_def)
    next
      case False
      show ?thesis
      proof (cases "relax_all (relax_to m W endPos maxDist n) neighbourOrderList N")
        case None
        then have "search_to m W endPos maxDist N = Some None" using False by (subst search_to.simps) (auto simp: c n)
        then show ?thesis by simp
      next
        case (Some N1)
        have s: "path_inv n_g start (can_walk m W (pz endPos)) (closeNode n N1)" "(closeNode n N1, N) \<in> rank_rel n_g"
          using to.round_all[OF 1(2) n _ Some] by simp_all
        have "search_to m W endPos maxDist N = search_to m W endPos maxDist (closeNode n N1)"
          by (subst search_to.simps) (simp only: c n Some if_True option.case if_not_P[OF False])
        then show ?thesis using 1(1)[OF s(2,1)] by simp
      qed
    qed
  qed
qed

lemma pathCondition_total: "pathCondition m blocks target fpp startPos testPos best \<noteq> None"
proof -
  obtain b where "isSightClear m blocks testPos target True = Some b" using isSightClear_total by blast
  then show ?thesis by (cases "clearSight fpp") (simp_all add: pathCondition_def Let_def ex_bool_eq)
qed

text \<open>A node that was found is one the condition accepts.\<close>

definition accepted :: "path_query \<Rightarrow> u16 \<times> u16 \<Rightarrow> bool" where
  "accepted Q p \<longleftrightarrow> (\<exists>best best'. pathCondition (q_map Q) (q_blocks Q) (q_target Q) (q_params Q) (q_start Q)
     (Position (fst p) (snd p) (pz (q_start Q))) best = Some (True, best'))"

definition found_ok :: "path_query \<Rightarrow> astar_nodes \<Rightarrow> nat option \<Rightarrow> bool" where
  "found_ok Q N found \<longleftrightarrow> (\<forall>i. found = Some i \<longrightarrow> i < length (nodes N) \<and> accepted Q (place N i))"

lemma found_ok_progress: "found_ok Q N found \<Longrightarrow> progress key N N' \<Longrightarrow> found_ok Q (closeNode n N') found"
  by (auto simp: found_ok_def progress_def closeNode_def place_def)

text \<open>One round of the search, with the condition and the nodes as they come out of it.\<close>

lemma search_match_round:
  assumes best: "getBestNode N = Some n" and c: "maxSearchDist (q_params Q) \<noteq> - 1 \<or> countClosedNodes N < 100"
    and pc: "pathCondition (q_map Q) (q_blocks Q) (q_target Q) (q_params Q) (q_start Q)
      (Position (n_x (nodes N ! n)) (n_y (nodes N ! n)) (pz (q_start Q))) bestMatch = Some (ok, best')"
    and f: "found' = (if ok then Some n else found)"
    and dirs: "dirs = take (if allowDiagonal (q_params Q) then 8 else 4) neighbourOrderList"
  shows "search_match Q N found bestMatch =
    (if ok \<and> best' = 0 then Some (Some (N, n))
     else if found' \<noteq> None then search_match Q (closeNode n (relax_found (relax_match Q n) dirs N)) found' best'
     else case relax_all (relax_match Q n) dirs N of
       None \<Rightarrow> Some None
     | Some N \<Rightarrow> search_match Q (closeNode n N) found' best')"
  by (subst search_match.simps) (simp only: best c pc f dirs option.case bind.bind_lunit fst_conv snd_conv Let_def if_True)

lemma search_match_ends:
  fixes start :: "u16 \<times> u16"
  shows "path_inv n_f start (can_walk (q_map Q) (q_walker Q) (pz (q_start Q))) N \<Longrightarrow> found_ok Q N found \<Longrightarrow>
    \<exists>r. search_match Q N found bestMatch = Some r
      \<and> (case r of None \<Rightarrow> True
         | Some (N', n) \<Rightarrow> path_inv n_f start (can_walk (q_map Q) (q_walker Q) (pz (q_start Q))) N'
             \<and> found_ok Q N' (Some n))"
proof (induction N arbitrary: found bestMatch rule: wf_induct_rule[OF rank_wf[of n_f]])
  case (1 N)
  let ?walk = "can_walk (q_map Q) (q_walker Q) (pz (q_start Q))"
  show ?case
  proof (cases "(maxSearchDist (q_params Q) \<noteq> - 1 \<or> countClosedNodes N < 100) \<and> getBestNode N \<noteq> None")
    case False
    then have "search_match Q N found bestMatch = Some (map_option (\<lambda>n. (N, n)) found)"
      by (subst search_match.simps) (auto split: option.split)
    then show ?thesis using 1(2,3) by (cases found) simp_all
  next
    case True
    then obtain n where n: "getBestNode N = Some n" by blast
    have n': "n < length (nodes N)" using getBestNode_open[OF n] by simp
    obtain ok best' where pc: "pathCondition (q_map Q) (q_blocks Q) (q_target Q) (q_params Q) (q_start Q)
        (Position (n_x (nodes N ! n)) (n_y (nodes N ! n)) (pz (q_start Q))) bestMatch = Some (ok, best')"
      using pathCondition_total by (metis not_None_eq surj_pair)
    define dirs where "dirs = take (if allowDiagonal (q_params Q) then 8 else 4) neighbourOrderList"
    define found' where "found' = (if ok then Some n else found)"
    have sub: "set dirs \<subseteq> set neighbourOrderList" unfolding dirs_def by (rule set_take_subset)
    have "accepted Q (place N n)" if ok
      unfolding accepted_def place_def fst_conv snd_conv by (intro exI) (use pc that in simp)
    then have fo: "found_ok Q N found'" using 1(3) n' by (simp add: found'_def found_ok_def)
    note round = search_match_round[OF n conjunct1[OF True] pc found'_def dirs_def]
    show ?thesis
    proof (cases "ok \<and> best' = 0")
      case True
      then show ?thesis using 1(2) fo unfolding round by (simp add: found'_def)
    next
      case False
      show ?thesis
      proof (cases "found' = None")
        case None: True
        show ?thesis
        proof (cases "relax_all (relax_match Q n) dirs N")
          case None2: None
          show ?thesis unfolding round by (simp add: False None None2)
        next
          case (Some N1)
          have s: "path_inv n_f start ?walk (closeNode n N1)" "(closeNode n N1, N) \<in> rank_rel n_f"
            using match.round_all[OF 1(2) n sub Some] by simp_all
          show ?thesis unfolding round if_not_P[OF False] using 1(1)[OF s(2,1), of found' best'] None Some
            by (simp add: found_ok_def)
        qed
      next
        case F: False
        let ?N1 = "closeNode n (relax_found (relax_match Q n) dirs N)"
        have s: "path_inv n_f start ?walk ?N1" "(?N1, N) \<in> rank_rel n_f" using match.round_found[OF 1(2) n sub] by simp_all
        have "found_ok Q ?N1 found'"
          using found_ok_progress[OF fo] match.relax_found_step[OF 1(2) n' sub] by blast
        then show ?thesis unfolding round if_not_P[OF False] if_P[OF F] by (rule 1(1)[OF s(2,1)])
      qed
    qed
  qed
qed

section \<open>The directions read from the nodes\<close>

fun positions_along :: "position \<Rightarrow> direction list \<Rightarrow> position list" where
  "positions_along p [] = []"
| "positions_along p (d # ds) = getNextPosition d p # positions_along (getNextPosition d p) ds"

lemma positions_along_snoc:
  "positions_along p (ds @ [d]) = positions_along p ds @ [getNextPosition d (last (p # positions_along p ds))]"
  by (induction ds arbitrary: p) auto

definition node_pos :: "u16 \<Rightarrow> astar_nodes \<Rightarrow> nat \<Rightarrow> position" where
  "node_pos z N i = Position (n_x (nodes N ! i)) (n_y (nodes N ! i)) z"

lemma node_pos_sel [simp]: "px (node_pos z N i) = n_x (nodes N ! i)" "py (node_pos z N i) = n_y (nodes N ! i)" "pz (node_pos z N i) = z"
  by (simp_all add: node_pos_def)

text \<open>No place of a node is on the last column or row, so that no step wraps around.\<close>

definition inside :: "u16 \<Rightarrow> u16 \<Rightarrow> bool" where
  "inside x y \<longleftrightarrow> x \<noteq> - 1 \<and> y \<noteq> - 1"

lemma uint_succ_u16: "(x :: u16) \<noteq> - 1 \<Longrightarrow> uint (x + 1) = uint x + 1"
proof -
  assume "x \<noteq> - 1"
  then have "x < - 1" by (simp add: word_order.not_eq_extremum)
  then have "x < x + 1" by unat_arith
  then show ?thesis using uint_plus_simple[of x 1] by simp
qed

lemma uint_pred_u16: "(x :: u16) - 1 \<noteq> - 1 \<Longrightarrow> uint (x - 1) = uint x - 1"
  using uint_succ_u16[of "x - 1"] by simp

lemma step_no_wrap:
  "(x :: u16) \<noteq> - 1 \<Longrightarrow> x + of_int a \<noteq> - 1 \<Longrightarrow> a \<in> {- 1, 0, 1} \<Longrightarrow> uint (x + of_int a) - uint x = a"
  using uint_succ_u16[of x] uint_pred_u16[of x] by auto

lemma back_dir_next:
  assumes "next_to v w" "inside (n_x v) (n_y v)" "inside (n_x w) (n_y w)"
  obtains d where "back_dir (uint (n_x v) - uint (n_x w)) (uint (n_y v) - uint (n_y w)) = Some d"
    "getNextPosition d (Position (n_x v) (n_y v) z) = Position (n_x w) (n_y w) z"
proof -
  obtain a b where ab: "(a, b) \<in> set neighbourOrderList" and w: "n_x w = n_x v + of_int a" "n_y w = n_y v + of_int b"
    using assms(1) by (auto simp: next_to_def)
  have "a \<in> {- 1, 0, 1}" "b \<in> {- 1, 0, 1}" using ab by (auto simp: neighbourOrderList_def)
  then have "uint (n_x v) - uint (n_x w) = - a" "uint (n_y v) - uint (n_y w) = - b"
    using step_no_wrap[of "n_x v" a] step_no_wrap[of "n_y v" b] assms(2,3) by (simp_all add: inside_def w)
  then show thesis using that ab w by (auto simp: neighbourOrderList_def back_dir_def)
qed

lemma step_dir_next:
  assumes "next_to v w" "inside (n_x v) (n_y v)" "inside (n_x w) (n_y w)"
  obtains d where "step_dir (uint (n_x v) - uint (n_x w)) (uint (n_y v) - uint (n_y w)) = Some d"
    "getNextPosition d (Position (n_x w) (n_y w) z) = Position (n_x v) (n_y v) z"
proof -
  obtain a b where ab: "(a, b) \<in> set neighbourOrderList" and w: "n_x w = n_x v + of_int a" "n_y w = n_y v + of_int b"
    using assms(1) by (auto simp: next_to_def)
  have "a \<in> {- 1, 0, 1}" "b \<in> {- 1, 0, 1}" using ab by (auto simp: neighbourOrderList_def)
  then have "uint (n_x v) - uint (n_x w) = - a" "uint (n_y v) - uint (n_y w) = - b"
    using step_no_wrap[of "n_x v" a] step_no_wrap[of "n_y v" b] assms(2,3) by (simp_all add: inside_def w)
  then show thesis using that ab w by (auto simp: neighbourOrderList_def step_dir_def)
qed

text \<open>A rule for the nodes: the first, and any other from its parent.\<close>

lemma parent_induct:
  assumes inv: "path_inv key start walk N" and i: "i < length (nodes N)"
    and root: "n_parent (nodes N ! 0) = None \<Longrightarrow> P 0"
    and step: "\<And>i p. i < length (nodes N) \<Longrightarrow> p < length (nodes N) \<Longrightarrow> n_parent (nodes N ! i) = Some p \<Longrightarrow>
      next_to (nodes N ! p) (nodes N ! i) \<Longrightarrow> walk (n_x (nodes N ! i)) (n_y (nodes N ! i)) \<Longrightarrow> P p \<Longrightarrow> P i"
  shows "P i"
  using i
proof (induction "nat (key (nodes N ! i))" arbitrary: i rule: less_induct)
  case less
  show ?case
  proof (cases "i = 0")
    case True
    then show ?thesis using root path_invD(4)[OF inv] by simp
  next
    case False
    then obtain p where p: "p < length (nodes N)" "n_parent (nodes N ! i) = Some p" "key (nodes N ! p) + 10 \<le> key (nodes N ! i)"
      "next_to (nodes N ! p) (nodes N ! i)" "walk (n_x (nodes N ! i)) (n_y (nodes N ! i))"
      using path_invD(8)[OF inv less.prems] by blast
    have "nat (key (nodes N ! p)) < nat (key (nodes N ! i))" using p(3) path_invD(7)[OF inv p(1)] by linarith
    then show ?thesis using step[OF less.prems p(1,2,4,5) less.hyps] p(1) by blast
  qed
qed

lemma node_inside:
  assumes inv: "path_inv key start walk N" and i: "i < length (nodes N)"
    and s: "inside (fst start) (snd start)" and w: "\<And>x y. walk x y \<Longrightarrow> inside x y"
  shows "inside (n_x (nodes N ! i)) (n_y (nodes N ! i))"
  using path_invD(6)[OF inv] path_invD(8)[OF inv i] s w by (cases "i = 0") auto

lemma read_back_ends:
  assumes "path_inv key start walk N" "i < length (nodes N)"
  shows "read_back N (n_parent (nodes N ! i)) a b ds \<noteq> None"
  using assms(2)
proof (induction i arbitrary: a b ds rule: parent_induct[OF assms(1)])
  case 2
  then show ?case by (simp add: read_back.simps)
next
  case (3 i p)
  then show ?case by (simp add: read_back.simps[of N "Some p"] Let_def)
qed (rule assms)

lemma read_path_ends:
  assumes "path_inv key start walk N" "i < length (nodes N)"
  shows "read_path N (n_parent (nodes N ! i)) a b \<noteq> None"
  using assms(2)
proof (induction i arbitrary: a b rule: parent_induct[OF assms(1)])
  case 2
  then show ?case by (simp add: read_path.simps)
next
  case (3 i p)
  obtain ds where "read_path N (n_parent (nodes N ! p)) (uint (n_x (nodes N ! p))) (uint (n_y (nodes N ! p))) = Some ds"
    using 3 by blast
  then show ?case by (simp add: 3(3) read_path.simps[of N "Some p"] Let_def)
qed (rule assms)

lemma read_back_walk:
  assumes inv: "path_inv key start walk N" and i: "i < length (nodes N)"
    and s: "inside (fst start) (snd start)" and w: "\<And>x y. walk x y \<Longrightarrow> inside x y"
  shows "\<exists>ds'. read_back N (n_parent (nodes N ! i)) (uint (n_x (nodes N ! i))) (uint (n_y (nodes N ! i))) ds = Some (ds' @ ds)
    \<and> last (node_pos z N 0 # positions_along (node_pos z N 0) ds') = node_pos z N i
    \<and> (\<forall>p\<in>set (positions_along (node_pos z N 0) ds'). walk (px p) (py p) \<and> pz p = z)"
  using i
proof (induction i arbitrary: ds rule: parent_induct[OF inv])
  case 2
  then show ?case by (simp add: read_back.simps)
next
  case (3 i p)
  obtain d where d: "back_dir (uint (n_x (nodes N ! p)) - uint (n_x (nodes N ! i))) (uint (n_y (nodes N ! p)) - uint (n_y (nodes N ! i))) = Some d"
    "getNextPosition d (node_pos z N p) = node_pos z N i"
    unfolding node_pos_def
    using back_dir_next[OF 3(4) node_inside[OF inv 3(2) s w] node_inside[OF inv 3(1) s w]] by blast
  obtain ds' where ds': "read_back N (n_parent (nodes N ! p)) (uint (n_x (nodes N ! p))) (uint (n_y (nodes N ! p))) (d # ds) = Some (ds' @ d # ds)"
    "last (node_pos z N 0 # positions_along (node_pos z N 0) ds') = node_pos z N p"
    "\<forall>p\<in>set (positions_along (node_pos z N 0) ds'). walk (px p) (py p) \<and> pz p = z"
    using 3(6) 3(2) by blast
  have e: "positions_along (node_pos z N 0) (ds' @ [d]) = positions_along (node_pos z N 0) ds' @ [node_pos z N i]"
    by (simp only: positions_along_snoc ds'(2) d(2))
  show ?case
  proof (intro exI[of _ "ds' @ [d]"] conjI)
    show "read_back N (n_parent (nodes N ! i)) (uint (n_x (nodes N ! i))) (uint (n_y (nodes N ! i))) ds = Some ((ds' @ [d]) @ ds)"
      using ds'(1) by (simp add: 3(3) read_back.simps[of N "Some p"] Let_def d(1))
  qed (use ds'(3) 3(5) in \<open>simp_all add: e\<close>)
qed (rule i)

lemma read_path_walk:
  assumes inv: "path_inv key start walk N" and i: "i < length (nodes N)"
    and s: "walk (fst start) (snd start)" and w: "\<And>x y. walk x y \<Longrightarrow> inside x y"
  shows "\<exists>ds. read_path N (n_parent (nodes N ! i)) (uint (n_x (nodes N ! i))) (uint (n_y (nodes N ! i))) = Some ds
    \<and> last (node_pos z N i # positions_along (node_pos z N i) ds) = node_pos z N 0
    \<and> (\<forall>p\<in>set (positions_along (node_pos z N i) ds). walk (px p) (py p) \<and> pz p = z)"
  using i
proof (induction i rule: parent_induct[OF inv])
  case 2
  then show ?case by (simp add: read_path.simps)
next
  case (3 i p)
  note s' = w[OF s]
  obtain d where d: "step_dir (uint (n_x (nodes N ! p)) - uint (n_x (nodes N ! i))) (uint (n_y (nodes N ! p)) - uint (n_y (nodes N ! i))) = Some d"
    "getNextPosition d (node_pos z N i) = node_pos z N p"
    unfolding node_pos_def
    using step_dir_next[OF 3(4) node_inside[OF inv 3(2) s' w] node_inside[OF inv 3(1) s' w]] by blast
  obtain ds where ds: "read_path N (n_parent (nodes N ! p)) (uint (n_x (nodes N ! p))) (uint (n_y (nodes N ! p))) = Some ds"
    "last (node_pos z N p # positions_along (node_pos z N p) ds) = node_pos z N 0"
    "\<forall>p\<in>set (positions_along (node_pos z N p) ds). walk (px p) (py p) \<and> pz p = z"
    using 3(6) 3(2) by blast
  have "walk (n_x (nodes N ! p)) (n_y (nodes N ! p))"
    using path_invD(6)[OF inv] path_invD(8)[OF inv 3(2)] s by (cases "p = 0") auto
  then show ?case
    using ds by (intro exI[of _ "d # ds"])
      (simp add: 3(3) read_path.simps[of N "Some p"] Let_def d)
qed (rule i)

section \<open>What a search answers\<close>

lemma search_to_start:
  "path_inv n_g (px destPos, py destPos) walk
    \<lparr>nodes = [\<lparr>n_x = px destPos, n_y = py destPos, n_parent = None, n_f = h, n_g = 0, n_h = h\<rparr>], openNodes = [True]\<rparr>"
  by (simp add: path_inv_def MAX_NODES_def)

lemma search_match_start:
  "path_inv n_f (x, y) walk \<lparr>nodes = [\<lparr>n_x = x, n_y = y, n_parent = None, n_f = 0, n_g = 0, n_h = 0\<rparr>], openNodes = [True]\<rparr>"
  by (simp add: path_inv_def MAX_NODES_def)

lemma position_eta: "pz p = z \<Longrightarrow> Position (px p) (py p) z = p"
  by (cases p) simp

lemma getPathTo_cases:
  obtains ds where "getPathTo m W creaturePos destPos l maxDist = Some (False, ds)"
  | N n ds where "path_inv n_g (px destPos, py destPos) (can_walk m W (pz creaturePos)) N" "n < length (nodes N)"
    "node_pos (pz creaturePos) N n = creaturePos" "can_walk m W (pz creaturePos) (px destPos) (py destPos)"
    "pz destPos = pz creaturePos"
    "read_path N (n_parent (nodes N ! n)) (uint (px creaturePos)) (uint (py creaturePos)) = Some ds"
    "getPathTo m W creaturePos destPos l maxDist = Some (ds \<noteq> [], ds)"
proof (cases "canWalkTo m W destPos = None \<or> pz destPos \<noteq> pz creaturePos")
  case True
  then show thesis by (intro that(1)[of "if canWalkTo m W destPos = None then l else []"]) (auto simp: getPathTo_def)
next
  case False
  then have no: "\<not> canWalkTo m W destPos = None" "\<not> pz destPos \<noteq> pz creaturePos" by simp_all
  define h where "h = getEstimatedDistance (px destPos) (py destPos) (px creaturePos) (py creaturePos)"
  define start where "start = \<lparr>n_x = px destPos, n_y = py destPos, n_parent = None, n_f = h, n_g = 0, n_h = h\<rparr>"
  obtain r where r: "search_to m W creaturePos maxDist \<lparr>nodes = [start], openNodes = [True]\<rparr> = Some r"
    "case r of None \<Rightarrow> True | Some (N, n) \<Rightarrow> path_inv n_g (px destPos, py destPos) (can_walk m W (pz creaturePos)) N
      \<and> n < length (nodes N) \<and> place N n = (px creaturePos, py creaturePos)"
    using search_to_ends[where m = m and W = W and endPos = creaturePos and maxDist = maxDist, OF search_to_start[where destPos = destPos and h = h]]
    unfolding start_def by blast
  show thesis
  proof (cases r)
    case None
    then show thesis using r(1) False by (intro that(1)[of "[]"]) (auto simp add: getPathTo_def h_def start_def Let_def)
  next
    case (Some Nn)
    obtain N n where N: "r = Some (N, n)" "path_inv n_g (px destPos, py destPos) (can_walk m W (pz creaturePos)) N"
      "n < length (nodes N)" "n_x (nodes N ! n) = px creaturePos" "n_y (nodes N ! n) = py creaturePos"
      using r(2) Some by (cases Nn) (simp add: place_def)
    obtain ds where ds: "read_path N (n_parent (nodes N ! n)) (uint (px creaturePos)) (uint (py creaturePos)) = Some ds"
      using read_path_ends[OF N(2,3)] by blast
    have "read_path N (Some n) (uint (px creaturePos)) (uint (py creaturePos)) = Some ds"
      by (subst read_path.simps) (simp add: Let_def N(4,5) ds step_dir_def)
    then have "getPathTo m W creaturePos destPos l maxDist = Some (ds \<noteq> [], ds)"
      unfolding getPathTo_def if_not_P[OF no(1)] if_not_P[OF no(2)] Let_def h_def[symmetric] start_def[symmetric] using r(1) N(1) by simp
    moreover have "can_walk m W (pz creaturePos) (px destPos) (py destPos)"
      using False by (cases destPos) (simp add: can_walk_def)
    ultimately show thesis using that(2)[OF N(2,3) _ _ _ ds] N(4,5) False by (simp add: node_pos_def)
  qed
qed

lemma getPathMatching_cases:
  obtains "getPathMatching Q = Some (False, [])"
  | N n ds where "path_inv n_f (px (q_start Q), py (q_start Q)) (can_walk (q_map Q) (q_walker Q) (pz (q_start Q))) N"
    "n < length (nodes N)" "accepted Q (place N n)"
    "read_back N (n_parent (nodes N ! n)) (uint (n_x (nodes N ! n))) (uint (n_y (nodes N ! n))) [] = Some ds"
    "getPathMatching Q = Some (True, ds)"
proof -
  obtain r where r: "search_match Q \<lparr>nodes = [\<lparr>n_x = px (q_start Q), n_y = py (q_start Q), n_parent = None, n_f = 0,
      n_g = 0, n_h = 0\<rparr>], openNodes = [True]\<rparr> None 0 = Some r"
    "case r of None \<Rightarrow> True | Some (N, n) \<Rightarrow> path_inv n_f (px (q_start Q), py (q_start Q))
      (can_walk (q_map Q) (q_walker Q) (pz (q_start Q))) N \<and> found_ok Q N (Some n)"
    using search_match_ends[OF search_match_start[where x = "px (q_start Q)" and y = "py (q_start Q)"], of Q None 0]
    by (auto simp: found_ok_def)
  show thesis
  proof (cases r)
    case None
    then show thesis using r(1) by (intro that(1)) (simp add: getPathMatching_def Let_def)
  next
    case (Some Nn)
    obtain N n where N: "r = Some (N, n)" "path_inv n_f (px (q_start Q), py (q_start Q))
        (can_walk (q_map Q) (q_walker Q) (pz (q_start Q))) N" "n < length (nodes N)" "accepted Q (place N n)"
      using r(2) Some by (cases Nn) (simp add: found_ok_def)
    obtain ds where ds: "read_back N (n_parent (nodes N ! n)) (uint (n_x (nodes N ! n))) (uint (n_y (nodes N ! n))) [] = Some ds"
      using read_back_ends[OF N(2,3)] by blast
    then have "getPathMatching Q = Some (True, ds)" using r(1) N(1) by (simp add: getPathMatching_def Let_def)
    then show thesis using that(2)[OF N(2-4) ds] by simp
  qed
qed

text \<open>
  C28. Both searches for a path end, on every map and for every answer of the tiles, with and without a bound on the
  distance: the number of nodes is bounded, and a node is opened again only when its cost goes down.
\<close>

theorem path_searches_end:
  "(\<exists>r. getPathTo m W creaturePos destPos l maxDist = Some r) \<and> (\<exists>r. getPathMatching Q = Some r)"
  by (rule conjI; rule getPathTo_cases getPathMatching_cases; blast)

text \<open>
  The directions that \<open>getPathTo\<close> answers lead from the creature to the destination, over positions the
  creature may go to, when none of these is on the last column or row (where a coordinate wraps around).
\<close>

theorem getPathTo_leads_there:
  assumes "getPathTo m W creaturePos destPos l maxDist = Some (True, ds)"
    and "\<And>x y. can_walk m W (pz creaturePos) x y \<Longrightarrow> inside x y"
  shows "ds \<noteq> [] \<and> last (creaturePos # positions_along creaturePos ds) = destPos
    \<and> (\<forall>p\<in>set (positions_along creaturePos ds). canWalkTo m W p \<noteq> None)"
proof (rule getPathTo_cases[of m W creaturePos destPos l maxDist])
  fix N n ds'
  assume N: "path_inv n_g (px destPos, py destPos) (can_walk m W (pz creaturePos)) N" "n < length (nodes N)"
    "node_pos (pz creaturePos) N n = creaturePos" "can_walk m W (pz creaturePos) (px destPos) (py destPos)"
    "pz destPos = pz creaturePos"
    "read_path N (n_parent (nodes N ! n)) (uint (px creaturePos)) (uint (py creaturePos)) = Some ds'"
    "getPathTo m W creaturePos destPos l maxDist = Some (ds' \<noteq> [], ds')"
  have n: "n_x (nodes N ! n) = px creaturePos" "n_y (nodes N ! n) = py creaturePos"
    using N(3) by (metis node_pos_sel(1), metis node_pos_sel(2))
  have z: "node_pos (pz creaturePos) N 0 = destPos"
    using path_invD(6)[OF N(1)] N(5) by (cases destPos) (simp add: node_pos_def)
  have ds: "ds' = ds" "ds \<noteq> []" using N(7) assms(1) by simp_all
  have "\<exists>es. read_path N (n_parent (nodes N ! n)) (uint (px creaturePos)) (uint (py creaturePos)) = Some es
    \<and> last (creaturePos # positions_along creaturePos es) = destPos
    \<and> (\<forall>p\<in>set (positions_along creaturePos es). can_walk m W (pz creaturePos) (px p) (py p) \<and> pz p = pz creaturePos)"
    using read_path_walk[where z = "pz creaturePos", OF N(1,2) _ assms(2)] N(4) unfolding n z N(3) fst_conv snd_conv by blast
  then have w: "last (creaturePos # positions_along creaturePos ds) = destPos"
    "\<forall>p\<in>set (positions_along creaturePos ds). can_walk m W (pz creaturePos) (px p) (py p) \<and> pz p = pz creaturePos"
    unfolding N(6) option.inject ds(1) by blast+
  have "canWalkTo m W p \<noteq> None" if "p \<in> set (positions_along creaturePos ds)" for p
    using w(2) that by (cases p) (auto simp: can_walk_def)
  then show ?thesis using w(1) ds(2) by blast
qed (use assms(1) in simp)

text \<open>
  C26. The directions that \<open>getPathMatching\<close> answers lead from the creature, over positions it may go to, to
  one that the condition accepts, again when none of these is on the last column or row.
\<close>

theorem getPathMatching_leads_there:
  assumes "getPathMatching Q = Some (True, ds)"
    and "inside (px (q_start Q)) (py (q_start Q))"
    and "\<And>x y. can_walk (q_map Q) (q_walker Q) (pz (q_start Q)) x y \<Longrightarrow> inside x y"
  shows "(\<forall>p\<in>set (positions_along (q_start Q) ds). canWalkTo (q_map Q) (q_walker Q) p \<noteq> None)
    \<and> (\<exists>best best'. pathCondition (q_map Q) (q_blocks Q) (q_target Q) (q_params Q) (q_start Q)
          (last (q_start Q # positions_along (q_start Q) ds)) best = Some (True, best'))"
proof (rule getPathMatching_cases[of Q])
  fix N n ds'
  assume N: "path_inv n_f (px (q_start Q), py (q_start Q)) (can_walk (q_map Q) (q_walker Q) (pz (q_start Q))) N"
    "n < length (nodes N)" "accepted Q (place N n)"
    "read_back N (n_parent (nodes N ! n)) (uint (n_x (nodes N ! n))) (uint (n_y (nodes N ! n))) [] = Some ds'"
    "getPathMatching Q = Some (True, ds')"
  have z: "node_pos (pz (q_start Q)) N 0 = q_start Q"
    using path_invD(6)[OF N(1)] by (cases "q_start Q") (simp add: node_pos_def)
  have ds: "ds' = ds" using N(5) assms(1) by simp
  have w: "last (q_start Q # positions_along (q_start Q) ds) = node_pos (pz (q_start Q)) N n"
    "\<forall>p\<in>set (positions_along (q_start Q) ds). can_walk (q_map Q) (q_walker Q) (pz (q_start Q)) (px p) (py p) \<and> pz p = pz (q_start Q)"
    using read_back_walk[OF N(1,2) _ assms(3), where z = "pz (q_start Q)" and ds = "[]"] assms(2) N(4) by (simp_all add: z ds)
  then show ?thesis
    using N(3) unfolding w(1) by (auto simp: can_walk_def position_eta accepted_def place_def node_pos_def)
qed (use assms(1) in simp)

text \<open>A creature in one corner of a square of four tiles, whose tile to the north-east is full.\<close>

definition square_map :: map_state where
  "square_map = setTile 101 101 7 4 (setTile 100 101 7 3 (setTile 101 100 7 2 (setTile 100 100 7 1 empty_map)))"

definition square_walker :: walker where
  "square_walker = \<lparr>walk_cache = (\<lambda>p. if px p = - 1 \<or> py p = - 1 then 0 else 2), own_tile = Some 1,
     can_enter = (\<lambda>t. t \<noteq> 2), visible_creature = (\<lambda>_. False), harmful_field = (\<lambda>_. False)\<rparr>"

definition square_query :: path_query where
  "square_query = \<lparr>q_map = square_map, q_blocks = (\<lambda>_. False), q_walker = square_walker,
     q_start = Position 100 100 7, q_target = Position 101 101 7,
     q_params = \<lparr>fullPathSearch = True, clearSight = False, allowDiagonal = False, keepDistance = False,
       maxSearchDist = 3, minTargetDist = 0, maxTargetDist = 0\<rparr>\<rparr>"

lemma square_inside: "can_walk m square_walker z x y \<Longrightarrow> inside x y"
  by (auto simp: can_walk_def canWalkTo_def square_walker_def inside_def split: if_splits)

lemma square_searches:
  "getPathTo square_map square_walker (Position 100 100 7) (Position 101 101 7) [NORTH] 3 = Some (True, [SOUTH, EAST])"
  "getPathMatching square_query = Some (True, [SOUTH, EAST])"
  by code_simp+

text \<open>Two straight steps, which cost less than a diagonal one.\<close>

theorem getPathTo_leads_there_witness:
  "last (Position 100 100 7 # positions_along (Position 100 100 7) [SOUTH, EAST]) = Position 101 101 7
    \<and> canWalkTo square_map square_walker (Position 100 101 7) \<noteq> None"
  using getPathTo_leads_there[OF square_searches(1) square_inside] by simp

text \<open>Around the corner, without diagonal steps.\<close>

theorem getPathMatching_leads_there_witness:
  "canWalkTo square_map square_walker (Position 100 101 7) \<noteq> None"
  using getPathMatching_leads_there[OF square_searches(2)] square_inside
  by (simp add: square_query_def inside_def)

end
