(* ===== verification/Tiles.thy ===== *)
theory Tiles
  imports Positions
begin

text \<open>
  The things on a tile, \<^verbatim>\<open>tile.h\<close> / \<^verbatim>\<open>tile.cpp\<close>: a ground, items that stay on top, creatures, and items
  below them, with the flags that sum up the items. Items and creatures are addresses. \<open>listed\<close> says
  whether there is a list of items: a static tile has none until it is made. What spectators are sent, scripts and
  the release of items that are thrown off are left out.
\<close>

section \<open>Item types and items\<close>

datatype floor_change = CHANGE_DOWN | CHANGE_NORTH | CHANGE_EAST | CHANGE_SOUTH | CHANGE_WEST
  | CHANGE_NORTH_EX | CHANGE_EAST_EX | CHANGE_SOUTH_EX | CHANGE_WEST_EX

definition floor_changes :: "floor_change list" where
  "floor_changes = [CHANGE_DOWN, CHANGE_NORTH, CHANGE_SOUTH, CHANGE_EAST, CHANGE_WEST,
     CHANGE_NORTH_EX, CHANGE_SOUTH_EX, CHANGE_EAST_EX, CHANGE_WEST_EX]"

record itype =
  isGroundTile :: bool
  isSplash :: bool
  isMagicField :: bool
  isBed :: bool
  isFluidContainer :: bool
  ty_charges :: bool
  ty_stackable :: bool
  ty_movable :: bool
  ty_pickupable :: bool
  allowPickupable :: bool
  blockSolid :: bool
  blockPathFind :: bool
  blockProjectile :: bool
  hasHeight :: bool
  isVertical :: bool
  isHorizontal :: bool
  isHangable :: bool
  lookThrough :: bool
  replacable :: bool
  alwaysOnTop :: bool
  alwaysOnTopOrder :: int
  ty_floorChange :: "floor_change \<Rightarrow> bool"

text \<open>What a \<^verbatim>\<open>dynamic_cast\<close>-like method such as \<open>getTeleport\<close> answers: the class of an item, for good.\<close>

datatype item_class = Plain | Teleport | MagicField | Mailbox | TrashHolder | Bed | Container bool

record titem =
  i_id :: u16
  i_count :: u8
  i_fluid :: u16
  i_charges :: u16
  loadedFromMap :: bool
  uniqueId :: bool
  actionId :: bool
  i_class :: item_class
  i_parent :: "nat option"

type_synonym itypes = "u16 \<Rightarrow> itype"
type_synonym item_store = "nat \<Rightarrow> titem"

datatype itemproperty = BLOCKSOLID | HASHEIGHT | BLOCKPROJECTILE | BLOCKPATH | ISVERTICAL | ISHORIZONTAL | MOVABLE
  | IMMOVABLEBLOCKSOLID | IMMOVABLEBLOCKPATH | IMMOVABLENOFIELDBLOCKPATH | NOFIELDBLOCKPATH | SUPPORTHANGABLE

definition getContainer :: "titem \<Rightarrow> bool" where
  "getContainer x = (case i_class x of Container _ \<Rightarrow> True | _ \<Rightarrow> False)"

definition fixed_by_map :: "titem \<Rightarrow> bool" where
  "fixed_by_map x \<longleftrightarrow> loadedFromMap x \<and> (uniqueId x \<or> actionId x \<and> getContainer x)"

definition item_hasProperty :: "itypes \<Rightarrow> titem \<Rightarrow> itemproperty \<Rightarrow> bool" where
  "item_hasProperty T x prop =
     (let it = T (i_id x) in
      case prop of
        BLOCKSOLID \<Rightarrow> blockSolid it
      | MOVABLE \<Rightarrow> ty_movable it \<and> (\<not> loadedFromMap x \<or> \<not> uniqueId x \<and> (\<not> actionId x \<or> \<not> getContainer x))
      | HASHEIGHT \<Rightarrow> hasHeight it
      | BLOCKPROJECTILE \<Rightarrow> blockProjectile it
      | BLOCKPATH \<Rightarrow> blockPathFind it
      | ISVERTICAL \<Rightarrow> isVertical it
      | ISHORIZONTAL \<Rightarrow> isHorizontal it
      | IMMOVABLEBLOCKSOLID \<Rightarrow> blockSolid it \<and> (\<not> ty_movable it \<or> fixed_by_map x)
      | IMMOVABLEBLOCKPATH \<Rightarrow> blockPathFind it \<and> (\<not> ty_movable it \<or> fixed_by_map x)
      | SUPPORTHANGABLE \<Rightarrow> isHorizontal it \<or> isVertical it
      | IMMOVABLENOFIELDBLOCKPATH \<Rightarrow> \<not> isMagicField it \<and> blockPathFind it \<and> (\<not> ty_movable it \<or> fixed_by_map x)
      | NOFIELDBLOCKPATH \<Rightarrow> \<not> isMagicField it \<and> blockPathFind it)"

definition item_setSubType :: "itypes \<Rightarrow> u16 \<Rightarrow> titem \<Rightarrow> titem" where
  "item_setSubType T n x =
     (let it = T (i_id x) in
      if isFluidContainer it \<or> isSplash it then x\<lparr>i_fluid := n\<rparr>
      else if ty_charges it then x\<lparr>i_charges := n\<rparr> else x\<lparr>i_count := ucast n\<rparr>)"

section \<open>The tile and its flags\<close>

datatype thing = Item nat | Creature nat

text \<open>The items, those below the creatures first.\<close>

record tile =
  ground :: "nat option"
  titems :: "nat list"
  downItemCount :: u16
  creatures :: "nat list"
  listed :: bool
  m_flags :: u32
  thingCount :: u32


datatype tileflag = TILESTATE_PROTECTIONZONE | TILESTATE_TRASHED | TILESTATE_OPTIONALZONE | TILESTATE_NOLOGOUT
  | TILESTATE_HARDCOREZONE | TILESTATE_REFRESH | TILESTATE_HOUSE | TILESTATE_FLOORCHANGE
  | FLOORCHANGE_TO floor_change | TILESTATE_TELEPORT | TILESTATE_MAGICFIELD | TILESTATE_MAILBOX
  | TILESTATE_TRASHHOLDER | TILESTATE_BED | TILESTATE_DEPOT | TILESTATE_BLOCKSOLID | TILESTATE_BLOCKPATH
  | TILESTATE_IMMOVABLEBLOCKSOLID | TILESTATE_IMMOVABLEBLOCKPATH | TILESTATE_IMMOVABLENOFIELDBLOCKPATH
  | TILESTATE_NOFIELDBLOCKPATH | TILESTATE_DYNAMIC_TILE

fun flag_bit :: "tileflag \<Rightarrow> nat" where
  "flag_bit TILESTATE_PROTECTIONZONE = 0"
| "flag_bit TILESTATE_TRASHED = 1"
| "flag_bit TILESTATE_OPTIONALZONE = 2"
| "flag_bit TILESTATE_NOLOGOUT = 3"
| "flag_bit TILESTATE_HARDCOREZONE = 4"
| "flag_bit TILESTATE_REFRESH = 5"
| "flag_bit TILESTATE_HOUSE = 6"
| "flag_bit TILESTATE_FLOORCHANGE = 7"
| "flag_bit (FLOORCHANGE_TO c) = (case c of CHANGE_DOWN \<Rightarrow> 8 | CHANGE_NORTH \<Rightarrow> 9 | CHANGE_SOUTH \<Rightarrow> 10 | CHANGE_EAST \<Rightarrow> 11
    | CHANGE_WEST \<Rightarrow> 12 | CHANGE_NORTH_EX \<Rightarrow> 13 | CHANGE_SOUTH_EX \<Rightarrow> 14 | CHANGE_EAST_EX \<Rightarrow> 15 | CHANGE_WEST_EX \<Rightarrow> 16)"
| "flag_bit TILESTATE_TELEPORT = 17"
| "flag_bit TILESTATE_MAGICFIELD = 18"
| "flag_bit TILESTATE_MAILBOX = 19"
| "flag_bit TILESTATE_TRASHHOLDER = 20"
| "flag_bit TILESTATE_BED = 21"
| "flag_bit TILESTATE_DEPOT = 22"
| "flag_bit TILESTATE_BLOCKSOLID = 23"
| "flag_bit TILESTATE_BLOCKPATH = 24"
| "flag_bit TILESTATE_IMMOVABLEBLOCKSOLID = 25"
| "flag_bit TILESTATE_IMMOVABLEBLOCKPATH = 26"
| "flag_bit TILESTATE_IMMOVABLENOFIELDBLOCKPATH = 27"
| "flag_bit TILESTATE_NOFIELDBLOCKPATH = 28"
| "flag_bit TILESTATE_DYNAMIC_TILE = 29"

definition flag_val :: "tileflag \<Rightarrow> u32" where
  "flag_val f = push_bit (flag_bit f) 1"

definition hasFlag :: "tileflag \<Rightarrow> tile \<Rightarrow> bool" where
  "hasFlag f t \<longleftrightarrow> m_flags t AND flag_val f = flag_val f"

definition setFlag :: "tileflag \<Rightarrow> tile \<Rightarrow> tile" where
  "setFlag f t = t\<lparr>m_flags := m_flags t OR flag_val f\<rparr>"

definition resetFlag :: "tileflag \<Rightarrow> tile \<Rightarrow> tile" where
  "resetFlag f t = t\<lparr>m_flags := m_flags t AND NOT (flag_val f)\<rparr>"

definition new_tile :: "bool \<Rightarrow> tile" where
  "new_tile dyn = \<lparr>ground = None, titems = [], downItemCount = 0, creatures = [], listed = dyn,
     m_flags = (if dyn then flag_val TILESTATE_DYNAMIC_TILE else 0), thingCount = 0\<rparr>"

section \<open>The order of things\<close>

definition downItems :: "tile \<Rightarrow> nat list" where
  "downItems t = take (unat (downItemCount t)) (titems t)"

definition topItems :: "tile \<Rightarrow> nat list" where
  "topItems t = drop (unat (downItemCount t)) (titems t)"

definition tile_hasProperty :: "itypes \<Rightarrow> item_store \<Rightarrow> tile \<Rightarrow> itemproperty \<Rightarrow> bool" where
  "tile_hasProperty T s t prop \<longleftrightarrow>
     (case ground t of None \<Rightarrow> False | Some g \<Rightarrow> item_hasProperty T (s g) prop)
     \<or> list_ex (\<lambda>i. item_hasProperty T (s i) prop) (titems t)"

definition hasProperty_but :: "itypes \<Rightarrow> item_store \<Rightarrow> tile \<Rightarrow> nat \<Rightarrow> itemproperty \<Rightarrow> bool" where
  "hasProperty_but T s t exclude prop \<longleftrightarrow>
     (case ground t of None \<Rightarrow> False | Some g \<Rightarrow> exclude \<noteq> g \<and> item_hasProperty T (s g) prop)
     \<or> list_ex (\<lambda>i. i \<noteq> exclude \<and> item_hasProperty T (s i) prop) (titems t)"

text \<open>A look-up that goes on counting: the index where the thing is, or the last index looked at.\<close>

definition seek :: "int \<Rightarrow> 'a list \<Rightarrow> 'a \<Rightarrow> int + int" where
  "seek n xs x = (case index_of x xs of Some k \<Rightarrow> Inl (n + 1 + int k) | None \<Rightarrow> Inr (n + int (length xs)))"

definition getIndexOfThing :: "tile \<Rightarrow> thing \<Rightarrow> int" where
  "getIndexOfThing t th =
     (if (case ground t of None \<Rightarrow> False | Some g \<Rightarrow> th = Item g) then 0
      else
        let n = (if ground t = None then - 1 else 0) in
        case (case th of Item i \<Rightarrow> seek n (topItems t) i | Creature _ \<Rightarrow> Inr (n + int (length (topItems t)))) of
          Inl r \<Rightarrow> r
        | Inr n \<Rightarrow>
            (case (case th of Creature c \<Rightarrow> seek n (creatures t) c | Item _ \<Rightarrow> Inr (n + int (length (creatures t)))) of
               Inl r \<Rightarrow> r
             | Inr n \<Rightarrow>
                 (case (case th of Item i \<Rightarrow> seek n (downItems t) i | Creature _ \<Rightarrow> Inr (n + int (length (downItems t)))) of
                    Inl r \<Rightarrow> r | Inr _ \<Rightarrow> - 1)))"

definition getThing :: "tile \<Rightarrow> nat \<Rightarrow> thing option" where
  "getThing t index =
     (if ground t \<noteq> None \<and> index = 0 then map_option Item (ground t)
      else
        let index = (if ground t \<noteq> None then index - 1 else index) in
        if index < length (topItems t) then Some (Item (titems t ! (unat (downItemCount t) + index)))
        else
          let index = index - length (topItems t) in
          if index < length (creatures t) then Some (Creature (creatures t ! index))
          else
            let index = index - length (creatures t) in
            if index < length (downItems t) then Some (Item (titems t ! index)) else None)"

text \<open>The index a client uses: creatures that the player cannot see are not counted, and come in reverse.\<close>

fun client_seek :: "(nat \<Rightarrow> bool) \<Rightarrow> int \<Rightarrow> nat list \<Rightarrow> thing \<Rightarrow> int + int" where
  "client_seek sees n [] th = Inr n"
| "client_seek sees n (c # cs) th =
     (if th = Creature c then Inl (n + 1) else client_seek sees (if sees c then n + 1 else n) cs th)"

definition getClientIndexOfThing :: "(nat \<Rightarrow> bool) \<Rightarrow> tile \<Rightarrow> thing \<Rightarrow> int" where
  "getClientIndexOfThing sees t th =
     (if (case ground t of None \<Rightarrow> False | Some g \<Rightarrow> th = Item g) then 0
      else
        let n = (if ground t = None then - 1 else 0) in
        case (case th of Item i \<Rightarrow> seek n (topItems t) i | Creature _ \<Rightarrow> Inr (n + int (length (topItems t)))) of
          Inl r \<Rightarrow> r
        | Inr n \<Rightarrow>
            (case client_seek sees n (rev (creatures t)) th of
               Inl r \<Rightarrow> r
             | Inr n \<Rightarrow>
                 (case (case th of Item i \<Rightarrow> seek n (downItems t) i | Creature _ \<Rightarrow> Inr (n + int (length (downItems t)))) of
                    Inl r \<Rightarrow> r | Inr _ \<Rightarrow> - 1)))"

section \<open>Flags of items\<close>

text \<open>\<open>updateTileFlags\<close>, when an item comes and when it goes.\<close>

definition flag_if :: "bool \<Rightarrow> tileflag \<Rightarrow> tile \<Rightarrow> tile" where
  "flag_if b f t = (if b then setFlag f t else t)"

definition reset_if :: "bool \<Rightarrow> tileflag \<Rightarrow> tile \<Rightarrow> tile" where
  "reset_if b f t = (if b then resetFlag f t else t)"

definition add_floor_changes :: "(floor_change \<Rightarrow> bool) \<Rightarrow> tile \<Rightarrow> tile" where
  "add_floor_changes change t =
     (if hasFlag TILESTATE_FLOORCHANGE t then t
      else fold (\<lambda>c t. if change c then setFlag (FLOORCHANGE_TO c) (setFlag TILESTATE_FLOORCHANGE t) else t) floor_changes t)"

definition remove_floor_changes :: "(floor_change \<Rightarrow> bool) \<Rightarrow> tile \<Rightarrow> tile" where
  "remove_floor_changes change t =
     fold (\<lambda>c t. if change c then resetFlag (FLOORCHANGE_TO c) (resetFlag TILESTATE_FLOORCHANGE t) else t) floor_changes t"

definition isDepotBox :: "titem \<Rightarrow> bool" where
  "isDepotBox x = (case i_class x of Container d \<Rightarrow> d | _ \<Rightarrow> False)"

definition updateTileFlags_add :: "itypes \<Rightarrow> item_store \<Rightarrow> nat \<Rightarrow> tile \<Rightarrow> tile" where
  "updateTileFlags_add T s i t =
     (let x = s i; has = item_hasProperty T x;
          t = add_floor_changes (ty_floorChange (T (i_id x))) t;
          t = flag_if (i_class x = Teleport) TILESTATE_TELEPORT t;
          t = flag_if (i_class x = MagicField) TILESTATE_MAGICFIELD t;
          t = flag_if (i_class x = Mailbox) TILESTATE_MAILBOX t;
          t = flag_if (i_class x = TrashHolder) TILESTATE_TRASHHOLDER t;
          t = flag_if (i_class x = Bed) TILESTATE_BED t;
          t = flag_if (isDepotBox x) TILESTATE_DEPOT t;
          t = flag_if (has BLOCKSOLID) TILESTATE_BLOCKSOLID t;
          t = flag_if (has IMMOVABLEBLOCKSOLID) TILESTATE_IMMOVABLEBLOCKSOLID t;
          t = flag_if (has BLOCKPATH) TILESTATE_BLOCKPATH t;
          t = flag_if (has NOFIELDBLOCKPATH) TILESTATE_NOFIELDBLOCKPATH t
      in flag_if (has IMMOVABLENOFIELDBLOCKPATH) TILESTATE_IMMOVABLENOFIELDBLOCKPATH t)"

definition updateTileFlags_remove :: "itypes \<Rightarrow> item_store \<Rightarrow> nat \<Rightarrow> tile \<Rightarrow> tile" where
  "updateTileFlags_remove T s i t =
     (let x = s i; gone = (\<lambda>p. item_hasProperty T x p \<and> \<not> hasProperty_but T s t i p);
          t = remove_floor_changes (ty_floorChange (T (i_id x))) t;
          t = reset_if (i_class x = Teleport) TILESTATE_TELEPORT t;
          t = reset_if (i_class x = MagicField) TILESTATE_MAGICFIELD t;
          t = reset_if (i_class x = Mailbox) TILESTATE_MAILBOX t;
          t = reset_if (i_class x = TrashHolder) TILESTATE_TRASHHOLDER t;
          t = reset_if (i_class x = Bed) TILESTATE_BED t;
          t = reset_if (isDepotBox x) TILESTATE_DEPOT t;
          t = reset_if (gone BLOCKSOLID) TILESTATE_BLOCKSOLID t;
          t = reset_if (gone IMMOVABLEBLOCKSOLID) TILESTATE_IMMOVABLEBLOCKSOLID t;
          t = reset_if (gone BLOCKPATH) TILESTATE_BLOCKPATH t;
          t = reset_if (gone NOFIELDBLOCKPATH) TILESTATE_NOFIELDBLOCKPATH t;
          t = reset_if (gone IMMOVABLEBLOCKPATH) TILESTATE_IMMOVABLEBLOCKPATH t
      in reset_if (gone IMMOVABLENOFIELDBLOCKPATH) TILESTATE_IMMOVABLENOFIELDBLOCKPATH t)"

section \<open>Adding and removing\<close>

text \<open>A tile with the store of items; \<open>self\<close> is the address of the tile in the items' parents.\<close>

type_synonym tstate = "tile \<times> item_store"

definition set_parent :: "nat \<Rightarrow> nat option \<Rightarrow> item_store \<Rightarrow> item_store" where
  "set_parent i p s = s(i := (s i)\<lparr>i_parent := p\<rparr>)"

definition addCreature_tile :: "nat \<Rightarrow> tile \<Rightarrow> tile" where
  "addCreature_tile c t = t\<lparr>creatures := c # creatures t, thingCount := thingCount t + 1\<rparr>"

definition removeCreature_tile :: "nat \<Rightarrow> tile \<Rightarrow> tile" where
  "removeCreature_tile c t =
     (if c \<in> set (creatures t) then t\<lparr>creatures := remove1 c (creatures t), thingCount := thingCount t - 1\<rparr> else t)"

text \<open>The top items are kept in order: before the first one that \<open>before\<close> accepts.\<close>

fun insert_before :: "(nat \<Rightarrow> bool) \<Rightarrow> nat \<Rightarrow> nat list \<Rightarrow> nat list" where
  "insert_before before i [] = [i]"
| "insert_before before i (j # js) = (if before j then i # j # js else j # insert_before before i js)"

definition topOrder :: "itypes \<Rightarrow> item_store \<Rightarrow> nat \<Rightarrow> int" where
  "topOrder T s i = alwaysOnTopOrder (T (i_id (s i)))"

definition insertTop :: "(nat \<Rightarrow> bool) \<Rightarrow> nat \<Rightarrow> tile \<Rightarrow> tile" where
  "insertTop before i t =
     t\<lparr>titems := downItems t @ insert_before before i (topItems t), listed := True, thingCount := thingCount t + 1\<rparr>"

definition insertDown :: "nat \<Rightarrow> tile \<Rightarrow> tile" where
  "insertDown i t =
     t\<lparr>titems := i # titems t, downItemCount := downItemCount t + 1, listed := True, thingCount := thingCount t + 1\<rparr>"

definition internalAddThing :: "itypes \<Rightarrow> nat \<Rightarrow> thing \<Rightarrow> tstate \<Rightarrow> tstate" where
  "internalAddThing T self th st =
     (case st of (t, s) \<Rightarrow>
       case th of
         Creature c \<Rightarrow> (addCreature_tile c t, s)
       | Item i \<Rightarrow>
           let s = set_parent i (Some self) s; it = T (i_id (s i)); t = t\<lparr>listed := True\<rparr> in
           if length (titems t) \<ge> 0xFFFF then (t, s)
           else
             let t = (if isGroundTile it then
                        (if ground t = None then t\<lparr>ground := Some i, thingCount := thingCount t + 1\<rparr> else t)
                      else if alwaysOnTop it then insertTop (\<lambda>j. \<not> topOrder T s j \<le> topOrder T s i) i t
                      else insertDown i t)
             in (updateTileFlags_add T s i t, s))"

definition removeItem_tile :: "itypes \<Rightarrow> nat \<Rightarrow> u32 \<Rightarrow> tstate \<Rightarrow> tstate" where
  "removeItem_tile T i cnt st =
     (case st of (t, s) \<Rightarrow>
       if getIndexOfThing t (Item i) = - 1 then (t, s)
       else if ground t = Some i then
         let s = set_parent i None s; t = t\<lparr>ground := None, thingCount := thingCount t - 1\<rparr>
         in (updateTileFlags_remove T s i t, s)
       else if alwaysOnTop (T (i_id (s i))) then
         (if i \<in> set (topItems t) then
            let s = set_parent i None s;
                t = t\<lparr>titems := downItems t @ remove1 i (topItems t), thingCount := thingCount t - 1\<rparr>
            in (updateTileFlags_remove T s i t, s)
          else (t, s))
       else if i \<in> set (downItems t) then
         (if ty_stackable (T (i_id (s i))) \<and> cnt \<noteq> ucast (i_count (s i)) then
            let newCount = (of_int (max 0 (sint (ucast (i_count (s i)) - cnt))) :: u8);
                t = updateTileFlags_remove T s i t;
                s = s(i := (s i)\<lparr>i_count := newCount\<rparr>)
            in (updateTileFlags_add T s i t, s)
          else
            let s = set_parent i None s;
                t = t\<lparr>titems := remove1 i (downItems t) @ topItems t, downItemCount := downItemCount t - 1,
                      thingCount := thingCount t - 1\<rparr>
            in (updateTileFlags_remove T s i t, s))
       else (t, s))"

definition removeThing :: "itypes \<Rightarrow> thing \<Rightarrow> u32 \<Rightarrow> tstate \<Rightarrow> tstate" where
  "removeThing T th cnt st =
     (case th of Creature c \<Rightarrow> (removeCreature_tile c (fst st), snd st) | Item i \<Rightarrow> removeItem_tile T i cnt st)"

text \<open>\<open>throwOff\<close>: what \<open>__addThing\<close> does with an item that gives way to the new one.\<close>

definition throwOff :: "itypes \<Rightarrow> nat \<Rightarrow> tstate \<Rightarrow> tstate" where
  "throwOff T j st = (case removeThing T (Item j) 1 st of (t, s) \<Rightarrow> (t, set_parent j None s))"

definition ITEM_WATERBALL_SPLASH :: u16 where "ITEM_WATERBALL_SPLASH = 7711"
definition ITEM_WATERBALL :: u16 where "ITEM_WATERBALL = 7956"

definition addGround :: "itypes \<Rightarrow> nat \<Rightarrow> tstate \<Rightarrow> tstate" where
  "addGround T i st =
     (case st of (t, s) \<Rightarrow>
       case ground t of
         Some g \<Rightarrow>
           let t = t\<lparr>ground := Some i\<rparr>; s = set_parent g None s
           in (updateTileFlags_add T s i (updateTileFlags_remove T s g t), s)
       | None \<Rightarrow> (updateTileFlags_add T s i (t\<lparr>ground := Some i, thingCount := thingCount t + 1\<rparr>), s))"

definition addTop :: "itypes \<Rightarrow> nat \<Rightarrow> tstate \<Rightarrow> tstate" where
  "addTop T i st =
     (let st = (if isSplash (T (i_id (snd st i)))
                then case find (\<lambda>j. isSplash (T (i_id (snd st j)))) (topItems (fst st)) of
                       None \<Rightarrow> st | Some j \<Rightarrow> throwOff T j st
                else st)
      in case st of (t, s) \<Rightarrow>
           (updateTileFlags_add T s i (insertTop (\<lambda>j. \<not> topOrder T s i > topOrder T s j) i t), s))"

text \<open>
  A magic field looks at the first field there is: one that cannot be replaced stops the new field,
  which is released.
\<close>

definition addDown :: "itypes \<Rightarrow> nat \<Rightarrow> tstate \<Rightarrow> tstate" where
  "addDown T i st =
     (let old = (if isMagicField (T (i_id (snd st i)))
                 then find (\<lambda>j. i_class (snd st j) = MagicField) (downItems (fst st)) else None) in
      if (case old of None \<Rightarrow> False | Some j \<Rightarrow> \<not> replacable (T (i_id (snd st j))))
      then (fst st, set_parent i None (snd st))
      else
        case (case old of None \<Rightarrow> st | Some j \<Rightarrow> throwOff T j st) of (t, s) \<Rightarrow>
          let s = (if i_id (s i) = ITEM_WATERBALL_SPLASH \<and> \<not> hasFlag TILESTATE_TRASHHOLDER t
                   then s(i := (s i)\<lparr>i_id := ITEM_WATERBALL\<rparr>) else s)
          in (updateTileFlags_add T s i (insertDown i t), s))"

definition addThing_tile :: "itypes \<Rightarrow> bool \<Rightarrow> nat \<Rightarrow> thing \<Rightarrow> tstate \<Rightarrow> tstate" where
  "addThing_tile T storeTrash self th st =
     (case st of (t, s) \<Rightarrow>
       case th of
         Creature c \<Rightarrow> (addCreature_tile c t, s)
       | Item i \<Rightarrow>
           if length (titems t) \<ge> 0xFFFF then (t, s)
           else
             let t = (if storeTrash \<and> \<not> hasFlag TILESTATE_TRASHED t then setFlag TILESTATE_TRASHED t else t);
                 s = set_parent i (Some self) s; it = T (i_id (s i))
             in if isGroundTile it then addGround T i (t, s)
                else if alwaysOnTop it then addTop T i (t, s)
                else addDown T i (t, s))"

definition updateThing_tile :: "itypes \<Rightarrow> thing \<Rightarrow> u16 \<Rightarrow> u32 \<Rightarrow> tstate \<Rightarrow> tstate" where
  "updateThing_tile T th itemId cnt st =
     (case st of (t, s) \<Rightarrow>
       if getIndexOfThing t th = - 1 then (t, s)
       else case th of
         Creature _ \<Rightarrow> (t, s)
       | Item i \<Rightarrow>
           let t = updateTileFlags_remove T s i t;
               s = s(i := item_setSubType T (ucast cnt) ((s i)\<lparr>i_id := itemId\<rparr>))
           in (updateTileFlags_add T s i t, s))"

text \<open>\<open>__replaceThing\<close>: the item that was there, when there was one, and the tile with the new one.\<close>

definition replace_at :: "tile \<Rightarrow> nat \<Rightarrow> nat \<Rightarrow> (nat option \<times> tile) option" where
  "replace_at t index i =
     (if ground t \<noteq> None \<and> index = 0 then Some (ground t, t\<lparr>ground := Some i\<rparr>)
      else
        let pos = (if ground t \<noteq> None then index - 1 else index) in
        if pos < length (topItems t)
        then Some (Some (topItems t ! pos), t\<lparr>titems := downItems t @ (topItems t)[pos := i]\<rparr>)
        else
          let pos = pos - length (topItems t) in
          if pos < length (creatures t) then None
          else
            let pos = pos - length (creatures t) in
            if pos < length (downItems t)
            then Some (Some (downItems t ! pos), t\<lparr>titems := (downItems t)[pos := i] @ topItems t\<rparr>)
            else Some (None, t))"

definition replaceThing_tile :: "itypes \<Rightarrow> nat \<Rightarrow> nat \<Rightarrow> nat \<Rightarrow> tstate \<Rightarrow> tstate" where
  "replaceThing_tile T self index i st =
     (case st of (t, s) \<Rightarrow>
       case replace_at t index i of
         None \<Rightarrow> (t, s)
       | Some (oldItem, t) \<Rightarrow>
           let s = set_parent i (Some self) s;
               t = (case oldItem of None \<Rightarrow> t | Some j \<Rightarrow> updateTileFlags_remove T s j t);
               t = updateTileFlags_add T s i t
           in (t, case oldItem of None \<Rightarrow> s | Some j \<Rightarrow> set_parent j None s))"

section \<open>The layers of a tile\<close>

definition tile_wf :: "tile \<Rightarrow> bool" where
  "tile_wf t \<longleftrightarrow> unat (downItemCount t) \<le> length (titems t) \<and> length (titems t) \<le> 0xFFFF"

definition tile_list :: "tile \<Rightarrow> nat list" where
  "tile_list t = (case ground t of None \<Rightarrow> [] | Some g \<Rightarrow> [g]) @ titems t"

lemma layers_append: "downItems t @ topItems t = titems t"
  by (simp add: downItems_def topItems_def)

lemma set_titems: "set (titems t) = set (downItems t) \<union> set (topItems t)"
  by (simp flip: layers_append)

lemma length_down: "tile_wf t \<Longrightarrow> length (downItems t) = unat (downItemCount t)"
  by (simp add: tile_wf_def downItems_def)

lemma length_layers: "length (downItems t) + length (topItems t) = length (titems t)"
  by (simp flip: layers_append)

text \<open>A tile is set by its layers.\<close>

lemma layersI:
  assumes "titems t = d @ u" "unat (downItemCount t) = length d" "length (d @ u) \<le> 0xFFFF"
  shows "tile_wf t" "downItems t = d" "topItems t = u"
  using assms by (simp_all add: tile_wf_def downItems_def topItems_def)

lemma insertTop_layers:
  assumes "tile_wf t" "length (titems t) < 0xFFFF"
  shows "tile_wf (insertTop b i t)" "downItems (insertTop b i t) = downItems t"
    "topItems (insertTop b i t) = insert_before b i (topItems t)"
proof -
  have l: "length (insert_before b i xs) = Suc (length xs)" for xs by (induction xs) auto
  have "titems (insertTop b i t) = downItems t @ insert_before b i (topItems t)"
    "unat (downItemCount (insertTop b i t)) = length (downItems t)"
    "length (downItems t @ insert_before b i (topItems t)) \<le> 0xFFFF"
    using length_down[OF assms(1)] assms(2) length_layers[of t] by (simp_all add: insertTop_def l)
  from layersI[OF this] show "tile_wf (insertTop b i t)" "downItems (insertTop b i t) = downItems t"
    "topItems (insertTop b i t) = insert_before b i (topItems t)" by blast+
qed

lemma unat_suc_u16: "unat (n :: u16) < 0xFFFF \<Longrightarrow> unat (n + 1) = Suc (unat n)"
  by (simp add: unat_word_ariths)

lemma insertDown_layers:
  assumes "tile_wf t" "length (titems t) < 0xFFFF"
  shows "tile_wf (insertDown i t)" "downItems (insertDown i t) = i # downItems t" "topItems (insertDown i t) = topItems t"
proof -
  have "unat (downItemCount t) < 0xFFFF" using assms by (simp add: tile_wf_def)
  then have "titems (insertDown i t) = (i # downItems t) @ topItems t"
    "unat (downItemCount (insertDown i t)) = length (i # downItems t)" "length ((i # downItems t) @ topItems t) \<le> 0xFFFF"
    using assms length_layers[of t] by (simp_all add: insertDown_def layers_append unat_suc_u16 length_down)
  from layersI[OF this] show "tile_wf (insertDown i t)" "downItems (insertDown i t) = i # downItems t"
    "topItems (insertDown i t) = topItems t" by blast+
qed

lemma set_insert_before [simp]: "set (insert_before b i xs) = insert i (set xs)"
  by (induction xs) auto

lemma distinct_insert_before [simp]: "distinct (insert_before b i xs) \<longleftrightarrow> i \<notin> set xs \<and> distinct xs"
  by (induction xs) auto

lemma length_insert_before [simp]: "length (insert_before b i xs) = Suc (length xs)"
  by (induction xs) auto

section \<open>Flags\<close>

lemma flag_bit_less: "flag_bit f < 32"
  by (cases f) (auto split: floor_change.split)

lemma flag_bit_inject: "flag_bit f = flag_bit g \<longleftrightarrow> f = g"
  by (cases f; cases g) (auto split: floor_change.splits)

lemma bit_flag_val: "n < 32 \<Longrightarrow> bit (flag_val g) n \<longleftrightarrow> n = flag_bit g"
  using flag_bit_less[of g] by (auto simp: flag_val_def bit_exp_iff)

lemma hasFlag_bit: "hasFlag f t \<longleftrightarrow> bit (m_flags t) (flag_bit f)"
  using flag_bit_less[of f] by (auto simp: hasFlag_def bit_eq_iff [where 'a = "32 word"] bit_and_iff bit_flag_val)

lemma hasFlag_setFlag [simp]: "hasFlag f (setFlag g t) \<longleftrightarrow> f = g \<or> hasFlag f t"
  using flag_bit_less[of f] by (auto simp: hasFlag_bit setFlag_def bit_or_iff bit_flag_val flag_bit_inject)

lemma hasFlag_resetFlag [simp]: "hasFlag f (resetFlag g t) \<longleftrightarrow> f \<noteq> g \<and> hasFlag f t"
  using flag_bit_less[of f] by (auto simp: hasFlag_bit resetFlag_def bit_and_iff bit_not_iff bit_flag_val flag_bit_inject)

lemma hasFlag_if [simp]: "hasFlag f (flag_if b g t) \<longleftrightarrow> b \<and> f = g \<or> hasFlag f t"
  "hasFlag f (reset_if b g t) \<longleftrightarrow> \<not> (b \<and> f = g) \<and> hasFlag f t"
  by (simp_all add: flag_if_def reset_if_def)

text \<open>The flags are all that \<open>updateTileFlags\<close> changes.\<close>

definition same_things :: "tile \<Rightarrow> tile \<Rightarrow> bool" where
  "same_things t t' \<longleftrightarrow> ground t' = ground t \<and> titems t' = titems t \<and> downItemCount t' = downItemCount t
     \<and> creatures t' = creatures t \<and> listed t' = listed t \<and> thingCount t' = thingCount t"

lemma same_things_flags [simp]: "same_things t (setFlag f t')  = same_things t t'" "same_things t (resetFlag f t') = same_things t t'"
  "same_things t (flag_if b f t') = same_things t t'" "same_things t (reset_if b f t') = same_things t t'"
  by (simp_all add: same_things_def setFlag_def resetFlag_def flag_if_def reset_if_def)

lemma same_things_refl [simp]: "same_things t t"
  by (simp add: same_things_def)

lemma floor_changes_fold:
  "same_things t (add_floor_changes ch t') = same_things t t'" "same_things t (remove_floor_changes ch t') = same_things t t'"
  by (simp_all add: add_floor_changes_def remove_floor_changes_def floor_changes_def)

lemma updateTileFlags_same [simp]:
  "same_things t (updateTileFlags_add T s i t)" "same_things t (updateTileFlags_remove T s i t)"
  by (simp_all add: updateTileFlags_add_def updateTileFlags_remove_def Let_def floor_changes_fold)

lemma same_thingsD:
  assumes "same_things t t'"
  shows "ground t' = ground t" "titems t' = titems t" "downItemCount t' = downItemCount t" "creatures t' = creatures t"
    "thingCount t' = thingCount t" "downItems t' = downItems t" "topItems t' = topItems t" "tile_list t' = tile_list t"
    "tile_wf t' = tile_wf t" "listed t' = listed t"
proof -
  have "ground t' = ground t" "titems t' = titems t" "downItemCount t' = downItemCount t" "creatures t' = creatures t"
    "thingCount t' = thingCount t" "listed t' = listed t"
    using assms by (simp_all add: same_things_def)
  then show "ground t' = ground t" "titems t' = titems t" "downItemCount t' = downItemCount t" "creatures t' = creatures t"
    "thingCount t' = thingCount t" "downItems t' = downItems t" "topItems t' = topItems t" "tile_list t' = tile_list t"
    "tile_wf t' = tile_wf t" "listed t' = listed t"
    by (simp_all add: downItems_def topItems_def tile_list_def tile_wf_def)
qed

lemmas flags_add_simps [simp] = updateTileFlags_same(1)[THEN same_thingsD(1)] updateTileFlags_same(1)[THEN same_thingsD(2)]
  updateTileFlags_same(1)[THEN same_thingsD(3)] updateTileFlags_same(1)[THEN same_thingsD(4)]
  updateTileFlags_same(1)[THEN same_thingsD(5)] updateTileFlags_same(1)[THEN same_thingsD(6)]
  updateTileFlags_same(1)[THEN same_thingsD(7)] updateTileFlags_same(1)[THEN same_thingsD(8)]
  updateTileFlags_same(1)[THEN same_thingsD(9)] updateTileFlags_same(1)[THEN same_thingsD(10)]

lemmas flags_remove_simps [simp] = updateTileFlags_same(2)[THEN same_thingsD(1)] updateTileFlags_same(2)[THEN same_thingsD(2)]
  updateTileFlags_same(2)[THEN same_thingsD(3)] updateTileFlags_same(2)[THEN same_thingsD(4)]
  updateTileFlags_same(2)[THEN same_thingsD(5)] updateTileFlags_same(2)[THEN same_thingsD(6)]
  updateTileFlags_same(2)[THEN same_thingsD(7)] updateTileFlags_same(2)[THEN same_thingsD(8)]
  updateTileFlags_same(2)[THEN same_thingsD(9)] updateTileFlags_same(2)[THEN same_thingsD(10)]

text \<open>The flags that sum up a property of the items.\<close>

definition block_flags :: "(tileflag \<times> itemproperty) list" where
  "block_flags = [(TILESTATE_BLOCKSOLID, BLOCKSOLID), (TILESTATE_IMMOVABLEBLOCKSOLID, IMMOVABLEBLOCKSOLID),
     (TILESTATE_BLOCKPATH, BLOCKPATH), (TILESTATE_NOFIELDBLOCKPATH, NOFIELDBLOCKPATH),
     (TILESTATE_IMMOVABLENOFIELDBLOCKPATH, IMMOVABLENOFIELDBLOCKPATH)]"

definition flags_for :: "itypes \<Rightarrow> item_store \<Rightarrow> nat set \<Rightarrow> tile \<Rightarrow> bool" where
  "flags_for T s A t \<longleftrightarrow> (\<forall>(f, p)\<in>set block_flags. hasFlag f t \<longleftrightarrow> (\<exists>j\<in>A. item_hasProperty T (s j) p))"

lemma block_flag_floor: "(f, p) \<in> set block_flags \<Longrightarrow> hasFlag f (add_floor_changes ch t) = hasFlag f t
    \<and> hasFlag f (remove_floor_changes ch t) = hasFlag f t"
proof -
  assume fp: "(f, p) \<in> set block_flags"
  then have f: "f \<noteq> TILESTATE_FLOORCHANGE" "f \<noteq> FLOORCHANGE_TO c" for c by (auto simp: block_flags_def)
  have "hasFlag f (fold (\<lambda>c t. if ch c then setFlag (FLOORCHANGE_TO c) (setFlag TILESTATE_FLOORCHANGE t) else t) cs t) = hasFlag f t"
    "hasFlag f (fold (\<lambda>c t. if ch c then resetFlag (FLOORCHANGE_TO c) (resetFlag TILESTATE_FLOORCHANGE t) else t) cs t) = hasFlag f t"
    for cs by (induction cs arbitrary: t) (simp_all add: f)
  then show ?thesis by (simp add: add_floor_changes_def remove_floor_changes_def)
qed

lemma block_flag_add: "(f, p) \<in> set block_flags \<Longrightarrow>
    hasFlag f (updateTileFlags_add T s i t) \<longleftrightarrow> hasFlag f t \<or> item_hasProperty T (s i) p"
  using block_flag_floor[of f p "ty_floorChange (T (i_id (s i)))" t]
  unfolding block_flags_def list.set insert_iff prod.inject empty_iff simp_thms
  by (elim disjE conjE; hypsubst; simp only: updateTileFlags_add_def Let_def hasFlag_if tileflag.distinct simp_thms; blast)

lemma block_flag_remove: "(f, p) \<in> set block_flags \<Longrightarrow>
    hasFlag f (updateTileFlags_remove T s i t) \<longleftrightarrow> hasFlag f t \<and> \<not> (item_hasProperty T (s i) p \<and> \<not> hasProperty_but T s t i p)"
  using block_flag_floor[of f p "ty_floorChange (T (i_id (s i)))" t]
  unfolding block_flags_def list.set insert_iff prod.inject empty_iff simp_thms
  by (elim disjE conjE; hypsubst; simp only: updateTileFlags_remove_def Let_def hasFlag_if tileflag.distinct simp_thms; blast)

lemma hasProperty_but_list: "hasProperty_but T s t i p \<longleftrightarrow> (\<exists>j\<in>set (tile_list t) - {i}. item_hasProperty T (s j) p)"
  by (auto simp: hasProperty_but_def tile_list_def list_ex_iff split: option.splits)

lemma flags_forD: "flags_for T s A t \<Longrightarrow> (f, p) \<in> set block_flags \<Longrightarrow> hasFlag f t \<longleftrightarrow> (\<exists>j\<in>A. item_hasProperty T (s j) p)"
  unfolding flags_for_def by blast

lemma flags_for_add: "flags_for T s A t \<Longrightarrow> flags_for T s (insert i A) (updateTileFlags_add T s i t)"
  unfolding flags_for_def by (auto simp: block_flag_add)

lemma flags_for_remove:
  assumes "flags_for T s A t" "set (tile_list t) - {i} = A - {i}"
  shows "flags_for T s (A - {i}) (updateTileFlags_remove T s i t)"
  unfolding flags_for_def
proof clarify
  fix f p assume fp: "(f, p) \<in> set block_flags"
  show "hasFlag f (updateTileFlags_remove T s i t) \<longleftrightarrow> (\<exists>j\<in>A - {i}. item_hasProperty T (s j) p)"
    unfolding block_flag_remove[OF fp] flags_forD[OF assms(1) fp] hasProperty_but_list assms(2) by blast
qed

lemma flags_for_swap:
  assumes "flags_for T s A t" "set (tile_list t) = insert i (A - {j})" "i \<noteq> j"
  shows "flags_for T s (insert i (A - {j})) (updateTileFlags_add T s i (updateTileFlags_remove T s j t))"
  unfolding flags_for_def
proof clarify
  fix f p assume fp: "(f, p) \<in> set block_flags"
  show "hasFlag f (updateTileFlags_add T s i (updateTileFlags_remove T s j t)) \<longleftrightarrow> (\<exists>k\<in>insert i (A - {j}). item_hasProperty T (s k) p)"
    unfolding block_flag_add[OF fp] block_flag_remove[OF fp] flags_forD[OF assms(1) fp] hasProperty_but_list assms(2)
    using assms(3) by blast
qed

text \<open>Only the type of an item and where it came from matter.\<close>

lemma flags_for_store:
  assumes "flags_for T s A t" "\<And>j p. j \<in> A \<Longrightarrow> item_hasProperty T (s' j) p = item_hasProperty T (s j) p" "m_flags t' = m_flags t"
  shows "flags_for T s' A t'"
  using assms(1,2) unfolding flags_for_def hasFlag_def assms(3) by simp

lemma property_set_parent [simp]: "item_hasProperty T (set_parent i p s j) prop = item_hasProperty T (s j) prop"
  by (simp add: item_hasProperty_def set_parent_def fixed_by_map_def getContainer_def Let_def cong: itemproperty.case_cong)

section \<open>The invariant of a tile\<close>

definition layers_ok :: "itypes \<Rightarrow> item_store \<Rightarrow> tile \<Rightarrow> bool" where
  "layers_ok T s t \<longleftrightarrow> tile_wf t
     \<and> (\<forall>i\<in>set (downItems t). \<not> alwaysOnTop (T (i_id (s i)))) \<and> (\<forall>i\<in>set (topItems t). alwaysOnTop (T (i_id (s i))))
     \<and> distinct (tile_list t) \<and> distinct (creatures t)
     \<and> thingCount t = of_nat (length (tile_list t) + length (creatures t))"

text \<open>\<open>Item::CreateItem\<close> makes a \<open>MagicField\<close> of the types that are fields, and no others.\<close>

definition item_ok :: "itypes \<Rightarrow> titem \<Rightarrow> bool" where
  "item_ok T x \<longleftrightarrow> (i_class x = MagicField \<longrightarrow> isMagicField (T (i_id x)))"

definition tile_ok :: "itypes \<Rightarrow> nat \<Rightarrow> tstate \<Rightarrow> bool" where
  "tile_ok T self st \<longleftrightarrow> layers_ok T (snd st) (fst st)
     \<and> (\<forall>i\<in>set (tile_list (fst st)). i_parent (snd st i) = Some self \<and> item_ok T (snd st i))
     \<and> flags_for T (snd st) (set (tile_list (fst st))) (fst st)"

lemma layers_okD:
  assumes "layers_ok T s t"
  shows "tile_wf t" "i \<in> set (downItems t) \<Longrightarrow> \<not> alwaysOnTop (T (i_id (s i)))"
    "i \<in> set (topItems t) \<Longrightarrow> alwaysOnTop (T (i_id (s i)))" "distinct (tile_list t)" "distinct (creatures t)"
    "thingCount t = of_nat (length (tile_list t) + length (creatures t))"
  using assms by (simp_all add: layers_ok_def)

lemma layers_ok_flags [simp]:
  "layers_ok T s (updateTileFlags_add T s' i t) = layers_ok T s t"
  "layers_ok T s (updateTileFlags_remove T s' i t) = layers_ok T s t"
  by (simp_all add: layers_ok_def)

lemma layers_ok_store:
  "layers_ok T s t \<Longrightarrow> (\<And>i. i \<in> set (tile_list t) \<Longrightarrow> i_id (s' i) = i_id (s i)) \<Longrightarrow> layers_ok T s' t"
  by (auto simp: layers_ok_def tile_list_def set_titems)

lemma set_parent_sel [simp]: "i_id (set_parent i p s j) = i_id (s j)" "i_class (set_parent i p s j) = i_class (s j)"
  "i_count (set_parent i p s j) = i_count (s j)"
  "i_parent (set_parent i p s j) = (if j = i then p else i_parent (s j))"
  by (simp_all add: set_parent_def)

section \<open>Indices\<close>

definition things :: "tile \<Rightarrow> thing list" where
  "things t = (case ground t of None \<Rightarrow> [] | Some g \<Rightarrow> [Item g]) @ List.map Item (topItems t)
     @ List.map Creature (creatures t) @ List.map Item (downItems t)"

lemma index_of_append: "index_of x (xs @ ys) =
    (case index_of x xs of Some k \<Rightarrow> Some k | None \<Rightarrow> map_option (\<lambda>k. k + length xs) (index_of x ys))"
  by (induction xs) (auto simp: option.map_comp comp_def option.map_ident simp del: index_of_None split: option.split)

lemma index_of_Item [simp]: "index_of (Item i) (List.map Item xs) = index_of i xs" "index_of (Item i) (List.map Creature ys) = None"
  by (induction xs) auto

lemma index_of_Creature [simp]: "index_of (Creature i) (List.map Creature xs) = index_of i xs"
  "index_of (Creature i) (List.map Item ys) = None"
  by (induction xs) auto

lemma getIndexOfThing_things: "getIndexOfThing t th = (case index_of th (things t) of None \<Rightarrow> - 1 | Some k \<Rightarrow> int k)"
  by (cases th; cases "ground t")
    (auto simp: getIndexOfThing_def things_def Let_def seek_def index_of_append algebra_simps
      simp del: index_of_None split: option.split)

lemma getThing_things:
  assumes "tile_wf t"
  shows "getThing t k = (if k < length (things t) then Some (things t ! k) else None)"
proof -
  have top: "titems t ! (unat (downItemCount t) + j) = topItems t ! j" if "j < length (topItems t)" for j
    using assms that by (simp add: topItems_def tile_wf_def)
  have down: "titems t ! j = downItems t ! j" if "j < length (downItems t)" for j
    using that by (simp add: downItems_def)
  show ?thesis
  proof (cases "ground t")
    case None
    then show ?thesis by (auto simp: getThing_def things_def Let_def top down nth_append)
  next
    case (Some g)
    then show ?thesis by (cases k) (auto simp: getThing_def things_def Let_def top down nth_append)
  qed
qed

lemma set_things: "th \<in> set (things t) \<longleftrightarrow> (case th of Item i \<Rightarrow> i \<in> set (tile_list t) | Creature c \<Rightarrow> c \<in> set (creatures t))"
  by (cases th) (auto simp: things_def tile_list_def set_titems split: option.splits)

lemma index_not_found: "getIndexOfThing t th = - 1 \<longleftrightarrow> th \<notin> set (things t)"
  by (auto simp: getIndexOfThing_things dest: index_of_Some split: option.splits)

lemma index_of_nth:
  assumes "distinct xs"
  shows "index_of x xs = Some k \<longleftrightarrow> k < length xs \<and> xs ! k = x"
proof
  assume k: "k < length xs \<and> xs ! k = x"
  then obtain j where "index_of x xs = Some j" by (cases "index_of x xs") auto
  then show "index_of x xs = Some k" using index_of_Some[of x xs j] nth_eq_iff_index_eq[OF assms] k by auto
qed (rule index_of_Some)

lemma distinct_things: "distinct (tile_list t) \<Longrightarrow> distinct (creatures t) \<Longrightarrow> distinct (things t)"
proof -
  assume d: "distinct (tile_list t)" "distinct (creatures t)"
  have "distinct (titems t)" using d(1) by (simp add: tile_list_def split: option.splits)
  then have "distinct (downItems t @ topItems t)" by (simp add: layers_append)
  then show ?thesis using d
    by (auto simp: things_def distinct_map inj_on_def tile_list_def set_titems split: option.splits)
qed

section \<open>Every operation keeps the invariant\<close>

lemma of_nat_pred: "(n :: nat) > 0 \<Longrightarrow> (of_nat n :: u32) - 1 = of_nat (n - 1)"
  by (cases n) simp_all

lemma removeTop_layers:
  assumes "tile_wf t" "i \<in> set (topItems t)"
  defines "t' \<equiv> t\<lparr>titems := downItems t @ remove1 i (topItems t), thingCount := thingCount t - 1\<rparr>"
  shows "tile_wf t'" "downItems t' = downItems t" "topItems t' = remove1 i (topItems t)"
proof -
  have "titems t' = downItems t @ remove1 i (topItems t)" "unat (downItemCount t') = length (downItems t)"
    "length (downItems t @ remove1 i (topItems t)) \<le> 0xFFFF"
    using assms(1,2) length_layers[of t] by (simp_all add: t'_def length_down tile_wf_def length_remove1)
  from layersI[OF this] show "tile_wf t'" "downItems t' = downItems t" "topItems t' = remove1 i (topItems t)" by blast+
qed

lemma unat_pred_u16: "unat (n :: u16) > 0 \<Longrightarrow> unat (n - 1) = unat n - 1"
  by (metis unat_eq_zero unat_minus_one less_numeral_extra(3))

lemma removeDown_layers:
  assumes "tile_wf t" "i \<in> set (downItems t)"
  defines "t' \<equiv> t\<lparr>titems := remove1 i (downItems t) @ topItems t, downItemCount := downItemCount t - 1,
     thingCount := thingCount t - 1\<rparr>"
  shows "tile_wf t'" "downItems t' = remove1 i (downItems t)" "topItems t' = topItems t"
proof -
  have "0 < length (downItems t)" using assms(2) by (cases "downItems t") auto
  then have "titems t' = remove1 i (downItems t) @ topItems t" "unat (downItemCount t') = length (remove1 i (downItems t))"
    "length (remove1 i (downItems t) @ topItems t) \<le> 0xFFFF"
    using assms(1,2) length_layers[of t]
    by (simp_all add: t'_def length_down[OF assms(1), symmetric] unat_pred_u16 tile_wf_def length_remove1)
  from layersI[OF this] show "tile_wf t'" "downItems t' = remove1 i (downItems t)" "topItems t' = topItems t" by blast+
qed

lemma insertTop_ok:
  assumes ok: "layers_ok T s t" and len: "length (titems t) < 0xFFFF" and i: "i \<notin> set (tile_list t)" "alwaysOnTop (T (i_id (s i)))"
  shows "layers_ok T s (insertTop b i t)" "set (tile_list (insertTop b i t)) = insert i (set (tile_list t))"
proof -
  note d = layers_okD[OF ok]
  note l = insertTop_layers[OF d(1) len, of b i]
  have g: "ground (insertTop b i t) = ground t" "creatures (insertTop b i t) = creatures t"
    "thingCount (insertTop b i t) = thingCount t + 1" by (simp_all add: insertTop_def)
  have t: "titems (insertTop b i t) = downItems t @ insert_before b i (topItems t)" by (simp add: insertTop_def)
  have "distinct (downItems t @ topItems t)" using d(4) by (simp add: layers_append tile_list_def split: option.splits)
  then have "distinct (tile_list (insertTop b i t))"
    using d(4) i(1) by (auto simp: tile_list_def t g set_titems split: option.splits)
  moreover have "length (tile_list (insertTop b i t)) = Suc (length (tile_list t))"
    using length_layers[of t] by (simp add: tile_list_def t g split: option.split)
  ultimately show "layers_ok T s (insertTop b i t)"
    using d i(2) by (auto simp: layers_ok_def l g)
  show "set (tile_list (insertTop b i t)) = insert i (set (tile_list t))"
    by (auto simp: tile_list_def t g set_titems split: option.split)
qed

lemma insertDown_ok:
  assumes ok: "layers_ok T s t" and len: "length (titems t) < 0xFFFF" and i: "i \<notin> set (tile_list t)" "\<not> alwaysOnTop (T (i_id (s i)))"
  shows "layers_ok T s (insertDown i t)" "set (tile_list (insertDown i t)) = insert i (set (tile_list t))"
proof -
  note d = layers_okD[OF ok]
  note l = insertDown_layers[OF d(1) len, of i]
  have g: "ground (insertDown i t) = ground t" "creatures (insertDown i t) = creatures t"
    "thingCount (insertDown i t) = thingCount t + 1" "titems (insertDown i t) = i # titems t"
    by (simp_all add: insertDown_def)
  have "distinct (tile_list (insertDown i t))"
    using d(4) i(1) by (auto simp: tile_list_def g split: option.splits)
  moreover have "length (tile_list (insertDown i t)) = Suc (length (tile_list t))"
    by (simp add: tile_list_def g split: option.split)
  ultimately show "layers_ok T s (insertDown i t)"
    using d i(2) by (auto simp: layers_ok_def l g)
  show "set (tile_list (insertDown i t)) = insert i (set (tile_list t))"
    by (auto simp: tile_list_def g split: option.split)
qed

lemma length_remove1_in: "i \<in> set xs \<Longrightarrow> length xs = Suc (length (remove1 i xs))"
  by (induction xs) auto

lemma removeTop_ok:
  assumes ok: "layers_ok T s t" and i: "i \<in> set (topItems t)"
  defines "t' \<equiv> t\<lparr>titems := downItems t @ remove1 i (topItems t), thingCount := thingCount t - 1\<rparr>"
  shows "layers_ok T s t'" "set (tile_list t') = set (tile_list t) - {i}"
proof -
  note d = layers_okD[OF ok]
  note l = removeTop_layers[OF d(1) i, folded t'_def]
  have g: "ground t' = ground t" "creatures t' = creatures t" "thingCount t' = thingCount t - 1"
    "titems t' = downItems t @ remove1 i (topItems t)" by (simp_all add: t'_def)
  have di: "distinct (downItems t @ topItems t)" using d(4) by (simp add: layers_append tile_list_def split: option.splits)
  then have "distinct (tile_list t')"
    using d(4) by (auto simp: tile_list_def g set_titems distinct_remove1 dest: notin_set_remove1 split: option.splits)
  moreover have len: "length (tile_list t) = Suc (length (tile_list t'))"
    using length_layers[of t] length_remove1_in[OF i] by (simp add: tile_list_def g split: option.split)
  ultimately show "layers_ok T s t'"
    using d i by (auto simp: layers_ok_def l g dest: notin_set_remove1)
  show "set (tile_list t') = set (tile_list t) - {i}"
    using di d(4) i by (auto simp: tile_list_def g set_titems set_remove1_eq split: option.splits)
qed

lemma removeDown_ok:
  assumes ok: "layers_ok T s t" and i: "i \<in> set (downItems t)"
  defines "t' \<equiv> t\<lparr>titems := remove1 i (downItems t) @ topItems t, downItemCount := downItemCount t - 1,
     thingCount := thingCount t - 1\<rparr>"
  shows "layers_ok T s t'" "set (tile_list t') = set (tile_list t) - {i}"
proof -
  note d = layers_okD[OF ok]
  note l = removeDown_layers[OF d(1) i, folded t'_def]
  have g: "ground t' = ground t" "creatures t' = creatures t" "thingCount t' = thingCount t - 1"
    "titems t' = remove1 i (downItems t) @ topItems t" by (simp_all add: t'_def)
  have di: "distinct (downItems t @ topItems t)" using d(4) by (simp add: layers_append tile_list_def split: option.splits)
  then have "distinct (tile_list t')"
    using d(4) by (auto simp: tile_list_def g set_titems distinct_remove1 dest: notin_set_remove1 split: option.splits)
  moreover have len: "length (tile_list t) = Suc (length (tile_list t'))"
    using length_layers[of t] length_remove1_in[OF i] by (simp add: tile_list_def g split: option.split)
  ultimately show "layers_ok T s t'"
    using d i by (auto simp: layers_ok_def l g dest: notin_set_remove1)
  show "set (tile_list t') = set (tile_list t) - {i}"
    using di d(4) i by (auto simp: tile_list_def g set_titems set_remove1_eq split: option.splits)
qed

text \<open>Coming, going and giving way, for any way to change the layers.\<close>

lemma hasProperty_but_set_parent [simp]: "hasProperty_but T (set_parent j p s) t i q = hasProperty_but T s t i q"
  by (simp add: hasProperty_but_list)

lemma flags_set_parent [simp]:
  "updateTileFlags_add T (set_parent j p s) i t = updateTileFlags_add T s i t"
  "updateTileFlags_remove T (set_parent j p s) i t = updateTileFlags_remove T s i t"
  by (simp_all add: updateTileFlags_add_def updateTileFlags_remove_def isDepotBox_def Let_def)

lemma layers_ok_set_parent [simp]: "layers_ok T (set_parent j p s) t = layers_ok T s t"
  by (simp add: layers_ok_def)

lemma flags_for_set_parent [simp]: "flags_for T (set_parent j p s) A t = flags_for T s A t"
  by (simp add: flags_for_def)

lemma flags_for_same: "m_flags t' = m_flags t \<Longrightarrow> flags_for T s A t' = flags_for T s A t"
  by (simp add: flags_for_def hasFlag_def)

lemma item_ok_set_parent [simp]: "item_ok T (set_parent j p s i) = item_ok T (s i)"
  by (simp add: item_ok_def)

lemma tile_okD:
  assumes "tile_ok T self (t, s)"
  shows "layers_ok T s t" "i \<in> set (tile_list t) \<Longrightarrow> i_parent (s i) = Some self \<and> item_ok T (s i)" "flags_for T s (set (tile_list t)) t"
  using assms by (simp_all add: tile_ok_def)

lemma tile_leave_ok:
  assumes ok: "tile_ok T self (t, s)" and l: "layers_ok T s t1" "set (tile_list t1) = set (tile_list t) - {i}"
    and m: "m_flags t1 = m_flags t"
  shows "tile_ok T self (updateTileFlags_remove T s i t1, set_parent i None s)"
  using flags_for_remove[OF tile_okD(3)[OF ok, folded flags_for_same[OF m]], of i] l tile_okD(2)[OF ok]
  by (auto simp: tile_ok_def)

lemma enter_ok:
  assumes ok: "tile_ok T self (t, s)" and l: "layers_ok T s t1" "set (tile_list t1) = insert i (set (tile_list t))"
    and m: "m_flags t1 = m_flags t" and p: "i_parent (s i) = Some self" "item_ok T (s i)"
  shows "tile_ok T self (updateTileFlags_add T s i t1, s)"
  using flags_for_add[OF tile_okD(3)[OF ok, folded flags_for_same[OF m]], of i] l p tile_okD(2)[OF ok]
  by (auto simp: tile_ok_def)

lemma give_way_ok:
  assumes ok: "tile_ok T self (t, s)" and l: "layers_ok T s t1" "set (tile_list t1) = insert i (set (tile_list t) - {j})"
    and m: "m_flags t1 = m_flags t" and p: "i_parent (s i) = Some self" "item_ok T (s i)" and ij: "i \<noteq> j"
  shows "tile_ok T self (updateTileFlags_add T s i (updateTileFlags_remove T s j t1), set_parent j None s)"
  using flags_for_swap[OF tile_okD(3)[OF ok, folded flags_for_same[OF m]] l(2) ij] l p tile_okD(2)[OF ok] ij
  by (auto simp: tile_ok_def)

text \<open>A count, or a type of the same layer, changes while the item stays.\<close>

lemma tile_change_ok:
  assumes ok: "tile_ok T self (t, s)" and i: "i \<in> set (tile_list t)"
    and x: "i_parent x = i_parent (s i)" "item_ok T x" "alwaysOnTop (T (i_id x)) = alwaysOnTop (T (i_id (s i)))"
  shows "tile_ok T self (updateTileFlags_add T (s(i := x)) i (updateTileFlags_remove T s i t), s(i := x))"
proof -
  let ?s = "s(i := x)" and ?A = "set (tile_list t)"
  note d = tile_okD[OF ok]
  have "flags_for T s (?A - {i}) (updateTileFlags_remove T s i t)" by (rule flags_for_remove[OF d(3)]) simp
  then have "flags_for T ?s (?A - {i}) (updateTileFlags_remove T s i t)" by (rule flags_for_store) simp_all
  then have "flags_for T ?s ?A (updateTileFlags_add T ?s i (updateTileFlags_remove T s i t))"
    using flags_for_add[of T ?s "?A - {i}" _ i] i by (simp add: insert_absorb)
  moreover have "layers_ok T ?s t" using d(1) x(3) by (simp add: layers_ok_def)
  ultimately show ?thesis using d(2) x(1,2) i by (simp add: tile_ok_def)
qed

text \<open>Removing an item.\<close>

definition same_but :: "nat \<Rightarrow> item_store \<Rightarrow> item_store \<Rightarrow> bool" where
  "same_but i s s' \<longleftrightarrow> (\<forall>j. j \<noteq> i \<longrightarrow> s' j = s j) \<and> i_id (s' i) = i_id (s i) \<and> i_class (s' i) = i_class (s i)"

lemma same_but_set_parent [simp]: "same_but i s (set_parent i p s)"
  by (simp add: same_but_def) (simp add: set_parent_def)

lemma removeItem_ok:
  assumes ok: "tile_ok T self (t, s)" and r: "removeItem_tile T i cnt (t, s) = (t', s')"
  shows "tile_ok T self (t', s')" "set (tile_list t') \<subseteq> set (tile_list t)" "same_but i s s'"
    "length (titems t') \<le> length (titems t)"
proof -
  note d = tile_okD[OF ok]
  have "tile_ok T self (t', s') \<and> set (tile_list t') \<subseteq> set (tile_list t) \<and> same_but i s s' \<and> length (titems t') \<le> length (titems t)"
  proof (cases "getIndexOfThing t (Item i) = - 1")
    case True
    then show ?thesis using ok r by (simp add: removeItem_tile_def same_but_def)
  next
    case on: False
    then have i: "i \<in> set (tile_list t)" by (simp add: index_not_found set_things)
    consider (ground) "ground t = Some i"
      | (top) "ground t \<noteq> Some i" "alwaysOnTop (T (i_id (s i)))" "i \<in> set (topItems t)"
      | (part) "ground t \<noteq> Some i" "\<not> alwaysOnTop (T (i_id (s i)))" "i \<in> set (downItems t)"
          "ty_stackable (T (i_id (s i))) \<and> cnt \<noteq> ucast (i_count (s i))"
      | (down) "ground t \<noteq> Some i" "\<not> alwaysOnTop (T (i_id (s i)))" "i \<in> set (downItems t)"
          "\<not> (ty_stackable (T (i_id (s i))) \<and> cnt \<noteq> ucast (i_count (s i)))"
      using i layers_okD(2,3)[OF d(1), of i]
      by (auto simp: tile_list_def set_titems split: option.splits)
    then show ?thesis
    proof cases
      case ground
      let ?t = "t\<lparr>ground := None, thingCount := thingCount t - 1\<rparr>"
      have l: "set (tile_list ?t) = set (tile_list t) - {i}" "layers_ok T s ?t"
        using layers_okD[OF d(1)] ground by (auto simp: tile_list_def layers_ok_def downItems_def topItems_def tile_wf_def)
      have "t' = updateTileFlags_remove T s i ?t" "s' = set_parent i None s"
        using r on ground by (simp_all add: removeItem_tile_def Let_def)
      then show ?thesis using tile_leave_ok[OF ok l(2,1)] l(1) by auto
    next
      case top
      note l = removeTop_ok[OF d(1) top(3)]
      have "t' = updateTileFlags_remove T s i (t\<lparr>titems := downItems t @ remove1 i (topItems t), thingCount := thingCount t - 1\<rparr>)"
        "s' = set_parent i None s"
        using r on top by (simp_all add: removeItem_tile_def Let_def)
      then show ?thesis using tile_leave_ok[OF ok l] l(2) length_remove1_in[OF top(3)] length_layers[of t] by auto
    next
      case part
      define n :: u8 where "n = of_int (max 0 (sint (ucast (i_count (s i)) - cnt)))"
      have "tile_ok T self (updateTileFlags_add T (s(i := (s i)\<lparr>i_count := n\<rparr>)) i (updateTileFlags_remove T s i t), s(i := (s i)\<lparr>i_count := n\<rparr>))"
        by (rule tile_change_ok[OF ok i]) (use d(2)[OF i] in \<open>simp_all add: item_ok_def\<close>)
      moreover have "t' = updateTileFlags_add T (s(i := (s i)\<lparr>i_count := n\<rparr>)) i (updateTileFlags_remove T s i t)"
        "s' = s(i := (s i)\<lparr>i_count := n\<rparr>)"
        using r on part by (auto simp: removeItem_tile_def Let_def n_def)
      ultimately show ?thesis by (simp add: same_but_def)
    next
      case down
      note l = removeDown_ok[OF d(1) down(3)]
      have "t' = updateTileFlags_remove T s i (t\<lparr>titems := remove1 i (downItems t) @ topItems t,
          downItemCount := downItemCount t - 1, thingCount := thingCount t - 1\<rparr>)" "s' = set_parent i None s"
        using r on down by (auto simp: removeItem_tile_def Let_def split: if_splits)
      then show ?thesis using tile_leave_ok[OF ok l] l(2) length_remove1_in[OF down(3)] length_layers[of t] by auto
    qed
  qed
  then show "tile_ok T self (t', s')" "set (tile_list t') \<subseteq> set (tile_list t)" "same_but i s s'"
    "length (titems t') \<le> length (titems t)" by blast+
qed

section \<open>Adding an item\<close>

text \<open>What is used of the item table: fields are not stacked, and the two waterballs agree.\<close>

definition table_ok :: "itypes \<Rightarrow> bool" where
  "table_ok T \<longleftrightarrow> (\<forall>k. isMagicField (T k) \<longrightarrow> \<not> ty_stackable (T k)) \<and> \<not> alwaysOnTop (T ITEM_WATERBALL)
     \<and> (isMagicField (T ITEM_WATERBALL_SPLASH) \<longrightarrow> isMagicField (T ITEM_WATERBALL))"

lemma removed_gone:
  assumes ok: "tile_ok T self (t, s)" and r: "removeItem_tile T j cnt (t, s) = (t', s')"
    and j: "ground t \<noteq> Some j" "alwaysOnTop (T (i_id (s j))) \<or> \<not> ty_stackable (T (i_id (s j)))"
  shows "j \<notin> set (tile_list t')"
proof -
  note d = tile_okD[OF ok]
  show ?thesis
  proof (cases "j \<in> set (titems t)")
    case False
    then show ?thesis
      using removeItem_ok(2)[OF ok r] j(1) by (auto simp: tile_list_def split: option.splits)
  next
    case True
    then have on: "getIndexOfThing t (Item j) \<noteq> - 1" by (simp add: index_not_found set_things tile_list_def)
    show ?thesis
    proof (cases "alwaysOnTop (T (i_id (s j)))")
      case True
      then have i: "j \<in> set (topItems t)" using \<open>j \<in> set (titems t)\<close> layers_okD(2)[OF d(1), of j] by (auto simp: set_titems)
      have "t' = updateTileFlags_remove T s j (t\<lparr>titems := downItems t @ remove1 j (topItems t), thingCount := thingCount t - 1\<rparr>)"
        using r on True i j(1) by (simp add: removeItem_tile_def Let_def)
      then show ?thesis using removeTop_ok(2)[OF d(1) i] by simp
    next
      case False
      then have i: "j \<in> set (downItems t)" using \<open>j \<in> set (titems t)\<close> layers_okD(3)[OF d(1), of j] by (auto simp: set_titems)
      have "t' = updateTileFlags_remove T s j (t\<lparr>titems := remove1 j (downItems t) @ topItems t,
          downItemCount := downItemCount t - 1, thingCount := thingCount t - 1\<rparr>)"
        using r on False i j by (auto simp: removeItem_tile_def Let_def split: if_splits)
      then show ?thesis using removeDown_ok(2)[OF d(1) i] by simp
    qed
  qed
qed

lemma tile_ok_leave_parent: "tile_ok T self (t, s) \<Longrightarrow> j \<notin> set (tile_list t) \<Longrightarrow> tile_ok T self (t, set_parent j p s)"
  by (auto simp: tile_ok_def)

lemma throwOff_ok:
  assumes ok: "tile_ok T self (t, s)" and r: "throwOff T j (t, s) = (t', s')"
    and j: "ground t \<noteq> Some j" "alwaysOnTop (T (i_id (s j))) \<or> \<not> ty_stackable (T (i_id (s j)))"
  shows "tile_ok T self (t', s')" "set (tile_list t') \<subseteq> set (tile_list t)" "same_but j s s'"
    "length (titems t') \<le> length (titems t)"
proof -
  obtain s1 where s1: "removeItem_tile T j 1 (t, s) = (t', s1)" "s' = set_parent j None s1"
    using r by (auto simp: throwOff_def removeThing_def split: prod.splits)
  note rm = removeItem_ok[OF ok s1(1)]
  show "tile_ok T self (t', s')" unfolding s1(2)
    by (rule tile_ok_leave_parent[OF rm(1) removed_gone[OF ok s1(1) j]])
  show "set (tile_list t') \<subseteq> set (tile_list t)" "length (titems t') \<le> length (titems t)" by (rule rm)+
  show "same_but j s s'" unfolding s1(2) using rm(3) by (simp add: same_but_def) (simp add: set_parent_def)
qed

text \<open>An item that comes onto the tile: it is on no list yet, and its parent is the tile.\<close>

definition newcomer :: "itypes \<Rightarrow> nat \<Rightarrow> nat \<Rightarrow> tstate \<Rightarrow> bool" where
  "newcomer T self i st \<longleftrightarrow> i \<notin> set (tile_list (fst st)) \<and> length (titems (fst st)) < 0xFFFF
     \<and> i_parent (snd st i) = Some self \<and> item_ok T (snd st i)"

lemma addGround_ok:
  assumes ok: "tile_ok T self (t, s)" and n: "newcomer T self i (t, s)"
  shows "tile_ok T self (addGround T i (t, s))"
proof (cases "ground t")
  case None
  let ?t = "t\<lparr>ground := Some i, thingCount := thingCount t + 1\<rparr>"
  have "layers_ok T s ?t" "set (tile_list ?t) = insert i (set (tile_list t))"
    using tile_okD(1)[OF ok] n None
    by (auto simp: layers_ok_def newcomer_def tile_list_def downItems_def topItems_def tile_wf_def)
  then show ?thesis using enter_ok[OF ok, of ?t i] n None by (simp add: addGround_def newcomer_def)
next
  case (Some g)
  let ?t = "t\<lparr>ground := Some i\<rparr>"
  have "layers_ok T s ?t" "set (tile_list ?t) = insert i (set (tile_list t) - {g})" "i \<noteq> g"
    using tile_okD(1)[OF ok] n Some
    by (auto simp: layers_ok_def newcomer_def tile_list_def downItems_def topItems_def tile_wf_def)
  then show ?thesis using give_way_ok[OF ok, of ?t i g] n Some by (simp add: addGround_def newcomer_def Let_def)
qed

lemma newcomer_after:
  assumes "newcomer T self i (t, s)" "set (tile_list t') \<subseteq> set (tile_list t)" "same_but j s s'" "i \<noteq> j"
    "length (titems t') \<le> length (titems t)"
  shows "newcomer T self i (t', s')" "s' i = s i"
  using assms by (auto simp: newcomer_def same_but_def)

lemma addTop_ok:
  assumes ok: "tile_ok T self (t, s)" and n: "newcomer T self i (t, s)" and top: "alwaysOnTop (T (i_id (s i)))"
  shows "tile_ok T self (addTop T i (t, s))"
proof -
  define old where "old = (if isSplash (T (i_id (s i))) then find (\<lambda>j. isSplash (T (i_id (s j)))) (topItems t) else None)"
  obtain t' s' where st: "(case old of None \<Rightarrow> (t, s) | Some j \<Rightarrow> throwOff T j (t, s)) = (t', s')" by fastforce
  have ok': "tile_ok T self (t', s') \<and> newcomer T self i (t', s') \<and> s' i = s i"
  proof (cases old)
    case None
    then show ?thesis using ok n st by simp
  next
    case (Some j)
    then have j: "j \<in> set (topItems t)" by (auto simp: old_def find_Some_iff split: if_splits)
    then have g: "ground t \<noteq> Some j"
      using layers_okD(4)[OF tile_okD(1)[OF ok]] by (auto simp: tile_list_def set_titems)
    have ij: "i \<noteq> j" using n j by (auto simp: newcomer_def tile_list_def set_titems)
    note th = throwOff_ok[OF ok _ g disjI1[OF layers_okD(3)[OF tile_okD(1)[OF ok] j]], of t' s']
    show ?thesis using th st Some newcomer_after[OF n _ _ ij] by auto
  qed
  have l: "layers_ok T s' (insertTop b i t')" "set (tile_list (insertTop b i t')) = insert i (set (tile_list t'))" for b
    using insertTop_ok[OF tile_okD(1), of T self t' s' i b] ok' top by (auto simp: newcomer_def)
  have "tile_ok T self (updateTileFlags_add T s' i (insertTop b i t'), s')" for b
    using enter_ok[OF _ l(1) l(2)] ok' by (auto simp: newcomer_def insertTop_def)
  then show ?thesis using st by (simp add: addTop_def Let_def old_def split: if_splits option.splits)
qed

lemma addDown_ok:
  assumes ok: "tile_ok T self (t, s)" and n: "newcomer T self i (t, s)" and down: "\<not> alwaysOnTop (T (i_id (s i)))"
    and T: "table_ok T"
  shows "tile_ok T self (addDown T i (t, s))"
proof -
  define old where "old = (if isMagicField (T (i_id (s i))) then find (\<lambda>j. i_class (s j) = MagicField) (downItems t) else None)"
  have eq: "addDown T i (t, s) =
    (if case old of None \<Rightarrow> False | Some j \<Rightarrow> \<not> replacable (T (i_id (s j))) then (t, set_parent i None s)
     else case (case old of None \<Rightarrow> (t, s) | Some j \<Rightarrow> throwOff T j (t, s)) of (t, s) \<Rightarrow>
       let s = (if i_id (s i) = ITEM_WATERBALL_SPLASH \<and> \<not> hasFlag TILESTATE_TRASHHOLDER t
                then s(i := (s i)\<lparr>i_id := ITEM_WATERBALL\<rparr>) else s)
       in (updateTileFlags_add T s i (insertDown i t), s))"
    unfolding addDown_def fst_conv snd_conv old_def by (simp only: Let_def)
  show ?thesis
  proof (cases "case old of None \<Rightarrow> False | Some j \<Rightarrow> \<not> replacable (T (i_id (s j)))")
    case True
    show ?thesis unfolding eq if_P[OF True] using tile_ok_leave_parent[OF ok] n by (simp add: newcomer_def)
  next
    case keep: False
    obtain t' s' where st: "(case old of None \<Rightarrow> (t, s) | Some j \<Rightarrow> throwOff T j (t, s)) = (t', s')" by fastforce
    have ok': "tile_ok T self (t', s') \<and> newcomer T self i (t', s') \<and> s' i = s i"
    proof (cases old)
      case None
      then show ?thesis using ok n st by simp
    next
      case (Some j)
      then have j: "j \<in> set (downItems t)" "i_class (s j) = MagicField" by (auto simp: old_def find_Some_iff split: if_splits)
      then have on: "j \<in> set (tile_list t)" by (simp add: tile_list_def set_titems)
      have g: "ground t \<noteq> Some j"
        using layers_okD(4)[OF tile_okD(1)[OF ok]] j(1) by (auto simp: tile_list_def set_titems)
      have ij: "i \<noteq> j" using n on by (auto simp: newcomer_def)
      have "\<not> ty_stackable (T (i_id (s j)))"
        using tile_okD(2)[OF ok on] j(2) T by (simp add: item_ok_def table_ok_def)
      then show ?thesis using throwOff_ok[OF ok _ g, of t' s'] st Some newcomer_after[OF n _ _ ij] by auto
    qed
    define s2 where "s2 = (if i_id (s' i) = ITEM_WATERBALL_SPLASH \<and> \<not> hasFlag TILESTATE_TRASHHOLDER t'
      then s'(i := (s' i)\<lparr>i_id := ITEM_WATERBALL\<rparr>) else s')"
    have s2: "\<And>j. j \<noteq> i \<Longrightarrow> s2 j = s' j" "i_parent (s2 i) = Some self" "item_ok T (s2 i)" "\<not> alwaysOnTop (T (i_id (s2 i)))"
      using ok' down T by (auto simp: s2_def newcomer_def item_ok_def table_ok_def)
    have notin: "i \<notin> set (tile_list t')" using ok' by (simp add: newcomer_def)
    have ok2: "tile_ok T self (t', s2)"
      using ok' s2(1) notin flags_for_store[of T s' "set (tile_list t')" t' s2 t'] layers_ok_store[of T s' t' s2]
      unfolding tile_ok_def by (metis fst_conv snd_conv)
    have l: "layers_ok T s2 (insertDown i t')" "set (tile_list (insertDown i t')) = insert i (set (tile_list t'))"
      using insertDown_ok[OF tile_okD(1)[OF ok2], of i] ok' s2(4) by (auto simp: newcomer_def)
    have "tile_ok T self (updateTileFlags_add T s2 i (insertDown i t'), s2)"
      by (rule enter_ok[OF ok2 l]) (use s2 in \<open>simp_all add: insertDown_def\<close>)
    then show ?thesis unfolding eq if_not_P[OF keep] st by (simp add: s2_def Let_def)
  qed
qed

text \<open>A tile of its own kind: the trash mark and the creatures do not touch the items.\<close>

definition zone_flags :: "tileflag list" where
  "zone_flags = [TILESTATE_PROTECTIONZONE, TILESTATE_OPTIONALZONE, TILESTATE_NOLOGOUT, TILESTATE_HARDCOREZONE,
     TILESTATE_REFRESH, TILESTATE_HOUSE]"

lemma tile_ok_other_flag:
  assumes "f \<notin> fst ` set block_flags"
  shows "tile_ok T self (setFlag f t, s) = tile_ok T self (t, s)"
proof -
  have "same_things t (setFlag f t)" by simp
  note st = same_thingsD[OF this]
  have "flags_for T s A (setFlag f t) = flags_for T s A t" for A
    using assms by (auto simp: flags_for_def block_flags_def)
  then show ?thesis by (simp add: tile_ok_def layers_ok_def st)
qed

lemma tile_ok_trashed [simp]: "tile_ok T self (setFlag TILESTATE_TRASHED t, s) = tile_ok T self (t, s)"
  by (rule tile_ok_other_flag) (simp add: block_flags_def)

lemma tile_ok_zone: "f \<in> set zone_flags \<Longrightarrow> tile_ok T self (setFlag f t, s) = tile_ok T self (t, s)"
  by (rule tile_ok_other_flag) (auto simp: block_flags_def zone_flags_def)

lemma listed_layers [simp]: "downItems (t\<lparr>listed := b\<rparr>) = downItems t" "topItems (t\<lparr>listed := b\<rparr>) = topItems t"
  "tile_list (t\<lparr>listed := b\<rparr>) = tile_list t" "tile_wf (t\<lparr>listed := b\<rparr>) = tile_wf t"
  by (simp_all add: downItems_def topItems_def tile_list_def tile_wf_def)

lemma tile_ok_listed [simp]: "tile_ok T self (t\<lparr>listed := b\<rparr>, s) = tile_ok T self (t, s)"
  using flags_for_same[of "t\<lparr>listed := b\<rparr>" t T s] by (simp add: tile_ok_def layers_ok_def)

lemma creatures_ok:
  assumes ok: "tile_ok T self (t, s)" and cs: "distinct cs"
  shows "tile_ok T self (t\<lparr>creatures := cs, thingCount := of_nat (length (tile_list t) + length cs)\<rparr>, s)"
proof -
  let ?t = "t\<lparr>creatures := cs, thingCount := of_nat (length (tile_list t) + length cs)\<rparr>"
  have "tile_list ?t = tile_list t" "downItems ?t = downItems t" "topItems ?t = topItems t" "tile_wf ?t = tile_wf t"
    by (simp_all add: tile_list_def downItems_def topItems_def tile_wf_def)
  moreover have "flags_for T s A ?t = flags_for T s A t" for A by (rule flags_for_same) simp
  ultimately show ?thesis using ok cs by (simp add: tile_ok_def layers_ok_def)
qed

lemma addCreature_ok:
  assumes ok: "tile_ok T self (t, s)" and c: "c \<notin> set (creatures t)"
  shows "tile_ok T self (addCreature_tile c t, s)"
  using creatures_ok[OF ok, of "c # creatures t"] layers_okD(5,6)[OF tile_okD(1)[OF ok]] c
  by (simp add: addCreature_tile_def ac_simps)

lemma removeCreature_tile_ok:
  assumes ok: "tile_ok T self (t, s)"
  shows "tile_ok T self (removeCreature_tile c t, s)"
proof (cases "c \<in> set (creatures t)")
  case True
  note d = layers_okD(5,6)[OF tile_okD(1)[OF ok]]
  have "thingCount t - 1 = of_nat (length (tile_list t) + length (remove1 c (creatures t)))"
    using d(2) length_remove1_in[OF True] by simp
  then show ?thesis using creatures_ok[OF ok, of "remove1 c (creatures t)"] d(1) True
    by (simp add: removeCreature_tile_def)
qed (simp add: removeCreature_tile_def ok)

section \<open>Runs\<close>

datatype tile_op = SetZone tileflag | InternalAdd thing | AddThing thing | UpdateThing thing u16 u32 | ReplaceThing nat nat | RemoveThing thing u32

text \<open>
  What the callers see to: a thing that comes is not on the tile, and items are what \<open>CreateItem\<close> made
  them; the map gives a tile one ground; \<open>transformItem\<close> updates and replaces only what stays in its
  layer, and updates only items of the same kind.
\<close>

fun called_rightly :: "itypes \<Rightarrow> tile_op \<Rightarrow> tstate \<Rightarrow> bool" where
  "called_rightly T (SetZone f) (t, s) \<longleftrightarrow> f \<in> set zone_flags" |
  "called_rightly T (InternalAdd (Item i)) (t, s) \<longleftrightarrow>
     i \<notin> set (tile_list t) \<and> item_ok T (s i) \<and> \<not> (isGroundTile (T (i_id (s i))) \<and> ground t \<noteq> None)"
| "called_rightly T (InternalAdd (Creature c)) (t, s) \<longleftrightarrow> c \<notin> set (creatures t)"
| "called_rightly T (AddThing (Item i)) (t, s) \<longleftrightarrow> i \<notin> set (tile_list t) \<and> item_ok T (s i)"
| "called_rightly T (AddThing (Creature c)) (t, s) \<longleftrightarrow> c \<notin> set (creatures t)"
| "called_rightly T (UpdateThing (Item i) itemId n) (t, s) \<longleftrightarrow>
     alwaysOnTop (T itemId) = alwaysOnTop (T (i_id (s i))) \<and> item_ok T ((s i)\<lparr>i_id := itemId\<rparr>)"
| "called_rightly T (UpdateThing (Creature c) itemId n) (t, s) \<longleftrightarrow> True"
| "called_rightly T (ReplaceThing index i) (t, s) \<longleftrightarrow> i \<notin> set (tile_list t) \<and> item_ok T (s i)
     \<and> (\<exists>j\<in>set (tile_list t). getThing t index = Some (Item j) \<and> alwaysOnTop (T (i_id (s i))) = alwaysOnTop (T (i_id (s j))))"
| "called_rightly T (RemoveThing th n) (t, s) \<longleftrightarrow> True"

definition tile_step :: "itypes \<Rightarrow> bool \<Rightarrow> nat \<Rightarrow> tile_op \<Rightarrow> tstate \<Rightarrow> tstate" where
  "tile_step T storeTrash self e st =
     (if called_rightly T e st
      then case e of
          SetZone f \<Rightarrow> (setFlag f (fst st), snd st)
        | InternalAdd th \<Rightarrow> internalAddThing T self th st
        | AddThing th \<Rightarrow> addThing_tile T storeTrash self th st
        | UpdateThing th itemId n \<Rightarrow> updateThing_tile T th itemId n st
        | ReplaceThing index i \<Rightarrow> replaceThing_tile T self index i st
        | RemoveThing th n \<Rightarrow> removeThing T th n st
      else st)"

definition tile_run :: "itypes \<Rightarrow> bool \<Rightarrow> nat \<Rightarrow> bool \<Rightarrow> item_store \<Rightarrow> tile_op list \<Rightarrow> tstate" where
  "tile_run T storeTrash self dyn s es = fold (tile_step T storeTrash self) es (new_tile dyn, s)"

lemma set_parent_newcomer:
  assumes "tile_ok T self (t, s)" "i \<notin> set (tile_list t)" "length (titems t) < 0xFFFF" "item_ok T (s i)"
  shows "tile_ok T self (t, set_parent i (Some self) s)" "newcomer T self i (t, set_parent i (Some self) s)"
  using assms by (auto simp: newcomer_def intro: tile_ok_leave_parent)

lemma addThing_tile_ok:
  assumes T: "table_ok T" and ok: "tile_ok T self (t, s)" and c: "called_rightly T (AddThing th) (t, s)"
  shows "tile_ok T self (addThing_tile T storeTrash self th (t, s))"
proof (cases th)
  case (Creature c)
  then show ?thesis using addCreature_ok[OF ok] c by (simp add: addThing_tile_def)
next
  case (Item i)
  show ?thesis
  proof (cases "length (titems t) \<ge> 0xFFFF")
    case True
    then show ?thesis using ok Item by (simp add: addThing_tile_def)
  next
    case False
    define t1 where "t1 = (if storeTrash \<and> \<not> hasFlag TILESTATE_TRASHED t then setFlag TILESTATE_TRASHED t else t)"
    have "same_things t t1" by (simp add: t1_def)
    note t1 = same_thingsD[OF this]
    have ok1: "tile_ok T self (t1, s)" using ok by (simp add: t1_def)
    note n = set_parent_newcomer[OF ok1, of i]
    show ?thesis
      using n c False Item T addGround_ok[of T self t1 "set_parent i (Some self) s" i]
        addTop_ok[of T self t1 "set_parent i (Some self) s" i] addDown_ok[of T self t1 "set_parent i (Some self) s" i]
      by (simp add: addThing_tile_def t1_def[symmetric] t1 Let_def)
  qed
qed

lemma tile_internalAdd_ok:
  assumes ok: "tile_ok T self (t, s)" and c: "called_rightly T (InternalAdd th) (t, s)"
  shows "tile_ok T self (internalAddThing T self th (t, s))"
proof (cases th)
  case (Creature c)
  then show ?thesis using addCreature_ok[OF ok] c by (simp add: internalAddThing_def)
next
  case (Item i)
  define t0 where "t0 = t\<lparr>listed := True\<rparr>"
  have ok0: "tile_ok T self (t0, s)" using ok by (simp add: t0_def)
  have c0: "ground t0 = ground t" "titems t0 = titems t" "tile_list t0 = tile_list t" "thingCount t0 = thingCount t"
    by (simp_all add: t0_def)
  let ?s = "set_parent i (Some self) s" and ?it = "T (i_id (s i))"
  have i: "i \<notin> set (tile_list t0)" "item_ok T (s i)" "isGroundTile ?it \<Longrightarrow> ground t0 = None" using c Item c0 by auto
  show ?thesis
  proof (cases "length (titems t) \<ge> 0xFFFF")
    case True
    then show ?thesis using tile_ok_leave_parent[OF ok0 i(1)] Item by (simp add: internalAddThing_def Let_def t0_def)
  next
    case False
    define t1 where "t1 = (if isGroundTile ?it then
          (if ground t0 = None then t0\<lparr>ground := Some i, thingCount := thingCount t0 + 1\<rparr> else t0)
        else if alwaysOnTop ?it then insertTop (\<lambda>j. \<not> topOrder T ?s j \<le> topOrder T ?s i) i t0
        else insertDown i t0)"
    have eq: "internalAddThing T self th (t, s) = (updateTileFlags_add T ?s i t1, ?s)"
      using False Item by (simp add: internalAddThing_def Let_def t1_def t0_def)
    have ok1: "tile_ok T self (t0, ?s)" by (rule tile_ok_leave_parent[OF ok0 i(1)])
    have "layers_ok T ?s t1 \<and> set (tile_list t1) = insert i (set (tile_list t0)) \<and> m_flags t1 = m_flags t0"
    proof (cases "isGroundTile ?it")
      case True
      then show ?thesis using i tile_okD(1)[OF ok0]
        by (auto simp: t1_def layers_ok_def tile_list_def downItems_def topItems_def tile_wf_def)
    next
      case ng: False
      show ?thesis
        using insertTop_ok[OF tile_okD(1)[OF ok1] _ i(1)] insertDown_ok[OF tile_okD(1)[OF ok1] _ i(1)] False ng c0
        by (simp add: t1_def insertTop_def insertDown_def)
    qed
    then show ?thesis unfolding eq using enter_ok[OF ok1, of t1 i] i(2) by simp
  qed
qed

lemma updateThing_tile_ok:
  assumes ok: "tile_ok T self (t, s)" and c: "called_rightly T (UpdateThing th itemId n) (t, s)"
  shows "tile_ok T self (updateThing_tile T th itemId n (t, s))"
proof (cases "\<exists>i. th = Item i \<and> i \<in> set (tile_list t)")
  case False
  then show ?thesis using ok by (cases th) (simp_all add: updateThing_tile_def index_not_found set_things)
next
  case True
  then obtain i where i: "th = Item i" "i \<in> set (tile_list t)" by blast
  define x where "x = item_setSubType T (ucast n) ((s i)\<lparr>i_id := itemId\<rparr>)"
  have "i_parent x = i_parent (s i)" "i_id x = itemId" "i_class x = i_class (s i)"
    by (simp_all add: x_def item_setSubType_def Let_def)
  then have "tile_ok T self (updateTileFlags_add T (s(i := x)) i (updateTileFlags_remove T s i t), s(i := x))"
    by (intro tile_change_ok[OF ok i(2)]) (use c i in \<open>simp_all add: item_ok_def\<close>)
  then show ?thesis using i by (simp add: updateThing_tile_def index_not_found set_things Let_def x_def)
qed

lemma replace_at_ok:
  assumes l: "layers_ok T s t" and g: "getThing t index = Some (Item j)" and i: "i \<notin> set (tile_list t)"
    and top: "alwaysOnTop (T (i_id (s i))) = alwaysOnTop (T (i_id (s j)))"
  shows "\<exists>t1. replace_at t index i = Some (Some j, t1) \<and> layers_ok T s t1
    \<and> set (tile_list t1) = insert i (set (tile_list t) - {j}) \<and> m_flags t1 = m_flags t"
proof -
  note d = layers_okD[OF l]
  have di: "distinct (downItems t @ topItems t)" using d(4) by (simp add: layers_append tile_list_def split: option.splits)
  define pos where "pos = (if ground t \<noteq> None then index - 1 else index)"
  have nth: "titems t ! (unat (downItemCount t) + k) = topItems t ! k" if "k < length (topItems t)" for k
    using d(1) that by (simp add: topItems_def tile_wf_def)
  have nth2: "titems t ! k = downItems t ! k" if "k < length (downItems t)" for k
    using that by (simp add: downItems_def)
  consider (ground) "ground t = Some j" "index = 0"
    | (top) "\<not> (ground t \<noteq> None \<and> index = 0)" "pos < length (topItems t)" "topItems t ! pos = j"
    | (down) k where "\<not> (ground t \<noteq> None \<and> index = 0)" "\<not> pos < length (topItems t)"
      "\<not> pos - length (topItems t) < length (creatures t)" "k = pos - length (topItems t) - length (creatures t)"
      "k < length (downItems t)" "downItems t ! k = j"
    using g by (auto simp: getThing_def pos_def Let_def nth nth2 split: if_splits)
  then show ?thesis
  proof cases
    case ground
    let ?t = "t\<lparr>ground := Some i\<rparr>"
    have "layers_ok T s ?t" "set (tile_list ?t) = insert i (set (tile_list t) - {j})"
      using l i ground by (auto simp: layers_ok_def tile_list_def downItems_def topItems_def tile_wf_def)
    then show ?thesis using ground by (simp add: replace_at_def)
  next
    case top
    let ?t = "t\<lparr>titems := downItems t @ (topItems t)[pos := i]\<rparr>"
    have "titems ?t = downItems t @ (topItems t)[pos := i]" "unat (downItemCount ?t) = length (downItems t)"
      "length (downItems t @ (topItems t)[pos := i]) \<le> 0xFFFF"
      using d(1) length_layers[of t] by (simp_all add: length_down tile_wf_def)
    note lay = layersI[OF this]
    have set_eq: "set ((topItems t)[pos := i]) = insert i (set (topItems t) - {j})"
      using set_update_distinct[of "topItems t" pos i] di top by simp
    have j: "j \<in> set (topItems t)" using top by auto
    have sets: "set (tile_list ?t) = insert i (set (tile_list t) - {j})"
      using di d(4) j by (auto simp: tile_list_def set_titems set_eq split: option.splits)
    have "distinct (tile_list ?t)"
      using di d(4) i top by (auto simp: tile_list_def set_titems set_eq distinct_list_update split: option.splits)
    then have "layers_ok T s ?t"
      using d j assms(4) length_layers[of t] by (auto simp: layers_ok_def lay set_eq tile_list_def split: option.splits)
    moreover have "replace_at t index i = Some (Some j, ?t)"
      unfolding replace_at_def if_not_P[OF top(1)] Let_def pos_def[symmetric] if_P[OF top(2)] top(3) by simp
    ultimately show ?thesis using sets by simp
  next
    case down
    let ?t = "t\<lparr>titems := (downItems t)[k := i] @ topItems t\<rparr>"
    have "titems ?t = (downItems t)[k := i] @ topItems t" "unat (downItemCount ?t) = length ((downItems t)[k := i])"
      "length ((downItems t)[k := i] @ topItems t) \<le> 0xFFFF"
      using d(1) length_layers[of t] by (simp_all add: length_down tile_wf_def)
    note lay = layersI[OF this]
    have set_eq: "set ((downItems t)[k := i]) = insert i (set (downItems t) - {j})"
      using set_update_distinct[of "downItems t" k i] di down by simp
    have j: "j \<in> set (downItems t)" using down by auto
    have sets: "set (tile_list ?t) = insert i (set (tile_list t) - {j})"
      using di d(4) j by (auto simp: tile_list_def set_titems set_eq split: option.splits)
    have "distinct (tile_list ?t)"
      using di d(4) i down(5) by (auto simp: tile_list_def set_titems set_eq distinct_list_update split: option.splits)
    then have "layers_ok T s ?t"
      using d j assms(4) length_layers[of t] by (auto simp: layers_ok_def lay set_eq tile_list_def split: option.splits)
    moreover have "replace_at t index i = Some (Some j, ?t)"
      using down(5,6) unfolding replace_at_def if_not_P[OF down(1)] Let_def pos_def[symmetric] if_not_P[OF down(2)]
        if_not_P[OF down(3)] down(4)[symmetric] by simp
    ultimately show ?thesis using sets by simp
  qed
qed

lemma replaceThing_tile_ok:
  assumes ok: "tile_ok T self (t, s)" and c: "called_rightly T (ReplaceThing index i) (t, s)"
  shows "tile_ok T self (replaceThing_tile T self index i (t, s))"
proof -
  obtain j where i: "i \<notin> set (tile_list t)" "item_ok T (s i)" and j: "j \<in> set (tile_list t)" "getThing t index = Some (Item j)"
    "alwaysOnTop (T (i_id (s i))) = alwaysOnTop (T (i_id (s j)))"
    using c by auto
  let ?s = "set_parent i (Some self) s"
  obtain t1 where t1: "replace_at t index i = Some (Some j, t1)" "layers_ok T ?s t1"
    "set (tile_list t1) = insert i (set (tile_list t) - {j})" "m_flags t1 = m_flags t"
    using replace_at_ok[OF tile_okD(1)[OF ok] j(2) i(1) j(3)] by auto
  have ok1: "tile_ok T self (t, ?s)" by (rule tile_ok_leave_parent[OF ok i(1)])
  have "i \<noteq> j" using i(1) j(1) by auto
  from give_way_ok[OF ok1 t1(2,3,4) _ _ this] show ?thesis
    using i(2) t1(1) by (simp add: replaceThing_tile_def Let_def)
qed

lemma tile_step_ok:
  assumes T: "table_ok T" and ok: "tile_ok T self st"
  shows "tile_ok T self (tile_step T storeTrash self e st)"
proof (cases "called_rightly T e st")
  case True
  obtain t s where st: "st = (t, s)" by (cases st)
  note ok' = ok[unfolded st] and c = True[unfolded st]
  show ?thesis
  proof (cases e)
    case (RemoveThing th n)
    show ?thesis
    proof (cases th)
      case (Item i)
      obtain t' s' where r: "removeItem_tile T i n (t, s) = (t', s')" by fastforce
      then show ?thesis using removeItem_ok(1)[OF ok' r] True st RemoveThing Item by (simp add: tile_step_def removeThing_def)
    next
      case (Creature c)
      then show ?thesis using removeCreature_tile_ok[OF ok'] True st RemoveThing by (simp add: tile_step_def removeThing_def)
    qed
  next
    case (SetZone f)
    then show ?thesis using True st ok' by (simp add: tile_step_def tile_ok_zone)
  qed (use True st tile_internalAdd_ok[OF ok'] addThing_tile_ok[OF T ok'] updateThing_tile_ok[OF ok']
      replaceThing_tile_ok[OF ok'] in \<open>simp_all add: tile_step_def\<close>)
qed (simp add: tile_step_def ok)

lemma new_tile_ok: "tile_ok T self (new_tile dyn, s)"
  by (simp add: tile_ok_def layers_ok_def new_tile_def tile_list_def downItems_def topItems_def tile_wf_def
      flags_for_def block_flags_def hasFlag_def flag_val_def)

interpretation tiles: guarded_machine "tile_step T storeTrash self" "\<lambda>st. table_ok T \<longrightarrow> tile_ok T self st"
  for T storeTrash self
  by unfold_locales (simp add: tile_step_ok)

lemma tile_run_ok: "table_ok T \<Longrightarrow> tile_ok T self (tile_run T storeTrash self dyn s es)"
  using tiles.run_inv[of T self "(new_tile dyn, s)" storeTrash es] new_tile_ok by (simp add: tile_run_def)

section \<open>Properties\<close>

text \<open>A small table of item types and three items, on which the properties are tried.\<close>

definition plain_type :: itype where
  "plain_type = \<lparr>isGroundTile = False, isSplash = False, isMagicField = False, isBed = False, isFluidContainer = False,
     ty_charges = False, ty_stackable = False, ty_movable = False, ty_pickupable = False, allowPickupable = False,
     blockSolid = False, blockPathFind = False, blockProjectile = False, hasHeight = False, isVertical = False,
     isHorizontal = False, isHangable = False, lookThrough = False, replacable = False, alwaysOnTop = False,
     alwaysOnTopOrder = 0, ty_floorChange = (\<lambda>_. False)\<rparr>"

definition demo_types :: itypes where
  "demo_types k =
     (if k = 1 then plain_type\<lparr>isGroundTile := True\<rparr>
      else if k = 2 then plain_type\<lparr>alwaysOnTop := True, alwaysOnTopOrder := 2\<rparr>
      else if k = 4 then plain_type\<lparr>alwaysOnTop := True, alwaysOnTopOrder := 1\<rparr>
      else if k = 5 then plain_type\<lparr>alwaysOnTop := True, ty_floorChange := (\<lambda>c. c = CHANGE_NORTH)\<rparr>
      else plain_type\<lparr>ty_movable := True, blockSolid := (k = 6)\<rparr>)"

definition demo_items :: item_store where
  "demo_items a = \<lparr>i_id = of_nat (a + 1), i_count = 1, i_fluid = 0, i_charges = 0, loadedFromMap = False, uniqueId = False,
     actionId = False, i_class = Plain, i_parent = None\<rparr>"

definition demo_ops :: "tile_op list" where
  "demo_ops = [InternalAdd (Item 0), AddThing (Item 1), AddThing (Item 2), AddThing (Item 3), AddThing (Creature 7)]"

lemma demo_table_ok: "table_ok demo_types"
  by (simp add: table_ok_def demo_types_def plain_type_def ITEM_WATERBALL_def ITEM_WATERBALL_SPLASH_def)

text \<open>
  C22. Whatever is added, changed, replaced and removed, a tile stays in layers: the items below the
  creatures are not of the kind that stays on top, and those above are; nothing is on it twice, the number of
  things is right, each item on it has it as its parent, and each flag about blocking is set exactly when an
  item on the tile blocks in that way.\<close>

theorem tile_layers_kept:
  assumes "table_ok T" "tile_run T storeTrash self dyn s es = (t, s')"
  shows "(\<forall>i\<in>set (downItems t). \<not> alwaysOnTop (T (i_id (s' i)))) \<and> (\<forall>i\<in>set (topItems t). alwaysOnTop (T (i_id (s' i))))
    \<and> distinct (things t) \<and> thingCount t = of_nat (length (things t))
    \<and> (\<forall>i\<in>set (tile_list t). i_parent (s' i) = Some self)
    \<and> (\<forall>(f, p)\<in>set block_flags. hasFlag f t \<longleftrightarrow> (\<exists>j\<in>set (tile_list t). item_hasProperty T (s' j) p))"
proof -
  have ok: "tile_ok T self (t, s')" using tile_run_ok[OF assms(1), of self storeTrash dyn s es] assms(2) by simp
  note l = layers_okD[OF tile_okD(1)[OF ok]]
  have n: "length (things t) = length (tile_list t) + length (creatures t)"
    using length_layers[of t] by (simp add: things_def tile_list_def split: option.split)
  show ?thesis
    using ok l distinct_things[OF l(4,5)] by (simp add: n tile_ok_def flags_for_def)
qed

lemmas run_tile_simps = tile_run_def tile_step_def demo_ops_def demo_types_def demo_items_def plain_type_def new_tile_def
  internalAddThing_def addThing_tile_def addGround_def addTop_def addDown_def removeThing_def removeItem_tile_def Let_def
  set_parent_def insertTop_def insertDown_def addCreature_tile_def downItems_def topItems_def topOrder_def
  item_ok_def tile_list_def ITEM_WATERBALL_SPLASH_def

lemma demo_run: "tile_run demo_types False 9 True demo_items demo_ops
    = (fst (tile_run demo_types False 9 True demo_items demo_ops), snd (tile_run demo_types False 9 True demo_items demo_ops))"
  by simp

theorem tile_layers_kept_witness:
  "topItems (fst (tile_run demo_types False 9 True demo_items demo_ops)) = [3, 1]
   \<and> thingCount (fst (tile_run demo_types False 9 True demo_items demo_ops)) = 5
   \<and> distinct (things (fst (tile_run demo_types False 9 True demo_items demo_ops)))"
proof -
  have "topItems (fst (tile_run demo_types False 9 True demo_items demo_ops)) = [3, 1]"
    "thingCount (fst (tile_run demo_types False 9 True demo_items demo_ops)) = 5" by (simp_all add: run_tile_simps)
  then show ?thesis using tile_layers_kept[OF demo_table_ok demo_run] by blast
qed

text \<open>
  C23. Indices: the thing at index k of a tile is the one whose index is k, for the ground, the items of
  both layers and the creatures, after any changes of the tile.\<close>

theorem thing_at_index:
  assumes "table_ok T" "tile_run T storeTrash self dyn s es = (t, s')"
  shows "getThing t k = Some th \<longleftrightarrow> getIndexOfThing t th = int k"
proof -
  have ok: "tile_ok T self (t, s')" using tile_run_ok[OF assms(1), of self storeTrash dyn s es] assms(2) by simp
  note l = layers_okD[OF tile_okD(1)[OF ok]]
  show ?thesis
    unfolding getThing_things[OF l(1)] getIndexOfThing_things
    using index_of_nth[OF distinct_things[OF l(4,5)], of th k] by (auto simp del: index_of_None split: option.split)
qed

theorem thing_at_index_witness:
  "getThing (fst (tile_run demo_types False 9 True demo_items demo_ops)) 3 = Some (Creature 7)
   \<and> getIndexOfThing (fst (tile_run demo_types False 9 True demo_items demo_ops)) (Creature 7) = int 3"
proof -
  have "getThing (fst (tile_run demo_types False 9 True demo_items demo_ops)) 3 = Some (Creature 7)"
    by (simp add: run_tile_simps getThing_def)
  then show ?thesis using thing_at_index[OF demo_table_ok demo_run, of 3 "Creature 7"] by blast
qed

text \<open>A second floor change does not show in the flags, and when it goes it takes the flags of the first one along.\<close>

text \<open>A second stair does not show in the flags, and when it goes it takes the flags of the first one along.\<close>

lemma floor_change_ignored:
  "hasFlag TILESTATE_FLOORCHANGE t \<Longrightarrow> hasFlag (FLOORCHANGE_TO c) (updateTileFlags_add T s i t) = hasFlag (FLOORCHANGE_TO c) t"
  by (simp add: updateTileFlags_add_def Let_def add_floor_changes_def)

lemma floor_change_lost:
  "ty_floorChange (T (i_id (s i))) c \<Longrightarrow> \<not> hasFlag TILESTATE_FLOORCHANGE (updateTileFlags_remove T s i t)"
  by (cases c) (simp_all add: updateTileFlags_remove_def Let_def remove_floor_changes_def floor_changes_def)

end
