(* ===== verification/TileQueries.thy ===== *)
theory TileQueries
  imports Tiles
begin

text \<open>
  What a tile answers, \<^verbatim>\<open>tile.cpp\<close>: the things it finds, whether a creature or an item may come, and
  where a step on it leads.
\<close>

section \<open>What is on a tile\<close>

text \<open>\<open>getTeleportItem\<close>, \<open>getFieldItem\<close> and the like: not without the flag, the ground first, then from the last item on.\<close>

definition find_of_class :: "tileflag \<Rightarrow> item_class \<Rightarrow> item_store \<Rightarrow> tile \<Rightarrow> nat option" where
  "find_of_class f cls s t =
     (if \<not> hasFlag f t then None
      else case ground t of
        Some g \<Rightarrow> if i_class (s g) = cls then Some g else find (\<lambda>i. i_class (s i) = cls) (rev (titems t))
      | None \<Rightarrow> find (\<lambda>i. i_class (s i) = cls) (rev (titems t)))"

definition getTeleportItem :: "item_store \<Rightarrow> tile \<Rightarrow> nat option" where
  "getTeleportItem = find_of_class TILESTATE_TELEPORT Teleport"

definition getFieldItem :: "item_store \<Rightarrow> tile \<Rightarrow> nat option" where
  "getFieldItem = find_of_class TILESTATE_MAGICFIELD MagicField"

definition getTrashHolder :: "item_store \<Rightarrow> tile \<Rightarrow> nat option" where
  "getTrashHolder = find_of_class TILESTATE_TRASHHOLDER TrashHolder"

definition getMailbox :: "item_store \<Rightarrow> tile \<Rightarrow> nat option" where
  "getMailbox = find_of_class TILESTATE_MAILBOX Mailbox"

definition getBedItem :: "item_store \<Rightarrow> tile \<Rightarrow> nat option" where
  "getBedItem = find_of_class TILESTATE_BED Bed"

definition getTopCreature :: "tile \<Rightarrow> nat option" where
  "getTopCreature t = (case creatures t of [] \<Rightarrow> None | c # _ \<Rightarrow> Some c)"

definition getTopDownItem :: "tile \<Rightarrow> nat option" where
  "getTopDownItem t = (case downItems t of [] \<Rightarrow> None | i # _ \<Rightarrow> Some i)"

definition getTopTopItem :: "tile \<Rightarrow> nat option" where
  "getTopTopItem t = (case rev (topItems t) of [] \<Rightarrow> None | i # _ \<Rightarrow> Some i)"

definition getItemByTopOrder :: "itypes \<Rightarrow> item_store \<Rightarrow> tile \<Rightarrow> int \<Rightarrow> nat option" where
  "getItemByTopOrder T s t order = find (\<lambda>i. topOrder T s i = order) (rev (topItems t))"

definition getTopVisibleCreature :: "(nat \<Rightarrow> bool) \<Rightarrow> tile \<Rightarrow> nat option" where
  "getTopVisibleCreature sees t = find sees (creatures t)"

definition getTopVisibleThing :: "itypes \<Rightarrow> item_store \<Rightarrow> (nat \<Rightarrow> bool) \<Rightarrow> tile \<Rightarrow> thing option" where
  "getTopVisibleThing T s sees t =
     (case getTopVisibleCreature sees t of
        Some c \<Rightarrow> Some (Creature c)
      | None \<Rightarrow>
          (case find (\<lambda>i. \<not> lookThrough (T (i_id (s i)))) (downItems t) of
             Some i \<Rightarrow> Some (Item i)
           | None \<Rightarrow>
               (case find (\<lambda>i. \<not> lookThrough (T (i_id (s i)))) (rev (topItems t)) of
                  Some i \<Rightarrow> Some (Item i)
                | None \<Rightarrow> map_option Item (ground t))))"

text \<open>\<open>hasHeight\<close> counts up and stops when the number is reached.\<close>

fun height_loop :: "(nat \<Rightarrow> bool) \<Rightarrow> nat \<Rightarrow> nat \<Rightarrow> nat list \<Rightarrow> bool" where
  "height_loop high n h [] = False"
| "height_loop high n h (i # is) = (let h = (if high i then h + 1 else h) in n = h \<or> height_loop high n h is)"

definition hasHeight_tile :: "itypes \<Rightarrow> item_store \<Rightarrow> tile \<Rightarrow> nat \<Rightarrow> bool" where
  "hasHeight_tile T s t n =
     (let high = (\<lambda>i. item_hasProperty T (s i) HASHEIGHT);
          h = (case ground t of None \<Rightarrow> 0 | Some g \<Rightarrow> if high g then 1 else 0)
      in ground t \<noteq> None \<and> n = h \<or> height_loop high n h (titems t))"

datatype zone_type = ZONE_PROTECTION | ZONE_OPTIONAL | ZONE_HARDCORE | ZONE_NOLOGOUT | ZONE_OPEN

definition getZone :: "tile \<Rightarrow> zone_type" where
  "getZone t =
     (if hasFlag TILESTATE_PROTECTIONZONE t then ZONE_PROTECTION
      else if hasFlag TILESTATE_OPTIONALZONE t then ZONE_OPTIONAL
      else if hasFlag TILESTATE_HARDCOREZONE t then ZONE_HARDCORE
      else ZONE_OPEN)"

section \<open>Asking a tile\<close>

datatype tile_return = RET_NOERROR | RET_NOTPOSSIBLE | RET_NOTENOUGHROOM | RET_TILEISFULL | RET_NEEDEXCHANGE
  | RET_PLAYERISPZLOCKED | RET_PLAYERISPZLOCKEDENTERPVPZONE | RET_PLAYERISPZLOCKEDLEAVEPVPZONE

definition FLAG_NOLIMIT :: u32 where "FLAG_NOLIMIT = 1"
definition FLAG_IGNOREBLOCKITEM :: u32 where "FLAG_IGNOREBLOCKITEM = 2"
definition FLAG_IGNOREBLOCKCREATURE :: u32 where "FLAG_IGNOREBLOCKCREATURE = 4"
definition FLAG_PATHFINDING :: u32 where "FLAG_PATHFINDING = 16"
definition FLAG_IGNOREFIELDDAMAGE :: u32 where "FLAG_IGNOREFIELDDAMAGE = 32"
definition FLAG_IGNORENOTMOVABLE :: u32 where "FLAG_IGNORENOTMOVABLE = 64"

text \<open>
  A creature that wants to enter, with what the tile asks of it: about the other creatures (whether it
  walks through one; whether one is a monster it may push), and about fields.
\<close>

datatype visitor_kind = Monster | Player | Npc

record visitor =
  v_kind :: visitor_kind
  canPushCreatures :: bool
  isSummon :: bool
  canPushItems :: bool
  canWalkthrough :: "nat \<Rightarrow> bool"
  can_push_away :: "nat \<Rightarrow> bool"
  immune_to :: "nat \<Rightarrow> bool"
  suffers_from :: "nat \<Rightarrow> bool"
  isPzLocked :: bool
  on_a_tile :: bool
  on_hardcore :: bool

definition ITEM_MAGICWALL_SAFE :: u16 where "ITEM_MAGICWALL_SAFE = 11098"
definition ITEM_WILDGROWTH_SAFE :: u16 where "ITEM_WILDGROWTH_SAFE = 11099"

definition isUnstepable :: "titem \<Rightarrow> bool" where
  "isUnstepable x \<longleftrightarrow> i_id x = ITEM_MAGICWALL_SAFE \<or> i_id x = ITEM_WILDGROWTH_SAFE"

text \<open>
  \<open>Item::isBlocking\<close> and \<open>MagicField::isBlocking\<close>, for a player or for anyone else, in a server built
  without \<^verbatim>\<open>__WAR_SYSTEM__\<close> (an option of \<^verbatim>\<open>CMakeLists.txt\<close> that is off unless asked for): with it, a
  player at war is also stopped by the safe wall of an enemy.
\<close>

definition isBlocking :: "itypes \<Rightarrow> item_store \<Rightarrow> bool \<Rightarrow> nat \<Rightarrow> bool" where
  "isBlocking T s player i =
     (if i_class (s i) = MagicField \<and> isUnstepable (s i) then \<not> player else blockSolid (T (i_id (s i))))"

text \<open>A monster, after the tests that every creature passes.\<close>

definition queryAdd_monster :: "itypes \<Rightarrow> item_store \<Rightarrow> tile \<Rightarrow> visitor \<Rightarrow> u32 \<Rightarrow> tile_return" where
  "queryAdd_monster T s t v flags =
     (if hasFlag TILESTATE_PROTECTIONZONE t then RET_NOTPOSSIBLE
      else if hasFlag TILESTATE_FLOORCHANGE t \<or> hasFlag TILESTATE_TELEPORT t then RET_NOTPOSSIBLE
      else if canPushCreatures v \<and> \<not> isSummon v
              \<and> list_ex (\<lambda>c. \<not> canWalkthrough v c \<and> \<not> can_push_away v c) (creatures t) then RET_NOTPOSSIBLE
      else if \<not> (canPushCreatures v \<and> \<not> isSummon v) \<and> list_ex (\<lambda>c. \<not> canWalkthrough v c) (creatures t) then RET_NOTENOUGHROOM
      else if hasFlag TILESTATE_IMMOVABLEBLOCKSOLID t then RET_NOTPOSSIBLE
      else if hasBitSet FLAG_PATHFINDING flags \<and> hasFlag TILESTATE_IMMOVABLENOFIELDBLOCKPATH t then RET_NOTPOSSIBLE
      else if (hasFlag TILESTATE_BLOCKSOLID t \<or> hasBitSet FLAG_PATHFINDING flags \<and> hasFlag TILESTATE_NOFIELDBLOCKPATH t)
              \<and> \<not> (canPushItems v \<or> hasBitSet FLAG_IGNOREBLOCKITEM flags) then RET_NOTPOSSIBLE
      else if \<not> listed t then RET_NOERROR
      else case getFieldItem s t of
        None \<Rightarrow> RET_NOERROR
      | Some f \<Rightarrow>
          if isBlocking T s False f then RET_NOTPOSSIBLE
          else if immune_to v f then RET_NOERROR
          else if \<not> hasBitSet FLAG_IGNOREFIELDDAMAGE flags then RET_NOTPOSSIBLE
          else if \<not> suffers_from v f \<and> \<not> canPushItems v then RET_NOTPOSSIBLE else RET_NOERROR)"

definition blocked_by :: "itypes \<Rightarrow> item_store \<Rightarrow> visitor \<Rightarrow> nat \<Rightarrow> bool" where
  "blocked_by T s v i \<longleftrightarrow> isBlocking T s (v_kind v = Player) i \<and> (\<not> ty_movable (T (i_id (s i))) \<or> fixed_by_map (s i))"

definition queryAdd_creature :: "itypes \<Rightarrow> item_store \<Rightarrow> tile \<Rightarrow> visitor \<Rightarrow> u32 \<Rightarrow> tile_return" where
  "queryAdd_creature T s t v flags =
     (if hasBitSet FLAG_NOLIMIT flags then RET_NOERROR
      else if hasBitSet FLAG_PATHFINDING flags \<and> (hasFlag TILESTATE_FLOORCHANGE t \<or> hasFlag TILESTATE_TELEPORT t)
      then RET_NOTPOSSIBLE
      else if ground t = None then RET_NOTPOSSIBLE
      else if v_kind v = Monster then queryAdd_monster T s t v flags
      else if \<not> hasBitSet FLAG_IGNOREBLOCKCREATURE flags \<and> list_ex (\<lambda>c. \<not> canWalkthrough v c) (creatures t) then RET_NOTENOUGHROOM
      else if v_kind v = Player \<and> \<not> on_a_tile v \<and> hasFlag TILESTATE_NOLOGOUT t then RET_NOTPOSSIBLE
      else if v_kind v = Player \<and> isPzLocked v \<and> \<not> on_hardcore v \<and> hasFlag TILESTATE_HARDCOREZONE t
      then RET_PLAYERISPZLOCKEDENTERPVPZONE
      else if v_kind v = Player \<and> isPzLocked v \<and> on_hardcore v \<and> \<not> hasFlag TILESTATE_HARDCOREZONE t
      then RET_PLAYERISPZLOCKEDLEAVEPVPZONE
      else if v_kind v = Player \<and> hasFlag TILESTATE_OPTIONALZONE t \<and> isPzLocked v then RET_PLAYERISPZLOCKED
      else if v_kind v = Player \<and> hasFlag TILESTATE_PROTECTIONZONE t \<and> isPzLocked v then RET_PLAYERISPZLOCKED
      else if \<not> listed t then RET_NOERROR
      else if (case getFieldItem s t of None \<Rightarrow> False | Some f \<Rightarrow> isBlocking T s (v_kind v = Player) f) then RET_NOTPOSSIBLE
      else if hasBitSet FLAG_IGNOREBLOCKITEM flags then
        (if (case ground t of None \<Rightarrow> False | Some g \<Rightarrow> blocked_by T s v g) \<or> list_ex (blocked_by T s v) (titems t)
         then RET_NOTPOSSIBLE else RET_NOERROR)
      else if hasFlag TILESTATE_BLOCKSOLID t then RET_NOTPOSSIBLE else RET_NOERROR)"

text \<open>
  An item. The loop over the things of the tile: whether one refuses, and what there is to hang things
  at. \<^const>\<open>None\<close> stands for a null pointer that is read.
\<close>

fun hang_loop ::
    "itypes \<Rightarrow> item_store \<Rightarrow> tile \<Rightarrow> nat \<Rightarrow> nat list \<Rightarrow> bool \<Rightarrow> bool \<Rightarrow> (tile_return \<times> bool \<times> bool) option" where
  "hang_loop T s t i [] hasHangable supportHangable = Some (RET_NOERROR, hasHangable, supportHangable)"
| "hang_loop T s t i (k # ks) hasHangable supportHangable =
     (case getThing t k of
        None \<Rightarrow> None
      | Some (Creature _) \<Rightarrow> hang_loop T s t i ks hasHangable supportHangable
      | Some (Item j) \<Rightarrow>
          let iType = T (i_id (s j)); it = T (i_id (s i));
              hasHangable = (hasHangable \<or> isHangable iType);
              supportHangable = (supportHangable \<or> isHorizontal iType \<or> isVertical iType)
          in if isHangable it \<and> (isHorizontal iType \<or> isVertical iType) then hang_loop T s t i ks hasHangable supportHangable
             else if isBlocking T s False j then
               (if \<not> ty_pickupable it then Some (RET_NOTPOSSIBLE, hasHangable, supportHangable)
                else if allowPickupable iType then hang_loop T s t i ks hasHangable supportHangable
                else if \<not> hasHeight iType \<or> ty_pickupable iType \<or> isBed iType then Some (RET_NOTPOSSIBLE, hasHangable, supportHangable)
                else hang_loop T s t i ks hasHangable supportHangable)
             else hang_loop T s t i ks hasHangable supportHangable)"

definition queryAdd_item ::
    "itypes \<Rightarrow> u32 \<Rightarrow> (nat \<Rightarrow> bool) \<Rightarrow> item_store \<Rightarrow> tile \<Rightarrow> nat \<Rightarrow> u32 \<Rightarrow> tile_return option" where
  "queryAdd_item T itemLimit stops s t i flags =
     (if length (titems t) \<ge> 0xFFFF then Some RET_NOTPOSSIBLE
      else if hasBitSet FLAG_NOLIMIT flags then Some RET_NOERROR
      else if ground t = None \<and> \<not> isHangable (T (i_id (s i))) then Some RET_NOTPOSSIBLE
      else if \<not> hasBitSet FLAG_IGNOREBLOCKCREATURE flags \<and> list_ex stops (creatures t) then Some RET_NOTENOUGHROOM
      else if itemLimit \<noteq> 0 \<and> thingCount t > itemLimit then Some RET_TILEISFULL
      else if \<not> listed t then Some RET_NOERROR
      else map_option (\<lambda>(ret, hasHangable, supportHangable).
             if ret = RET_NOERROR \<and> isHangable (T (i_id (s i))) \<and> hasHangable \<and> supportHangable then RET_NEEDEXCHANGE else ret)
           (hang_loop T s t i [0..<unat (thingCount t)] False False))"

definition queryMaxCount :: "u32 \<Rightarrow> u32 \<times> tile_return" where
  "queryMaxCount cnt = (max 1 cnt, RET_NOERROR)"

definition queryRemove :: "itypes \<Rightarrow> item_store \<Rightarrow> tile \<Rightarrow> thing \<Rightarrow> u32 \<Rightarrow> u32 \<Rightarrow> tile_return" where
  "queryRemove T s t th cnt flags =
     (if getIndexOfThing t th = - 1 then RET_NOTPOSSIBLE
      else case th of
        Creature _ \<Rightarrow> RET_NOTPOSSIBLE
      | Item i \<Rightarrow>
          if cnt = 0 \<or> ty_stackable (T (i_id (s i))) \<and> cnt > ucast (i_count (s i))
             \<or> \<not> ty_movable (T (i_id (s i))) \<and> \<not> hasBitSet FLAG_IGNORENOTMOVABLE flags then RET_NOTPOSSIBLE
          else RET_NOERROR)"

section \<open>Where a tile leads\<close>

text \<open>
  \<open>__queryDestination\<close>, with the tiles of the map as a function: where a floor change leads, when it
  leads to a tile. A hole looks for the four long stairs next to the place below before it looks there.
\<close>

type_synonym world = "position \<Rightarrow> tile option"

fun toward_stair :: "floor_change \<Rightarrow> position \<Rightarrow> position" where
  "toward_stair CHANGE_NORTH_EX (Position x y z) = Position x (y + 1) z"
| "toward_stair CHANGE_SOUTH_EX (Position x y z) = Position x (y - 1) z"
| "toward_stair CHANGE_EAST_EX (Position x y z) = Position (x - 1) y z"
| "toward_stair CHANGE_WEST_EX (Position x y z) = Position (x + 1) y z"
| "toward_stair _ p = p"

definition floorChange :: "floor_change \<Rightarrow> tile \<Rightarrow> bool" where
  "floorChange c t = hasFlag (FLOORCHANGE_TO c) t"

definition long_stair :: "world \<Rightarrow> position \<Rightarrow> floor_change option" where
  "long_stair w p =
     find (\<lambda>c. case w (toward_stair c p) of None \<Rightarrow> False | Some t \<Rightarrow> floorChange c t)
       [CHANGE_NORTH_EX, CHANGE_EAST_EX, CHANGE_SOUTH_EX, CHANGE_WEST_EX]"

definition beside_stair :: "tile \<Rightarrow> position \<Rightarrow> position" where
  "beside_stair d p =
     (let y = py p; x = px p;
          y = (if floorChange CHANGE_NORTH d \<or> floorChange CHANGE_NORTH_EX d then y + 1 else y);
          y = (if floorChange CHANGE_SOUTH d \<or> floorChange CHANGE_SOUTH_EX d then y - 1 else y);
          x = (if floorChange CHANGE_EAST d \<or> floorChange CHANGE_EAST_EX d then x - 1 else x);
          x = (if floorChange CHANGE_WEST d \<or> floorChange CHANGE_WEST_EX d then x + 1 else x)
      in Position x y (pz p))"

definition up_from :: "tile \<Rightarrow> position \<Rightarrow> position" where
  "up_from t p =
     (let y = py p; x = px p; z = pz p - 1;
          y = (if floorChange CHANGE_NORTH t then y - 1 else y);
          y = (if floorChange CHANGE_SOUTH t then y + 1 else y);
          x = (if floorChange CHANGE_EAST t then x + 1 else x);
          x = (if floorChange CHANGE_WEST t then x - 1 else x);
          y = (if floorChange CHANGE_NORTH_EX t then y - 2 else y);
          y = (if floorChange CHANGE_SOUTH_EX t then y + 2 else y);
          x = (if floorChange CHANGE_EAST_EX t then x + 2 else x);
          x = (if floorChange CHANGE_WEST_EX t then x - 2 else x)
      in Position x y z)"

definition on_map :: "world \<Rightarrow> position \<Rightarrow> position option" where
  "on_map w p = (if w p = None then None else Some p)"

definition leads_to :: "world \<Rightarrow> position \<Rightarrow> tile \<Rightarrow> position option" where
  "leads_to w p t =
     (if floorChange CHANGE_DOWN t then
        let below = Position (px p) (py p) (pz p + 1) in
        case (case long_stair w below of None \<Rightarrow> None | Some c \<Rightarrow> on_map w (toward_stair c (toward_stair c below))) of
          Some q \<Rightarrow> Some q
        | None \<Rightarrow> (case w below of None \<Rightarrow> None | Some d \<Rightarrow> on_map w (beside_stair d below))
      else if hasFlag TILESTATE_FLOORCHANGE t then on_map w (up_from t p)
      else None)"

text \<open>The tile that is meant, the item that lies on top there, and the flags.\<close>

definition queryDestination :: "world \<Rightarrow> position \<Rightarrow> tile \<Rightarrow> u32 \<Rightarrow> position \<times> nat option \<times> u32" where
  "queryDestination w p t flags =
     (case leads_to w p t of
        None \<Rightarrow> (p, getTopDownItem t, flags)
      | Some q \<Rightarrow> (q, (case w q of None \<Rightarrow> None | Some d \<Rightarrow> getTopDownItem d), flags OR FLAG_NOLIMIT))"

section \<open>Counting items\<close>

text \<open>\<open>countByType\<close>: \<open>sub\<close> is the sub-type of an item, -1 asks for any.\<close>

definition countByType :: "(titem \<Rightarrow> int) \<Rightarrow> titem \<Rightarrow> int \<Rightarrow> u32" where
  "countByType sub x checkType = (if checkType \<noteq> - 1 \<and> checkType \<noteq> sub x then 0 else ucast (i_count x))"

definition getItemTypeCount :: "(titem \<Rightarrow> int) \<Rightarrow> item_store \<Rightarrow> tile \<Rightarrow> u16 \<Rightarrow> int \<Rightarrow> u32" where
  "getItemTypeCount sub s t itemId subType =
     fold (\<lambda>k n. case getThing t k of
         Some (Item i) \<Rightarrow> if i_id (s i) = itemId then n + countByType sub (s i) subType else n
       | _ \<Rightarrow> n) [0..<unat (thingCount t)] 0"

section \<open>Properties\<close>

lemma hang_loop_total:
  "tile_wf t \<Longrightarrow> \<forall>k\<in>set ks. k < length (things t) \<Longrightarrow> hang_loop T s t i ks b c \<noteq> None"
  by (induction ks arbitrary: b c) (auto simp: getThing_things Let_def split: thing.split)

lemma unat_of_nat_le: "unat (of_nat n :: 'a::len word) \<le> n"
  by (simp add: unsigned_of_nat take_bit_nat_eq_self_iff take_bit_nat_less_eq_self)

lemma queryAdd_item_total:
  assumes "tile_wf t" "thingCount t = of_nat (length (things t))"
  shows "queryAdd_item T itemLimit stops s t i flags \<noteq> None"
proof -
  have "k < length (things t)" if "k \<in> set [0..<unat (thingCount t)]" for k
    using that unat_of_nat_le[of "length (things t)", where 'a = 32] assms(2) by auto
  then have "hang_loop T s t i [0..<unat (thingCount t)] False False \<noteq> None"
    by (intro hang_loop_total[OF assms(1)]) blast
  then show ?thesis by (auto simp: queryAdd_item_def)
qed

text \<open>
  Whatever has happened to a tile, the loop in which it asks its things whether an item may come finds a
  thing at every index it tries: it never follows a null pointer.\<close>

theorem queryAdd_item_answers:
  assumes "table_ok T" "tile_run T storeTrash self dyn s es = (t, s')"
  shows "queryAdd_item T itemLimit stops s' t i flags \<noteq> None"
proof -
  have ok: "tile_ok T self (t, s')" using tile_run_ok[OF assms(1), of self storeTrash dyn s es] assms(2) by simp
  note l = layers_okD[OF tile_okD(1)[OF ok]]
  have "length (things t) = length (tile_list t) + length (creatures t)"
    using length_layers[of t] by (simp add: things_def tile_list_def split: option.split)
  then show ?thesis using queryAdd_item_total[OF l(1)] l(6) by simp
qed

theorem queryAdd_item_answers_witness:
  "queryAdd_item demo_types 0 (\<lambda>c. False) (snd (tile_run demo_types False 9 True demo_items demo_ops))
     (fst (tile_run demo_types False 9 True demo_items demo_ops)) 2 0 \<noteq> None"
  by (rule queryAdd_item_answers[OF demo_table_ok demo_run])

end
