(* ===== verification/Walking.thy ===== *)
theory Walking
  imports TileQueries
begin

text \<open>
  A creature that walks: \<open>Game::internalMoveCreature\<close> of \<^verbatim>\<open>game.cpp\<close> over \<open>Tile::moveCreature\<close> of
  \<^verbatim>\<open>tile.cpp\<close> and \<open>Teleport::__addThing\<close> of \<^verbatim>\<open>teleport.cpp\<close>. The map is a function from positions to
  tiles. Scripts that an arrival starts are left out. \<^const>\<open>None\<close> stands for a call that never returns.
\<close>

section \<open>Moving a creature\<close>

record walkers =
  w_tiles :: world
  w_facing :: "nat \<Rightarrow> direction"

definition turned :: "position \<Rightarrow> position \<Rightarrow> direction \<Rightarrow> direction" where
  "turned p q d =
     (let d = (if py p > py q then NORTH else if py p < py q then SOUTH else d)
      in if px p < px q then EAST else if px p > px q then WEST else d)"

definition as_teleport :: "bool \<Rightarrow> position \<Rightarrow> position \<Rightarrow> world \<Rightarrow> bool" where
  "as_teleport forceTeleport p q w \<longleftrightarrow>
     forceTeleport \<or> (case w q of None \<Rightarrow> True | Some t \<Rightarrow> ground t = None) \<or> \<not> areInRange3 1 1 0 p q"

definition put_creature :: "bool \<Rightarrow> nat \<Rightarrow> position \<Rightarrow> position \<Rightarrow> walkers \<Rightarrow> walkers" where
  "put_creature forceTeleport c p q w =
     (let m = w_tiles w;
          m' = m(p := map_option (removeCreature_tile c) (m p));
          m' = m'(q := map_option (addCreature_tile c) (m' q))
      in w\<lparr>w_tiles := m',
           w_facing := (if as_teleport forceTeleport p q m then w_facing w
                        else (w_facing w)(c := turned p q (w_facing w c)))\<rparr>)"

text \<open>The teleport that a creature finds where it arrives; \<open>target\<close> is the destination of an item.\<close>

definition next_stop :: "(nat \<Rightarrow> position) \<Rightarrow> item_store \<Rightarrow> position \<Rightarrow> world \<Rightarrow> position option" where
  "next_stop target s q m =
     (case m q of
        None \<Rightarrow> None
      | Some t \<Rightarrow>
          if \<not> hasFlag TILESTATE_TELEPORT t then None
          else (case getTeleportItem s t of None \<Rightarrow> None | Some i \<Rightarrow> on_map m (target i)))"

partial_function (option) arrive ::
    "(nat \<Rightarrow> position) \<Rightarrow> item_store \<Rightarrow> nat \<Rightarrow> position \<Rightarrow> walkers \<Rightarrow> (position \<times> walkers) option" where
  "arrive target s c q w =
     (case next_stop target s q (w_tiles w) of
        None \<Rightarrow> Some (q, w)
      | Some r \<Rightarrow> arrive target s c r (put_creature False c q r w))"

definition moveCreature_tile ::
    "(nat \<Rightarrow> position) \<Rightarrow> item_store \<Rightarrow> bool \<Rightarrow> nat \<Rightarrow> position \<Rightarrow> position \<Rightarrow> walkers \<Rightarrow> (position \<times> walkers) option" where
  "moveCreature_tile target s forceTeleport c p q w = arrive target s c q (put_creature forceTeleport c p q w)"

definition MAX_HOPS :: nat where "MAX_HOPS = 16"

text \<open>The loop over floor changes, at most \<open>MAP_MAX_LAYERS\<close> of them.\<close>

fun floor_hops ::
    "(nat \<Rightarrow> position) \<Rightarrow> item_store \<Rightarrow> nat \<Rightarrow> nat \<Rightarrow> position \<Rightarrow> u32 \<Rightarrow> walkers \<Rightarrow> (position \<times> walkers) option" where
  "floor_hops target s 0 c q flags w = Some (q, w)"
| "floor_hops target s (Suc n) c q flags w =
     (case w_tiles w q of
        None \<Rightarrow> Some (q, w)
      | Some t \<Rightarrow>
          (case queryDestination (w_tiles w) q t flags of (q', toItem, _) \<Rightarrow>
             if q' = q then Some (q, w)
             else case moveCreature_tile target s False c q q' w of
               None \<Rightarrow> None
             | Some (r, w) \<Rightarrow> if r \<noteq> q' then Some (r, w) else floor_hops target s n c q' 0 w))"

definition internalMoveCreature_to ::
    "itypes \<Rightarrow> (nat \<Rightarrow> position) \<Rightarrow> item_store \<Rightarrow> visitor \<Rightarrow> nat \<Rightarrow> u32 \<Rightarrow> bool \<Rightarrow> position \<Rightarrow> position \<Rightarrow> walkers
       \<Rightarrow> (tile_return \<times> position \<times> walkers) option" where
  "internalMoveCreature_to T target s v c flags forceTeleport p q w =
     (case w_tiles w q of
        None \<Rightarrow> Some (RET_NOTPOSSIBLE, p, w)
      | Some t \<Rightarrow>
          (case queryAdd_creature T s t v flags of
             RET_NOERROR \<Rightarrow>
               (case moveCreature_tile target s forceTeleport c p q w of
                  None \<Rightarrow> None
                | Some (r, w) \<Rightarrow>
                    if r \<noteq> q then Some (RET_NOERROR, r, w)
                    else map_option (\<lambda>(r, w). (RET_NOERROR, r, w)) (floor_hops target s MAX_HOPS c q flags w))
           | ret \<Rightarrow> Some (ret, p, w)))"

section \<open>A step\<close>

definition passable :: "itypes \<Rightarrow> item_store \<Rightarrow> tile \<Rightarrow> bool" where
  "passable T s t \<longleftrightarrow> \<not> tile_hasProperty T s t BLOCKSOLID"

definition nothing_there :: "itypes \<Rightarrow> item_store \<Rightarrow> world \<Rightarrow> position \<Rightarrow> bool" where
  "nothing_there T s m p = (case m p of None \<Rightarrow> True | Some t \<Rightarrow> ground t = None \<and> passable T s t)"

definition stand_on :: "itypes \<Rightarrow> item_store \<Rightarrow> world \<Rightarrow> position \<Rightarrow> bool" where
  "stand_on T s m p = (case m p of None \<Rightarrow> False | Some t \<Rightarrow> ground t \<noteq> None \<and> passable T s t)"

definition above :: "position \<Rightarrow> position" where "above p = Position (px p) (py p) (pz p - 1)"
definition below :: "position \<Rightarrow> position" where "below p = Position (px p) (py p) (pz p + 1)"

definition high_enough :: "itypes \<Rightarrow> item_store \<Rightarrow> world \<Rightarrow> position \<Rightarrow> bool" where
  "high_enough T s m p = (case m p of None \<Rightarrow> False | Some t \<Rightarrow> hasHeight_tile T s t 3)"

definition CLIMB :: u32 where "CLIMB = FLAG_IGNOREBLOCKITEM OR FLAG_IGNOREBLOCKCREATURE"

text \<open>Where a step leads, and with which flags: a player climbs up from a pile of things, and down onto one.\<close>

definition climb :: "itypes \<Rightarrow> item_store \<Rightarrow> visitor \<Rightarrow> u32 \<Rightarrow> direction \<Rightarrow> position \<Rightarrow> world \<Rightarrow> position \<times> u32" where
  "climb T s v flags d p m =
     (let q = getNextPosition d p in
      if d \<in> {NORTH, EAST, SOUTH, WEST} \<and> v_kind v = Player then
        if pz p \<noteq> 8 \<and> high_enough T s m p then
          (if nothing_there T s m (above p) \<and> stand_on T s m (above q)
           then (if (case m (above q) of None \<Rightarrow> False | Some t \<Rightarrow> hasFlag TILESTATE_FLOORCHANGE t) then q else above q,
                 flags OR CLIMB)
           else (q, flags))
        else if pz p \<noteq> 7 \<and> nothing_there T s m q \<and> high_enough T s m (below q) then (below q, flags OR CLIMB)
        else (q, flags)
      else (q, flags))"

definition internalMoveCreature ::
    "itypes \<Rightarrow> (nat \<Rightarrow> position) \<Rightarrow> item_store \<Rightarrow> visitor \<Rightarrow> nat \<Rightarrow> u32 \<Rightarrow> direction \<Rightarrow> position \<Rightarrow> walkers
       \<Rightarrow> (tile_return \<times> position \<times> walkers) option" where
  "internalMoveCreature T target s v c flags d p w =
     (case climb T s v flags d p (w_tiles w) of (q, flags) \<Rightarrow> internalMoveCreature_to T target s v c flags False p q w)"

section \<open>What the players who watch are told\<close>

text \<open>
  Before the move each player among the spectators gives the index the creature has for him; after it,
  those who see the creature are told the next one in the list.
\<close>

definition oldStackposVector :: "(nat \<Rightarrow> nat \<Rightarrow> bool) \<Rightarrow> nat list \<Rightarrow> tile \<Rightarrow> nat \<Rightarrow> int list" where
  "oldStackposVector sees players t c = List.map (\<lambda>p. getClientIndexOfThing (sees p) t (Creature c)) players"

fun told_moves :: "(nat \<Rightarrow> nat \<Rightarrow> bool) \<Rightarrow> nat \<Rightarrow> int list \<Rightarrow> nat list \<Rightarrow> (nat \<times> int) list" where
  "told_moves sees c v [] = []"
| "told_moves sees c v (p # ps) = (if sees p c then (p, hd v) # told_moves sees c (tl v) ps else told_moves sees c v ps)"

definition send_moves :: "(nat \<Rightarrow> nat \<Rightarrow> bool) \<Rightarrow> nat list \<Rightarrow> tile \<Rightarrow> nat \<Rightarrow> (nat \<times> int) list" where
  "send_moves sees players t c = told_moves sees c (oldStackposVector sees players t c) players"

section \<open>Where a creature stands\<close>

definition places :: "world \<Rightarrow> nat \<Rightarrow> position set" where
  "places m c = {q. \<exists>t. m q = Some t \<and> c \<in> set (creatures t)}"

lemma places_iff: "q \<in> places m c \<longleftrightarrow> (case m q of None \<Rightarrow> False | Some t \<Rightarrow> c \<in> set (creatures t))"
  by (simp add: places_def split: option.split)

definition listed_once :: "world \<Rightarrow> bool" where
  "listed_once m \<longleftrightarrow> (\<forall>q t. m q = Some t \<longrightarrow> distinct (creatures t))"

text \<open>All of a map but its creatures.\<close>

definition bare :: "tile \<Rightarrow> tile" where
  "bare t = t\<lparr>creatures := [], thingCount := 0\<rparr>"

definition bare_map :: "world \<Rightarrow> position \<Rightarrow> tile option" where
  "bare_map m q = map_option bare (m q)"

lemma bare_creature [simp]: "bare (addCreature_tile c t) = bare t" "bare (removeCreature_tile c t) = bare t"
  by (simp_all add: bare_def addCreature_tile_def removeCreature_tile_def)

lemma put_creature_bare [simp]: "bare_map (w_tiles (put_creature f c p q w)) = bare_map (w_tiles w)"
  by (rule ext) (auto simp: bare_map_def put_creature_def Let_def option.map_comp comp_def)

lemma bare_eqD:
  assumes "bare t = bare t'"
  shows "ground t = ground t'" "titems t = titems t'" "m_flags t = m_flags t'" "listed t = listed t'"
    "downItemCount t = downItemCount t'"
  using assms by (cases t; cases t'; simp add: bare_def)+

lemma bare_mapD: "bare_map m = bare_map m' \<Longrightarrow> map_option bare (m q) = map_option bare (m' q)"
  by (metis bare_map_def)

lemma next_stop_bare:
  assumes "bare_map m = bare_map m'"
  shows "next_stop target s q m = next_stop target s q m'"
proof -
  have q: "map_option bare (m q) = map_option bare (m' q)" by (rule bare_mapD[OF assms])
  have none: "(m r = None) = (m' r = None)" for r using bare_mapD[OF assms, of r] by (metis option.map_disc_iff)
  show ?thesis
  proof (cases "m q")
    case None
    then show ?thesis using none[of q] by (simp add: next_stop_def)
  next
    case (Some t)
    then obtain t' where t': "m' q = Some t'" "bare t = bare t'" using q by (auto simp: map_option_case split: option.splits)
    note f = bare_eqD[OF t'(2)]
    have "on_map m = on_map m'" by (simp add: on_map_def none fun_eq_iff)
    moreover have "getTeleportItem s t = getTeleportItem s t'" "hasFlag TILESTATE_TELEPORT t = hasFlag TILESTATE_TELEPORT t'"
      using f by (simp_all add: getTeleportItem_def find_of_class_def hasFlag_def split: option.split)
    ultimately show ?thesis by (simp add: next_stop_def Some t'(1) split: option.split)
  qed
qed

lemma next_stop_put [simp]: "next_stop target s r (w_tiles (put_creature f c p q w)) = next_stop target s r (w_tiles w)"
  by (rule next_stop_bare) simp

lemma places_put:
  assumes "places (w_tiles w) c = {p}" "w_tiles w q \<noteq> None" "listed_once (w_tiles w)"
  shows "places (w_tiles (put_creature f c p q w)) c = {q}"
    "d \<noteq> c \<Longrightarrow> places (w_tiles (put_creature f c p q w)) d = places (w_tiles w) d"
    "listed_once (w_tiles (put_creature f c p q w))"
proof -
  have c: "c \<in> set (creatures t) \<longleftrightarrow> r = p" if "w_tiles w r = Some t" for r t
  proof -
    have "r \<in> places (w_tiles w) c \<longleftrightarrow> r = p" using assms(1) by simp
    then show ?thesis using that by (simp add: places_def)
  qed
  have di: "distinct (creatures t)" if "w_tiles w r = Some t" for r t
    using assms(3) that by (simp add: listed_once_def)
  have rm: "c \<notin> set (creatures (removeCreature_tile c t))" "distinct (creatures (removeCreature_tile c t))"
    if "w_tiles w r = Some t" for r t
    using di[OF that] by (simp_all add: removeCreature_tile_def)
  obtain tq where tq: "w_tiles w q = Some tq" using assms(2) by blast
  show "places (w_tiles (put_creature f c p q w)) c = {q}"
    using tq c rm(1) by (auto simp: places_def put_creature_def Let_def addCreature_tile_def split: if_splits)
  show "places (w_tiles (put_creature f c p q w)) d = places (w_tiles w) d" if "d \<noteq> c"
  proof -
    have rm: "d \<in> set (creatures (removeCreature_tile c t)) \<longleftrightarrow> d \<in> set (creatures t)"
      "d \<in> set (creatures (addCreature_tile c t)) \<longleftrightarrow> d \<in> set (creatures t)" for t
      using that by (simp_all add: removeCreature_tile_def addCreature_tile_def)
    have "r \<in> places (w_tiles (put_creature f c p q w)) d \<longleftrightarrow> r \<in> places (w_tiles w) d" for r
      using tq by (cases "w_tiles w r") (auto simp: places_iff put_creature_def Let_def rm)
    then show ?thesis by blast
  qed
  show "listed_once (w_tiles (put_creature f c p q w))"
    using tq c rm di by (auto simp: listed_once_def put_creature_def Let_def addCreature_tile_def split: if_splits)
qed

text \<open>One creature at one place, with everyone else where they were.\<close>

definition only_moved :: "nat \<Rightarrow> world \<Rightarrow> position \<Rightarrow> world \<Rightarrow> bool" where
  "only_moved c m r m' \<longleftrightarrow> places m' c = {r} \<and> (\<forall>d. d \<noteq> c \<longrightarrow> places m' d = places m d) \<and> listed_once m'
     \<and> bare_map m' = bare_map m"

lemma only_moved_put:
  "only_moved c m p (w_tiles w) \<Longrightarrow> w_tiles w q \<noteq> None \<Longrightarrow> only_moved c m q (w_tiles (put_creature f c p q w))"
  using places_put[of w c p q] by (simp add: only_moved_def)

lemma only_moved_arrive:
  assumes "arrive target s c q w = Some (r, w')" "only_moved c m q (w_tiles w)"
  shows "only_moved c m r (w_tiles w')"
proof -
  have "only_moved c m q (w_tiles w) \<longrightarrow> (case y of (r, w') \<Rightarrow> only_moved c m r (w_tiles w'))"
    if "arrive target s c q w = Some y" for target s c q w y
  proof (rule arrive.raw_induct[where P = "\<lambda>target s c q w y.
      only_moved c m q (w_tiles w) \<longrightarrow> (case y of (r, w') \<Rightarrow> only_moved c m r (w_tiles w'))", OF _ that])
    fix f target s c q w y
    assume ih: "\<And>target s c q w y. f target s c q w = Some y
        \<Longrightarrow> only_moved c m q (w_tiles w) \<longrightarrow> (case y of (r, w') \<Rightarrow> only_moved c m r (w_tiles w'))"
      and e: "(case next_stop target s q (w_tiles w) of None \<Rightarrow> Some (q, w)
        | Some r \<Rightarrow> f target s c r (put_creature False c q r w)) = Some y"
    show "only_moved c m q (w_tiles w) \<longrightarrow> (case y of (r, w') \<Rightarrow> only_moved c m r (w_tiles w'))"
    proof (cases "next_stop target s q (w_tiles w)")
      case None
      then show ?thesis using e by auto
    next
      case (Some r)
      then have "f target s c r (put_creature False c q r w) = Some y" using e by simp
      note ih = ih[OF this]
      have "w_tiles w r \<noteq> None" using Some by (auto simp: next_stop_def on_map_def split: option.splits if_splits)
      then show ?thesis using ih only_moved_put[of c m q w r False] by blast
    qed
  qed
  from this[OF assms(1)] assms(2) show ?thesis by simp
qed

lemma only_moved_moveCreature:
  "moveCreature_tile target s f c p q w = Some (r, w') \<Longrightarrow> only_moved c m p (w_tiles w) \<Longrightarrow> w_tiles w q \<noteq> None
     \<Longrightarrow> only_moved c m r (w_tiles w')"
  using only_moved_arrive[of target s c q "put_creature f c p q w" r w' m] only_moved_put[of c m p w q f]
  by (simp add: moveCreature_tile_def)

lemma destination_on_map:
  "queryDestination m q t flags = (q', i, fl) \<Longrightarrow> q' = q \<or> m q' \<noteq> None"
  by (auto simp: queryDestination_def leads_to_def on_map_def Let_def split: option.splits if_splits)

lemma only_moved_hops:
  "floor_hops target s n c q flags w = Some (r, w') \<Longrightarrow> only_moved c m q (w_tiles w) \<Longrightarrow> only_moved c m r (w_tiles w')"
proof (induction n arbitrary: q flags w)
  case (Suc n)
  show ?case
  proof (cases "w_tiles w q")
    case None
    then show ?thesis using Suc.prems by simp
  next
    case (Some t)
    obtain q' i fl where d: "queryDestination (w_tiles w) q t flags = (q', i, fl)" by (cases "queryDestination (w_tiles w) q t flags")
    show ?thesis
    proof (cases "q' = q")
      case True
      then show ?thesis using Suc.prems d Some by simp
    next
      case False
      then obtain r1 w1 where m: "moveCreature_tile target s False c q q' w = Some (r1, w1)"
        using Suc.prems d Some by (auto split: option.splits)
      have "only_moved c m r1 (w_tiles w1)"
        by (rule only_moved_moveCreature[OF m Suc.prems(2)]) (use destination_on_map[OF d] False in simp)
      then show ?thesis using Suc.prems(1) Suc.IH[of q' 0 w1] d Some m False by (auto split: if_splits)
    qed
  qed
qed simp

lemma only_moved_internal:
  assumes "internalMoveCreature_to T target s v c flags f p q w = Some (ret, r, w')" "only_moved c m p (w_tiles w)"
  shows "only_moved c m r (w_tiles w') \<and> (ret \<noteq> RET_NOERROR \<longrightarrow> r = p \<and> w' = w)"
proof (cases "w_tiles w q")
  case None
  then show ?thesis using assms by (simp add: internalMoveCreature_to_def)
next
  case (Some t)
  show ?thesis
  proof (cases "queryAdd_creature T s t v flags = RET_NOERROR")
    case False
    then show ?thesis using assms Some by (auto simp: internalMoveCreature_to_def split: tile_return.splits)
  next
    case True
    then obtain r1 w1 where m: "moveCreature_tile target s f c p q w = Some (r1, w1)"
      using assms Some by (auto simp: internalMoveCreature_to_def split: option.splits)
    have o: "only_moved c m r1 (w_tiles w1)"
      by (rule only_moved_moveCreature[OF m assms(2)]) (use Some in simp)
    show ?thesis
      using assms(1) o Some True m only_moved_hops[of target s MAX_HOPS c q flags w1]
      by (auto simp: internalMoveCreature_to_def split: if_splits)
  qed
qed

lemma only_moved_refl: "places m c = {p} \<Longrightarrow> listed_once m \<Longrightarrow> only_moved c m p m"
  by (simp add: only_moved_def)

text \<open>
  C20. Walking: a creature that stands on one tile of the map is on exactly one tile after a step, teleports
  and floor changes on the way included. That is the tile the step ends on, everyone else stands where they
  stood, nothing but creatures has moved, and a refused step changes nothing at all.\<close>

theorem walk_one_place:
  assumes "internalMoveCreature T target s v c flags d p w = Some (ret, r, w')"
    and "places (w_tiles w) c = {p}" "listed_once (w_tiles w)"
  shows "places (w_tiles w') c = {r} \<and> (\<forall>e. e \<noteq> c \<longrightarrow> places (w_tiles w') e = places (w_tiles w) e)
    \<and> bare_map (w_tiles w') = bare_map (w_tiles w) \<and> listed_once (w_tiles w') \<and> (ret \<noteq> RET_NOERROR \<longrightarrow> r = p \<and> w' = w)"
  using assms(1) only_moved_internal[OF _ only_moved_refl[OF assms(2,3)]]
  by (auto simp: internalMoveCreature_def only_moved_def split: prod.splits)

section \<open>Teleports\<close>

definition stops :: "(nat \<Rightarrow> position) \<Rightarrow> item_store \<Rightarrow> world \<Rightarrow> position \<Rightarrow> nat \<Rightarrow> position option" where
  "stops target s m q n = ((\<lambda>o'. Option.bind o' (\<lambda>r. next_stop target s r m)) ^^ n) (Some q)"

lemma stops_Suc: "stops target s m q (Suc n) = (case next_stop target s q m of None \<Rightarrow> None | Some r \<Rightarrow> stops target s m r n)"
proof -
  have n: "((\<lambda>o'. Option.bind o' (\<lambda>r. next_stop target s r m)) ^^ n) None = None" for n by (induction n) simp_all
  show ?thesis
    by (cases "next_stop target s q m") (simp_all add: stops_def n funpow_Suc_right del: funpow.simps)
qed

lemma stops_bare: "bare_map m = bare_map m' \<Longrightarrow> stops target s m q n = stops target s m' q n"
  unfolding stops_def using next_stop_bare[of m m' target s] by simp

lemma arrive_ends:
  "stops target s (w_tiles w) q n = None \<Longrightarrow> arrive target s c q w \<noteq> None"
proof (induction n arbitrary: q w)
  case (Suc n)
  show ?case
  proof (cases "next_stop target s q (w_tiles w)")
    case (Some r)
    have "stops target s (w_tiles (put_creature False c q r w)) r n = None"
      using Suc.prems Some stops_bare[of "w_tiles (put_creature False c q r w)" "w_tiles w"] by (simp add: stops_Suc)
    from Suc.IH[OF this] show ?thesis using Some by (simp add: arrive.simps[of target s c q])
  qed (simp add: arrive.simps[of target s c q])
qed (simp add: stops_def)

lemma arrive_ended:
  assumes "arrive target s c q w = Some y"
  shows "\<exists>n. stops target s (w_tiles w) q n = None"
proof (rule arrive.raw_induct[where P = "\<lambda>target s c q w y. \<exists>n. stops target s (w_tiles w) q n = None", OF _ assms])
  fix f target s c q w y
  assume ih: "\<And>target s c q w y. f target s c q w = Some y \<Longrightarrow> \<exists>n. stops target s (w_tiles w) q n = None"
    and e: "(case next_stop target s q (w_tiles w) of None \<Rightarrow> Some (q, w)
      | Some r \<Rightarrow> f target s c r (put_creature False c q r w)) = Some y"
  show "\<exists>n. stops target s (w_tiles w) q n = None"
  proof (cases "next_stop target s q (w_tiles w)")
    case None
    then have "stops target s (w_tiles w) q (Suc 0) = None" by (simp add: stops_Suc)
    then show ?thesis by blast
  next
    case (Some r)
    then have "f target s c r (put_creature False c q r w) = Some y" using e by simp
    from ih[OF this] obtain n where "stops target s (w_tiles (put_creature False c q r w)) r n = None" by blast
    then have "stops target s (w_tiles w) q (Suc n) = None"
      using Some stops_bare[of "w_tiles (put_creature False c q r w)" "w_tiles w"] by (simp add: stops_Suc)
    then show ?thesis by blast
  qed
qed

lemma move_returns:
  "moveCreature_tile target s f c p q w \<noteq> None \<longleftrightarrow> (\<exists>n. stops target s (w_tiles w) q n = None)"
proof -
  have "stops target s (w_tiles (put_creature f c p q w)) q n = stops target s (w_tiles w) q n" for n
    by (rule stops_bare) simp
  then show ?thesis
    unfolding moveCreature_tile_def using arrive_ends arrive_ended by (metis not_None_eq)
qed

text \<open>
  What counts as the teleport of a tile: its ground, or else the last of its items that is one. It leads
  on if the tile is marked as having one and the destination is on the map.
\<close>

definition teleport_on :: "item_store \<Rightarrow> tile \<Rightarrow> nat \<Rightarrow> bool" where
  "teleport_on s t i \<longleftrightarrow> i_class (s i) = Teleport \<and>
     (ground t = Some i \<or> (\<forall>g. ground t = Some g \<longrightarrow> i_class (s g) \<noteq> Teleport)
        \<and> (\<exists>xs ys. titems t = xs @ i # ys \<and> (\<forall>y\<in>set ys. i_class (s y) \<noteq> Teleport)))"

definition teleport_leads :: "(nat \<Rightarrow> position) \<Rightarrow> item_store \<Rightarrow> world \<Rightarrow> position \<Rightarrow> position \<Rightarrow> bool" where
  "teleport_leads target s m q r \<longleftrightarrow>
     (\<exists>t i. m q = Some t \<and> hasFlag TILESTATE_TELEPORT t \<and> teleport_on s t i \<and> target i = r \<and> m r \<noteq> None)"

lemma find_last_iff:
  "find P (rev xs) = Some i \<longleftrightarrow> P i \<and> (\<exists>us ys. xs = us @ i # ys \<and> (\<forall>y\<in>set ys. \<not> P y))"
proof (induction xs rule: rev_induct)
  case (snoc x xs)
  show ?case
  proof (cases "P x")
    case True
    have "x = i" if "xs @ [x] = us @ i # ys" "\<forall>y\<in>set ys. \<not> P y" for us ys
      using that True by (cases ys rule: rev_cases) auto
    moreover have "xs @ [x] = xs @ x # [] \<and> (\<forall>y\<in>set []. \<not> P y)" by simp
    ultimately have "(\<exists>us ys. xs @ [x] = us @ i # ys \<and> (\<forall>y\<in>set ys. \<not> P y)) \<longleftrightarrow> x = i" by blast
    then show ?thesis using True by auto
  next
    case False
    have "(\<exists>us ys. xs @ [x] = us @ i # ys \<and> (\<forall>y\<in>set ys. \<not> P y)) \<longleftrightarrow>
        (\<exists>us ys. xs = us @ i # ys \<and> (\<forall>y\<in>set ys. \<not> P y))" if "P i"
    proof
      assume "\<exists>us ys. xs @ [x] = us @ i # ys \<and> (\<forall>y\<in>set ys. \<not> P y)"
      then obtain us ys where e: "xs @ [x] = us @ i # ys" "\<forall>y\<in>set ys. \<not> P y" by blast
      then have "ys \<noteq> []" using False that by auto
      then obtain zs where z: "ys = zs @ [x]" using e(1) by (cases ys rule: rev_cases) auto
      then have "xs = us @ i # zs" using e(1) by simp
      then show "\<exists>us ys. xs = us @ i # ys \<and> (\<forall>y\<in>set ys. \<not> P y)" using e(2) z by auto
    next
      assume "\<exists>us ys. xs = us @ i # ys \<and> (\<forall>y\<in>set ys. \<not> P y)"
      then obtain us ys where "xs = us @ i # ys" "\<forall>y\<in>set ys. \<not> P y" by blast
      then have "xs @ [x] = us @ i # (ys @ [x])" "\<forall>y\<in>set (ys @ [x]). \<not> P y" using False by auto
      then show "\<exists>us ys. xs @ [x] = us @ i # ys \<and> (\<forall>y\<in>set ys. \<not> P y)" by blast
    qed
    then show ?thesis using False snoc.IH by auto
  qed
qed simp

lemma getTeleportItem_iff:
  "hasFlag TILESTATE_TELEPORT t \<Longrightarrow> getTeleportItem s t = Some i \<longleftrightarrow> teleport_on s t i"
  unfolding getTeleportItem_def find_of_class_def teleport_on_def
  by (cases "ground t") (auto simp: find_last_iff)

lemma next_stop_iff: "next_stop target s q m = Some r \<longleftrightarrow> teleport_leads target s m q r"
proof (cases "m q")
  case (Some t)
  then show ?thesis
    by (auto simp: next_stop_def teleport_leads_def on_map_def getTeleportItem_iff[symmetric]
        split: option.split if_splits)
qed (simp add: next_stop_def teleport_leads_def)

lemma stops_chain:
  assumes "\<forall>n. teleport_leads target s m (ps n) (ps (Suc n))"
  shows "stops target s m (ps k) n = Some (ps (k + n))"
proof (induction n arbitrary: k)
  case (Suc n)
  have "next_stop target s (ps k) m = Some (ps (Suc k))" using assms by (simp add: next_stop_iff)
  then show ?case using Suc[of "Suc k"] by (simp add: stops_Suc)
qed (simp add: stops_def)

lemma endless_stops:
  "(\<forall>n. stops target s m q n \<noteq> None) \<longleftrightarrow>
     (\<exists>ps. ps 0 = q \<and> (\<forall>n. teleport_leads target s m (ps n) (ps (Suc n))))"
proof
  assume a: "\<forall>n. stops target s m q n \<noteq> None"
  define ps where "ps n = the (stops target s m q n)" for n
  have p: "stops target s m q n = Some (ps n)" for n using a by (simp add: ps_def)
  have "next_stop target s (ps n) m = Some (ps (Suc n))" for n
    using p[of n] p[of "Suc n"] by (simp add: stops_def)
  moreover have "ps 0 = q" using p[of 0] by (simp add: stops_def)
  ultimately show "\<exists>ps. ps 0 = q \<and> (\<forall>n. teleport_leads target s m (ps n) (ps (Suc n)))"
    unfolding next_stop_iff by blast
next
  assume "\<exists>ps. ps 0 = q \<and> (\<forall>n. teleport_leads target s m (ps n) (ps (Suc n)))"
  then obtain ps where "ps 0 = q" "\<forall>n. teleport_leads target s m (ps n) (ps (Suc n))" by blast
  then show "\<forall>n. stops target s m q n \<noteq> None" using stops_chain[of target s m ps 0] by simp
qed

lemma leads_bare: "bare_map m = bare_map m' \<Longrightarrow> teleport_leads target s m = teleport_leads target s m'"
  using next_stop_bare[of m m' target s] by (intro ext) (simp add: next_stop_iff[symmetric])

lemma arrive_goes:
  assumes "arrive target s c q w = Some y"
  shows "(teleport_leads target s (w_tiles w))\<^sup>*\<^sup>* q (fst y) \<and> (\<nexists>r. teleport_leads target s (w_tiles w) (fst y) r)"
proof (rule arrive.raw_induct[where P = "\<lambda>target s c q w y. (teleport_leads target s (w_tiles w))\<^sup>*\<^sup>* q (fst y)
    \<and> (\<nexists>r. teleport_leads target s (w_tiles w) (fst y) r)", OF _ assms])
  fix f target s c q w y
  assume ih: "\<And>target s c q w y. f target s c q w = Some y \<Longrightarrow> (teleport_leads target s (w_tiles w))\<^sup>*\<^sup>* q (fst y)
      \<and> (\<nexists>r. teleport_leads target s (w_tiles w) (fst y) r)"
    and e: "(case next_stop target s q (w_tiles w) of None \<Rightarrow> Some (q, w)
      | Some r \<Rightarrow> f target s c r (put_creature False c q r w)) = Some y"
  let ?L = "teleport_leads target s (w_tiles w)"
  show "?L\<^sup>*\<^sup>* q (fst y) \<and> (\<nexists>r. ?L (fst y) r)"
  proof (cases "next_stop target s q (w_tiles w)")
    case None
    then show ?thesis using e next_stop_iff[of target s q "w_tiles w"] by auto
  next
    case (Some r)
    have b: "teleport_leads target s (w_tiles (put_creature False c q r w)) = ?L" by (rule leads_bare) simp
    have "f target s c r (put_creature False c q r w) = Some y" using e Some by simp
    from ih[OF this] have "?L\<^sup>*\<^sup>* r (fst y)" "\<nexists>r. ?L (fst y) r" unfolding b by blast+
    moreover have "?L q r" using Some by (simp add: next_stop_iff)
    ultimately show ?thesis by (meson converse_rtranclp_into_rtranclp)
  qed
qed

text \<open>
  C24. A creature that is moved to a tile goes on through the teleports it finds, each the one the tile
  has at its ground or last among its items, and ends where none leads on. The move does not return
  exactly when they lead on for ever, as two teleports that lead to each other do: one call inside
  the other, not covered by the limit on floor changes.\<close>

theorem teleports_followed:
  "(moveCreature_tile target s f c p q w = None \<longleftrightarrow>
      (\<exists>ps. ps 0 = q \<and> (\<forall>n. teleport_leads target s (w_tiles w) (ps n) (ps (Suc n)))))
   \<and> (\<forall>r w'. moveCreature_tile target s f c p q w = Some (r, w') \<longrightarrow>
        (teleport_leads target s (w_tiles w))\<^sup>*\<^sup>* q r \<and> (\<nexists>r'. teleport_leads target s (w_tiles w) r r'))"
proof (rule conjI)
  show "moveCreature_tile target s f c p q w = None \<longleftrightarrow>
      (\<exists>ps. ps 0 = q \<and> (\<forall>n. teleport_leads target s (w_tiles w) (ps n) (ps (Suc n))))"
    unfolding endless_stops[symmetric] using move_returns[of target s f c p q w] by metis
  have b: "teleport_leads target s (w_tiles (put_creature f c p q w)) = teleport_leads target s (w_tiles w)"
    by (rule leads_bare) simp
  show "\<forall>r w'. moveCreature_tile target s f c p q w = Some (r, w') \<longrightarrow>
        (teleport_leads target s (w_tiles w))\<^sup>*\<^sup>* q r \<and> (\<nexists>r'. teleport_leads target s (w_tiles w) r r')"
    using arrive_goes[of target s c q "put_creature f c p q w"] unfolding moveCreature_tile_def b by fastforce
qed

text \<open>Two tiles with a teleport each, to the other one.\<close>

definition portal_tile :: "nat \<Rightarrow> tile" where
  "portal_tile i = setFlag TILESTATE_TELEPORT ((new_tile True)\<lparr>titems := [i]\<rparr>)"

definition portal_world :: walkers where
  "portal_world = \<lparr>w_tiles = [Position 10 10 7 \<mapsto> portal_tile 1, Position 20 10 7 \<mapsto> portal_tile 2],
     w_facing = (\<lambda>_. SOUTH)\<rparr>"

definition portal_items :: item_store where
  "portal_items = (\<lambda>i. (demo_items i)\<lparr>i_class := Teleport\<rparr>)"

definition portal_target :: "nat \<Rightarrow> position" where
  "portal_target i = (if i = 1 then Position 20 10 7 else Position 10 10 7)"

theorem teleports_followed_witness:
  "moveCreature_tile portal_target portal_items False 5 (Position 9 10 7) (Position 10 10 7) portal_world = None
   \<and> (\<exists>w'. moveCreature_tile (\<lambda>_. Position 30 10 7) portal_items False 5 (Position 9 10 7) (Position 10 10 7) portal_world
        = Some (Position 10 10 7, w'))"
proof
  let ?L = "\<lambda>f. teleport_leads f portal_items (w_tiles portal_world)"
  have on: "w_tiles portal_world (Position 10 10 7) = Some (portal_tile 1)"
    "w_tiles portal_world (Position 20 10 7) = Some (portal_tile 2)" by (simp_all add: portal_world_def)
  have t: "hasFlag TILESTATE_TELEPORT (portal_tile i)" "teleport_on portal_items (portal_tile i) i" for i
    by (simp_all add: portal_tile_def teleport_on_def portal_items_def new_tile_def)
      (simp add: setFlag_def)
  have l: "?L portal_target (Position 10 10 7) (Position 20 10 7)" "?L portal_target (Position 20 10 7) (Position 10 10 7)"
    unfolding teleport_leads_def
    by (rule exI[of _ "portal_tile 1"], rule exI[of _ 1], use on t in \<open>simp add: portal_target_def\<close>)
      (rule exI[of _ "portal_tile 2"], rule exI[of _ 2], use on t in \<open>simp add: portal_target_def\<close>)
  define ps :: "nat \<Rightarrow> position" where "ps n = (if even n then Position 10 10 7 else Position 20 10 7)" for n
  have "ps 0 = Position 10 10 7" "\<forall>n. ?L portal_target (ps n) (ps (Suc n))" using l by (simp_all add: ps_def)
  then show "moveCreature_tile portal_target portal_items False 5 (Position 9 10 7) (Position 10 10 7) portal_world = None"
    using teleports_followed[of portal_target portal_items False 5 "Position 9 10 7" "Position 10 10 7" portal_world] by blast
  have no: "\<not> ?L (\<lambda>_. Position 30 10 7) q r" for q r
    by (auto simp: teleport_leads_def portal_world_def)
  show "\<exists>w'. moveCreature_tile (\<lambda>_. Position 30 10 7) portal_items False 5 (Position 9 10 7) (Position 10 10 7) portal_world
        = Some (Position 10 10 7, w')"
  proof (cases "moveCreature_tile (\<lambda>_. Position 30 10 7) portal_items False 5 (Position 9 10 7) (Position 10 10 7) portal_world")
    case None
    then show ?thesis
      using teleports_followed[of "\<lambda>_. Position 30 10 7" portal_items False 5 "Position 9 10 7" "Position 10 10 7" portal_world]
        no by blast
  next
    case (Some y)
    then have "(?L (\<lambda>_. Position 30 10 7))\<^sup>*\<^sup>* (Position 10 10 7) (fst y)"
      using teleports_followed[of "\<lambda>_. Position 30 10 7" portal_items False 5 "Position 9 10 7" "Position 10 10 7" portal_world]
      by (cases y) simp
    then have "fst y = Position 10 10 7" using no by (auto elim: converse_rtranclpE)
    then show ?thesis using Some by (cases y) simp
  qed
qed

section \<open>Watching\<close>

lemma told_all: "\<forall>p\<in>set ps. sees p c \<Longrightarrow> told_moves sees c (List.map f ps) ps = List.map (\<lambda>p. (p, f p)) ps"
  by (induction ps) auto

section \<open>Walls\<close>

lemma tile_run_flags:
  assumes "table_ok T" "tile_run T storeTrash self dyn s es = (t, s')" "(f, p) \<in> set block_flags"
  shows "hasFlag f t \<longleftrightarrow> (\<exists>j\<in>set (tile_list t). item_hasProperty T (s' j) p)"
proof -
  have "tile_ok T self (t, s')" using tile_run_ok[OF assms(1), of self storeTrash dyn s es] assms(2) by simp
  then have "flags_for T s' (set (tile_list t)) t" by (simp add: tile_ok_def)
  from flags_forD[OF this assms(3)] show ?thesis .
qed

lemma solid_of_immovable: "item_hasProperty T x IMMOVABLEBLOCKSOLID \<Longrightarrow> item_hasProperty T x BLOCKSOLID"
  by (simp add: item_hasProperty_def Let_def)

lemma blocked_by_immovable:
  "item_hasProperty T (s i) IMMOVABLEBLOCKSOLID \<Longrightarrow> \<not> blocked_by T s v i
     \<Longrightarrow> v_kind v = Player \<and> i_class (s i) = MagicField \<and> isUnstepable (s i)"
  by (auto simp: item_hasProperty_def Let_def blocked_by_def isBlocking_def split: if_splits)

lemma list_ex_tile: "(case ground t of None \<Rightarrow> False | Some g \<Rightarrow> P g) \<or> list_ex P (titems t) \<longleftrightarrow> (\<exists>i\<in>set (tile_list t). P i)"
  by (auto simp: tile_list_def list_ex_iff split: option.split)

lemma queryAdd_creature_cases:
  assumes "queryAdd_creature T s t v flags = RET_NOERROR" "\<not> hasBitSet FLAG_NOLIMIT flags" "listed t"
  shows "ground t \<noteq> None"
    "v_kind v = Monster \<Longrightarrow> \<not> hasFlag TILESTATE_PROTECTIONZONE t \<and> \<not> hasFlag TILESTATE_FLOORCHANGE t
       \<and> \<not> hasFlag TILESTATE_TELEPORT t \<and> \<not> hasFlag TILESTATE_IMMOVABLEBLOCKSOLID t"
    "v_kind v \<noteq> Monster \<Longrightarrow> \<not> hasFlag TILESTATE_BLOCKSOLID t \<or> (\<forall>i\<in>set (tile_list t). \<not> blocked_by T s v i)"
    "v_kind v = Player \<Longrightarrow> isPzLocked v \<Longrightarrow> \<not> hasFlag TILESTATE_PROTECTIONZONE t \<and> \<not> hasFlag TILESTATE_OPTIONALZONE t"
  using assms
  by (simp_all add: queryAdd_creature_def queryAdd_monster_def list_ex_tile tile_list_def list_ex_iff split: if_splits option.splits)

text \<open>
  C21. Walls: whatever has happened to a tile with a list of items, a creature that may enter it without the
  flag that ignores everything finds ground there and no thing that blocks and cannot be moved, magic walls
  of the safe kind and players apart. A monster finds no protection zone, floor change or teleport either,
  and a player with a protection-zone lock none of the zones without fights.\<close>

theorem solid_things_stop:
  assumes "table_ok T" "tile_run T storeTrash self dyn s es = (t, s')" "listed t"
    and "\<not> hasBitSet FLAG_NOLIMIT flags" "queryAdd_creature T s' t v flags = RET_NOERROR"
  shows "ground t \<noteq> None
    \<and> (\<forall>i\<in>set (tile_list t). item_hasProperty T (s' i) IMMOVABLEBLOCKSOLID
         \<longrightarrow> v_kind v = Player \<and> i_class (s' i) = MagicField \<and> isUnstepable (s' i))
    \<and> (v_kind v = Monster \<longrightarrow> \<not> hasFlag TILESTATE_PROTECTIONZONE t \<and> \<not> hasFlag TILESTATE_FLOORCHANGE t \<and> \<not> hasFlag TILESTATE_TELEPORT t)
    \<and> (v_kind v = Player \<and> isPzLocked v \<longrightarrow> \<not> hasFlag TILESTATE_PROTECTIONZONE t \<and> \<not> hasFlag TILESTATE_OPTIONALZONE t)"
proof -
  note q = queryAdd_creature_cases[OF assms(5,4,3)]
  have immovable: "hasFlag TILESTATE_IMMOVABLEBLOCKSOLID t \<longleftrightarrow> (\<exists>j\<in>set (tile_list t). item_hasProperty T (s' j) IMMOVABLEBLOCKSOLID)"
    by (rule tile_run_flags[OF assms(1,2)]) (simp add: block_flags_def)
  have solid: "hasFlag TILESTATE_BLOCKSOLID t \<longleftrightarrow> (\<exists>j\<in>set (tile_list t). item_hasProperty T (s' j) BLOCKSOLID)"
    by (rule tile_run_flags[OF assms(1,2)]) (simp add: block_flags_def)
  have "v_kind v = Player \<and> i_class (s' i) = MagicField \<and> isUnstepable (s' i)"
    if "i \<in> set (tile_list t)" "item_hasProperty T (s' i) IMMOVABLEBLOCKSOLID" for i
    using q(2,3) immovable solid solid_of_immovable[OF that(2)] blocked_by_immovable[of T s' i v, OF that(2)] that by blast
  then show ?thesis using q by blast
qed

section \<open>Heights\<close>

lemma height_loop_count: "h < n \<Longrightarrow> height_loop high n h xs \<longleftrightarrow> n \<le> h + length (filter high xs)"
proof (induction xs arbitrary: h)
  case (Cons x xs)
  show ?case
  proof (cases "high x \<and> n = h + 1")
    case False
    then have "(if high x then h + 1 else h) < n" using Cons.prems by auto
    from Cons.IH[OF this] show ?thesis using False Cons.prems by (auto simp: Let_def)
  qed simp
qed simp

lemma hasHeight_count:
  assumes "n \<ge> 2"
  shows "hasHeight_tile T s t n \<longleftrightarrow> n \<le> length (filter (\<lambda>i. item_hasProperty T (s i) HASHEIGHT) (tile_list t))"
proof (cases "ground t")
  case None
  then show ?thesis using assms height_loop_count[of 0 n] by (simp add: hasHeight_tile_def tile_list_def)
next
  case (Some g)
  have l: "(1::nat) < n" "0 < n" "n \<noteq> 1" "n \<noteq> 0" using assms by auto
  show ?thesis
  proof (cases "item_hasProperty T (s g) HASHEIGHT")
    case True
    have "hasHeight_tile T s t n \<longleftrightarrow> height_loop (\<lambda>i. item_hasProperty T (s i) HASHEIGHT) n 1 (titems t)"
      using True l Some by (simp add: hasHeight_tile_def)
    then show ?thesis unfolding height_loop_count[OF l(1)] using True Some by (simp add: tile_list_def)
  next
    case False
    have "hasHeight_tile T s t n \<longleftrightarrow> height_loop (\<lambda>i. item_hasProperty T (s i) HASHEIGHT) n 0 (titems t)"
      using False l Some by (simp add: hasHeight_tile_def)
    then show ?thesis unfolding height_loop_count[OF l(2)] using False Some by (simp add: tile_list_def)
  qed
qed

definition flat :: "itypes \<Rightarrow> item_store \<Rightarrow> world \<Rightarrow> bool" where
  "flat T s m \<longleftrightarrow> (\<forall>q t. m q = Some t \<longrightarrow>
     length (filter (\<lambda>i. item_hasProperty T (s i) HASHEIGHT) (tile_list t)) < 3
     \<and> \<not> hasFlag TILESTATE_FLOORCHANGE t \<and> \<not> floorChange CHANGE_DOWN t \<and> \<not> hasFlag TILESTATE_TELEPORT t)"

lemma flat_not_high: "flat T s m \<Longrightarrow> \<not> high_enough T s m p"
  by (cases "m p") (simp_all add: high_enough_def hasHeight_count flat_def not_le)

lemma flat_climb: "flat T s m \<Longrightarrow> climb T s v flags d p m = (getNextPosition d p, flags)"
  by (simp add: climb_def Let_def flat_not_high)

lemma flat_leads: "flat T s m \<Longrightarrow> m q = Some t \<Longrightarrow> queryDestination m q t flags = (q, getTopDownItem t, flags)"
  by (simp add: queryDestination_def leads_to_def flat_def)

lemma flat_next_stop: "flat T s m \<Longrightarrow> next_stop target s q m = None"
  by (auto simp: next_stop_def flat_def split: option.split)

lemma flat_bare:
  assumes "bare_map m' = bare_map m"
  shows "flat T s m \<Longrightarrow> flat T s m'"
  unfolding flat_def
proof (intro allI impI)
  fix q t assume f: "\<forall>q t. m q = Some t \<longrightarrow>
     length (filter (\<lambda>i. item_hasProperty T (s i) HASHEIGHT) (tile_list t)) < 3
     \<and> \<not> hasFlag TILESTATE_FLOORCHANGE t \<and> \<not> floorChange CHANGE_DOWN t \<and> \<not> hasFlag TILESTATE_TELEPORT t"
    and t: "m' q = Some t"
  obtain t' where t': "m q = Some t'" "bare t = bare t'"
    using bare_mapD[OF assms, of q] t by (auto simp: map_option_case split: option.splits)
  note e = bare_eqD[OF t'(2)]
  have "tile_list t = tile_list t'" "m_flags t = m_flags t'" using e by (simp_all add: tile_list_def)
  then show "length (filter (\<lambda>i. item_hasProperty T (s i) HASHEIGHT) (tile_list t)) < 3
     \<and> \<not> hasFlag TILESTATE_FLOORCHANGE t \<and> \<not> floorChange CHANGE_DOWN t \<and> \<not> hasFlag TILESTATE_TELEPORT t"
    using f[rule_format, OF t'(1)] by (simp add: hasFlag_def floorChange_def)
qed

lemma flat_put: "flat T s (w_tiles w) \<Longrightarrow> flat T s (w_tiles (put_creature f c p q w))"
  by (rule flat_bare[rotated]) simp_all

lemma put_creature_on: "w_tiles w q \<noteq> None \<Longrightarrow> w_tiles (put_creature f c p q w) q \<noteq> None"
  by (auto simp: put_creature_def Let_def)

text \<open>
  C25. Steps on flat ground: on a map without floor changes, teleports and piles of three high things, a step
  returns; it ends on the next square of that direction, on the same floor, if the tile there lets the
  creature in, and where it began if not.\<close>

theorem flat_step:
  assumes "flat T s (w_tiles w)"
  shows "map_option (\<lambda>(ret, r, w'). (ret, r)) (internalMoveCreature T target s v c flags d p w) =
    Some (case w_tiles w (getNextPosition d p) of
        None \<Rightarrow> (RET_NOTPOSSIBLE, p)
      | Some t \<Rightarrow> let ret = queryAdd_creature T s t v flags in (ret, if ret = RET_NOERROR then getNextPosition d p else p))"
proof -
  define q where "q = getNextPosition d p"
  show ?thesis
  proof (cases "w_tiles w q")
    case None
    then show ?thesis
      by (simp add: internalMoveCreature_def flat_climb[OF assms] q_def[symmetric] internalMoveCreature_to_def)
  next
    case (Some t)
    define w1 where "w1 = put_creature False c p q w"
    have f1: "flat T s (w_tiles w1)" by (simp add: w1_def flat_put assms)
    obtain t1 where t1: "w_tiles w1 q = Some t1" using put_creature_on[of w q False c p] Some by (auto simp: w1_def)
    have m: "moveCreature_tile target s False c p q w = Some (q, w1)"
      by (simp add: moveCreature_tile_def w1_def[symmetric] arrive.simps flat_next_stop[OF f1])
    have h: "floor_hops target s MAX_HOPS c q flags w1 = Some (q, w1)"
      by (simp add: MAX_HOPS_def numeral_eq_Suc t1 flat_leads[OF f1 t1])
    show ?thesis
      by (simp add: internalMoveCreature_def flat_climb[OF assms] q_def[symmetric] internalMoveCreature_to_def Some m h Let_def
          split: tile_return.split)
  qed
qed

section \<open>Messages to those who watch\<close>

text \<open>
  Watching a move: a player who sees the creature is told the index that the creature had for him, if
  all the players before him in the list of spectators see the creature too.\<close>

theorem watchers_told:
  assumes "\<forall>p\<in>set ps. sees p c"
  shows "take (length ps) (send_moves sees (ps @ qs) t c)
    = List.map (\<lambda>p. (p, getClientIndexOfThing (sees p) t (Creature c))) ps"
proof -
  have "take (length ps) (told_moves sees c (List.map f (ps @ qs)) (ps @ qs)) = List.map (\<lambda>p. (p, f p)) ps" for f :: "nat \<Rightarrow> int"
    using assms by (induction ps) auto
  from this[of "\<lambda>p. getClientIndexOfThing (sees p) t (Creature c)"] show ?thesis
    by (simp add: send_moves_def oldStackposVector_def)
qed



text \<open>
  A player who sees no creature at all, and one who sees both on the tile: he is told that the creature
  at index 1 has moved, which for him is the other one.\<close>

definition crowded_tile :: tile where
  "crowded_tile = (new_tile True)\<lparr>ground := Some 0, creatures := [0, 1], thingCount := 3\<rparr>"


section \<open>Examples\<close>

definition demo_ground :: "nat list \<Rightarrow> tile" where
  "demo_ground cs = (new_tile True)\<lparr>ground := Some 0, creatures := cs, thingCount := of_nat (Suc (length cs))\<rparr>"

definition demo_world :: walkers where
  "demo_world = \<lparr>w_tiles = [Position 10 10 7 \<mapsto> demo_ground [1, 2], Position 11 10 7 \<mapsto> demo_ground []], w_facing = (\<lambda>_. SOUTH)\<rparr>"

definition demo_player :: visitor where
  "demo_player = \<lparr>v_kind = Player, canPushCreatures = False, isSummon = False, canPushItems = False, canWalkthrough = (\<lambda>_. False),
     can_push_away = (\<lambda>_. False), immune_to = (\<lambda>_. False), suffers_from = (\<lambda>_. False), isPzLocked = False, on_a_tile = True,
     on_hardcore = False\<rparr>"

lemma demo_flags [simp]: "hasFlag f (demo_ground cs) \<longleftrightarrow> f = TILESTATE_DYNAMIC_TILE"
proof -
  have "hasFlag f (demo_ground cs) = hasFlag f (setFlag TILESTATE_DYNAMIC_TILE ((new_tile False)))"
    by (simp add: hasFlag_def demo_ground_def new_tile_def setFlag_def)
  also have "\<dots> \<longleftrightarrow> f = TILESTATE_DYNAMIC_TILE"
    unfolding hasFlag_setFlag by (simp add: hasFlag_bit new_tile_def)
  finally show ?thesis .
qed

lemma demo_enter: "queryAdd_creature demo_types demo_items (demo_ground []) demo_player 0 = RET_NOERROR"
  by (simp add: queryAdd_creature_def demo_player_def hasBitSet_def FLAG_NOLIMIT_def FLAG_PATHFINDING_def FLAG_IGNOREBLOCKITEM_def
      getFieldItem_def find_of_class_def) (simp add: demo_ground_def new_tile_def)

lemma demo_flat: "flat demo_types demo_items (w_tiles demo_world)"
  by (auto simp: flat_def demo_world_def floorChange_def) (auto simp: demo_ground_def new_tile_def tile_list_def
      item_hasProperty_def demo_types_def demo_items_def plain_type_def split: if_splits)

theorem flat_step_witness:
  "map_option (\<lambda>(ret, r, w'). (ret, r))
     (internalMoveCreature demo_types (\<lambda>_. position_zero) demo_items demo_player 1 0 EAST (Position 10 10 7) demo_world)
   = Some (RET_NOERROR, Position 11 10 7)"
  unfolding flat_step[OF demo_flat] by (simp add: demo_world_def demo_enter)

lemma demo_places: "places (w_tiles demo_world) 1 = {Position 10 10 7}" "listed_once (w_tiles demo_world)"
  by (auto simp: places_def demo_world_def demo_ground_def new_tile_def listed_once_def split: if_splits)

lemma demo_walk:
  "\<exists>w'. internalMoveCreature demo_types (\<lambda>_. position_zero) demo_items demo_player 1 0 EAST (Position 10 10 7) demo_world
     = Some (RET_NOERROR, Position 11 10 7, w')"
proof -
  define p q w where "p = Position 10 10 7" and "q = Position 11 10 7" and "w = put_creature False 1 p q demo_world"
  have f: "flat demo_types demo_items (w_tiles w)" unfolding w_def by (rule flat_put[OF demo_flat])
  have on: "w_tiles demo_world q = Some (demo_ground [])" by (simp add: demo_world_def q_def)
  have m: "moveCreature_tile (\<lambda>_. position_zero) demo_items False 1 p q demo_world = Some (q, w)"
    unfolding moveCreature_tile_def w_def[symmetric] by (subst arrive.simps) (simp add: flat_next_stop[OF f])
  obtain t where t: "w_tiles w q = Some t"
    using put_creature_on[of demo_world q False 1 p] on by (auto simp: w_def)
  have "floor_hops (\<lambda>_. position_zero) demo_items MAX_HOPS 1 q 0 w = Some (q, w)"
    by (simp add: MAX_HOPS_def numeral_eq_Suc t flat_leads[OF f t])
  moreover have "getNextPosition EAST p = q" by (simp add: p_def q_def)
  ultimately have "internalMoveCreature demo_types (\<lambda>_. position_zero) demo_items demo_player 1 0 EAST p demo_world
     = Some (RET_NOERROR, q, w)"
    unfolding internalMoveCreature_def flat_climb[OF demo_flat] using m on by (simp add: internalMoveCreature_to_def demo_enter)
  then show ?thesis unfolding p_def q_def by blast
qed

theorem walk_one_place_witness:
  "\<exists>w'. internalMoveCreature demo_types (\<lambda>_. position_zero) demo_items demo_player 1 0 EAST (Position 10 10 7) demo_world
     = Some (RET_NOERROR, Position 11 10 7, w')
   \<and> places (w_tiles w') 1 = {Position 11 10 7} \<and> places (w_tiles w') 2 = places (w_tiles demo_world) 2"
proof -
  obtain w' where w: "internalMoveCreature demo_types (\<lambda>_. position_zero) demo_items demo_player 1 0 EAST (Position 10 10 7) demo_world
     = Some (RET_NOERROR, Position 11 10 7, w')" using demo_walk by blast
  have "places (w_tiles w') 2 = places (w_tiles demo_world) 2 \<and> places (w_tiles w') 1 = {Position 11 10 7}"
    using walk_one_place[OF w demo_places] by simp
  then show ?thesis using w by blast
qed

text \<open>A player may step on the tile with the ground and the plain things, and finds nothing there that blocks him.\<close>

lemma demo_enter_run:
  assumes "tile_run demo_types False 9 True demo_items [InternalAdd (Item 0)] = (t, s')"
  shows "listed t" "queryAdd_creature demo_types s' t demo_player 0 = RET_NOERROR" "ground t = Some 0"
proof -
  have f: "\<not> hasFlag f t" if "(f, p) \<in> set block_flags" for f p
    unfolding tile_run_flags[OF demo_table_ok assms that]
    using that assms by (auto simp: block_flags_def run_tile_simps item_hasProperty_def)
  have s: "listed t" "ground t = Some 0" "creatures t = []" "titems t = []" "i_class (s' 0) = Plain"
    using assms by (auto simp: run_tile_simps)
  have g: "getFieldItem s' t = None" using s by (simp add: getFieldItem_def find_of_class_def)
  show "listed t" "ground t = Some 0" using s by simp_all
  show "queryAdd_creature demo_types s' t demo_player 0 = RET_NOERROR"
    using s g f[of TILESTATE_BLOCKSOLID BLOCKSOLID]
    by (simp add: queryAdd_creature_def demo_player_def hasBitSet_def FLAG_NOLIMIT_def FLAG_PATHFINDING_def
        FLAG_IGNOREBLOCKITEM_def block_flags_def)
qed

theorem solid_things_stop_witness:
  "\<exists>t s'. tile_run demo_types False 9 True demo_items [InternalAdd (Item 0)] = (t, s')
     \<and> queryAdd_creature demo_types s' t demo_player 0 = RET_NOERROR
     \<and> (\<forall>i\<in>set (tile_list t). \<not> (item_hasProperty demo_types (s' i) IMMOVABLEBLOCKSOLID \<and> i_class (s' i) = Plain))"
proof -
  obtain t s' where r: "tile_run demo_types False 9 True demo_items [InternalAdd (Item 0)] = (t, s')" by fastforce
  note d = demo_enter_run[OF r]
  have "\<not> hasBitSet FLAG_NOLIMIT 0" by (simp add: hasBitSet_def FLAG_NOLIMIT_def)
  from solid_things_stop[OF demo_table_ok r d(1) this d(2)] show ?thesis using r d(2) by fastforce
qed

theorem watchers_told_witness:
  "take 1 (send_moves (\<lambda>p c. True) ([1] @ [2]) crowded_tile 0) = [(1, 2)]"
proof -
  have "getClientIndexOfThing (\<lambda>c. True) crowded_tile (Creature 0) = 2"
    by (simp add: getClientIndexOfThing_def crowded_tile_def new_tile_def downItems_def topItems_def)
  then show ?thesis using watchers_told[of "[1]" "\<lambda>p c. True" 0 "[2]" crowded_tile] by simp
qed

end
