(* ===== verification/ClientMap.thy ===== *)
theory ClientMap
  imports TileQueries
begin

text \<open>
  What a player's client is told of the map, \<^verbatim>\<open>protocolgame.cpp\<close>: the description of tiles, floors and
  areas, the list of creatures that the client knows, which squares a player can see, and what is sent
  when a creature moves. A described thing is one token, whatever bytes it takes; a mark (a byte below
  the byte FF) is another.
\<close>

section \<open>Creatures the client knows\<close>

text \<open>
  \<open>checkCreatureAsKnown\<close>; \<open>gone\<close> says which creatures can be dropped: those that are no more or out
  of sight. The answer is whether the creature was known, and which one the client shall forget, 0 for none.
\<close>

fun rotate_known :: "(nat \<Rightarrow> bool) \<Rightarrow> nat \<Rightarrow> nat \<Rightarrow> nat list \<Rightarrow> nat \<times> nat list" where
  "rotate_known gone 0 removed kn = (removed, kn)"
| "rotate_known gone (Suc n) removed kn =
     (if gone (hd kn) then (hd kn, kn) else rotate_known gone n (hd kn) (tl kn @ [hd kn]))"

definition checkCreatureAsKnown :: "(nat \<Rightarrow> bool) \<Rightarrow> nat \<Rightarrow> nat list \<Rightarrow> (bool \<times> nat) \<times> nat list" where
  "checkCreatureAsKnown gone c kn =
     (if c \<in> set kn then ((True, 0), remove1 c kn @ [c])
      else
        let kn = kn @ [c] in
        if length kn > 250 then (case rotate_known gone 250 0 kn of (removed, kn) \<Rightarrow> ((False, removed), tl kn))
        else ((False, 0), kn))"

section \<open>The description of tiles\<close>

datatype token = Mark u8 | DescItem nat | DescCreature nat bool nat

text \<open>The things of a tile that are described: ten at most.\<close>

definition described :: "(nat \<Rightarrow> bool) \<Rightarrow> tile \<Rightarrow> thing list" where
  "described sees t =
     (let ground_part = (case ground t of None \<Rightarrow> [] | Some g \<Rightarrow> [Item g]);
          top_part = List.map Item (take (10 - length ground_part) (topItems t));
          cnt = length ground_part + length top_part;
          creature_part = List.map Creature (take (10 - cnt) (filter sees (rev (creatures t))));
          cnt = cnt + length creature_part
      in ground_part @ top_part @ creature_part @ List.map Item (take (10 - cnt) (downItems t)))"

fun put_things :: "(nat \<Rightarrow> bool) \<Rightarrow> thing list \<Rightarrow> nat list \<Rightarrow> token list \<times> nat list" where
  "put_things gone [] kn = ([], kn)"
| "put_things gone (Item i # ths) kn = (case put_things gone ths kn of (ts, kn) \<Rightarrow> (DescItem i # ts, kn))"
| "put_things gone (Creature c # ths) kn =
     (case checkCreatureAsKnown gone c kn of ((known, removed), kn) \<Rightarrow>
        case put_things gone ths kn of (ts, kn) \<Rightarrow> (DescCreature c known removed # ts, kn))"

definition GetTileDescription :: "(nat \<Rightarrow> bool) \<Rightarrow> (nat \<Rightarrow> bool) \<Rightarrow> tile \<Rightarrow> nat list \<Rightarrow> token list \<times> nat list" where
  "GetTileDescription sees gone t kn = put_things gone (described sees t) kn"

text \<open>Empty squares are counted in a mark behind the square before them.\<close>

definition put_mark :: "int \<Rightarrow> token list" where
  "put_mark skip = (if skip \<ge> 0 then [Mark (of_int skip)] else [])"

fun describe_squares ::
    "(nat \<Rightarrow> bool) \<Rightarrow> (nat \<Rightarrow> bool) \<Rightarrow> tile option list \<Rightarrow> int \<Rightarrow> nat list \<Rightarrow> token list \<times> int \<times> nat list" where
  "describe_squares sees gone [] skip kn = ([], skip, kn)"
| "describe_squares sees gone (Some t # sqs) skip kn =
     (case GetTileDescription sees gone t kn of (d, kn) \<Rightarrow>
        case describe_squares sees gone sqs 0 kn of (ts, rest) \<Rightarrow> (put_mark skip @ d @ ts, rest))"
| "describe_squares sees gone (None # sqs) skip kn =
     (if skip + 1 = 0xFF
      then case describe_squares sees gone sqs (- 1) kn of (ts, rest) \<Rightarrow> (Mark 0xFF # ts, rest)
      else describe_squares sees gone sqs (skip + 1) kn)"

type_synonym square = "int \<times> int \<times> int"

definition tile_on :: "world \<Rightarrow> square \<Rightarrow> tile option" where
  "tile_on m = (\<lambda>(x, y, z). m (Position (of_int x) (of_int y) (of_int z)))"

definition floor_squares :: "int \<Rightarrow> int \<Rightarrow> int \<Rightarrow> int \<Rightarrow> int \<Rightarrow> int \<Rightarrow> square list" where
  "floor_squares x y z width height offset =
     concat (List.map (\<lambda>nx. List.map (\<lambda>ny. (x + nx + offset, y + ny + offset, z)) [0..height - 1]) [0..width - 1])"

definition GetFloorDescription ::
    "(nat \<Rightarrow> bool) \<Rightarrow> (nat \<Rightarrow> bool) \<Rightarrow> world \<Rightarrow> int \<Rightarrow> int \<Rightarrow> int \<Rightarrow> int \<Rightarrow> int \<Rightarrow> int \<Rightarrow> int \<Rightarrow> nat list
       \<Rightarrow> token list \<times> int \<times> nat list" where
  "GetFloorDescription sees gone m x y z width height offset skip kn =
     describe_squares sees gone (List.map (tile_on m) (floor_squares x y z width height offset)) skip kn"

text \<open>The floors of an area; several floors share the count of empty squares.\<close>

type_synonym floor_area = "int \<times> int \<times> int \<times> int \<times> int \<times> int"

fun describe_floors ::
    "(nat \<Rightarrow> bool) \<Rightarrow> (nat \<Rightarrow> bool) \<Rightarrow> world \<Rightarrow> floor_area list \<Rightarrow> int \<Rightarrow> nat list \<Rightarrow> token list \<times> nat list" where
  "describe_floors sees gone m [] skip kn = (put_mark skip, kn)"
| "describe_floors sees gone m ((x, y, z, width, height, offset) # fs) skip kn =
     (case GetFloorDescription sees gone m x y z width height offset skip kn of (ts, skip, kn) \<Rightarrow>
        case describe_floors sees gone m fs skip kn of (ts', kn) \<Rightarrow> (ts @ ts', kn))"

definition map_floors :: "int \<Rightarrow> int list" where
  "map_floors z = (if z > 7 then [z - 2..min 15 (z + 2)] else rev [0..7])"

definition map_areas :: "int \<Rightarrow> int \<Rightarrow> int \<Rightarrow> int \<Rightarrow> int \<Rightarrow> floor_area list" where
  "map_areas x y z width height = List.map (\<lambda>nz. (x, y, nz, width, height, z - nz)) (map_floors z)"

definition GetMapDescription ::
    "(nat \<Rightarrow> bool) \<Rightarrow> (nat \<Rightarrow> bool) \<Rightarrow> world \<Rightarrow> int \<Rightarrow> int \<Rightarrow> int \<Rightarrow> int \<Rightarrow> int \<Rightarrow> nat list \<Rightarrow> token list \<times> nat list" where
  "GetMapDescription sees gone m x y z width height kn = describe_floors sees gone m (map_areas x y z width height) (- 1) kn"

section \<open>What a player sees\<close>

definition canSee :: "position \<Rightarrow> position \<Rightarrow> bool" where
  "canSee me q =
     (if (if uint (pz me) \<le> 7 then uint (pz q) > 7 else \<bar>uint (pz me) - uint (pz q)\<bar> > 2) then False
      else
        let offsetz = uint (pz me) - uint (pz q) in
        uint (px q) \<ge> uint (px me) - 8 + offsetz \<and> uint (px q) \<le> uint (px me) + 9 + offsetz
        \<and> uint (py q) \<ge> uint (py me) - 6 + offsetz \<and> uint (py q) \<le> uint (py me) + 7 + offsetz)"

section \<open>Messages about a move\<close>

text \<open>One entry for each part of the message: an opcode with its arguments, a described area as its floors.\<close>

datatype send = RemoveTileItem position u32 | MoveThing position u32 position | AddTileCreature position u32 nat
  | MapDescription u8 "floor_area list"

definition put_slice :: "u8 \<Rightarrow> int \<Rightarrow> int \<Rightarrow> int \<Rightarrow> int \<Rightarrow> int \<Rightarrow> send" where
  "put_slice opcode x y z width height = MapDescription opcode (map_areas x y z width height)"

definition AddMapDescription :: "position \<Rightarrow> send" where
  "AddMapDescription p = put_slice 0x64 (uint (px p) - 8) (uint (py p) - 6) (uint (pz p)) 18 14"

text \<open>A thing beyond the tenth place is not told of.\<close>

definition remove_at :: "position \<Rightarrow> u32 \<Rightarrow> send list" where
  "remove_at p stackpos = (if stackpos \<ge> 10 then [] else [RemoveTileItem p stackpos])"

definition add_at :: "position \<Rightarrow> u32 \<Rightarrow> nat \<Rightarrow> send list" where
  "add_at p stackpos c = (if stackpos \<ge> 10 then [] else [AddTileCreature p stackpos c])"

definition MoveUpCreature :: "position \<Rightarrow> position \<Rightarrow> send list" where
  "MoveUpCreature newPos oldPos =
     (let x = uint (px oldPos); y = uint (py oldPos); z = uint (pz newPos) in
      [MapDescription 0xBE
         (if z = 7 then List.map (\<lambda>(f, off). (x - 8, y - 6, f, 18, 14, off)) [(5, 3), (4, 4), (3, 5), (2, 6), (1, 7), (0, 8)]
          else if z > 7 then [(x - 8, y - 6, uint (pz oldPos) - 3, 18, 14, 3)] else []),
       put_slice 0x68 (x - 8) (y + 1 - 6) z 1 14,
       put_slice 0x65 (x - 8) (y - 6) z 18 1])"

definition MoveDownCreature :: "position \<Rightarrow> position \<Rightarrow> send list" where
  "MoveDownCreature newPos oldPos =
     (let x = uint (px oldPos); y = uint (py oldPos); z = uint (pz newPos) in
      [MapDescription 0xBF
         (if z = 8 then List.map (\<lambda>(f, off). (x - 8, y - 6, f, 18, 14, off)) [(z, - 1), (z + 1, - 2), (z + 2, - 3)]
          else if z > uint (pz oldPos) \<and> z > 8 \<and> z < 14 then [(x - 8, y - 6, z + 2, 18, 14, - 3)] else []),
       put_slice 0x66 (x + 9) (y - 1 - 6) z 1 14,
       put_slice 0x67 (x - 8) (y + 7) z 18 1])"

text \<open>\<open>sendMoveCreature\<close>, for the player himself and for another creature.\<close>

definition send_own_move :: "position \<Rightarrow> position \<Rightarrow> u32 \<Rightarrow> bool \<Rightarrow> send list" where
  "send_own_move newPos oldPos oldStackpos teleport =
     (if teleport \<or> oldStackpos \<ge> 10 then remove_at oldPos oldStackpos @ [AddMapDescription newPos]
      else
        (if pz oldPos \<noteq> 7 \<or> pz newPos < 8 then [MoveThing oldPos oldStackpos newPos] else remove_at oldPos oldStackpos)
        @ (if pz newPos > pz oldPos then MoveDownCreature newPos oldPos
           else if pz newPos < pz oldPos then MoveUpCreature newPos oldPos else [])
        @ (if py oldPos > py newPos
           then [put_slice 0x65 (uint (px oldPos) - 8) (uint (py newPos) - 6) (uint (pz newPos)) 18 1]
           else if py oldPos < py newPos
           then [put_slice 0x67 (uint (px oldPos) - 8) (uint (py newPos) + 7) (uint (pz newPos)) 18 1] else [])
        @ (if px oldPos < px newPos
           then [put_slice 0x66 (uint (px newPos) + 9) (uint (py newPos) - 6) (uint (pz newPos)) 1 14]
           else if px oldPos > px newPos
           then [put_slice 0x68 (uint (px newPos) - 8) (uint (py newPos) - 6) (uint (pz newPos)) 1 14] else []))"

definition send_other_move ::
    "(nat \<Rightarrow> bool) \<Rightarrow> position \<Rightarrow> nat \<Rightarrow> position \<Rightarrow> u32 \<Rightarrow> position \<Rightarrow> u32 \<Rightarrow> bool \<Rightarrow> send list" where
  "send_other_move sees me c newPos newStackpos oldPos oldStackpos teleport =
     (if canSee me oldPos \<and> canSee me newPos then
        (if \<not> sees c then []
         else if \<not> teleport \<and> (pz oldPos \<noteq> 7 \<or> pz newPos < 8) \<and> oldStackpos < 10 then [MoveThing oldPos oldStackpos newPos]
         else remove_at oldPos oldStackpos @ add_at newPos newStackpos c)
      else if canSee me oldPos then (if \<not> sees c then [] else remove_at oldPos oldStackpos)
      else if canSee me newPos \<and> sees c then add_at newPos newStackpos c
      else [])"

definition sendMoveCreature ::
    "(nat \<Rightarrow> bool) \<Rightarrow> position \<Rightarrow> nat \<Rightarrow> nat \<Rightarrow> position \<Rightarrow> u32 \<Rightarrow> position \<Rightarrow> u32 \<Rightarrow> bool \<Rightarrow> send list" where
  "sendMoveCreature sees me player c newPos newStackpos oldPos oldStackpos teleport =
     (if c = player then send_own_move newPos oldPos oldStackpos teleport
      else send_other_move sees me c newPos newStackpos oldPos oldStackpos teleport)"

section \<open>Reading a description\<close>

text \<open>
  A reader of the format: the things up to a mark belong to a square, and the mark says how many empty
  squares follow.
\<close>

fun token_thing :: "token \<Rightarrow> thing option" where
  "token_thing (Mark n) = None"
| "token_thing (DescItem i) = Some (Item i)"
| "token_thing (DescCreature c known removed) = Some (Creature c)"

fun read_square :: "token list \<Rightarrow> (thing list \<times> nat \<times> token list) option" where
  "read_square [] = None"
| "read_square (Mark n # ts) = Some ([], unat n, ts)"
| "read_square (DescItem i # ts) = map_option (\<lambda>(ths, r). (Item i # ths, r)) (read_square ts)"
| "read_square (DescCreature c known removed # ts) = map_option (\<lambda>(ths, r). (Creature c # ths, r)) (read_square ts)"

fun read_squares :: "nat \<Rightarrow> nat \<Rightarrow> token list \<Rightarrow> (thing list list \<times> token list) option" where
  "read_squares skip 0 ts = (if skip = 0 then Some ([], ts) else None)"
| "read_squares (Suc skip) (Suc n) ts = map_option (\<lambda>(sqs, r). ([] # sqs, r)) (read_squares skip n ts)"
| "read_squares 0 (Suc n) ts =
     (case read_square ts of
        None \<Rightarrow> None
      | Some (ths, skip, ts) \<Rightarrow> map_option (\<lambda>(sqs, r). (ths # sqs, r)) (read_squares skip n ts))"

definition content :: "(nat \<Rightarrow> bool) \<Rightarrow> tile option \<Rightarrow> thing list" where
  "content sees sq = (case sq of None \<Rightarrow> [] | Some t \<Rightarrow> described sees t)"

lemma content_simps [simp]: "content sees None = []" "content sees (Some t) = described sees t"
  by (simp_all add: content_def)

lemma read_put_things:
  "put_things gone ths kn = (d, kn') \<Longrightarrow> read_square (d @ Mark n # ts) = Some (ths, unat n, ts)"
proof (induction gone ths kn arbitrary: d kn' rule: put_things.induct)
  case (2 gone i ths kn)
  obtain d1 k1 where p: "put_things gone ths kn = (d1, k1)" by fastforce
  then show ?case using 2 by auto
next
  case (3 gone c ths kn)
  obtain known removed k1 where c: "checkCreatureAsKnown gone c kn = ((known, removed), k1)" by (metis surj_pair)
  obtain d1 k2 where p: "put_things gone ths k1 = (d1, k2)" by fastforce
  then show ?case using 3 c by auto
qed auto

definition pending :: "int \<Rightarrow> thing list list \<Rightarrow> token list \<Rightarrow> token list \<Rightarrow> bool" where
  "pending skip sqs ts rest \<longleftrightarrow>
     (if skip = - 1 then read_squares 0 (length sqs) ts = Some (sqs, rest)
      else \<exists>n ts'. ts = Mark n # ts' \<and> nat skip \<le> unat n \<and> read_squares (unat n - nat skip) (length sqs) ts' = Some (sqs, rest))"

lemma unat_of_int_u8: "0 \<le> s \<Longrightarrow> s < 256 \<Longrightarrow> unat (of_int s :: u8) = nat s"
  by (simp add: unat_eq_nat_uint unsigned_of_int take_bit_int_eq_self)

lemma pending_tile:
  assumes p: "put_things gone ths kn = (d, kn')" and ih: "pending 0 sqs ts rest" and s: "- 1 \<le> skip" "skip < 255"
  shows "pending skip (ths # sqs) (put_mark skip @ d @ ts) rest"
proof -
  obtain n ts' where ts: "ts = Mark n # ts'" "read_squares (unat n) (length sqs) ts' = Some (sqs, rest)"
    using ih by (auto simp: pending_def)
  have r: "read_squares 0 (Suc (length sqs)) (d @ ts) = Some (ths # sqs, rest)"
    using ts by (simp add: read_put_things[OF p])
  show ?thesis
  proof (cases "skip = - 1")
    case True
    then show ?thesis using r by (simp add: pending_def put_mark_def)
  next
    case False
    then have k: "unat (of_int skip :: u8) = nat skip" using s by (simp add: unat_of_int_u8)
    show ?thesis using r False s by (simp add: pending_def put_mark_def k)
  qed
qed

lemma pending_empty:
  assumes s: "- 1 \<le> skip" "skip < 254" and ih: "pending (skip + 1) sqs ts rest"
  shows "pending skip ([] # sqs) ts rest"
proof -
  obtain n ts' where ts: "ts = Mark n # ts'" "nat (skip + 1) \<le> unat n"
    "read_squares (unat n - nat (skip + 1)) (length sqs) ts' = Some (sqs, rest)"
    using ih s by (auto simp: pending_def split: if_splits)
  show ?thesis
  proof (cases "skip = - 1")
    case True
    then show ?thesis using ts by (simp add: pending_def)
  next
    case False
    then have "nat (skip + 1) = Suc (nat skip)" using s by (simp add: nat_add_distrib)
    then have "unat n - nat skip = Suc (unat n - nat (skip + 1))" using ts(2) by linarith
    then show ?thesis using ts False \<open>nat (skip + 1) = Suc (nat skip)\<close> by (simp add: pending_def)
  qed
qed

lemma pending_end:
  assumes "- 1 \<le> skip" "skip < 255"
  shows "pending skip [] (put_mark skip @ rest) rest"
proof (cases "skip = - 1")
  case False
  then have "unat (of_int skip :: u8) = nat skip" using assms by (simp add: unat_of_int_u8)
  then show ?thesis using False assms by (simp add: pending_def put_mark_def)
qed (simp add: pending_def put_mark_def)

lemma pending_squares:
  assumes "describe_squares sees gone sqs skip kn = (ts, skip', kn')" "- 1 \<le> skip" "skip < 255"
    and "\<And>skip. - 1 \<le> skip \<Longrightarrow> skip < 255 \<Longrightarrow> skip = skip' \<Longrightarrow> pending skip later ts' rest"
  shows "- 1 \<le> skip' \<and> skip' < 255 \<and> pending skip (List.map (content sees) sqs @ later) (ts @ ts') rest"
  using assms
proof (induction sees gone sqs skip kn arbitrary: ts skip' kn' rule: describe_squares.induct)
  case (1 sees gone skip kn)
  then show ?case by simp
next
  case (2 sees gone t sqs skip kn)
  obtain d k1 where d: "GetTileDescription sees gone t kn = (d, k1)" by fastforce
  obtain ts1 s1 k2 where r: "describe_squares sees gone sqs 0 k1 = (ts1, s1, k2)" by (metis surj_pair)
  have ts: "ts = put_mark skip @ d @ ts1" "skip' = s1" using 2(2) d r by simp_all
  have ih: "- 1 \<le> s1 \<and> s1 < 255 \<and> pending 0 (List.map (content sees) sqs @ later) (ts1 @ ts') rest"
    using 2(1)[OF d[symmetric] r] 2(5) ts(2) by simp
  have "put_things gone (described sees t) kn = (d, k1)" using d by (simp add: GetTileDescription_def)
  from pending_tile[OF this _ 2(3,4)] ih show ?case using ts by simp
next
  case (3 sees gone sqs skip kn)
  show ?case
  proof (cases "skip + 1 = 255")
    case True
    obtain ts1 s1 k2 where r: "describe_squares sees gone sqs (- 1) kn = (ts1, s1, k2)" by (metis surj_pair)
    have ts: "ts = Mark 255 # ts1" "skip' = s1" using 3(3) r True by simp_all
    have "- 1 \<le> s1 \<and> s1 < 255 \<and> pending (- 1) (List.map (content sees) sqs @ later) (ts1 @ ts') rest"
      using 3(1)[OF True r] 3(6) ts(2) by simp
    then show ?thesis using True ts by (auto simp: pending_def)
  next
    case False
    have "describe_squares sees gone sqs (skip + 1) kn = (ts, skip', kn')" using 3(3) False by simp
    from 3(2)[OF False this] have "- 1 \<le> skip' \<and> skip' < 255 \<and> pending (skip + 1) (List.map (content sees) sqs @ later) (ts @ ts') rest"
      using 3(4,5,6) False by simp
    then show ?thesis using pending_empty[of skip "List.map (content sees) sqs @ later" "ts @ ts'" rest] 3(4,5) False
      by simp
  qed
qed

fun area_squares :: "floor_area \<Rightarrow> square list" where
  "area_squares (x, y, z, width, height, offset) = floor_squares x y z width height offset"

lemma pending_floors:
  assumes "describe_floors sees gone m fs skip kn = (ts, kn')" "- 1 \<le> skip" "skip < 255"
  shows "pending skip (List.map (content sees \<circ> tile_on m) (concat (List.map area_squares fs))) (ts @ rest) rest"
  using assms
proof (induction fs arbitrary: skip kn ts)
  case Nil
  then show ?case using pending_end by auto
next
  case (Cons f fs)
  obtain x y z w h off where f: "f = (x, y, z, w, h, off)" by (cases f) auto
  obtain ts1 s1 k1 where g: "GetFloorDescription sees gone m x y z w h off skip kn = (ts1, s1, k1)" by (metis surj_pair)
  obtain ts2 k2 where r: "describe_floors sees gone m fs s1 k1 = (ts2, k2)" by fastforce
  have ts: "ts = ts1 @ ts2" "k2 = kn'" using Cons.prems(1) f g r by simp_all
  let ?later = "List.map (content sees \<circ> tile_on m) (concat (List.map area_squares fs))"
  have "pending skip (List.map (content sees) (List.map (tile_on m) (area_squares f)) @ ?later) (ts1 @ ts2 @ rest) rest"
    using pending_squares[OF g[unfolded GetFloorDescription_def] Cons.prems(2,3), of ?later "ts2 @ rest" rest] Cons.IH[OF _ , of s1 k1 ts2] r f ts(2)
    by (auto simp: comp_def)
  then show ?case by (simp add: ts comp_def)
qed

text \<open>
  C18. The description of an area can be read back: from the tokens and the number of squares a reader
  finds for each square the things described, ten at most, and for a place without a tile none; it stops where
  the description ends, whatever follows.\<close>

theorem description_roundtrip:
  assumes "describe_floors sees gone m fs (- 1) kn = (ts, kn')"
  shows "read_squares 0 (length (concat (List.map area_squares fs))) (ts @ rest)
    = Some (List.map (content sees \<circ> tile_on m) (concat (List.map area_squares fs)), rest)"
  using pending_floors[OF assms, of rest] by (simp add: pending_def)

theorem description_roundtrip_witness:
  "describe_floors (\<lambda>c. True) (\<lambda>c. False) [Position 1 1 7 \<mapsto> (new_tile True)\<lparr>ground := Some 0\<rparr>] [(1, 1, 7, 2, 1, 0)] (- 1) []
     = ([DescItem 0, Mark 1], [])
   \<and> read_squares 0 2 ([DescItem 0, Mark 1] @ [DescItem 9]) = Some ([[Item 0], []], [DescItem 9])"
proof -
  let ?m = "[Position 1 1 7 \<mapsto> (new_tile True)\<lparr>ground := Some 0\<rparr>]"
  have sq: "floor_squares 1 1 7 2 1 0 = [(1, 1, 7), (2, 1, 7)]" by (simp add: floor_squares_def upto.simps)
  have d: "describe_floors (\<lambda>c. True) (\<lambda>c. False) ?m [(1, 1, 7, 2, 1, 0)] (- 1) [] = ([DescItem 0, Mark 1], [])"
    by (simp add: GetFloorDescription_def sq tile_on_def GetTileDescription_def described_def new_tile_def topItems_def downItems_def
        put_mark_def)
  have c: "content (\<lambda>c. True) (tile_on ?m (1, 1, 7)) = [Item 0]" "content (\<lambda>c. True) (tile_on ?m (2, 1, 7)) = []"
    by (simp_all add: tile_on_def described_def new_tile_def topItems_def downItems_def)
  have n: "length (concat (List.map area_squares [(1, 1, 7, 2, 1, 0)])) = 2" by (simp add: sq)
  show ?thesis
    by (rule conjI[OF d]) (simp only: description_roundtrip[OF d, of "[DescItem 9]", unfolded n], simp add: sq c)
qed

section \<open>Squares in sight\<close>

lemma floor_squares_iff: "(cx, cy, cz) \<in> set (floor_squares x y z w h off) \<longleftrightarrow>
    cz = z \<and> x + off \<le> cx \<and> cx < x + off + w \<and> y + off \<le> cy \<and> cy < y + off + h"
proof -
  have "(cx, cy, cz) \<in> set (floor_squares x y z w h off) \<longleftrightarrow>
      (\<exists>nx\<in>{0..w - 1}. \<exists>ny\<in>{0..h - 1}. cx = x + nx + off \<and> cy = y + ny + off \<and> cz = z)"
    by (auto simp: floor_squares_def)
  also have "\<dots> \<longleftrightarrow> cz = z \<and> cx - x - off \<in> {0..w - 1} \<and> cy - y - off \<in> {0..h - 1}"
  proof (intro iffI conjI)
    assume "cz = z \<and> cx - x - off \<in> {0..w - 1} \<and> cy - y - off \<in> {0..h - 1}"
    then show "\<exists>nx\<in>{0..w - 1}. \<exists>ny\<in>{0..h - 1}. cx = x + nx + off \<and> cy = y + ny + off \<and> cz = z"
      by (intro bexI[of _ "cx - x - off"] bexI[of _ "cy - y - off"]) auto
  qed auto
  finally show ?thesis by auto
qed

lemma upto_7: "[0..7] = [0, 1, 2, 3, 4, 5, 6, 7::int]"
  by (simp add: upto.simps)

lemma map_floors_iff: "f \<in> set (map_floors z) \<longleftrightarrow> (if z > 7 then z - 2 \<le> f \<and> f \<le> 15 \<and> f \<le> z + 2 else 0 \<le> f \<and> f \<le> 7)"
  by (auto simp: map_floors_def)

definition squares_of :: "floor_area list \<Rightarrow> square set" where
  "squares_of fs = (\<Union>f\<in>set fs. set (area_squares f))"

lemma map_areas_iff: "(cx, cy, cz) \<in> squares_of (map_areas x y z w h) \<longleftrightarrow>
    (if z > 7 then z - 2 \<le> cz \<and> cz \<le> 15 \<and> cz \<le> z + 2 else 0 \<le> cz \<and> cz \<le> 7)
    \<and> x + (z - cz) \<le> cx \<and> cx < x + (z - cz) + w \<and> y + (z - cz) \<le> cy \<and> cy < y + (z - cz) + h"
  unfolding squares_of_def map_areas_def using map_floors_iff[of cz z] by (auto simp: floor_squares_iff)

definition in_sight :: "position \<Rightarrow> square set" where
  "in_sight p = squares_of (map_areas (uint (px p) - 8) (uint (py p) - 6) (uint (pz p)) 18 14)"

definition square_of :: "position \<Rightarrow> square" where
  "square_of q = (uint (px q), uint (py q), uint (pz q))"

text \<open>The area described around a player has the squares that the test for what he can see accepts.\<close>

lemma sight_is_described:
  "square_of q \<in> in_sight p \<longleftrightarrow> canSee p q \<and> uint (pz q) < 16"
proof -
  have "uint (pz q) \<ge> 0" by simp
  then show ?thesis
    by (auto simp: square_of_def in_sight_def map_areas_iff canSee_def Let_def)
qed

section \<open>What is sent when the player moves\<close>

fun send_squares :: "send \<Rightarrow> square set" where
  "send_squares (MapDescription opcode fs) = squares_of fs"
| "send_squares (RemoveTileItem p n) = {}"
| "send_squares (MoveThing p n q) = {}"
| "send_squares (AddTileCreature p n c) = {}"

definition sent_squares :: "send list \<Rightarrow> square set" where
  "sent_squares sends = (\<Union>m\<in>set sends. send_squares m)"

lemma sent_squares_simps [simp]: "sent_squares [] = {}" "sent_squares (m # ms) = send_squares m \<union> sent_squares ms"
  "sent_squares (ms @ ms') = sent_squares ms \<union> sent_squares ms'"
  by (auto simp: sent_squares_def)

lemma sent_at [simp]: "sent_squares (remove_at p n) = {}" "sent_squares (add_at p n c) = {}"
  by (simp_all add: remove_at_def add_at_def)

lemma squares_of_simps: "squares_of [] = {}" "squares_of (f # fs) = set (area_squares f) \<union> squares_of fs"
  by (auto simp: squares_of_def)

lemma nearby: "uint (b :: u16) - uint a = 1 \<Longrightarrow> a < b" "uint (b :: u16) - uint a = - 1 \<Longrightarrow> b < a"
  by (simp_all add: word_less_def)

lemma own_move_same_floor:
  assumes z: "pz newPos = pz oldPos" "uint (pz newPos) < 16" and st: "\<not> (teleport \<or> oldStackpos \<ge> 10)"
    and x: "\<bar>uint (px newPos) - uint (px oldPos)\<bar> \<le> 1" and y: "\<bar>uint (py newPos) - uint (py oldPos)\<bar> \<le> 1"
  shows "in_sight newPos \<subseteq> in_sight oldPos \<union> sent_squares (send_own_move newPos oldPos oldStackpos teleport)"
proof clarify
  fix cx cy cz
  assume "(cx, cy, cz) \<in> in_sight newPos"
    and "(cx, cy, cz) \<notin> sent_squares (send_own_move newPos oldPos oldStackpos teleport)"
  then show "(cx, cy, cz) \<in> in_sight oldPos"
    using x y st unfolding send_own_move_def in_sight_def z
    by (auto simp: map_areas_iff put_slice_def word_less_def split: if_splits)
qed

definition floor_seen :: "int \<Rightarrow> int \<Rightarrow> bool" where
  "floor_seen z cz \<longleftrightarrow> cz \<in> set (map_floors z)"

lemma slice_iff: "(cx, cy, cz) \<in> squares_of (map_areas x y z w h) \<longleftrightarrow>
    floor_seen z cz \<and> x + (z - cz) \<le> cx \<and> cx < x + (z - cz) + w \<and> y + (z - cz) \<le> cy \<and> cy < y + (z - cz) + h"
  unfolding map_areas_iff floor_seen_def map_floors_iff by simp

text \<open>In the coordinates of the old view the new one is shifted by the step and by the change of floor.\<close>

lemma up_pieces:
  assumes "\<bar>dx\<bar> \<le> 1" "\<bar>dy\<bar> \<le> 1" "dx - 9 \<le> a" "a \<le> dx + 8" "dy - 7 \<le> b" "b \<le> dy + (6::int)"
  obtains (old) "- 8 \<le> a" "a \<le> 9" "- 6 \<le> b" "b \<le> 7" | (slice1) "a = - 9" "- 6 \<le> b" "b \<le> 7"
    | (slice2) "b = - 7" "- 9 \<le> a" "a \<le> 8" | (sliceY) "dy = - 1" "b = - 8" "- 9 \<le> a" "a \<le> 8"
    | (west) "dx = - (1::int)" "a = - 10" | (east) "dx = (1::int)" "a = 9"
proof -
  have a: "a = - 10 \<and> dx = - 1 \<or> a = - 9 \<or> a = 9 \<and> dx = 1 \<or> - 8 \<le> a \<and> a \<le> 8" using assms(1,3,4) by linarith
  have b: "b = - 8 \<and> dy = - 1 \<or> b = - 7 \<or> - 6 \<le> b \<and> b \<le> 7" using assms(2,5,6) by linarith
  show ?thesis
    using a
  proof (elim disjE conjE)
    assume "- 8 \<le> a" "a \<le> 8"
    then show ?thesis using b old slice2 sliceY by fastforce
  next
    assume "a = - 9"
    then show ?thesis using b slice1 slice2 sliceY by fastforce
  qed (use west east in blast)+
qed

lemma down_pieces:
  assumes "\<bar>dx\<bar> \<le> 1" "\<bar>dy\<bar> \<le> 1" "dx - 7 \<le> a" "a \<le> dx + 10" "dy - 5 \<le> b" "b \<le> dy + (8::int)"
  obtains (old) "- 8 \<le> a" "a \<le> 9" "- 6 \<le> b" "b \<le> 7" | (slice1) "a = 10" "- 6 \<le> b" "b \<le> 7"
    | (slice2) "b = 8" "- 7 \<le> a" "a \<le> 10" | (sliceY) "dy = 1" "b = 9" "- 7 \<le> a" "a \<le> 10"
    | (west) "dx = - (1::int)" "a = - 8" | (east) "dx = (1::int)" "a = 11"
proof -
  have a: "a = 11 \<and> dx = 1 \<or> a = 10 \<or> a = - 8 \<and> dx = - 1 \<or> - 7 \<le> a \<and> a \<le> 9" using assms(1,3,4) by linarith
  have b: "b = 9 \<and> dy = 1 \<or> b = 8 \<or> - 6 \<le> b \<and> b \<le> 7" using assms(2,5,6) by linarith
  show ?thesis
    using a
  proof (elim disjE conjE)
    assume "- 7 \<le> a" "a \<le> 9"
    then show ?thesis using b old slice2 sliceY by fastforce
  next
    assume "a = 10"
    then show ?thesis using b slice1 slice2 sliceY by fastforce
  qed (use west east in blast)+
qed

lemma sent_member: "m \<in> set ms \<Longrightarrow> q \<in> send_squares m \<Longrightarrow> q \<in> sent_squares ms"
  by (auto simp: sent_squares_def)

lemma own_move_up:
  assumes z: "uint (pz newPos) = uint (pz oldPos) - 1" "uint (pz oldPos) < 16" and st: "\<not> (teleport \<or> oldStackpos \<ge> 10)"
    and x: "\<bar>uint (px newPos) - uint (px oldPos)\<bar> \<le> 1" and y: "\<bar>uint (py newPos) - uint (py oldPos)\<bar> \<le> 1"
  shows "in_sight newPos \<subseteq> in_sight oldPos \<union> sent_squares (send_own_move newPos oldPos oldStackpos teleport)"
proof clarify
  fix cx cy cz
  assume new: "(cx, cy, cz) \<in> in_sight newPos"
    and not_sent: "(cx, cy, cz) \<notin> sent_squares (send_own_move newPos oldPos oldStackpos teleport)"
  define n ox oy dx dy where d: "n = uint (pz newPos)" "ox = uint (px oldPos)" "oy = uint (py oldPos)"
    "dx = uint (px newPos) - ox" "dy = uint (py newPos) - oy"
  have nx: "uint (px newPos) = ox + dx" "uint (py newPos) = oy + dy" "uint (pz oldPos) = n + 1" using z(1) by (simp_all add: d)
  define a b where ab: "a = cx - ox - (n + 1 - cz)" "b = cy - oy - (n + 1 - cz)"
  have up: "pz newPos < pz oldPos" "\<not> pz newPos > pz oldPos" using z by (simp_all add: word_less_def)
  note msgs = send_own_move_def MoveUpCreature_def Let_def up d(1-3)[symmetric] nx if_not_P[OF st]
  have s1: "put_slice 0x68 (ox - 8) (oy + 1 - 6) n 1 14 \<in> set (send_own_move newPos oldPos oldStackpos teleport)"
    and s2: "put_slice 0x65 (ox - 8) (oy - 6) n 18 1 \<in> set (send_own_move newPos oldPos oldStackpos teleport)"
    by (simp_all add: msgs)
  have sy: "dy = - 1 \<Longrightarrow> put_slice 0x65 (ox - 8) (oy + dy - 6) n 18 1 \<in> set (send_own_move newPos oldPos oldStackpos teleport)"
    and we: "dx = - 1 \<Longrightarrow> put_slice 0x68 (ox + dx - 8) (oy + dy - 6) n 1 14 \<in> set (send_own_move newPos oldPos oldStackpos teleport)"
    and ea: "dx = 1 \<Longrightarrow> put_slice 0x66 (ox + dx + 9) (oy + dy - 6) n 1 14 \<in> set (send_own_move newPos oldPos oldStackpos teleport)"
    by (simp_all add: msgs word_less_def)
  have f: "floor_seen n cz" "dx - 9 \<le> a" "a \<le> dx + 8" "dy - 7 \<le> b" "b \<le> dy + 6"
    using new unfolding in_sight_def slice_iff by (simp_all add: ab nx d(1)[symmetric])
  show "(cx, cy, cz) \<in> in_sight oldPos"
  proof (rule up_pieces[OF _ _ f(2-5)])
    show "\<bar>dx\<bar> \<le> 1" "\<bar>dy\<bar> \<le> 1" using x y by (simp_all add: d)
  next
    assume "a = - 9" "- 6 \<le> b" "b \<le> 7"
    then have "(cx, cy, cz) \<in> send_squares (put_slice 0x68 (ox - 8) (oy + 1 - 6) n 1 14)"
      using f(1) by (simp add: put_slice_def slice_iff ab)
    then show ?thesis using sent_member[OF s1] not_sent by blast
  next
    assume "b = - 7" "- 9 \<le> a" "a \<le> 8"
    then have "(cx, cy, cz) \<in> send_squares (put_slice 0x65 (ox - 8) (oy - 6) n 18 1)"
      using f(1) by (simp add: put_slice_def slice_iff ab)
    then show ?thesis using sent_member[OF s2] not_sent by blast
  next
    assume y: "dy = - 1" "b = - 8" "- 9 \<le> a" "a \<le> 8"
    then have "(cx, cy, cz) \<in> send_squares (put_slice 0x65 (ox - 8) (oy + dy - 6) n 18 1)"
      using f(1) by (simp add: put_slice_def slice_iff ab)
    then show ?thesis using sent_member[OF sy[OF y(1)]] not_sent by blast
  next
    assume w: "dx = - 1" "a = - 10"
    then have "(cx, cy, cz) \<in> send_squares (put_slice 0x68 (ox + dx - 8) (oy + dy - 6) n 1 14)"
      using f(1,4,5) by (simp add: put_slice_def slice_iff ab)
    then show ?thesis using sent_member[OF we[OF w(1)]] not_sent by blast
  next
    assume e: "dx = 1" "a = 9"
    then have "(cx, cy, cz) \<in> send_squares (put_slice 0x66 (ox + dx + 9) (oy + dy - 6) n 1 14)"
      using f(1,4,5) by (simp add: put_slice_def slice_iff ab)
    then show ?thesis using sent_member[OF ea[OF e(1)]] not_sent by blast
  next
    assume o: "- 8 \<le> a" "a \<le> 9" "- 6 \<le> b" "b \<le> 7"
    show ?thesis
    proof (cases "floor_seen (n + 1) cz")
      case True
      then show ?thesis using o by (simp add: in_sight_def slice_iff nx d(2,3)[symmetric] ab)
    next
      case False
      have "n + 1 < 16" using z(2) nx by simp
      then have fl: "n = 7 \<and> 0 \<le> cz \<and> cz \<le> 5 \<or> n > 7 \<and> cz = n - 2"
        using False f(1) by (auto simp: floor_seen_def map_floors_iff split: if_splits)
      define fs :: "floor_area list" where "fs = (if n = 7 then List.map (\<lambda>(f, off). (ox - 8, oy - 6, f, 18, 14, off)) [(5, 3), (4, 4), (3, 5), (2, 6), (1, 7), (0, 8)]
          else if n > 7 then [(ox - 8, oy - 6, n + 1 - 3, 18, 14, 3)] else [])"
      have m: "MapDescription 0xBE fs \<in> set (send_own_move newPos oldPos oldStackpos teleport)"
        by (simp add: msgs fs_def)
      have cz: "cz = 0 \<or> cz = 1 \<or> cz = 2 \<or> cz = 3 \<or> cz = 4 \<or> cz = 5" if "0 \<le> cz" "cz \<le> 5" using that by linarith
      have "(cx, cy, cz) \<in> squares_of fs"
        using fl
      proof (elim disjE conjE)
        assume n: "n = 7" and c: "0 \<le> cz" "cz \<le> 5"
        show ?thesis
          using cz[OF c] o unfolding ab n by (elim disjE) (simp_all add: fs_def n squares_of_simps floor_squares_iff)
      next
        assume n: "n > 7" "cz = n - 2"
        then show ?thesis using o unfolding ab by (simp add: fs_def squares_of_simps floor_squares_iff)
      qed
      then show ?thesis using sent_member[OF m] not_sent by simp
    qed
  qed
qed

lemma own_move_down:
  assumes z: "uint (pz newPos) = uint (pz oldPos) + 1" "uint (pz newPos) < 16" and st: "\<not> (teleport \<or> oldStackpos \<ge> 10)"
    and x: "\<bar>uint (px newPos) - uint (px oldPos)\<bar> \<le> 1" and y: "\<bar>uint (py newPos) - uint (py oldPos)\<bar> \<le> 1"
  shows "in_sight newPos \<subseteq> in_sight oldPos \<union> sent_squares (send_own_move newPos oldPos oldStackpos teleport)"
proof clarify
  fix cx cy cz
  assume new: "(cx, cy, cz) \<in> in_sight newPos"
    and not_sent: "(cx, cy, cz) \<notin> sent_squares (send_own_move newPos oldPos oldStackpos teleport)"
  define n ox oy dx dy where d: "n = uint (pz newPos)" "ox = uint (px oldPos)" "oy = uint (py oldPos)"
    "dx = uint (px newPos) - ox" "dy = uint (py newPos) - oy"
  have nx: "uint (px newPos) = ox + dx" "uint (py newPos) = oy + dy" "uint (pz oldPos) = n - 1" using z(1) by (simp_all add: d)
  define a b where ab: "a = cx - ox - (n - 1 - cz)" "b = cy - oy - (n - 1 - cz)"
  have up: "pz newPos > pz oldPos" using z by (simp_all add: word_less_def)
  note msgs = send_own_move_def MoveDownCreature_def Let_def up d(1-3)[symmetric] nx if_not_P[OF st]
  have s1: "put_slice 0x66 (ox + 9) (oy - 1 - 6) n 1 14 \<in> set (send_own_move newPos oldPos oldStackpos teleport)"
    and s2: "put_slice 0x67 (ox - 8) (oy + 7) n 18 1 \<in> set (send_own_move newPos oldPos oldStackpos teleport)"
    by (simp_all add: msgs)
  have sy: "dy = 1 \<Longrightarrow> put_slice 0x67 (ox - 8) (oy + dy + 7) n 18 1 \<in> set (send_own_move newPos oldPos oldStackpos teleport)"
    and we: "dx = - 1 \<Longrightarrow> put_slice 0x68 (ox + dx - 8) (oy + dy - 6) n 1 14 \<in> set (send_own_move newPos oldPos oldStackpos teleport)"
    and ea: "dx = 1 \<Longrightarrow> put_slice 0x66 (ox + dx + 9) (oy + dy - 6) n 1 14 \<in> set (send_own_move newPos oldPos oldStackpos teleport)"
    by (simp_all add: msgs word_less_def)
  have f: "floor_seen n cz" "dx - 7 \<le> a" "a \<le> dx + 10" "dy - 5 \<le> b" "b \<le> dy + 8"
    using new unfolding in_sight_def slice_iff by (simp_all add: ab nx d(1)[symmetric])
  show "(cx, cy, cz) \<in> in_sight oldPos"
  proof (rule down_pieces[OF _ _ f(2-5)])
    show "\<bar>dx\<bar> \<le> 1" "\<bar>dy\<bar> \<le> 1" using x y by (simp_all add: d)
  next
    assume "a = 10" "- 6 \<le> b" "b \<le> 7"
    then have "(cx, cy, cz) \<in> send_squares (put_slice 0x66 (ox + 9) (oy - 1 - 6) n 1 14)"
      using f(1) by (simp add: put_slice_def slice_iff ab)
    then show ?thesis using sent_member[OF s1] not_sent by blast
  next
    assume "b = 8" "- 7 \<le> a" "a \<le> 10"
    then have "(cx, cy, cz) \<in> send_squares (put_slice 0x67 (ox - 8) (oy + 7) n 18 1)"
      using f(1) by (simp add: put_slice_def slice_iff ab)
    then show ?thesis using sent_member[OF s2] not_sent by blast
  next
    assume y: "dy = 1" "b = 9" "- 7 \<le> a" "a \<le> 10"
    then have "(cx, cy, cz) \<in> send_squares (put_slice 0x67 (ox - 8) (oy + dy + 7) n 18 1)"
      using f(1) by (simp add: put_slice_def slice_iff ab)
    then show ?thesis using sent_member[OF sy[OF y(1)]] not_sent by blast
  next
    assume w: "dx = - 1" "a = - 8"
    then have "(cx, cy, cz) \<in> send_squares (put_slice 0x68 (ox + dx - 8) (oy + dy - 6) n 1 14)"
      using f(1,4,5) by (simp add: put_slice_def slice_iff ab)
    then show ?thesis using sent_member[OF we[OF w(1)]] not_sent by blast
  next
    assume e: "dx = 1" "a = 11"
    then have "(cx, cy, cz) \<in> send_squares (put_slice 0x66 (ox + dx + 9) (oy + dy - 6) n 1 14)"
      using f(1,4,5) by (simp add: put_slice_def slice_iff ab)
    then show ?thesis using sent_member[OF ea[OF e(1)]] not_sent by blast
  next
    assume o: "- 8 \<le> a" "a \<le> 9" "- 6 \<le> b" "b \<le> 7"
    show ?thesis
    proof (cases "floor_seen (n - 1) cz")
      case True
      then show ?thesis using o by (simp add: in_sight_def slice_iff nx d(2,3)[symmetric] ab)
    next
      case False
      have "n < 16" using z(2) by (simp add: d)
      then have fl: "n = 8 \<and> 8 \<le> cz \<and> cz \<le> 10 \<or> n > 8 \<and> n < 14 \<and> cz = n + 2"
        using False f(1) by (auto simp: floor_seen_def map_floors_iff split: if_splits)
      define fs :: "floor_area list" where "fs = (if n = 8 then List.map (\<lambda>(f, off). (ox - 8, oy - 6, f, 18, 14, off)) [(n, - 1), (n + 1, - 2), (n + 2, - 3)]
          else if n > n - 1 \<and> n > 8 \<and> n < 14 then [(ox - 8, oy - 6, n + 2, 18, 14, - 3)] else [])"
      have m: "MapDescription 0xBF fs \<in> set (send_own_move newPos oldPos oldStackpos teleport)"
        by (simp add: msgs fs_def)
      have cz: "cz = 8 \<or> cz = 9 \<or> cz = 10" if "8 \<le> cz" "cz \<le> 10" using that by linarith
      have "(cx, cy, cz) \<in> squares_of fs"
        using fl
      proof (elim disjE conjE)
        assume n: "n = 8" and c: "8 \<le> cz" "cz \<le> 10"
        show ?thesis
          using cz[OF c] o unfolding ab n by (elim disjE) (simp_all add: fs_def n squares_of_simps floor_squares_iff)
      next
        assume n: "n > 8" "n < 14" "cz = n + 2"
        then show ?thesis using o unfolding ab by (simp add: fs_def squares_of_simps floor_squares_iff)
      qed
      then show ?thesis using sent_member[OF m] not_sent by simp
    qed
  qed
qed


text \<open>What comes into sight with a step of at most one square in each direction, floors included, is described.\<close>

lemma own_move_covers_sight:
  assumes "uint (pz oldPos) < 16" "uint (pz newPos) < 16"
    and "teleport \<or> oldStackpos \<ge> 10 \<or> \<bar>uint (px newPos) - uint (px oldPos)\<bar> \<le> 1
      \<and> \<bar>uint (py newPos) - uint (py oldPos)\<bar> \<le> 1 \<and> \<bar>uint (pz newPos) - uint (pz oldPos)\<bar> \<le> 1"
  shows "in_sight newPos \<subseteq> (if teleport \<or> oldStackpos \<ge> 10 then {} else in_sight oldPos)
    \<union> sent_squares (send_own_move newPos oldPos oldStackpos teleport)"
proof (cases "teleport \<or> oldStackpos \<ge> 10")
  case True
  then show ?thesis by (simp add: send_own_move_def AddMapDescription_def put_slice_def in_sight_def)
next
  case False
  note n = assms(3)
  have "uint (pz newPos) = uint (pz oldPos) \<or> uint (pz newPos) = uint (pz oldPos) - 1 \<or> uint (pz newPos) = uint (pz oldPos) + 1"
    using n False by linarith
  then show ?thesis
  proof (elim disjE)
    assume "uint (pz newPos) = uint (pz oldPos)"
    then have "pz newPos = pz oldPos" by (rule unsigned_word_eqI)
    then show ?thesis using own_move_same_floor[OF _ assms(2) False] n False by simp
  qed (use own_move_up[OF _ assms(1) False] own_move_down[OF _ assms(2) False] n False in simp_all)
qed

text \<open>
  The player's own moves, with the squares that he has had described and kept in sight since. A step that
  is no teleport goes to a square next to his, or above or below such a square.
\<close>

type_synonym own_step = "position \<times> u32 \<times> bool"

definition a_step :: "position \<Rightarrow> own_step \<Rightarrow> bool" where
  "a_step p e = (case e of (q, oldStackpos, teleport) \<Rightarrow> uint (pz q) < 16
     \<and> (teleport \<or> oldStackpos \<ge> 10 \<or> \<bar>uint (px q) - uint (px p)\<bar> \<le> 1
        \<and> \<bar>uint (py q) - uint (py p)\<bar> \<le> 1 \<and> \<bar>uint (pz q) - uint (pz p)\<bar> \<le> 1))"

definition own_move :: "own_step \<Rightarrow> position \<times> square set \<Rightarrow> position \<times> square set" where
  "own_move e st = (case e of (q, oldStackpos, teleport) \<Rightarrow> case st of (p, seen) \<Rightarrow>
     if a_step p e
     then (q, (if teleport \<or> oldStackpos \<ge> 10 then {} else seen \<inter> in_sight q)
              \<union> sent_squares (send_own_move q p oldStackpos teleport))
     else st)"

definition sight_ok :: "position \<times> square set \<Rightarrow> bool" where
  "sight_ok st \<longleftrightarrow> uint (pz (fst st)) < 16 \<and> in_sight (fst st) \<subseteq> snd st"

lemma own_move_ok: "sight_ok st \<Longrightarrow> sight_ok (own_move e st)"
proof -
  assume ok: "sight_ok st"
  obtain p seen where st: "st = (p, seen)" by (cases st)
  obtain q n tel where e: "e = (q, n, tel)" by (cases e)
  show ?thesis
  proof (cases "a_step p e")
    case True
    then have "own_move e st = (q, (if tel \<or> n \<ge> 10 then {} else seen \<inter> in_sight q) \<union> sent_squares (send_own_move q p n tel))"
      by (simp add: own_move_def st e)
    moreover have "in_sight q \<subseteq> (if tel \<or> n \<ge> 10 then {} else in_sight p) \<union> sent_squares (send_own_move q p n tel)"
      using ok True by (intro own_move_covers_sight) (auto simp: st e sight_ok_def a_step_def)
    moreover have "in_sight p \<subseteq> seen" "uint (pz q) < 16" using ok True by (simp_all add: sight_ok_def st e a_step_def)
    ultimately show ?thesis by (cases "tel \<or> n \<ge> 10") (simp_all only: sight_ok_def fst_conv snd_conv if_True if_False, blast+)
  qed (use ok in \<open>simp add: own_move_def e st\<close>)
qed

interpretation own_moves: guarded_machine own_move sight_ok
  by unfold_locales (rule own_move_ok)

text \<open>
  C17. From the moment a player appears, through any run of steps, floor changes and teleports, every square
  that the test for what he sees accepts has been described to his client, and since then it has not left
  his sight.\<close>

theorem sight_always_described:
  assumes "uint (pz p) < 16" "fold own_move es (p, sent_squares [AddMapDescription p]) = (q, seen)"
    and "canSee q s" "uint (pz s) < 16"
  shows "square_of s \<in> seen"
proof -
  have "sight_ok (p, sent_squares [AddMapDescription p])"
    using assms(1) by (simp add: sight_ok_def AddMapDescription_def put_slice_def in_sight_def)
  from own_moves.run_inv[OF this, of es] have "in_sight q \<subseteq> seen" using assms(2) by (simp add: sight_ok_def)
  then show ?thesis using sight_is_described[of s q] assms(3,4) by blast
qed

theorem sight_always_described_witness:
  "square_of (Position 110 100 7)
     \<in> snd (fold own_move [(Position 101 100 7, 1, False)] (Position 100 100 7, sent_squares [AddMapDescription (Position 100 100 7)]))"
proof -
  have c: "canSee (Position 101 100 7) (Position 110 100 7)" by (simp add: canSee_def)
  have f: "fold own_move [(Position 101 100 7, 1, False)] (Position 100 100 7, sent_squares [AddMapDescription (Position 100 100 7)])
      = (Position 101 100 7, snd (fold own_move [(Position 101 100 7, 1, False)]
          (Position 100 100 7, sent_squares [AddMapDescription (Position 100 100 7)])))"
    by (simp add: own_move_def a_step_def)
  show ?thesis by (rule sight_always_described[OF _ f c]) simp_all
qed

section \<open>Places in the description\<close>

lemma described_take: "described sees t = take 10 ((case ground t of None \<Rightarrow> [] | Some g \<Rightarrow> [Item g]) @ List.map Item (topItems t)
    @ List.map Creature (filter sees (rev (creatures t))) @ List.map Item (downItems t))"
proof -
  have m: "(n::nat) - min a n = n - a" "n - (min a n + min b (n - a)) = n - (a + b)" for a b n by linarith+
  show ?thesis by (cases "ground t") (simp_all add: described_def Let_def take_map m)
qed

lemma client_seek_eq: "client_seek sees n cs (Creature c) =
    (if c \<in> set cs then Inl (n + 1 + int (length (filter sees (takeWhile (\<lambda>d. d \<noteq> c) cs)))) else Inr (n + int (length (filter sees cs))))"
  by (induction cs arbitrary: n) auto

lemma client_seek_item: "client_seek sees n cs (Item i) = Inr (n + int (length (filter sees cs)))"
  by (induction cs arbitrary: n) auto

lemma index_of_filter: "sees c \<Longrightarrow> c \<in> set cs \<Longrightarrow>
    index_of c (filter sees cs) = Some (length (filter sees (takeWhile (\<lambda>d. d \<noteq> c) cs)))"
  by (induction cs) auto

definition client_things :: "(nat \<Rightarrow> bool) \<Rightarrow> tile \<Rightarrow> thing list" where
  "client_things sees t = (case ground t of None \<Rightarrow> [] | Some g \<Rightarrow> [Item g]) @ List.map Item (topItems t)
     @ List.map Creature (filter sees (rev (creatures t))) @ List.map Item (downItems t)"

lemma client_index:
  assumes "\<forall>c. th = Creature c \<longrightarrow> sees c"
  shows "getClientIndexOfThing sees t th = (case index_of th (client_things sees t) of None \<Rightarrow> - 1 | Some k \<Rightarrow> int k)"
proof (cases th)
  case (Item i)
  then show ?thesis
    by (cases "ground t") (auto simp: getClientIndexOfThing_def client_things_def Let_def seek_def index_of_append client_seek_item
      algebra_simps simp del: index_of_None split: option.split)
next
  case (Creature c)
  then have s: "sees c" using assms by simp
  then show ?thesis
  proof (cases "c \<in> set (creatures t)")
    case True
    then have "index_of c (filter sees (rev (creatures t))) = Some (length (filter sees (takeWhile (\<lambda>d. d \<noteq> c) (rev (creatures t)))))"
      using index_of_filter[of sees c "rev (creatures t)"] s by simp
    then show ?thesis using True Creature
      by (cases "ground t") (simp_all add: getClientIndexOfThing_def client_things_def Let_def index_of_append client_seek_eq)
  next
    case False
    then show ?thesis using Creature
      by (cases "ground t") (auto simp: getClientIndexOfThing_def client_things_def Let_def index_of_append client_seek_eq
        split: option.split)
  qed
qed

lemma distinct_client_things:
  assumes "distinct (things t)"
  shows "distinct (client_things sees t)"
  using assms by (auto simp: things_def client_things_def distinct_map inj_on_def split: option.splits)

text \<open>
  C19. The index a client is told for a thing of a tile, whatever has happened to the tile, is the place of
  the thing in the description of the tile, for the ten things described; creatures that the player does not
  see are not asked for.\<close>

theorem described_at_index:
  assumes "table_ok T" "tile_run T storeTrash self dyn s es = (t, s')" "\<forall>c. th = Creature c \<longrightarrow> sees c"
  shows "k < length (described sees t) \<and> described sees t ! k = th \<longleftrightarrow> k < 10 \<and> getClientIndexOfThing sees t th = int k"
proof -
  have ok: "tile_ok T self (t, s')" using tile_run_ok[OF assms(1), of self storeTrash dyn s es] assms(2) by simp
  note l = layers_okD[OF tile_okD(1)[OF ok]]
  have d: "distinct (client_things sees t)" by (rule distinct_client_things[OF distinct_things[OF l(4,5)]])
  show ?thesis
    unfolding client_index[of th sees t, OF assms(3)] described_take client_things_def[symmetric]
    using index_of_nth[OF d, of th k] by (auto simp del: index_of_None split: option.split)
qed

theorem described_at_index_witness:
  "described (\<lambda>c. True) (fst (tile_run demo_types False 9 True demo_items demo_ops)) ! 3 = Creature 7
   \<and> getClientIndexOfThing (\<lambda>c. True) (fst (tile_run demo_types False 9 True demo_items demo_ops)) (Creature 7) = int 3"
proof -
  let ?t = "fst (tile_run demo_types False 9 True demo_items demo_ops)"
  have d: "described (\<lambda>c. True) ?t = [Item 0, Item 3, Item 1, Creature 7, Item 2]"
    by (simp add: described_def run_tile_simps)
  have "3 < length (described (\<lambda>c. True) ?t) \<and> described (\<lambda>c. True) ?t ! 3 = Creature 7" unfolding d by simp
  moreover from this have "getClientIndexOfThing (\<lambda>c. True) ?t (Creature 7) = int 3"
    unfolding described_at_index[OF demo_table_ok demo_run, of "Creature 7" "\<lambda>c. True", simplified] by blast
  ultimately show ?thesis by blast
qed

section \<open>Known creatures\<close>

lemma rotate_known_found:
  assumes "rotate_known gone n r kn = (removed, kn')" "kn \<noteq> []"
  shows "\<exists>k\<le>n. kn' = rotate k kn \<and> (\<forall>i<k. \<not> gone (hd (rotate i kn))) \<and> (k < n \<longrightarrow> gone (hd kn') \<and> removed = hd kn')
     \<and> (k = n \<longrightarrow> removed = (if n = 0 then r else hd (rotate (n - 1) kn)))"
  using assms
proof (induction n arbitrary: r kn)
  case (Suc n)
  show ?case
  proof (cases "gone (hd kn)")
    case True
    then show ?thesis using Suc.prems by (intro exI[of _ 0]) auto
  next
    case False
    have r1: "tl kn @ [hd kn] = rotate1 kn" using Suc.prems(2) by (cases kn) simp_all
    have "rotate_known gone n (hd kn) (rotate1 kn) = (removed, kn')" using Suc.prems(1) False r1 by simp
    from Suc.IH[OF this] Suc.prems(2) obtain k where k: "k \<le> n" "kn' = rotate k (rotate1 kn)"
      "\<forall>i<k. \<not> gone (hd (rotate i (rotate1 kn)))" "k < n \<longrightarrow> gone (hd kn') \<and> removed = hd kn'"
      "k = n \<longrightarrow> removed = (if n = 0 then hd kn else hd (rotate (n - 1) (rotate1 kn)))" by auto
    have sw: "rotate i (rotate1 kn) = rotate (Suc i) kn" for i by (simp add: rotate1_rotate_swap)
    have "\<not> gone (hd (rotate i kn))" if "i < Suc k" for i
      using k(3) False sw that by (cases i) auto
    moreover have "k = n \<longrightarrow> removed = hd (rotate n kn)" using k(5) sw[of "n - 1"] by (cases n) auto
    ultimately show ?thesis using k sw by (intro exI[of _ "Suc k"]) auto
  qed
qed auto

lemma rotate_all:
  assumes "kn = ks @ [c]" "length ks = n" "n > 0" "rotate_known gone n 0 kn = (removed, kn')"
  shows "(\<exists>i<n. gone (ks ! i) \<and> removed = ks ! i \<and> hd kn' = ks ! i \<and> (\<exists>k. kn' = rotate k kn))
    \<or> (\<forall>d\<in>set ks. \<not> gone d) \<and> removed = last ks \<and> hd kn' = c \<and> (\<exists>k. kn' = rotate k kn)"
proof -
  have nth: "hd (rotate i kn) = kn ! i" if "i \<le> n" for i using hd_rotate_conv_nth[of kn i] assms that by simp
  have ks: "kn ! i = ks ! i" if "i < n" for i using that assms by (simp add: nth_append)
  have "kn \<noteq> []" using assms(1) by simp
  from rotate_known_found[OF assms(4) this] obtain k where k: "k \<le> n" "kn' = rotate k kn"
    "\<forall>i<k. \<not> gone (hd (rotate i kn))" "k < n \<longrightarrow> gone (hd kn') \<and> removed = hd kn'"
    "k = n \<longrightarrow> removed = (if n = 0 then 0 else hd (rotate (n - 1) kn))" by auto
  show ?thesis
  proof (cases "k < n")
    case True
    then have "hd kn' = ks ! k" using k(2) nth[of k] ks[of k] by simp
    then show ?thesis using k(2,4) True by auto
  next
    case False
    then have n: "k = n" using k(1) by simp
    have "\<not> gone d" if d: "d \<in> set ks" for d
    proof -
      obtain i where "i < length ks" "ks ! i = d" using d unfolding in_set_conv_nth by blast
      then have i: "i < n" "ks ! i = d" using assms(2) by simp_all
      then show ?thesis using k(3) n nth[of i] ks[of i] by auto
    qed
    moreover have "hd kn' = c" using k(2) n nth[of n] assms by (simp add: nth_append)
    moreover have "removed = last ks"
      using last_conv_nth[of ks] k(5) n assms nth[of "n - 1"] ks[of "n - 1"] by fastforce
    ultimately show ?thesis using k(2) by blast
  qed
qed

lemma set_tl_rotate: "distinct kn \<Longrightarrow> kn \<noteq> [] \<Longrightarrow> kn' = rotate k kn \<Longrightarrow> distinct (tl kn') \<and> set (tl kn') = set kn - {hd kn'}"
  by (cases kn') (metis distinct_rotate rotate_is_Nil_conv, metis Diff_insert_absorb distinct.simps(2) distinct_rotate list.sel(1,3) list.set(2) set_rotate)

text \<open>
  C40. Known creatures: the client forgets the creature it is told to forget and adds the new one. The
  server's list agrees with what the client then knows exactly when the creature was known, the list has room,
  or one of the 250 creatures in it is gone or out of sight. If all of them are in sight the server forgets
  the new creature, and the client one that stays in the list.\<close>

theorem known_in_step:
  assumes "distinct kn" "length kn \<le> 250" "0 \<notin> set kn" "checkCreatureAsKnown gone c kn = ((known, removed), kn')"
  shows "distinct kn' \<and> length kn' \<le> 250 \<and> known = (c \<in> set kn)
    \<and> (set kn' = (if known then set kn else insert c (set kn - {removed}))
        \<longleftrightarrow> c \<in> set kn \<or> length kn < 250 \<or> (\<exists>d\<in>set kn. gone d))"
proof (cases "c \<in> set kn")
  case True
  then have "known" "kn' = remove1 c kn @ [c]" using assms(4) by (simp_all add: checkCreatureAsKnown_def)
  then show ?thesis using True assms(1,2) by (auto simp: length_remove1)
next
  case c: False
  show ?thesis
  proof (cases "length kn < 250")
    case True
    then show ?thesis using c assms by (auto simp: checkCreatureAsKnown_def)
  next
    case False
    then have len: "length kn = 250" using assms(2) by simp
    obtain r kn1 where r: "rotate_known gone 250 0 (kn @ [c]) = (r, kn1)" by fastforce
    have res: "known = False" "removed = r" "kn' = tl kn1" using assms(4) c len r by (simp_all add: checkCreatureAsKnown_def Let_def)
    have "\<exists>k. kn1 = rotate k (kn @ [c])" using rotate_all[OF refl len _ r] by auto
    then obtain k where k: "kn1 = rotate k (kn @ [c])" by blast
    have t: "distinct (tl kn1)" "set (tl kn1) = set (kn @ [c]) - {hd kn1}"
      using set_tl_rotate[of "kn @ [c]" kn1 k] k assms(1) c by simp_all
    have l: "length (tl kn1) \<le> 250" using k len by simp
    from rotate_all[OF refl len _ r] have "(\<exists>d\<in>set kn. gone d \<and> r = d \<and> hd kn1 = d) \<or> (\<forall>d\<in>set kn. \<not> gone d) \<and> r = last kn \<and> hd kn1 = c"
      using len by fastforce
    then show ?thesis
    proof
      assume "\<exists>d\<in>set kn. gone d \<and> r = d \<and> hd kn1 = d"
      then show ?thesis using t l res c len by auto
    next
      assume n: "(\<forall>d\<in>set kn. \<not> gone d) \<and> r = last kn \<and> hd kn1 = c"
      have "c \<notin> set kn'" using t n res by simp
      then have "set kn' \<noteq> insert c (set kn - {removed})" by blast
      then show ?thesis using t l res c len n by simp
    qed
  qed
qed

theorem known_in_step_witness:
  "\<exists>removed kn'. checkCreatureAsKnown (\<lambda>d. False) 251 [1..<251] = ((False, removed), kn')
     \<and> set kn' \<noteq> insert 251 (set [1..<251] - {removed})"
proof -
  define ks where "ks = [1..<251::nat]"
  have ks: "distinct ks" "length ks \<le> 250" "0 \<notin> set ks" "251 \<notin> set ks" "\<not> length ks < 250"
    unfolding ks_def set_upt length_upt by (rule distinct_upt) simp_all
  obtain known removed kn' where k: "checkCreatureAsKnown (\<lambda>d. False) 251 ks = ((known, removed), kn')"
    by (metis surj_pair)
  note step = known_in_step[OF ks(1-3) k]
  have u: "\<not> known" using step ks(4) by blast
  have "set kn' \<noteq> insert 251 (set ks - {removed})"
    using step u ks(4,5) by simp
  then show ?thesis using k u unfolding ks_def[symmetric] by (intro exI[of _ removed] exI[of _ kn']) simp
qed

end
