(* ===== verification/Spec2Isabelle.thy ===== *)
theory Spec2Isabelle
  imports Positions Tools NetMessages ProtocolCrypt Connections PropStreams FileLoader ItemAttributes WaitList Tasks Parties Containers ItemMoves Trading CombatAreas MapTree SightLines PathFinding Walking ClientMap
begin

text \<open>
  A verification library of the server in \<^verbatim>\<open>src/src\<close>, a game server in C++. A client's bytes
  arrive on a connection, are checked and decrypted into a message, and the protocol posts a task
  to the dispatcher; everything the game does runs as such a task, one after the other, and what
  waits for a time sits in the scheduler. The game keeps things (items, creatures) in cylinders
  (containers, tiles, players); its rules of parties, trades and spell areas work on them. Items
  and maps are read from node files and property streams.

  \<^bold>\<open>Theories and files.\<close>
  \<^item> \<open>Prelude\<close>: machine integers, little-endian bytes, decimal output, \<open>std::map\<close> as a list in key
    order (\<open>omap\<close>), and the interfaces \<open>prefix_codec\<close> (a decoder of what an encoder put in front),
    \<open>guarded_machine\<close> (steps that keep an invariant) and \<open>keyed_store\<close> (a map by its look-ups).
  \<^item> \<open>Positions\<close>: \<^verbatim>\<open>position.h\<close>, \<^verbatim>\<open>position.cpp\<close>, the directions of \<^verbatim>\<open>tools.cpp\<close>.
  \<^item> \<open>Tools\<close>: text, number and name helpers of \<^verbatim>\<open>tools.cpp\<close>.
  \<^item> \<open>NetMessages\<close>: \<open>NetworkMessage\<close>; a buffer is a byte list, a touch outside of it \<^const>\<open>None\<close>.
  \<^item> \<open>ProtocolCrypt\<close>: headers, checksum and XTEA of \<^verbatim>\<open>protocol.cpp\<close> and \<^verbatim>\<open>outputmessage.h\<close>; an
    interface \<open>block_cipher\<close> carries what holds of any cipher on pairs of words.
  \<^item> \<open>Connections\<close>: \<^verbatim>\<open>connection.h\<close>, \<^verbatim>\<open>connection.cpp\<close>. The state of a connection, its pending
    operations and posted tasks are a record. The service that sets it going, each completion of an
    operation, a request to close, a task that runs, a reference taken or given back and the end of
    the socket are steps; the manager is its table of addresses. \<open>secure_channel_roundtrip\<close> composes it with the two theories before.
  \<^item> \<open>PropStreams\<close>, \<open>FileLoader\<close>: \<^verbatim>\<open>fileloader.h\<close>, \<^verbatim>\<open>fileloader.cpp\<close>. The loader with its block
    cache is refined to a parser over the bytes of the file.
  \<^item> \<open>ItemAttributes\<close>: \<^verbatim>\<open>itemattributes.h\<close>, \<^verbatim>\<open>itemattributes.cpp\<close>.
  \<^item> \<open>Tasks\<close>: \<^verbatim>\<open>dispatcher.h\<close>, \<^verbatim>\<open>dispatcher.cpp\<close>, \<^verbatim>\<open>scheduler.h\<close>, \<^verbatim>\<open>scheduler.cpp\<close>.
  \<^item> \<open>WaitList\<close>: \<^verbatim>\<open>waitlist.h\<close>, \<^verbatim>\<open>waitlist.cpp\<close>.
  \<^item> \<open>Containers\<close>: \<^verbatim>\<open>container.h\<close>, \<^verbatim>\<open>container.cpp\<close>, \<^verbatim>\<open>depot.cpp\<close>, the parents of \<^verbatim>\<open>thing.cpp\<close>.
    Items are a store by address with parent pointers and item lists.
  \<^item> \<open>ItemMoves\<close>: \<open>internalMoveItem\<close>, \<open>internalAddItem\<close>, \<open>internalRemoveItem\<close> of \<^verbatim>\<open>game.cpp\<close> between
    containers, where stacks are split and joined.
  \<^item> \<open>Trading\<close>: the trade requests of \<^verbatim>\<open>game.cpp\<close> and the calls of \<^verbatim>\<open>player.cpp\<close> that end a trade, on
    the items of \<open>Containers\<close>.
  \<^item> \<open>Parties\<close>: \<^verbatim>\<open>party.h\<close>, \<^verbatim>\<open>party.cpp\<close> and the party operations of \<^verbatim>\<open>player.cpp\<close> and \<^verbatim>\<open>game.cpp\<close>.
    Players and parties are stores that point at each other; reading a deleted party is \<^const>\<open>None\<close>.
  \<^item> \<open>CombatAreas\<close>: the area matrices of \<^verbatim>\<open>combat.h\<close>, \<^verbatim>\<open>combat.cpp\<close>.
  \<^item> \<open>MapTree\<close>: the tree of leaves of \<^verbatim>\<open>map.h\<close>, \<^verbatim>\<open>map.cpp\<close>, its tiles, the creatures on it and the
    cached search for spectators; \<open>SightLines\<close>: \<open>checkSightLine\<close>, \<open>isSightClear\<close>, \<open>canThrowObjectTo\<close>;
    \<open>PathFinding\<close>: \<open>AStarNodes\<close>, \<open>getPathTo\<close>, \<open>getPathMatching\<close> and the condition on the goal of a
    path of \<^verbatim>\<open>creature.cpp\<close>. An interface \<open>path_search\<close> carries what both searches share.
  \<^item> \<open>Tiles\<close>: the things of a tile and its flags, \<^verbatim>\<open>tile.h\<close>, \<^verbatim>\<open>tile.cpp\<close>, with the item types of
    \<^verbatim>\<open>items.h\<close> that tiles look at; \<open>TileQueries\<close>: what a tile answers, who may enter it and where it
    leads; \<open>Walking\<close>: \<open>internalMoveCreature\<close> of \<^verbatim>\<open>game.cpp\<close> over \<open>Tile::moveCreature\<close> and the
    teleports of \<^verbatim>\<open>teleport.cpp\<close>; \<open>ClientMap\<close>: how \<^verbatim>\<open>protocolgame.cpp\<close> describes the map to a client.

  \<^bold>\<open>What the lemmas show.\<close> Round trips: what is written to a stream, a message, a node file or an
  attribute map, or encrypted and sent, is read back. Bounds: writes stay in the message buffer
  and in the matrices; where a read or write can leave its buffer (padding and raw bytes of 2 GB, whose
  amount turns negative) there is a theorem saying when.
  Invariants over all sequences of requests: the life of a connection, the waiting list, parties
  (no use of a deleted party), trades (two-sided, each item once, balanced references), containers
  (the sums of weights are the weights inside; moves never add a piece, and lose one only where
  \<open>FLAG_NOLIMIT\<close> lifts the limits of the destination, as emptying a house does), the links of the map's leaves
  and the cache of spectators, the layers, counts and flags of tiles, the squares described to a client. Conditions, in both directions: when a trade is
  carried out (it tests first, then ignores what the two moves answer), whether experience is shared
  after each operation that looks at it again, whether players are told the right index of a creature
  that moves, when teleports lead on without end. Refinement and equivalence: the cached loader, the attribute map, the
  container iterator, the tree of tiles as a map, spectators as the creatures in
  range, a ray as the rounded straight line. Safety: a path that is found can be walked and ends where
  it should; a creature that steps is on one tile, and not in a wall. Liveness and termination: a connection asked
  to close is closed and deleted once its write has ended, the waiting tasks have run and its
  references are gone, whatever happened before and happens in between; the scheduler, opening a file, loops over
  parents, the searches for paths (by the number of nodes, the sum of their costs and the number of
  open ones).

  \<^bold>\<open>Bounds and fuel.\<close> The recursive parser has a fuel of one more than the length of the file, which
  is shown to be enough for every file. Other loops without a structural measure are partial
  functions with \<^const>\<open>None\<close> for not ending, and are shown to end on every state that can be reached,
  or, for the text loops, for non-empty keys. Lengths in round trips are limited to what the format
  can count (16,000 bytes of a message, 32,767 of a string in a property stream, matrices of up to
  30,000 rows and columns).

  \<^bold>\<open>Parameters.\<close> Sockets (boost::asio), Adler-32 (Crypto++), deflate (zlib), the clock, random
  numbers, the configuration and the answers of scripts are arguments, in \<open>Trading\<close> and
  \<open>CombatAreas\<close> also the line of sight and the path; what stops a projectile or a creature on a tile
  is an argument of \<open>SightLines\<close> and \<open>PathFinding\<close>, and a
  closure given to the dispatcher is a number.

  \<^bold>\<open>Not modelled.\<close> Floating-point formulas (experience shares, damage, vocations), except that weights
  are counted exactly and quarter turns are exact; the binding of the script language; SQL; RSA;
  the texts sent to clients; threads beyond the steps their locks make atomic; scripts that start when
  a thing arrives or leaves; the war system, which the build leaves out unless asked. Conditions, houses,
  chat, quests, spawns, the output message pool and the other packets of the game protocol are not modelled.
\<close>

end
